(* ===== verification/Prelude.thy ===== *)
theory Prelude
  imports Main "HOL-Library.Word"
begin

section \<open>Shared vocabulary of the development\<close>

text \<open>
  Types, Go conventions and generic lemmas that every component theory uses.

  \<^item> A Go \<open>[]byte\<close> is a list of 8-bit words (\<open>bytes\<close>); a Go \<open>string\<close> is an Isabelle
    \<open>string\<close>, whose characters are bytes as well. \<open>str_bytes\<close> and \<open>bytes_str\<close> are the
    two conversions.
  \<^item> A Go call that may panic returns \<open>'a go\<close>: \<open>Ret\<close> of its results, or \<open>Panic\<close> with the
    message. Results of type \<open>(T, error)\<close> are pairs with an optional error.
  \<^item> \<open>int64\<close> and \<open>int\<close> values that count bytes, segments or messages are \<open>int\<close>; where the
    code converts to a narrower type the conversion is written out (\<open>to_int32\<close>).
\<close>

named_theorems codec_simps \<open>encoders and decoders\<close>
named_theorems split_simps \<open>splitting a list at a separator\<close>

type_synonym byte = "8 word"
type_synonym bytes = "byte list"

datatype 'a go = Ret 'a | Panic string

fun is_panic :: "'a go \<Rightarrow> bool" where
  "is_panic (Ret _) = False"
| "is_panic (Panic _) = True"

fun go_bind :: "'a go \<Rightarrow> ('a \<Rightarrow> 'b go) \<Rightarrow> 'b go" where
  "go_bind (Ret x) f = f x"
| "go_bind (Panic m) f = Panic m"

lemma go_bind_Ret_iff: "go_bind m f = Ret y \<longleftrightarrow> (\<exists>x. m = Ret x \<and> f x = Ret y)"
  by (cases m) auto

lemma go_bind_Ret_right [simp]: "go_bind m Ret = m"
  by (cases m) auto

lemma go_bind_assoc: "go_bind (go_bind m f) g = go_bind m (\<lambda>x. go_bind (f x) g)"
  by (cases m) auto

subsection \<open>Narrowing conversions\<close>

text \<open>Go's \<open>int32(x)\<close> keeps the low 32 bits and reads them as two's complement.\<close>

definition to_int32 :: "int \<Rightarrow> int" where
  "to_int32 x = signed_take_bit 31 x"

definition to_int64 :: "int \<Rightarrow> int" where
  "to_int64 x = signed_take_bit 63 x"

definition fits_int64 :: "int \<Rightarrow> bool" where
  "fits_int64 x \<longleftrightarrow> - (2 ^ 63) \<le> x \<and> x < 2 ^ 63"

lemma to_int32_id: "- (2 ^ 31) \<le> x \<Longrightarrow> x < 2 ^ 31 \<Longrightarrow> to_int32 x = x"
  unfolding to_int32_def by (rule signed_take_bit_int_eq_self) auto

lemma to_int64_id: "fits_int64 x \<Longrightarrow> to_int64 x = x"
  unfolding to_int64_def fits_int64_def by (rule signed_take_bit_int_eq_self) auto

lemma to_int64_mod: "to_int64 (x mod 2 ^ 64) = to_int64 x"
proof -
  have "to_int64 (x mod 2 ^ 64) = signed_take_bit 63 (take_bit 64 x)"
    by (simp add: to_int64_def take_bit_eq_mod)
  also have "\<dots> = signed_take_bit 63 x"
    by (simp add: signed_take_bit_take_bit)
  finally show ?thesis by (simp add: to_int64_def)
qed

lemma to_int32_mod: "to_int32 (x mod 2 ^ 32) = to_int32 x"
proof -
  have "to_int32 (x mod 2 ^ 32) = signed_take_bit 31 (take_bit 32 x)"
    by (simp add: to_int32_def take_bit_eq_mod)
  also have "\<dots> = signed_take_bit 31 x"
    by (simp add: signed_take_bit_take_bit)
  finally show ?thesis by (simp add: to_int32_def)
qed

subsection \<open>Strings and byte slices\<close>

definition byte_of_char :: "char \<Rightarrow> byte" where
  "byte_of_char c = of_nat (of_char c)"

definition char_of_byte :: "byte \<Rightarrow> char" where
  "char_of_byte b = char_of (unat b)"

definition str_bytes :: "string \<Rightarrow> bytes" where
  "str_bytes s = map byte_of_char s"

definition bytes_str :: "bytes \<Rightarrow> string" where
  "bytes_str b = map char_of_byte b"

lemma unat_byte_of_char: "unat (byte_of_char c) = of_char c"
  by (simp add: byte_of_char_def unat_of_nat)

lemma char_of_byte_of_char [simp]: "char_of_byte (byte_of_char c) = c"
  by (simp add: char_of_byte_def unat_byte_of_char)

lemma unat_byte_less [simp]: "unat (b :: byte) < 256"
  using unsigned_less [where ?'a = nat, of b] by simp

lemma byte_of_char_of_byte [simp]: "byte_of_char (char_of_byte b) = b"
proof -
  have "unat (byte_of_char (char_of_byte b)) = unat b"
    by (simp add: unat_byte_of_char char_of_byte_def)
  then show ?thesis by (rule unsigned_word_eqI)
qed

lemma bytes_str_str_bytes [simp, codec_simps]: "bytes_str (str_bytes s) = s"
  by (induction s) (simp_all add: bytes_str_def str_bytes_def)

lemma str_bytes_bytes_str [simp, codec_simps]: "str_bytes (bytes_str b) = b"
  by (induction b) (simp_all add: bytes_str_def str_bytes_def)

lemma inj_str_bytes: "str_bytes s = str_bytes t \<longleftrightarrow> s = t"
  by (metis bytes_str_str_bytes)

lemma str_bytes_eq_Nil [simp]: "str_bytes s = [] \<longleftrightarrow> s = []"
  by (simp add: str_bytes_def)

lemma length_str_bytes [simp]: "length (str_bytes s) = length s"
  by (simp add: str_bytes_def)

lemma byte_in_str_bytes: "b \<in> set (str_bytes s) \<longleftrightarrow> char_of_byte b \<in> set s"
  unfolding str_bytes_def by (force simp: image_iff)

subsection \<open>Splitting at a one-element separator\<close>

text \<open>\<open>strings.Split(s, sep)\<close> for a one-character separator.\<close>

fun split_on :: "'a \<Rightarrow> 'a list \<Rightarrow> 'a list list" where
  "split_on c [] = [[]]"
| "split_on c (x # xs) =
     (if x = c then [] # split_on c xs
      else (case split_on c xs of [] \<Rightarrow> [[x]] | (y # ys) \<Rightarrow> (x # y) # ys))"

lemma split_on_nonempty [simp]: "split_on c xs \<noteq> []"
  by (cases xs) (auto split: list.splits)

lemma split_on_single [split_simps]: "c \<notin> set xs \<Longrightarrow> split_on c xs = [xs]"
  by (induction xs) auto

lemma split_on_append [split_simps]:
  "c \<notin> set xs \<Longrightarrow> split_on c (xs @ c # ys) = xs # split_on c ys"
  by (induction xs) auto

lemma split_on_parts: "p \<in> set (split_on c xs) \<Longrightarrow> c \<notin> set p"
proof (induction xs arbitrary: p)
  case Nil
  then show ?case by simp
next
  case (Cons x xs)
  then show ?case by (auto split: if_splits list.splits)
qed

lemma length_takeWhile_mem: "c \<in> set xs \<Longrightarrow> length (takeWhile (\<lambda>x. x \<noteq> c) xs) < length xs"
  by (induction xs) auto

lemma append_sep_inj:
  "c \<notin> set xs \<Longrightarrow> c \<notin> set ys \<Longrightarrow> xs @ c # us = ys @ c # vs \<longleftrightarrow> xs = ys \<and> us = vs"
proof (induction xs arbitrary: ys)
  case Nil
  then show ?case by (cases ys) auto
next
  case (Cons x xs)
  then show ?case by (cases ys) auto
qed

lemma length_split_on: "length (split_on c xs) = Suc (count_list xs c)"
  by (induction xs) (auto split: list.splits)

subsection \<open>Substrings\<close>

text \<open>\<open>util.ContainStr\<close>: does the second string occur in the first?\<close>

fun ContainStr :: "string \<Rightarrow> string \<Rightarrow> bool" where
  "ContainStr [] sub \<longleftrightarrow> sub = []"
| "ContainStr (c # s) sub \<longleftrightarrow> take (length sub) (c # s) = sub \<or> ContainStr s sub"

lemma ContainStr_iff: "ContainStr s sub \<longleftrightarrow> (\<exists>xs ys. s = xs @ sub @ ys)"
proof (induction s)
  case (Cons c s)
  have "take (length sub) (c # s) = sub \<longleftrightarrow> (\<exists>ys. c # s = sub @ ys)"
    by (metis append_eq_conv_conj)
  moreover have "(\<exists>xs ys. c # s = xs @ sub @ ys) \<longleftrightarrow> (\<exists>ys. c # s = sub @ ys) \<or> (\<exists>xs ys. s = xs @ sub @ ys)"
    by (metis append_Cons append_Nil list.inject neq_Nil_conv)
  ultimately show ?case using Cons by simp
qed simp

end
