(* ===== verification/KvStore.thy ===== *)
theory KvStore
  imports Prelude
begin

section \<open>The key-value store interface\<close>

text \<open>
  \<open>core/kv/kv.go\<close>: the process-wide key-value store. The Go interface \<open>KVStore\<close> is the record
  \<open>KVHandler\<close> of its methods over the store's own state \<open>'s\<close>; \<open>Register\<close> installs a handler
  and every package-level function forwards to the handler installed last.

  The locale \<open>kv_store\<close> is the contract the callers rely on: what a read returns after a write,
  that writes to other keys do not interfere, and when a key exists. The queue's offset store,
  its consumer registry and its segment marks are proved correct inside it; the theory
  \<open>SimpleKv\<close> interprets it with the file-backed store.
\<close>

record 's KVHandler =
  hGetValue :: "'s \<Rightarrow> string \<Rightarrow> bytes \<Rightarrow> string + bytes option"
  hAddValue :: "'s \<Rightarrow> string \<Rightarrow> bytes \<Rightarrow> bytes \<Rightarrow> 's \<times> string option"
  hExistsKey :: "'s \<Rightarrow> string \<Rightarrow> bytes \<Rightarrow> bool"
  hDeleteKey :: "'s \<Rightarrow> string \<Rightarrow> bytes \<Rightarrow> 's \<times> string option"

record 's KVRegistry =
  kvHandler :: "'s KVHandler option"
  kvStores :: "string \<rightharpoonup> 's KVHandler"

definition getKVHandler :: "'s KVRegistry \<Rightarrow> 's KVHandler go" where
  "getKVHandler r =
     (case kvHandler r of
        None \<Rightarrow> Panic ''kv store handler is not registered''
      | Some h \<Rightarrow> Ret h)"

definition kvRegister :: "'s KVRegistry \<Rightarrow> string \<Rightarrow> 's KVHandler \<Rightarrow> 's KVRegistry go" where
  "kvRegister r name h =
     (case kvStores r name of
        Some _ \<Rightarrow> Panic (''KV handler with same name: '' @ name @ '' already exists'')
      | None \<Rightarrow> Ret (r\<lparr>kvStores := (kvStores r)(name \<mapsto> h), kvHandler := Some h\<rparr>))"

definition kvGetValue ::
  "'s KVRegistry \<Rightarrow> 's \<Rightarrow> string \<Rightarrow> bytes \<Rightarrow> (string + bytes option) go" where
  "kvGetValue r s bucket key = go_bind (getKVHandler r) (\<lambda>h. Ret (hGetValue h s bucket key))"

definition kvAddValue ::
  "'s KVRegistry \<Rightarrow> 's \<Rightarrow> string \<Rightarrow> bytes \<Rightarrow> bytes \<Rightarrow> ('s \<times> string option) go" where
  "kvAddValue r s bucket key v =
     go_bind (getKVHandler r) (\<lambda>h. Ret (hAddValue h s bucket key v))"

definition kvExistsKey :: "'s KVRegistry \<Rightarrow> 's \<Rightarrow> string \<Rightarrow> bytes \<Rightarrow> bool go" where
  "kvExistsKey r s bucket key = go_bind (getKVHandler r) (\<lambda>h. Ret (hExistsKey h s bucket key))"

definition kvDeleteKey ::
  "'s KVRegistry \<Rightarrow> 's \<Rightarrow> string \<Rightarrow> bytes \<Rightarrow> ('s \<times> string option) go" where
  "kvDeleteKey r s bucket key = go_bind (getKVHandler r) (\<lambda>h. Ret (hDeleteKey h s bucket key))"

lemma getKVHandler_Register:
  "kvRegister r name h = Ret r' \<Longrightarrow> getKVHandler r' = Ret h"
  by (auto simp: kvRegister_def getKVHandler_def split: option.splits)

lemma kvRegister_twice:
  "kvRegister r name h = Ret r' \<Longrightarrow> is_panic (kvRegister r' name h')"
  by (auto simp: kvRegister_def split: option.splits)

subsection \<open>The contract\<close>

locale kv_store =
  fixes h :: "'s KVHandler"
    and usable :: "'s \<Rightarrow> bool"
    and bucket_ok :: "string \<Rightarrow> bool"
  assumes get_no_error: "usable s \<Longrightarrow> \<exists>v. hGetValue h s b k = Inr v"
    and get_add_same:
      "usable s \<Longrightarrow> hGetValue h (fst (hAddValue h s b k v)) b k = Inr (Some v)"
    and get_add_other:
      "usable s \<Longrightarrow> bucket_ok b \<Longrightarrow> bucket_ok b' \<Longrightarrow> (b, k) \<noteq> (b', k') \<Longrightarrow>
        hGetValue h (fst (hAddValue h s b k v)) b' k' = hGetValue h s b' k'"
    and get_delete_same:
      "usable s \<Longrightarrow> hGetValue h (fst (hDeleteKey h s b k)) b k = Inr None"
    and get_delete_other:
      "usable s \<Longrightarrow> bucket_ok b \<Longrightarrow> bucket_ok b' \<Longrightarrow> (b, k) \<noteq> (b', k') \<Longrightarrow>
        hGetValue h (fst (hDeleteKey h s b k)) b' k' = hGetValue h s b' k'"
    and exists_iff:
      "usable s \<Longrightarrow> hExistsKey h s b k \<longleftrightarrow> (\<exists>v. hGetValue h s b k = Inr (Some v) \<and> v \<noteq> [])"
    and usable_add: "usable s \<Longrightarrow> usable (fst (hAddValue h s b k v))"
    and usable_delete: "usable s \<Longrightarrow> usable (fst (hDeleteKey h s b k))"
begin

lemma exists_after_add:
  "usable s \<Longrightarrow> hExistsKey h (fst (hAddValue h s b k v)) b k \<longleftrightarrow> v \<noteq> []"
  by (simp add: exists_iff usable_add get_add_same)

lemma exists_add_other:
  "usable s \<Longrightarrow> bucket_ok b \<Longrightarrow> bucket_ok b' \<Longrightarrow> (b, k) \<noteq> (b', k') \<Longrightarrow>
    hExistsKey h (fst (hAddValue h s b k v)) b' k' = hExistsKey h s b' k'"
  by (simp add: exists_iff usable_add get_add_other)

lemma not_exists_after_delete: "usable s \<Longrightarrow> \<not> hExistsKey h (fst (hDeleteKey h s b k)) b k"
  by (simp add: exists_iff usable_delete get_delete_same)

end

text \<open>A store whose writes do not fail.\<close>

locale kv_reliable = kv_store +
  assumes add_no_error: "usable s \<Longrightarrow> snd (hAddValue h s b k v) = None"
    and delete_no_error: "usable s \<Longrightarrow> snd (hDeleteKey h s b k) = None"

end
