(* ===== verification/Codec.thy ===== *)
theory Codec
  imports Prelude
begin

section \<open>Number encodings\<close>

text \<open>
  The two number encodings the queue and the key-value store rely on.

  \<^item> Big-endian bytes: \<open>encoding/binary\<close>'s \<open>BigEndian\<close> order as the message length prefix
    of a segment file (\<open>int32\<close>) and the segment marks kept in the key-value store
    (\<open>core/util/bytes.go\<close>: \<open>Int64ToBytes\<close>, \<open>BytesToInt64\<close>, and the hand-written loops
    \<open>Uint64toBytes\<close>, \<open>BytesToUint64\<close> and their 32-bit versions).
  \<^item> Decimal text: \<open>strconv.FormatInt\<close> and \<open>strconv.ParseInt\<close> with base 10, as
    \<open>core/util/stringutil.go\<close> calls them.
\<close>

unbundle bit_operations_syntax

subsection \<open>Big-endian bytes\<close>

fun be_bytes :: "nat \<Rightarrow> int \<Rightarrow> bytes" where
  "be_bytes 0 x = []"
| "be_bytes (Suc n) x = be_bytes n (x div 256) @ [word_of_int x]"

definition be_value :: "bytes \<Rightarrow> int" where
  "be_value bs = foldl (\<lambda>a b. a * 256 + uint b) 0 bs"

lemma length_be_bytes [simp]: "length (be_bytes n x) = n"
  by (induction n arbitrary: x) auto

lemma be_value_Nil [simp]: "be_value [] = 0"
  by (simp add: be_value_def)

lemma be_value_snoc: "be_value (bs @ [b]) = be_value bs * 256 + uint b"
  by (simp add: be_value_def)

lemma be_value_be_bytes: "be_value (be_bytes n x) = x mod 256 ^ n"
proof (induction n arbitrary: x)
  case 0
  then show ?case by simp
next
  case (Suc n)
  have "be_value (be_bytes (Suc n) x) = (x div 256) mod 256 ^ n * 256 + x mod 256"
    by (simp add: be_value_snoc Suc.IH uint_word_of_int)
  also have "\<dots> = x mod (256 * 256 ^ n)"
    by (simp add: zmod_zmult2_eq)
  finally show ?case by simp
qed

lemma be_value_bounds: "0 \<le> be_value bs \<and> be_value bs < 256 ^ length bs"
proof (induction bs rule: rev_induct)
  case Nil
  then show ?case by simp
next
  case (snoc b bs)
  have "0 \<le> uint b" "uint b < 256"
    using uint_bounded [of b] by simp_all
  with snoc show ?case by (auto simp: be_value_snoc)
qed

lemma be_bytes_be_value: "be_bytes (length bs) (be_value bs) = bs"
proof (induction bs rule: rev_induct)
  case Nil
  then show ?case by simp
next
  case (snoc b bs)
  have u: "0 \<le> uint b" "uint b < 256"
    using uint_bounded [of b] by simp_all
  then have "(be_value bs * 256 + uint b) div 256 = be_value bs"
    by simp
  moreover have "(word_of_int (be_value bs * 256 + uint b) :: byte) = b"
  proof -
    have z: "(256 :: byte) = 0" by simp
    have "(word_of_int (be_value bs * 256 + uint b) :: byte) = word_of_int (be_value bs) * 256 + b"
      by simp
    then show ?thesis unfolding z by simp
  qed
  ultimately show ?case using snoc by (simp add: be_value_snoc)
qed

lemma be_bytes_mod: "be_bytes n (x mod 256 ^ n) = be_bytes n x"
  by (metis be_bytes_be_value be_value_be_bytes length_be_bytes)

text \<open>\<open>core/util/bytes.go\<close>: the loops that fill and read a buffer byte by byte.\<close>

definition Uint64toBytes :: "bytes \<Rightarrow> 64 word \<Rightarrow> bytes go" where
  "Uint64toBytes b v =
     (if length b < 8 then Panic ''index out of range''
      else Ret (fold (\<lambda>i b. b[7 - i := ucast (drop_bit (i * 8) v)]) [0..<8] b))"

definition Uint32toBytes :: "bytes \<Rightarrow> 32 word \<Rightarrow> bytes go" where
  "Uint32toBytes b v =
     (if length b < 4 then Panic ''index out of range''
      else Ret (fold (\<lambda>i b. b[3 - i := ucast (drop_bit (i * 8) v)]) [0..<4] b))"

definition BytesToUint64 :: "bytes \<Rightarrow> 64 word go" where
  "BytesToUint64 b =
     (if b = [] then Panic ''index out of range''
      else Ret (foldl (\<lambda>v x. push_bit 8 (v + ucast x)) 0 (butlast b) + ucast (last b)))"

definition BytesToUint32 :: "bytes \<Rightarrow> 32 word go" where
  "BytesToUint32 b =
     (if b = [] then Panic ''index out of range''
      else Ret (foldl (\<lambda>v x. push_bit 8 (v + ucast x)) 0 (butlast b) + ucast (last b)))"

text \<open>The conversions through \<open>encoding/binary\<close>.\<close>

definition Int64ToBytes :: "int \<Rightarrow> bytes" where
  "Int64ToBytes i = be_bytes 8 i"

definition BytesToInt64 :: "bytes \<Rightarrow> int go" where
  "BytesToInt64 buf =
     (if length buf = 0 then Ret 0
      else if length buf < 8 then Panic ''index out of range''
      else Ret (to_int64 (be_value (take 8 buf))))"

definition IntToBytes :: "int \<Rightarrow> bytes" where
  "IntToBytes n = be_bytes 8 n"

definition BytesToInt :: "bytes \<Rightarrow> int" where
  "BytesToInt buf = (if length buf < 8 then 0 else to_int64 (be_value (take 8 buf)))"

lemma word_of_int_drop:
  "(word_of_int (uint (v :: 'a::len word) div 2 ^ n) :: byte) = ucast (drop_bit n v)"
proof -
  have "uint (drop_bit n v) = drop_bit n (take_bit LENGTH('a) (uint v))"
    by (rule unsigned_drop_bit_eq)
  also have "\<dots> = uint v div 2 ^ n"
    by (simp add: drop_bit_eq_div take_bit_int_eq_self uint_bounded)
  finally show ?thesis by (simp only: ucast_eq)
qed

lemma list_of_8:
  "8 \<le> length b \<Longrightarrow>
    \<exists>b0 b1 b2 b3 b4 b5 b6 b7 r. b = b0 # b1 # b2 # b3 # b4 # b5 # b6 # b7 # r"
  by (auto simp: numeral_eq_Suc Suc_le_length_iff)

lemma Uint64toBytes_eq:
  assumes "8 \<le> length b"
  shows "Uint64toBytes b v = Ret (be_bytes 8 (uint v) @ drop 8 b)"
proof -
  obtain b0 b1 b2 b3 b4 b5 b6 b7 r where b: "b = b0 # b1 # b2 # b3 # b4 # b5 # b6 # b7 # r"
    using list_of_8 [OF assms] by blast
  have be: "be_bytes 8 (uint v) =
      map (\<lambda>i. word_of_int (uint v div 2 ^ (8 * i))) [7, 6, 5, 4, 3, 2, 1, 0]"
    by (simp add: numeral_eq_Suc zdiv_zmult2_eq [symmetric])
  have "fold (\<lambda>i b. b[7 - i := ucast (drop_bit (i * 8) v)]) [0..<8] b =
      map (\<lambda>i. ucast (drop_bit (8 * i) v)) [7, 6, 5, 4, 3, 2, 1, 0] @ r"
    by (simp add: b upt_rec)
  with be b show ?thesis by (simp add: Uint64toBytes_def word_of_int_drop)
qed

lemma list_of_4: "4 \<le> length b \<Longrightarrow> \<exists>b0 b1 b2 b3 r. b = b0 # b1 # b2 # b3 # r"
  by (auto simp: numeral_eq_Suc Suc_le_length_iff)

lemma Uint32toBytes_eq:
  assumes "4 \<le> length b"
  shows "Uint32toBytes b v = Ret (be_bytes 4 (uint v) @ drop 4 b)"
proof -
  obtain b0 b1 b2 b3 r where b: "b = b0 # b1 # b2 # b3 # r"
    using list_of_4 [OF assms] by blast
  have be: "be_bytes 4 (uint v) = map (\<lambda>i. word_of_int (uint v div 2 ^ (8 * i))) [3, 2, 1, 0]"
    by (simp add: numeral_eq_Suc zdiv_zmult2_eq [symmetric])
  have "fold (\<lambda>i b. b[3 - i := ucast (drop_bit (i * 8) v)]) [0..<4] b =
      map (\<lambda>i. ucast (drop_bit (8 * i) v)) [3, 2, 1, 0] @ r"
    by (simp add: b upt_rec)
  with be b show ?thesis by (simp add: Uint32toBytes_def word_of_int_drop)
qed

text \<open>The reading loop computes the big-endian value, wrapped to the word.\<close>

lemma read_loop_value:
  "foldl (\<lambda>v x. push_bit 8 (v + ucast x)) (0 :: 'a::len word) bs = word_of_int (256 * be_value bs)"
proof (induction bs rule: rev_induct)
  case Nil
  then show ?case by simp
next
  case (snoc b bs)
  have "foldl (\<lambda>v x. push_bit 8 (v + ucast x)) (0 :: 'a word) (bs @ [b]) =
      push_bit 8 (word_of_int (256 * be_value bs) + ucast b)"
    by (simp only: foldl_append foldl.simps snoc)
  also have "\<dots> = (2 ^ 8) * (word_of_int (256 * be_value bs) + word_of_int (uint b))"
    by (simp only: push_bit_eq_mult ucast_eq mult.commute)
  also have "\<dots> = word_of_int (256 * (256 * be_value bs + uint b))"
    by simp
  finally show ?case by (simp add: be_value_snoc mult.commute)
qed

lemma read_loop_last:
  "b \<noteq> [] \<Longrightarrow>
    foldl (\<lambda>v x. push_bit 8 (v + ucast x)) (0 :: 'a::len word) (butlast b) + ucast (last b) =
    word_of_int (be_value b)"
proof -
  assume "b \<noteq> []"
  then have "be_value b = 256 * be_value (butlast b) + uint (last b)"
    by (metis append_butlast_last_id be_value_snoc mult.commute)
  then show ?thesis
    by (subst read_loop_value) (simp only: ucast_eq of_int_add)
qed

lemma BytesToUint64_eq: "b \<noteq> [] \<Longrightarrow> BytesToUint64 b = Ret (word_of_int (be_value b))"
  by (simp only: BytesToUint64_def read_loop_last if_False not_False_eq_True)

lemma BytesToUint32_eq: "b \<noteq> [] \<Longrightarrow> BytesToUint32 b = Ret (word_of_int (be_value b))"
  by (simp only: BytesToUint32_def read_loop_last if_False not_False_eq_True)

lemma length_Int64ToBytes [simp]: "length (Int64ToBytes i) = 8"
  by (simp add: Int64ToBytes_def)

lemma to_int64_be_value: "to_int64 (be_value (be_bytes 8 i)) = to_int64 i"
  using to_int64_mod [of i] by (simp add: be_value_be_bytes)

lemma BytesToInt64_Int64ToBytes [codec_simps]:
  "fits_int64 i \<Longrightarrow> BytesToInt64 (Int64ToBytes i) = Ret i"
  by (simp add: BytesToInt64_def Int64ToBytes_def to_int64_be_value to_int64_id)

lemma BytesToInt_IntToBytes [codec_simps]: "fits_int64 i \<Longrightarrow> BytesToInt (IntToBytes i) = i"
  by (simp add: BytesToInt_def IntToBytes_def to_int64_be_value to_int64_id)

subsection \<open>Decimal text\<close>

definition digit_char :: "nat \<Rightarrow> char" where
  "digit_char d = char_of (48 + d)"

definition is_digit :: "char \<Rightarrow> bool" where
  "is_digit c \<longleftrightarrow> 48 \<le> (of_char c :: nat) \<and> of_char c \<le> (57 :: nat)"

definition digit_val :: "char \<Rightarrow> nat" where
  "digit_val c = of_char c - 48"

fun show_nat :: "nat \<Rightarrow> string" where
  "show_nat n = (if n < 10 then [digit_char n] else show_nat (n div 10) @ [digit_char (n mod 10)])"

declare show_nat.simps [simp del]

text \<open>\<open>strconv.FormatInt(i, 10)\<close>, also what \<open>fmt\<close> prints for \<open>%d\<close> and for \<open>%v\<close> on an integer.\<close>

definition FormatInt :: "int \<Rightarrow> string" where
  "FormatInt i = (if i < 0 then CHR ''-'' # show_nat (nat (- i)) else show_nat (nat i))"

datatype num_error = ErrSyntax | ErrRange

fun parse_uint64 :: "nat \<Rightarrow> string \<Rightarrow> num_error + nat" where
  "parse_uint64 acc [] = Inr acc"
| "parse_uint64 acc (c # cs) =
     (if \<not> is_digit c then Inl ErrSyntax
      else let n = 10 * acc + digit_val c
           in if 2 ^ 64 \<le> n then Inl ErrRange else parse_uint64 n cs)"

definition ParseUint64 :: "string \<Rightarrow> num_error + nat" where
  "ParseUint64 s = (if s = [] then Inl ErrSyntax else parse_uint64 0 s)"

text \<open>
  \<open>util.ToInt64\<close>, that is \<open>strconv.ParseInt(s, 10, 64)\<close>: an optional sign, then digits. A
  syntax error returns 0; a range error returns the nearest \<open>int64\<close>.
\<close>

definition ToInt64 :: "string \<Rightarrow> int \<times> num_error option" where
  "ToInt64 s =
     (if s = [] then (0, Some ErrSyntax)
      else
        let neg = (hd s = CHR ''-'');
            digits = (if hd s = CHR ''-'' \<or> hd s = CHR ''+'' then tl s else s)
        in case ParseUint64 digits of
             Inl ErrSyntax \<Rightarrow> (0, Some ErrSyntax)
           | Inl ErrRange \<Rightarrow> (if neg then - (2 ^ 63) else 2 ^ 63 - 1, Some ErrRange)
           | Inr un \<Rightarrow>
               if \<not> neg \<and> 2 ^ 63 \<le> un then (2 ^ 63 - 1, Some ErrRange)
               else if neg \<and> 2 ^ 63 < un then (- (2 ^ 63), Some ErrRange)
               else (if neg then - int un else int un, None))"

lemma digit_char_props [simp]:
  "d < 10 \<Longrightarrow> is_digit (digit_char d)" "d < 10 \<Longrightarrow> digit_val (digit_char d) = d"
  by (simp_all add: is_digit_def digit_char_def digit_val_def)

lemma show_nat_digits: "c \<in> set (show_nat n) \<Longrightarrow> is_digit c"
proof (induction n rule: show_nat.induct)
  case (1 n)
  then show ?case by (subst (asm) (2) show_nat.simps) (auto split: if_splits)
qed

lemma show_nat_nonempty [simp]: "show_nat n \<noteq> []"
  by (subst show_nat.simps) simp

lemma parse_uint64_append:
  "parse_uint64 acc (xs @ ys) =
    (case parse_uint64 acc xs of Inl e \<Rightarrow> Inl e | Inr n \<Rightarrow> parse_uint64 n ys)"
  by (induction xs arbitrary: acc) (auto simp: Let_def)

lemma parse_show_nat: "n < 2 ^ 64 \<Longrightarrow> parse_uint64 0 (show_nat n) = Inr n"
proof (induction n rule: show_nat.induct)
  case (1 n)
  show ?case
  proof (cases "n < 10")
    case True
    with 1 show ?thesis by (subst show_nat.simps) (simp add: Let_def)
  next
    case False
    with 1 have "parse_uint64 0 (show_nat (n div 10)) = Inr (n div 10)"
      by simp
    moreover have "\<not> 2 ^ 64 \<le> 10 * (n div 10) + n mod 10"
      using 1 by (simp only: mult_div_mod_eq not_le)
    ultimately show ?thesis
      using False by (subst show_nat.simps) (simp add: parse_uint64_append Let_def)
  qed
qed

lemma hd_show_nat: "hd (show_nat n) \<noteq> CHR ''-'' \<and> hd (show_nat n) \<noteq> CHR ''+''"
proof -
  have "is_digit (hd (show_nat n))"
    by (rule show_nat_digits [of _ n]) simp
  then show ?thesis by (auto simp: is_digit_def)
qed

lemma ToInt64_FormatInt [codec_simps]: "fits_int64 i \<Longrightarrow> ToInt64 (FormatInt i) = (i, None)"
proof (cases "i < 0")
  case True
  assume "fits_int64 i"
  with True have "nat (- i) < 2 ^ 64" "\<not> 2 ^ 63 < nat (- i)"
    by (auto simp: fits_int64_def)
  with True show ?thesis
    by (simp add: ToInt64_def FormatInt_def ParseUint64_def parse_show_nat Let_def)
next
  case False
  assume "fits_int64 i"
  with False have "nat i < 2 ^ 64" "\<not> 2 ^ 63 \<le> nat i"
    by (auto simp: fits_int64_def)
  with False hd_show_nat [of "nat i"] show ?thesis
    by (simp add: ToInt64_def FormatInt_def ParseUint64_def parse_show_nat Let_def)
qed

lemma FormatInt_nonempty [simp]: "FormatInt i \<noteq> []"
  by (simp add: FormatInt_def)

lemma FormatInt_chars: "c \<in> set (FormatInt i) \<Longrightarrow> c = CHR ''-'' \<or> is_digit c"
  by (auto simp: FormatInt_def dest: show_nat_digits split: if_splits)

lemma FormatInt_no_sep:
  assumes "\<not> is_digit c" "c \<noteq> CHR ''-''"
  shows "c \<notin> set (FormatInt i)"
  using assms FormatInt_chars by blast

end
