(* ===== verification/SimpleKv.thy ===== *)
theory SimpleKv
  imports KvStore Codec
begin

section \<open>The file-backed key-value store\<close>

text \<open>
  \<open>plugins/simple_kv\<close>: a map in memory, a write-ahead log and a snapshot file.

  \<^item> \<open>KVStore\<close> is the state of \<open>kv.go\<close>: the map, the content of the log file and the snapshot
    file. Every \<open>Set\<close> and \<open>Delete\<close> updates the map and appends one line to the log; the
    outcomes of the coming log writes are the list \<open>walPlan\<close> (\<open>Some n\<close>: only \<open>n\<close> bytes of the
    line reach the file and the write reports an error; past its end every write succeeds).
  \<^item> \<open>SimpleKV\<close> is the handler of \<open>simple.go\<close>, which joins bucket and key with a comma.
\<close>

datatype snapshot = NoSnapshot | TornSnapshot | Snapshot "string \<rightharpoonup> bytes"

record KVStore =
  kvData :: "string \<rightharpoonup> bytes"
  walFile :: bytes
  lastState :: snapshot
  walPlan :: "nat option list"

record SimpleKV =
  closed :: bool
  kvstore :: KVStore

definition splitChar :: bytes where
  "splitChar = [9, 9]"

text \<open>One line of the log.\<close>

definition walEntry :: "string \<Rightarrow> bytes \<Rightarrow> bytes" where
  "walEntry key v = str_bytes key @ splitChar @ v @ [10]"

definition writeEntry :: "KVStore \<Rightarrow> string \<Rightarrow> bytes \<Rightarrow> KVStore \<times> string option" where
  "writeEntry kv key v =
     (case walPlan kv of
        Some n # plan \<Rightarrow>
          (kv\<lparr>walFile := walFile kv @ take n (walEntry key v), walPlan := plan\<rparr>, Some ''write error'')
      | None # plan \<Rightarrow> (kv\<lparr>walFile := walFile kv @ walEntry key v, walPlan := plan\<rparr>, None)
      | [] \<Rightarrow> (kv\<lparr>walFile := walFile kv @ walEntry key v\<rparr>, None))"

definition kvSet :: "KVStore \<Rightarrow> string \<Rightarrow> bytes \<Rightarrow> KVStore \<times> string option" where
  "kvSet kv key v = writeEntry (kv\<lparr>kvData := (kvData kv)(key \<mapsto> v)\<rparr>) key v"

definition kvDelete :: "KVStore \<Rightarrow> string \<Rightarrow> KVStore \<times> string option" where
  "kvDelete kv key = writeEntry (kv\<lparr>kvData := (kvData kv)(key := None)\<rparr>) key []"

definition kvGet :: "KVStore \<Rightarrow> string \<Rightarrow> bytes option" where
  "kvGet kv key = kvData kv key"

subsection \<open>The handler\<close>

definition joinKey :: "string \<Rightarrow> bytes \<Rightarrow> string" where
  "joinKey bucket key = bucket @ '','' @ bytes_str key"

definition Exists :: "SimpleKV \<Rightarrow> string \<Rightarrow> bytes \<Rightarrow> bool" where
  "Exists f bucket key =
     (case kvGet (kvstore f) (joinKey bucket key) of
        None \<Rightarrow> False
      | Some valCopy \<Rightarrow> if length valCopy \<noteq> 0 then True else False)"

definition GetValue :: "SimpleKV \<Rightarrow> string \<Rightarrow> bytes \<Rightarrow> string + bytes option" where
  "GetValue f bucket key =
     (if closed f then Inl ''module closed'' else Inr (kvGet (kvstore f) (joinKey bucket key)))"

definition AddValue :: "SimpleKV \<Rightarrow> string \<Rightarrow> bytes \<Rightarrow> bytes \<Rightarrow> SimpleKV \<times> string option" where
  "AddValue f bucket key v =
     (if closed f then (f, Some ''module closed'')
      else let (kv, err) = kvSet (kvstore f) (joinKey bucket key) v in (f\<lparr>kvstore := kv\<rparr>, err))"

definition ExistsKey :: "SimpleKV \<Rightarrow> string \<Rightarrow> bytes \<Rightarrow> bool" where
  "ExistsKey f bucket key = Exists f bucket key"

definition filterDelete :: "SimpleKV \<Rightarrow> string \<Rightarrow> bytes \<Rightarrow> SimpleKV \<times> string option" where
  "filterDelete f bucket key =
     (let (kv, err) = kvDelete (kvstore f) (joinKey bucket key) in (f\<lparr>kvstore := kv\<rparr>, err))"

definition DeleteKey :: "SimpleKV \<Rightarrow> string \<Rightarrow> bytes \<Rightarrow> SimpleKV \<times> string option" where
  "DeleteKey f bucket key = filterDelete f bucket key"

definition zeroVal :: bytes where
  "zeroVal = [48]"

definition filterAdd :: "SimpleKV \<Rightarrow> string \<Rightarrow> bytes \<Rightarrow> SimpleKV \<times> string option" where
  "filterAdd f bucket key = AddValue f bucket key zeroVal"

definition CheckThenAdd :: "SimpleKV \<Rightarrow> string \<Rightarrow> bytes \<Rightarrow> SimpleKV \<times> bool \<times> string option" where
  "CheckThenAdd f bucket key =
     (let b = Exists f bucket key
      in if \<not> b then (case filterAdd f bucket key of (f', err) \<Rightarrow> (f', b, err)) else (f, b, None))"

text \<open>The lz4 codec is an external package: its two functions are parameters.\<close>

definition GetCompressedValue ::
  "(bytes \<Rightarrow> string + bytes) \<Rightarrow> SimpleKV \<Rightarrow> string \<Rightarrow> bytes \<Rightarrow> string + bytes option" where
  "GetCompressedValue lz4Decode f bucket key =
     (case GetValue f bucket key of
        Inl e \<Rightarrow> Inl e
      | Inr None \<Rightarrow> Inr None
      | Inr (Some d) \<Rightarrow>
          if length d = 0 then Inr None
          else (case lz4Decode d of Inl e \<Rightarrow> Inl e | Inr x \<Rightarrow> Inr (Some x)))"

definition AddValueCompress ::
  "(bytes \<Rightarrow> string + bytes) \<Rightarrow> SimpleKV \<Rightarrow> string \<Rightarrow> bytes \<Rightarrow> bytes \<Rightarrow> SimpleKV \<times> string option" where
  "AddValueCompress lz4Encode f bucket key v =
     (case lz4Encode v of Inl e \<Rightarrow> (f, Some e) | Inr d \<Rightarrow> AddValue f bucket key d)"

definition simple_kv :: "SimpleKV KVHandler" where
  "simple_kv = \<lparr>hGetValue = GetValue, hAddValue = AddValue, hExistsKey = ExistsKey,
     hDeleteKey = DeleteKey\<rparr>"

lemma writeEntry_frame [simp]:
  "kvData (fst (writeEntry kv key v)) = kvData kv"
  "lastState (fst (writeEntry kv key v)) = lastState kv"
  by (auto simp: writeEntry_def split: list.splits option.splits)

lemma kvGet_kvSet: "kvGet (fst (kvSet kv k v)) k' = (if k' = k then Some v else kvGet kv k')"
  by (simp add: kvGet_def kvSet_def)

lemma kvGet_kvDelete: "kvGet (fst (kvDelete kv k)) k' = (if k' = k then None else kvGet kv k')"
  by (simp add: kvGet_def kvDelete_def)

lemma bytes_str_inj: "bytes_str k = bytes_str k' \<longleftrightarrow> k = k'"
  by (metis str_bytes_bytes_str)

lemma joinKey_inj:
  assumes "CHR '','' \<notin> set b" "CHR '','' \<notin> set b'"
  shows "joinKey b k = joinKey b' k' \<longleftrightarrow> b = b' \<and> k = k'"
  using append_sep_inj [OF assms] by (simp add: joinKey_def bytes_str_inj)

lemma fst_AddValue:
  "\<not> closed f \<Longrightarrow> fst (AddValue f b k v) = f\<lparr>kvstore := fst (kvSet (kvstore f) (joinKey b k) v)\<rparr>"
  by (simp add: AddValue_def split: prod.splits)

lemma fst_DeleteKey:
  "fst (DeleteKey f b k) = f\<lparr>kvstore := fst (kvDelete (kvstore f) (joinKey b k))\<rparr>"
  by (simp add: DeleteKey_def filterDelete_def split: prod.splits)

lemmas simple_kv_simps = simple_kv_def GetValue_def ExistsKey_def Exists_def fst_AddValue
  fst_DeleteKey kvGet_kvSet kvGet_kvDelete

interpretation skv: kv_store simple_kv "\<lambda>f. \<not> closed f" "\<lambda>b. CHR '','' \<notin> set b"
  by unfold_locales (auto simp: simple_kv_simps joinKey_inj split: option.splits)


text \<open>While no log write fails, no operation does.\<close>

lemma writes_succeed:
  assumes "\<not> closed f" "walPlan (kvstore f) = []"
  shows "snd (AddValue f b k v) = None" "snd (DeleteKey f b k) = None"
  using assms by (simp_all add: AddValue_def DeleteKey_def filterDelete_def kvSet_def kvDelete_def writeEntry_def)

lemma walPlan_kept:
  "walPlan (kvstore f) = [] \<Longrightarrow> walPlan (fst (kvSet (kvstore f) k v)) = []"
  "walPlan (kvstore f) = [] \<Longrightarrow> walPlan (fst (kvDelete (kvstore f) k)) = []"
  by (simp_all add: kvSet_def kvDelete_def writeEntry_def)

interpretation rel: kv_reliable simple_kv "\<lambda>f. \<not> closed f \<and> walPlan (kvstore f) = []" "\<lambda>b. CHR '','' \<notin> set b"
  by unfold_locales (auto simp: simple_kv_simps joinKey_inj walPlan_kept writes_succeed split: option.splits)

end
