(* ===== verification/KvWal.thy ===== *)
theory KvWal
  imports SimpleKv
begin

section \<open>Snapshots and log replay of the key-value store\<close>

text \<open>
  The recovery half of \<open>plugins/simple_kv/kv.go\<close>: \<open>NewKVStore\<close> loads the snapshot and replays
  the write-ahead log, \<open>periodicSaveState\<close> writes a new snapshot and starts a new log.

  The log is read with \<open>bufio.Scanner\<close>, whose tokens are slices of the scanner's own buffer, and
  \<open>loadFromWAL\<close> stores those slices in the map. The model therefore keeps the buffers: \<open>scBufs\<close>
  are the arrays the scanner has allocated so far, the last one being current, and a map entry is
  either bytes of its own or a \<open>Slice\<close> of one of these arrays. \<open>Scan\<close> follows the library
  function: the first array has 4096 bytes, the unread tail is moved to the front of the array
  when more input is needed, a full array is doubled up to 65536 bytes, and a line that does not
  fit ends the scan.
\<close>

datatype cell = Own bytes | Slice nat nat nat

record scanner =
  scBufs :: "bytes list"
  scStart :: nat
  scEnd :: nat
  scRest :: bytes
  scEof :: bool

definition scCur :: "scanner \<Rightarrow> bytes" where
  "scCur s = last (scBufs s)"

definition scData :: "scanner \<Rightarrow> bytes" where
  "scData s = drop (scStart s) (take (scEnd s) (scCur s))"

definition newScanner :: "bytes \<Rightarrow> scanner" where
  "newScanner file = \<lparr>scBufs = [[]], scStart = 0, scEnd = 0, scRest = file, scEof = False\<rparr>"

definition dropCR :: "bytes \<Rightarrow> bytes" where
  "dropCR l = (if l \<noteq> [] \<and> last l = 13 then butlast l else l)"

text \<open>\<open>copy(s.buf, s.buf[s.start:s.end])\<close> and the new bounds.\<close>

definition scShift :: "scanner \<Rightarrow> scanner" where
  "scShift s =
     (if scStart s > 0 \<and> (scEnd s = length (scCur s) \<or> scStart s > length (scCur s) div 2)
      then s\<lparr>scBufs := butlast (scBufs s) @ [scData s @ drop (length (scData s)) (scCur s)],
             scEnd := scEnd s - scStart s, scStart := 0\<rparr>
      else s)"

definition scGrow :: "scanner \<Rightarrow> scanner option" where
  "scGrow s =
     (if scEnd s = length (scCur s) then
        (if 65536 \<le> length (scCur s) then None
         else let newSize = (if length (scCur s) = 0 then 4096 else min (2 * length (scCur s)) 65536)
              in Some (s\<lparr>scBufs := scBufs s @ [scData s @ replicate (newSize - length (scData s)) 0],
                         scEnd := scEnd s - scStart s, scStart := 0\<rparr>))
      else Some s)"

definition scRead :: "scanner \<Rightarrow> scanner" where
  "scRead s =
     (let n = min (length (scCur s) - scEnd s) (length (scRest s))
      in if scRest s = [] then s\<lparr>scEof := True\<rparr>
         else s\<lparr>scBufs := butlast (scBufs s) @
                  [take (scEnd s) (scCur s) @ take n (scRest s) @ drop (scEnd s + n) (scCur s)],
                scEnd := scEnd s + n, scRest := drop n (scRest s)\<rparr>)"

text \<open>
  \<open>Scan\<close> with \<open>ScanLines\<close>: a token ends at a newline or, at the end of the input, with the data.
\<close>

function Scan :: "scanner \<Rightarrow> cell option \<times> scanner" where
  "Scan s =
     (let d = scData s; b = length (scBufs s) - 1
      in if 10 \<in> set d then
           let i = length (takeWhile (\<lambda>x. x \<noteq> 10) d)
           in (Some (Slice b (scStart s) (length (dropCR (take i d)))), s\<lparr>scStart := scStart s + i + 1\<rparr>)
         else if scEof s then
           (if d = [] then (None, s)
            else (Some (Slice b (scStart s) (length (dropCR d))), s\<lparr>scStart := scEnd s\<rparr>))
         else case scGrow (scShift s) of
                None \<Rightarrow> (None, scShift s)
              | Some s2 \<Rightarrow>
                  (if scRest s2 \<noteq> [] \<and> length (scCur s2) \<le> scEnd s2 then (None, s2)
                   else Scan (scRead s2)))"
  by pat_completeness auto
termination
proof (relation "measure (\<lambda>s. length (scRest s) + (if scEof s then 0 else 1))", goal_cases)
  case (2 s d b s2)
  have rest: "scRest s2 = scRest s \<and> scEof s2 = scEof s"
    using 2 by (auto simp: scGrow_def scShift_def Let_def split: if_splits)
  with 2 show ?case by (auto simp: scRead_def Let_def)
qed simp

declare Scan.simps [simp del]

fun deref :: "bytes list \<Rightarrow> cell \<Rightarrow> bytes" where
  "deref bufs (Own b) = b"
| "deref bufs (Slice i off n) = take n (drop off (bufs ! i))"

text \<open>\<open>bytes.Split(line, "\<^verbatim>\<open>\t\t\<close>")\<close>: leftmost, not overlapping.\<close>

fun splitLine :: "bytes \<Rightarrow> bytes list" where
  "splitLine [] = [[]]"
| "splitLine [x] = [[x]]"
| "splitLine (x # y # zs) =
     (if x = 9 \<and> y = 9 then [] # splitLine zs
      else (case splitLine (y # zs) of [] \<Rightarrow> [[x]] | (p # ps) \<Rightarrow> (x # p) # ps))"

definition scLeft :: "scanner \<Rightarrow> nat" where
  "scLeft s = length (scRest s) + (scEnd s - scStart s)"

lemma scShift_frame [simp]:
  "scLeft (scShift s) = scLeft s" "scRest (scShift s) = scRest s" "scEof (scShift s) = scEof s"
  by (auto simp: scShift_def scLeft_def)

lemma scGrow_frame:
  "scGrow s = Some s2 \<Longrightarrow> scLeft s2 = scLeft s \<and> scRest s2 = scRest s \<and> scEof s2 = scEof s"
  by (auto simp: scGrow_def scLeft_def Let_def split: if_splits)

lemma scLeft_read: "scLeft (scRead s) \<le> scLeft s"
  by (auto simp: scRead_def scLeft_def Let_def)

lemma length_scData: "length (scData s) \<le> scEnd s - scStart s"
  by (simp add: scData_def)

lemma scData_nonempty: "scData s \<noteq> [] \<Longrightarrow> scStart s < scEnd s"
  by (auto simp: scData_def)

lemma Scan_consumes: "Scan s = (Some c, s') \<Longrightarrow> scLeft s' < scLeft s"
proof (induction s rule: Scan.induct)
  case (1 s)
  let ?d = "scData s"
  consider (line) "10 \<in> set ?d" | (tail) "10 \<notin> set ?d" "scEof s" "?d \<noteq> []"
    | (more) s2 where "10 \<notin> set ?d" "\<not> scEof s" "scGrow (scShift s) = Some s2"
        "\<not> (scRest s2 \<noteq> [] \<and> length (scCur s2) \<le> scEnd s2)" "Scan (scRead s2) = (Some c, s')"
    using 1(2) by (subst (asm) Scan.simps) (auto simp: Let_def split: if_splits option.splits)
  then show ?case
  proof cases
    case line
    then have "length (takeWhile (\<lambda>x. x \<noteq> 10) ?d) < length ?d"
      by (rule length_takeWhile_mem)
    with line 1(2) length_scData [of s] show ?thesis
      by (subst (asm) Scan.simps) (auto simp: Let_def scLeft_def)
  next
    case tail
    with 1(2) scData_nonempty [of s] show ?thesis
      by (subst (asm) Scan.simps) (auto simp: Let_def scLeft_def)
  next
    case more
    have "scLeft s' < scLeft (scRead s2)"
      by (rule 1(1) [OF refl refl]) (use more in auto)
    with more(3) scLeft_read [of s2] scGrow_frame show ?thesis by fastforce
  qed
qed

text \<open>
  \<open>loadFromWAL\<close>: a line of two parts stores the second part, still a slice of the scanner's
  array, or deletes the key when that part is empty. The array is read again only when the map is
  used, so the bytes stored are those in the final arrays.
\<close>

definition applyLine :: "bytes list \<Rightarrow> cell \<Rightarrow> (string \<rightharpoonup> cell) \<Rightarrow> (string \<rightharpoonup> cell)" where
  "applyLine bufs line d =
     (case splitLine (deref bufs line) of
        [key, v] \<Rightarrow>
          if v = [] then d(bytes_str key := None)
          else (case line of
                  Slice b off n \<Rightarrow> d(bytes_str key \<mapsto> Slice b (off + length key + 2) (length v))
                | Own _ \<Rightarrow> d(bytes_str key \<mapsto> Own v))
      | _ \<Rightarrow> d)"

function loadLines :: "scanner \<Rightarrow> (string \<rightharpoonup> cell) \<Rightarrow> scanner \<times> (string \<rightharpoonup> cell)" where
  "loadLines s d =
     (case Scan s of
        (None, s') \<Rightarrow> (s', d)
      | (Some line, s') \<Rightarrow> loadLines s' (applyLine (scBufs s') line d))"
  by pat_completeness auto
termination
  by (relation "measure (\<lambda>(s, d). scLeft s)") (auto dest: Scan_consumes [OF sym])

declare loadLines.simps [simp del]

definition derefAll :: "bytes list \<Rightarrow> (string \<rightharpoonup> cell) \<Rightarrow> (string \<rightharpoonup> bytes)" where
  "derefAll bufs d = (\<lambda>k. map_option (deref bufs) (d k))"

definition loadFromLastState :: "KVStore \<Rightarrow> KVStore" where
  "loadFromLastState kv =
     (case lastState kv of Snapshot m \<Rightarrow> kv\<lparr>kvData := m\<rparr> | TornSnapshot \<Rightarrow> kv | NoSnapshot \<Rightarrow> kv)"

definition loadFromWAL :: "KVStore \<Rightarrow> KVStore" where
  "loadFromWAL kv =
     (let (s, d) = loadLines (newScanner (walFile kv)) (\<lambda>k. map_option Own (kvData kv k))
      in kv\<lparr>kvData := derefAll (scBufs s) d\<rparr>)"

definition NewKVStore :: "snapshot \<Rightarrow> bytes \<Rightarrow> KVStore" where
  "NewKVStore snap wal =
     loadFromWAL (loadFromLastState
       \<lparr>kvData = Map.empty, walFile = wal, lastState = snap, walPlan = []\<rparr>)"





text \<open>What a crash leaves: the two files. Restarting reads them.\<close>

definition crashRestart :: "KVStore \<Rightarrow> KVStore" where
  "crashRestart kv = NewKVStore (lastState kv) (walFile kv)"

subsection \<open>Replay of a log that fits the first array\<close>

definition replayLine :: "(string \<rightharpoonup> bytes) \<Rightarrow> bytes \<Rightarrow> (string \<rightharpoonup> bytes)" where
  "replayLine d line =
     (case splitLine line of
        [key, v] \<Rightarrow> if v = [] then d(bytes_str key := None) else d(bytes_str key \<mapsto> v)
      | _ \<Rightarrow> d)"

lemma splitLine_nonempty [simp]: "splitLine l \<noteq> []"
  by (cases l rule: splitLine.cases) (auto split: list.splits)

lemma splitLine_one: "splitLine l = [p] \<Longrightarrow> l = p"
proof (induction l arbitrary: p rule: splitLine.induct)
  case (3 x y zs)
  then show ?case by (auto split: if_splits list.splits)
qed auto

lemma splitLine_two: "splitLine l = [k, v] \<Longrightarrow> l = k @ [9, 9] @ v"
proof (induction l arbitrary: k rule: splitLine.induct)
  case (3 x y zs)
  then show ?case by (auto split: if_splits list.splits dest: splitLine_one)
qed auto

lemma splitLine_entry: "9 \<notin> set k \<Longrightarrow> splitLine v = [v] \<Longrightarrow> splitLine (k @ 9 # 9 # v) = [k, v]"
proof (induction k)
  case Nil
  then show ?case by simp
next
  case (Cons x k)
  then have IH: "splitLine (k @ 9 # 9 # v) = [k, v]" by simp
  obtain y zs where yz: "k @ 9 # 9 # v = y # zs" by (cases k) auto
  with Cons IH show ?case by auto
qed

definition ready :: "bytes \<Rightarrow> nat \<Rightarrow> scanner" where
  "ready c p = \<lparr>scBufs = [[], c @ replicate (4096 - length c) 0], scStart = p, scEnd = length c,
     scRest = [], scEof = False\<rparr>"

lemma scData_ready: "scData (ready c p) = drop p c"
  by (simp add: scData_def scCur_def ready_def)

lemma Scan_new:
  assumes "c \<noteq> []" "length c \<le> 4096"
  shows "Scan (newScanner c) = Scan (ready c 0)"
proof -
  let ?s2 = "newScanner c\<lparr>scBufs := [[], replicate 4096 0]\<rparr>"
  have "scGrow (scShift (newScanner c)) = Some ?s2"
    by (simp add: scGrow_def scShift_def scCur_def scData_def newScanner_def Let_def)
  moreover have "scRead ?s2 = ready c 0"
    using assms by (simp add: scRead_def scCur_def newScanner_def ready_def Let_def)
  moreover have "scRest ?s2 = c" "scEnd ?s2 = 0" "scCur ?s2 = replicate 4096 0"
    by (simp_all add: newScanner_def scCur_def)
  ultimately show ?thesis
    using assms by (subst Scan.simps) (simp add: scData_def newScanner_def scCur_def Let_def)
qed

lemma Scan_line:
  assumes "scData s = l @ 10 # r" "10 \<notin> set l"
  shows "Scan s = (Some (Slice (length (scBufs s) - 1) (scStart s) (length (dropCR l))),
    s\<lparr>scStart := scStart s + length l + 1\<rparr>)"
proof -
  from assms(2) have "takeWhile (\<lambda>x. x \<noteq> 10) (l @ 10 # r) = l"
    by (induction l) auto
  with assms(1) show ?thesis
    by (subst Scan.simps) (simp add: Let_def)
qed

lemma Scan_ready_line:
  assumes "drop p c = l @ 10 # r" "10 \<notin> set l"
  shows "Scan (ready c p) = (Some (Slice 1 p (length (dropCR l))), ready c (p + length l + 1))"
  using Scan_line [of "ready c p" l r] assms by (simp add: scData_ready) (simp add: ready_def)

lemma Scan_ready_end:
  assumes "c \<noteq> []" "length c \<le> 4096"
  shows "\<exists>s'. Scan (ready c (length c)) = (None, s') \<and> scBufs s' = scBufs (ready c 0)"
proof -
  let ?s = "ready c (length c)"
  obtain s2 where s2: "scGrow (scShift ?s) = Some s2" "scBufs s2 = scBufs ?s" "scRest s2 = []"
    "scStart s2 = scEnd s2"
    using assms
    by (cases "length c = 4096 \<or> 2048 < length c")
      (auto simp: scGrow_def scShift_def scCur_def scData_def ready_def Let_def)
  then have "scRead s2 = s2\<lparr>scEof := True\<rparr>" by (simp add: scRead_def Let_def)
  moreover from s2 have "scData (s2\<lparr>scEof := True\<rparr>) = []" by (simp add: scData_def)
  then have "Scan (s2\<lparr>scEof := True\<rparr>) = (None, s2\<lparr>scEof := True\<rparr>)"
    by (subst Scan.simps) (simp add: Let_def)
  moreover have "scData ?s = []" "\<not> scEof ?s"
    by (simp_all add: scData_ready, simp add: ready_def)
  ultimately have "Scan ?s = (None, s2\<lparr>scEof := True\<rparr>)"
    using s2 by (subst Scan.simps) (simp add: Let_def)
  with s2 show ?thesis by (simp add: ready_def)
qed

lemma dropCR_prefix: "\<exists>x. l = dropCR l @ x"
  by (metis append_Nil2 append_butlast_last_id dropCR_def)

lemma derefAll_upd [simp]:
  "derefAll bufs (d(k \<mapsto> c)) = (derefAll bufs d)(k \<mapsto> deref bufs c)"
  "derefAll bufs (d(k := None)) = (derefAll bufs d)(k := None)"
  by (auto simp: derefAll_def)

lemma derefAll_Own [simp]: "derefAll bufs (\<lambda>k. map_option Own (m k)) = m"
  by (auto simp: derefAll_def option.map_comp o_def option.map_ident)

lemma applyLine_replay:
  assumes "drop p c = l @ 10 # r"
    and "bufs = scBufs (ready c 0)"
  shows "derefAll bufs (applyLine bufs (Slice 1 p (length (dropCR l))) d) =
    replayLine (derefAll bufs d) (dropCR l)"
proof -
  obtain x where x: "l = dropCR l @ x" using dropCR_prefix by blast
  have pc: "p \<le> length c"
    using assms(1) by (metis append_is_Nil_conv drop_all linear list.simps(3))
  have dp: "drop p (bufs ! 1) = dropCR l @ x @ 10 # r @ replicate (4096 - length c) 0"
    using assms x pc by (simp add: ready_def)
  then have line: "deref bufs (Slice 1 p (length (dropCR l))) = dropCR l"
    by simp
  have v: "deref bufs (Slice 1 (p + length k + 2) (length v)) = v"
    if "splitLine (dropCR l) = [k, v]" for k v
  proof -
    have "drop p (bufs ! 1) = (k @ [9, 9]) @ v @ x @ 10 # r @ replicate (4096 - length c) 0"
      using dp splitLine_two [OF that] by simp
    moreover have "drop (p + length k + 2) (bufs ! 1) = drop (length (k @ [9, 9])) (drop p (bufs ! 1))"
      by (simp add: add.commute)
    ultimately show ?thesis by simp
  qed
  show ?thesis
    unfolding applyLine_def replayLine_def line
    by (auto split: list.splits simp del: deref.simps simp: v [simplified])
qed

lemma loadLines_ready:
  assumes "c \<noteq> []" "length c \<le> 4096"
    and "drop p c = concat (map (\<lambda>l. l @ [10]) ls)" "p \<le> length c" "\<forall>l \<in> set ls. 10 \<notin> set l"
  shows "\<exists>s' d'. loadLines (ready c p) d = (s', d') \<and> scBufs s' = scBufs (ready c 0) \<and>
    derefAll (scBufs s') d' = foldl replayLine (derefAll (scBufs s') d) (map dropCR ls)"
  using assms(3-)
proof (induction ls arbitrary: p d)
  case Nil
  then have "p = length c" by simp
  with Scan_ready_end [OF assms(1,2)] show ?case
    by (auto simp: loadLines.simps)
next
  case (Cons l ls)
  let ?B = "scBufs (ready c 0)"
  let ?q = "p + length l + 1"
  let ?d = "applyLine ?B (Slice 1 p (length (dropCR l))) d"
  from Cons.prems have dp: "drop p c = l @ 10 # concat (map (\<lambda>l. l @ [10]) ls)" by simp
  have "drop ?q c = drop (Suc (length l)) (drop p c)" by (simp add: add.commute)
  with dp have dq: "drop ?q c = concat (map (\<lambda>l. l @ [10]) ls)" by simp
  have "length (drop p c) = length l + 1 + length (concat (map (\<lambda>l. l @ [10]) ls))"
    using dp by simp
  then have q: "?q \<le> length c" by simp
  have step: "loadLines (ready c p) d = loadLines (ready c ?q) ?d"
    using Scan_ready_line [OF dp] Cons.prems(3)
    by (subst loadLines.simps) (simp add: ready_def)
  obtain s' d' where IH: "loadLines (ready c ?q) ?d = (s', d')" "scBufs s' = ?B"
    "derefAll (scBufs s') d' = foldl replayLine (derefAll (scBufs s') ?d) (map dropCR ls)"
    using Cons.IH [OF dq q, of ?d] Cons.prems(3) by auto
  have "derefAll ?B ?d = replayLine (derefAll ?B d) (dropCR l)"
    by (rule applyLine_replay [OF dp]) simp
  with IH step show ?case by simp
qed

lemma loadFromWAL_small:
  assumes "walFile kv = concat (map (\<lambda>l. l @ [10]) ls)" "\<forall>l \<in> set ls. 10 \<notin> set l"
    and "length (walFile kv) \<le> 4096"
  shows "loadFromWAL kv = kv\<lparr>kvData := foldl replayLine (kvData kv) (map dropCR ls)\<rparr>"
proof (cases ls)
  case Nil
  then have "Scan (newScanner (walFile kv)) = (None, (newScanner [])\<lparr>scBufs := [[], replicate 4096 0], scEof := True\<rparr>)"
    using assms(1)
    by (subst Scan.simps, subst Scan.simps)
      (simp add: newScanner_def scData_def scCur_def scGrow_def scShift_def scRead_def Let_def)
  with Nil show ?thesis by (simp add: loadFromWAL_def loadLines.simps)
next
  case (Cons l ls')
  let ?c = "walFile kv"
  have c: "?c \<noteq> []" using assms(1) Cons by simp
  have "loadLines (newScanner ?c) d = loadLines (ready ?c 0) d" for d
    using Scan_new [OF c assms(3)] by (simp add: loadLines.simps)
  moreover obtain s' d' where "loadLines (ready ?c 0) (\<lambda>k. map_option Own (kvData kv k)) = (s', d')"
    "derefAll (scBufs s') d' =
      foldl replayLine (derefAll (scBufs s') (\<lambda>k. map_option Own (kvData kv k))) (map dropCR ls)"
    using loadLines_ready [OF c assms(3), of 0 ls "\<lambda>k. map_option Own (kvData kv k)"] assms(1,2)
    by auto
  ultimately show ?thesis by (simp add: loadFromWAL_def)
qed

subsection \<open>Crash recovery\<close>

definition safe_key :: "string \<Rightarrow> bool" where
  "safe_key k \<longleftrightarrow> 9 \<notin> set (str_bytes k) \<and> 10 \<notin> set (str_bytes k)"

definition safe_val :: "bytes \<Rightarrow> bool" where
  "safe_val v \<longleftrightarrow> v \<noteq> [] \<and> 10 \<notin> set v \<and> splitLine v = [v] \<and> last v \<noteq> 13"

definition snapData :: "snapshot \<Rightarrow> (string \<rightharpoonup> bytes)" where
  "snapData sn = (case sn of Snapshot m \<Rightarrow> m | _ \<Rightarrow> Map.empty)"

definition wal_lines :: "KVStore \<Rightarrow> bytes list \<Rightarrow> bool" where
  "wal_lines kv ls \<longleftrightarrow>
     walFile kv = concat (map (\<lambda>l. l @ [10]) ls) \<and> (\<forall>l \<in> set ls. 10 \<notin> set l) \<and>
     kvData kv = foldl replayLine (snapData (lastState kv)) (map dropCR ls)"


lemma crashRestart_small:
  assumes "wal_lines kv ls" "length (walFile kv) \<le> 4096"
  shows "kvData (crashRestart kv) = kvData kv"
proof -
  let ?k0 = "loadFromLastState
    \<lparr>kvData = Map.empty, walFile = walFile kv, lastState = lastState kv, walPlan = []\<rparr>"
  have "walFile ?k0 = walFile kv" "kvData ?k0 = snapData (lastState kv)"
    by (auto simp: loadFromLastState_def snapData_def split: snapshot.splits)
  with assms loadFromWAL_small [of ?k0 ls] show ?thesis
    by (simp add: crashRestart_def NewKVStore_def wal_lines_def)
qed











lemma NewKVStore_empty: "NewKVStore NoSnapshot [] =
    \<lparr>kvData = Map.empty, walFile = [], lastState = NoSnapshot, walPlan = []\<rparr>"
  using loadFromWAL_small [of "\<lparr>kvData = Map.empty, walFile = [], lastState = NoSnapshot, walPlan = []\<rparr>" "[]"]
  by (simp add: NewKVStore_def loadFromLastState_def loadFromWAL_def Let_def split: prod.splits)





subsection \<open>What a restart does not restore\<close>



lemma Int64ToBytes_10: "Int64ToBytes 10 = replicate 7 0 @ [10]"
  by code_simp

lemma splitLine_replicate: "x \<noteq> 9 \<Longrightarrow> splitLine (replicate n x) = [replicate n x]"
proof (induction n)
  case (Suc n)
  then show ?case by (cases n) simp_all
qed simp

text \<open>A binary value does not survive a restart. The eight bytes of the integer 10, stored by
  \<open>Set\<close> under any key the line format can hold, end at the newline byte they contain: after a
  restart the value has seven bytes, on which \<open>BytesToInt64\<close> panics.\<close>

theorem kv_binary_value_truncated:
  assumes "safe_key k" "length k \<le> 4000"
  shows "kvData (crashRestart (fst (kvSet (NewKVStore NoSnapshot []) k (Int64ToBytes 10)))) k =
      Some (replicate 7 0) \<and>
    is_panic (BytesToInt64 (replicate 7 0))"
proof
  let ?kv = "fst (kvSet (NewKVStore NoSnapshot []) k (Int64ToBytes 10))"
  let ?l = "str_bytes k @ 9 # 9 # replicate 7 0"
  have w: "walFile ?kv = concat (map (\<lambda>l. l @ [10]) [?l, []])"
    by (simp add: NewKVStore_empty kvSet_def writeEntry_def walEntry_def splitChar_def Int64ToBytes_10)
  have ls: "\<forall>l \<in> set [?l, []]. 10 \<notin> set l" "length (walFile ?kv) \<le> 4096"
    using assms by (auto simp: safe_key_def w str_bytes_def)
  have sp: "splitLine ?l = [str_bytes k, replicate 7 0]"
    by (rule splitLine_entry) (use assms splitLine_replicate [of 0 7] in \<open>simp_all add: safe_key_def\<close>)
  have dl: "dropCR ?l = ?l" "dropCR [] = []"
    by (simp_all add: dropCR_def)
  have "wal_lines (?kv\<lparr>kvData := [k \<mapsto> replicate 7 0]\<rparr>) [?l, []]"
    unfolding wal_lines_def
    using w ls(1) sp
    by (simp add: dl replayLine_def snapData_def NewKVStore_empty kvSet_def writeEntry_def)
  from crashRestart_small [OF this] ls(2)
  show "kvData (crashRestart ?kv) k = Some (replicate 7 0)"
    by (simp add: crashRestart_def)
  show "is_panic (BytesToInt64 (replicate 7 0))"
    by (simp add: BytesToInt64_def BytesToUint64_def)
qed

theorem kv_binary_value_truncated_witness:
  "kvData (crashRestart (fst (kvSet (NewKVStore NoSnapshot []) ''mark'' (Int64ToBytes 10)))) ''mark'' =
     Some (replicate 7 0)"
  using kv_binary_value_truncated [of "''mark''"]
  by (simp add: safe_key_def str_bytes_def byte_of_char_def)

text \<open>
  Two lines of equal length that together exceed the first array: reading the second one moves it
  over the first one, whose value is still referred to by the map.
\<close>

lemma Scan_alias_first:
  assumes "10 \<notin> set l1" "length l1 < 4096" "4096 < length (l1 @ 10 # r)"
    and w_def: "w = l1 @ 10 # r"
  shows "Scan (newScanner w) = (Some (Slice 1 0 (length (dropCR l1))),
     \<lparr>scBufs = [[], take 4096 w], scStart = length l1 + 1, scEnd = 4096, scRest = drop 4096 w, scEof = False\<rparr>)"
proof -
  let ?s2 = "newScanner w\<lparr>scBufs := [[], replicate 4096 0]\<rparr>"
  let ?s3 = "\<lparr>scBufs = [[], take 4096 w], scStart = 0, scEnd = 4096, scRest = drop 4096 w, scEof = False\<rparr>"
  have w: "w \<noteq> []" "4096 < length w" using assms by (auto simp: w_def)
  have "scGrow (scShift (newScanner w)) = Some ?s2"
    by (simp add: scGrow_def scShift_def scCur_def scData_def newScanner_def Let_def)
  moreover have "scRead ?s2 = ?s3"
    using w by (simp add: scRead_def scCur_def newScanner_def Let_def min_def)
  moreover have "scRest ?s2 = w" "scEnd ?s2 = 0" "scCur ?s2 = replicate 4096 0"
    by (simp_all add: newScanner_def scCur_def)
  ultimately have a: "Scan (newScanner w) = Scan ?s3"
    by (subst Scan.simps) (simp add: scData_def newScanner_def scCur_def Let_def)
  have d: "scData ?s3 = l1 @ 10 # take (4096 - Suc (length l1)) r"
    using assms(2) by (simp add: scData_def scCur_def w_def take_Cons')
  show ?thesis
    unfolding a Scan_line [OF d assms(1)] by simp
qed

lemma Scan_alias_second:
  assumes "10 \<notin> set l2" "length l2 = n" "2048 \<le> n" "n < 4096" "length b = 4096"
    and b: "drop (n + 1) b = take (4095 - n) l2"
    and s: "s = \<lparr>scBufs = [[], b], scStart = n + 1, scEnd = 4096,
       scRest = drop (4095 - n) l2 @ [10], scEof = False\<rparr>"
  shows "\<exists>b'. take (n + 1) b' = l2 @ [10] \<and> length b' = 4096 \<and>
    Scan s = (Some (Slice 1 0 (length (dropCR l2))),
     \<lparr>scBufs = [[], b'], scStart = n + 1, scEnd = n + 1, scRest = [], scEof = False\<rparr>)"
proof -
  let ?d = "take (4095 - n) l2"
  let ?b1 = "?d @ drop (4095 - n) b"
  let ?s1 = "\<lparr>scBufs = [[], ?b1], scStart = 0, scEnd = 4095 - n,
       scRest = drop (4095 - n) l2 @ [10], scEof = False\<rparr>"
  let ?b' = "l2 @ 10 # drop (n + 1) ?b1"
  let ?s2 = "\<lparr>scBufs = [[], ?b'], scStart = 0, scEnd = n + 1, scRest = [], scEof = False\<rparr>"
  have ld: "length ?d = 4095 - n" using assms by simp
  have d: "scData s = ?d" using assms by (simp add: s scData_def scCur_def)
  have len1: "length ?b1 = 4096" using ld assms by simp
  have "scShift s = ?s1"
    unfolding scShift_def d using assms ld by (simp add: s scCur_def)
  moreover have "scGrow ?s1 = Some ?s1"
    unfolding scGrow_def using len1 by (simp add: scCur_def)
  moreover have "scRead ?s1 = ?s2"
  proof -
    have m: "min (4096 - (4095 - n)) (length (drop (4095 - n) l2 @ [10])) = n + 1 - (4095 - n)"
      using assms by simp
    have "drop (4095 - n + (n + 1 - (4095 - n))) ?b1 = drop (n + 1) ?b1"
      using assms by simp
    moreover have "take (4095 - n) ?b1 = ?d" using ld by simp
    moreover have "take (n + 1 - (4095 - n)) (drop (4095 - n) l2 @ [10]) = drop (4095 - n) l2 @ [10]"
      using assms by simp
    ultimately show ?thesis
      unfolding scRead_def using m len1 assms(2-4)
      by (simp add: scCur_def Let_def)
  qed
  moreover have "\<not> (scRest ?s1 \<noteq> [] \<and> length (scCur ?s1) \<le> scEnd ?s1)"
    using len1 assms by (simp add: scCur_def)
  moreover have "10 \<notin> set ?d" "\<not> scEof s" using assms set_take_subset by (fastforce, simp add: s)
  ultimately have a: "Scan s = Scan ?s2"
    by (subst Scan.simps) (simp add: d Let_def)
  have d2: "scData ?s2 = l2 @ 10 # []" using assms by (simp add: scData_def scCur_def)
  have "length ?b' = 4096" using len1 assms by simp
  moreover have "take (n + 1) ?b' = l2 @ [10]" using assms by simp
  moreover have "Scan s = (Some (Slice 1 0 (length (dropCR l2))),
     \<lparr>scBufs = [[], ?b'], scStart = n + 1, scEnd = n + 1, scRest = [], scEof = False\<rparr>)"
    unfolding a Scan_line [OF d2 assms(1)] using assms by simp
  ultimately show ?thesis by blast
qed

lemma restart_no_snapshot:
  assumes "lastState kv = NoSnapshot" "loadLines (newScanner (walFile kv)) Map.empty = (s, d)"
  shows "kvData (crashRestart kv) = derefAll (scBufs s) d"
  using assms by (simp add: crashRestart_def NewKVStore_def loadFromLastState_def loadFromWAL_def)

lemma Scan_alias_stop:
  assumes "2048 \<le> n" "n < 4096" "length b = 4096"
    and s: "s = \<lparr>scBufs = [[], b], scStart = n + 1, scEnd = n + 1, scRest = [], scEof = False\<rparr>"
  shows "\<exists>s'. Scan s = (None, s') \<and> scBufs s' = [[], b]"
proof -
  let ?s1 = "\<lparr>scBufs = [[], b], scStart = 0, scEnd = 0, scRest = [], scEof = False\<rparr>"
  have "scShift s = ?s1" "scGrow ?s1 = Some ?s1" "scData s = []"
    using assms(1-3) by (simp_all add: s scShift_def scGrow_def scCur_def scData_def)
  moreover have "Scan (?s1\<lparr>scEof := True\<rparr>) = (None, ?s1\<lparr>scEof := True\<rparr>)"
    by (subst Scan.simps) (simp add: scData_def Let_def)
  ultimately have "Scan s = (None, ?s1\<lparr>scEof := True\<rparr>)"
    using assms(3) by (subst Scan.simps) (simp add: scRead_def Let_def, simp add: s)
  then show ?thesis by simp
qed

lemma loadLines_alias:
  assumes l: "10 \<notin> set l1" "10 \<notin> set l2" "length l1 = n" "length l2 = n" "2048 \<le> n" "n < 4096"
    and nocr: "dropCR l1 = l1" "dropCR l2 = l2"
    and w: "w = l1 @ 10 # l2 @ [10]"
    and s1: "splitLine l1 = [k1, v1]" and s2: "splitLine l2 = [k2, v2]"
    and ne: "v1 \<noteq> []" "v2 \<noteq> []"
  shows "\<exists>s' b'. take (n + 1) b' = l2 @ [10] \<and> scBufs s' = [[], b'] \<and>
    loadLines (newScanner w) d =
      (s', d(bytes_str k1 \<mapsto> Slice 1 (length k1 + 2) (length v1),
             bytes_str k2 \<mapsto> Slice 1 (length k2 + 2) (length v2)))"
proof -
  let ?b = "take 4096 w"
  let ?t = "\<lparr>scBufs = [[], ?b], scStart = n + 1, scEnd = 4096, scRest = drop 4096 w, scEof = False\<rparr>"
  have first: "Scan (newScanner w) = (Some (Slice 1 0 n), ?t)"
    using Scan_alias_first [of l1 "l2 @ [10]" w] l nocr w by simp
  have lenb: "length ?b = 4096" using w l by simp
  have db: "drop (n + 1) ?b = take (4095 - n) l2" using w l by (simp add: take_Cons')
  have rest: "drop 4096 w = drop (4095 - n) l2 @ [10]" using w l by (simp add: drop_Cons')
  obtain b' where b': "take (n + 1) b' = l2 @ [10]" "length b' = 4096"
    "Scan ?t = (Some (Slice 1 0 n),
       \<lparr>scBufs = [[], b'], scStart = n + 1, scEnd = n + 1, scRest = [], scEof = False\<rparr>)"
    using Scan_alias_second [OF l(2,4,5,6) lenb db refl] nocr l unfolding rest by auto
  obtain s' where s': "Scan \<lparr>scBufs = [[], b'], scStart = n + 1, scEnd = n + 1, scRest = [], scEof = False\<rparr>
      = (None, s')" "scBufs s' = [[], b']"
    using Scan_alias_stop [OF l(5,6) b'(2) refl] by auto
  have "take n ?b = l1" using w l by simp
  then have a1: "applyLine [[], ?b] (Slice 1 0 n) d = d(bytes_str k1 \<mapsto> Slice 1 (length k1 + 2) (length v1))"
    using s1 ne by (simp add: applyLine_def)
  have "take n b' = l2"
    using arg_cong [OF b'(1), of "take n"] l by simp
  then have a2: "applyLine [[], b'] (Slice 1 0 n) d' = d'(bytes_str k2 \<mapsto> Slice 1 (length k2 + 2) (length v2))" for d'
    using s2 ne by (simp add: applyLine_def)
  have "loadLines (newScanner w) d =
      (s', d(bytes_str k1 \<mapsto> Slice 1 (length k1 + 2) (length v1),
             bytes_str k2 \<mapsto> Slice 1 (length k2 + 2) (length v2)))"
    apply (subst loadLines.simps)
    apply (simp only: first prod.case option.case scanner.select_convs a1)
    apply (subst loadLines.simps)
    apply (simp only: b'(3) prod.case option.case scanner.select_convs a2)
    apply (subst loadLines.simps)
    apply (simp only: s'(1) prod.case option.case)
    done
  with b'(1) s'(2) show ?thesis by blast
qed

text \<open>C8: recovered values share the scanner's array. Two acknowledged \<open>Set\<close> calls with keys of
  equal length and values of equal length, whose lines do not fit the first array of 4096 bytes
  together: after a restart the first key holds the value of the second one, because the map keeps
  slices of the array that the scanner reuses.\<close>

theorem kv_recovery_aliases:
  assumes "safe_key k1" "safe_key k2" "k1 \<noteq> k2" "safe_val v1" "safe_val v2"
    and "length k1 = length k2" "length v1 = length v2"
    and "2046 \<le> length k1 + length v1" "length k1 + length v1 < 4094"
  shows "kvData (crashRestart (fst (kvSet (fst (kvSet (NewKVStore NoSnapshot []) k1 v1)) k2 v2))) =
    [k1 \<mapsto> v2, k2 \<mapsto> v2]"
proof -
  let ?l1 = "str_bytes k1 @ 9 # 9 # v1" and ?l2 = "str_bytes k2 @ 9 # 9 # v2"
  let ?kv = "fst (kvSet (fst (kvSet (NewKVStore NoSnapshot []) k1 v1)) k2 v2)"
  let ?n = "length k1 + length v1 + 2"
  have len [simp]: "length (str_bytes k) = length k" for k by (simp add: str_bytes_def)
  have w: "walFile ?kv = ?l1 @ 10 # ?l2 @ [10]" and ls: "lastState ?kv = NoSnapshot"
    by (simp_all add: NewKVStore_empty kvSet_def writeEntry_def walEntry_def splitChar_def)
  have nl: "10 \<notin> set ?l1" "10 \<notin> set ?l2" and cr: "dropCR ?l1 = ?l1" "dropCR ?l2 = ?l2"
    using assms by (auto simp: safe_key_def safe_val_def dropCR_def)
  have sp: "splitLine ?l1 = [str_bytes k1, v1]" "splitLine ?l2 = [str_bytes k2, v2]"
    by (rule splitLine_entry; use assms in \<open>simp add: safe_key_def safe_val_def\<close>)+
  obtain s' b' where b': "take (?n + 1) b' = ?l2 @ [10]" "scBufs s' = [[], b']"
    "loadLines (newScanner (walFile ?kv)) Map.empty =
      (s', [k1 \<mapsto> Slice 1 (length k1 + 2) (length v1), k2 \<mapsto> Slice 1 (length k2 + 2) (length v2)])"
    using loadLines_alias [OF nl _ _ _ _ cr w sp, of ?n Map.empty] assms
    by (auto simp: safe_val_def)
  have "take (length v2) (drop (length k2 + 2) b') = take (length v2) (drop (length k2 + 2) (take (?n + 1) b'))"
    using assms by (simp add: drop_take)
  also have "\<dots> = v2" unfolding b'(1) by simp
  finally have "take (length v2) (drop (length k2 + 2) b') = v2" .
  then show ?thesis
    unfolding restart_no_snapshot [OF ls b'(3)] using b'(2) assms(6,7)
    by (simp add: derefAll_def fun_eq_iff)
qed

theorem kv_recovery_aliases_witness:
  "kvData (crashRestart (fst (kvSet (fst (kvSet (NewKVStore NoSnapshot [])
     ''a'' (replicate 2100 49))) ''b'' (replicate 2100 50)))) ''a'' = Some (replicate 2100 50)"
proof -
  have "safe_val (replicate 2100 49)" "safe_val (replicate 2100 50)"
    by (simp_all add: safe_val_def last_replicate splitLine_replicate)
  moreover have "safe_key ''a''" "safe_key ''b''"
    by (simp_all add: safe_key_def str_bytes_def byte_of_char_def)
  ultimately show ?thesis
    using kv_recovery_aliases [of "''a''" "''b''" "replicate 2100 49" "replicate 2100 50"] by simp
qed

end
