(* ===== verification/DiskQueueChannels.thy ===== *)
theory DiskQueueChannels
  imports Prelude
begin

section \<open>Locks and channels of the disk queue\<close>

text \<open>
  Two interleavings of \<open>diskqueue.go\<close> that its sequential model does not show.

  \<^item> \<open>Empty\<close> takes the read lock, hands the request to the I/O loop and waits for the answer; the
    loop serves it with \<open>skipToNextRWFile\<close>, which takes the write lock. \<open>empty_step\<close> is the
    step relation of one caller, the loop, and any number of other readers of the lock.
  \<^item> \<open>Put\<close> sends its data to the loop and then waits on one response channel that all callers
    share. \<open>put_step\<close> is the step relation of the callers and the loop, with the capacity of the
    write channel as a parameter.
\<close>

subsection \<open>Empty\<close>

datatype caller = Idle | Locked | Waiting | Answered | Returned | Refused

datatype loop = AtSelect | WantsLock | HasLock | Answering | Stopped

record emptyState =
  caller :: caller
  loop :: loop
  others :: nat
  writer :: bool
  exitFlag :: bool

definition readers :: "emptyState \<Rightarrow> nat" where
  "readers s = others s + (if caller s \<in> {Locked, Waiting, Answered} then 1 else 0)"

text \<open>\<open>writer\<close> is the write lock, taken by the loop in \<open>skipToNextRWFile\<close> and by \<open>exit\<close>; \<open>others\<close>
  counts the further holders of the read lock. A caller that finds \<open>exitFlag\<close> set is \<open>Refused\<close>.\<close>

inductive empty_step :: "emptyState \<Rightarrow> emptyState \<Rightarrow> bool" where
  rlock: "caller s = Idle \<Longrightarrow> \<not> writer s \<Longrightarrow> empty_step s (s\<lparr>caller := Locked\<rparr>)"
| refuse: "caller s = Locked \<Longrightarrow> exitFlag s \<Longrightarrow> empty_step s (s\<lparr>caller := Refused\<rparr>)"
| request: "caller s = Locked \<Longrightarrow> \<not> exitFlag s \<Longrightarrow> loop s = AtSelect \<Longrightarrow>
    empty_step s (s\<lparr>caller := Waiting, loop := WantsLock\<rparr>)"
| lock: "loop s = WantsLock \<Longrightarrow> readers s = 0 \<Longrightarrow> \<not> writer s \<Longrightarrow>
    empty_step s (s\<lparr>loop := HasLock, writer := True\<rparr>)"
| unlock: "loop s = HasLock \<Longrightarrow> empty_step s (s\<lparr>loop := Answering, writer := False\<rparr>)"
| answer: "loop s = Answering \<Longrightarrow> caller s = Waiting \<Longrightarrow>
    empty_step s (s\<lparr>loop := AtSelect, caller := Answered\<rparr>)"
| runlock: "caller s = Answered \<Longrightarrow> empty_step s (s\<lparr>caller := Returned\<rparr>)"
| otherLock: "\<not> writer s \<Longrightarrow> empty_step s (s\<lparr>others := others s + 1\<rparr>)"
| otherUnlock: "0 < others s \<Longrightarrow> empty_step s (s\<lparr>others := others s - 1\<rparr>)"
| exitLock: "readers s = 0 \<Longrightarrow> \<not> writer s \<Longrightarrow> \<not> exitFlag s \<Longrightarrow>
    empty_step s (s\<lparr>writer := True, exitFlag := True\<rparr>)"
| exitLoop: "exitFlag s \<Longrightarrow> loop s = AtSelect \<Longrightarrow> empty_step s (s\<lparr>loop := Stopped\<rparr>)"
| exitUnlock: "writer s \<Longrightarrow> exitFlag s \<Longrightarrow> loop s = Stopped \<Longrightarrow> empty_step s (s\<lparr>writer := False\<rparr>)"

definition empty_start :: "nat \<Rightarrow> emptyState" where
  "empty_start n = \<lparr>caller = Idle, loop = AtSelect, others = n, writer = False, exitFlag = False\<rparr>"

definition empty_inv :: "emptyState \<Rightarrow> bool" where
  "empty_inv s \<longleftrightarrow>
     (caller s \<in> {Idle, Locked, Refused} \<and> loop s \<in> {AtSelect, Stopped}) \<or>
     (caller s = Waiting \<and> loop s = WantsLock)"

lemma empty_inv_step: "empty_step s s' \<Longrightarrow> empty_inv s \<Longrightarrow> empty_inv s'"
  by (induction rule: empty_step.induct) (auto simp: empty_inv_def readers_def)

lemma empty_stuck_step:
  "empty_step s s' \<Longrightarrow> caller s = Waiting \<and> loop s = WantsLock \<Longrightarrow> caller s' = Waiting \<and> loop s' = WantsLock"
  by (induction rule: empty_step.induct) (auto simp: readers_def)

lemma empty_inv_run: "empty_step\<^sup>*\<^sup>* (empty_start n) s \<Longrightarrow> empty_inv s"
  by (induction rule: rtranclp_induct) (simp add: empty_inv_def empty_start_def, rule empty_inv_step)

lemma empty_stuck_run:
  "empty_step\<^sup>*\<^sup>* s s' \<Longrightarrow> caller s = Waiting \<and> loop s = WantsLock \<Longrightarrow> caller s' = Waiting \<and> loop s' = WantsLock"
  by (induction rule: rtranclp_induct) (assumption, blast dest: empty_stuck_step)

text \<open>C11: \<open>Empty\<close> never empties the queue and returns. However many other callers hold the read lock
  and release it, in every reachable state the caller of \<open>Empty\<close> has no answer (it can only be turned
  away because the queue was closed before it came), and once it has handed over its request, the loop
  waits for ever for a write lock that the caller's own read lock excludes: no channel of the queue is
  served any more.\<close>

theorem empty_never_returns:
  assumes "empty_step\<^sup>*\<^sup>* (empty_start n) s"
  shows "caller s \<noteq> Answered \<and> caller s \<noteq> Returned \<and>
    (caller s = Waiting \<longrightarrow> (\<forall>s'. empty_step\<^sup>*\<^sup>* s s' \<longrightarrow> caller s' = Waiting \<and> loop s' = WantsLock))"
proof (intro conjI impI allI)
  note inv = empty_inv_run [OF assms, unfolded empty_inv_def]
  from inv show "caller s \<noteq> Answered" "caller s \<noteq> Returned" by auto
  fix s' assume "caller s = Waiting" and run: "empty_step\<^sup>*\<^sup>* s s'"
  with inv have "caller s = Waiting \<and> loop s = WantsLock" by simp
  with empty_stuck_run [OF run] show "caller s' = Waiting" "loop s' = WantsLock" by blast+
qed

theorem empty_never_returns_witness:
  "\<exists>s. empty_step\<^sup>*\<^sup>* (empty_start 0) s \<and> caller s = Waiting \<and>
    (\<forall>s'. empty_step\<^sup>*\<^sup>* s s' \<longrightarrow> caller s' = Waiting \<and> loop s' = WantsLock)"
proof -
  let ?s = "\<lparr>caller = Waiting, loop = WantsLock, others = 0, writer = False, exitFlag = False\<rparr>"
  have "empty_step (empty_start 0) ((empty_start 0)\<lparr>caller := Locked\<rparr>)"
    by (rule empty_step.rlock) (simp_all add: empty_start_def)
  moreover have "empty_step ((empty_start 0)\<lparr>caller := Locked\<rparr>) ?s"
    using empty_step.request [of "(empty_start 0)\<lparr>caller := Locked\<rparr>"] by (simp add: empty_start_def)
  ultimately have "empty_step\<^sup>*\<^sup>* (empty_start 0) ?s"
    by (intro rtranclp.rtrancl_into_rtrancl [OF rtranclp.rtrancl_into_rtrancl [OF rtranclp.rtrancl_refl]])
  note run = this
  have "caller ?s = Waiting" by simp
  with run empty_never_returns [OF run] show ?thesis by blast
qed

subsection \<open>Put\<close>

record putState =
  buffer :: "nat list"
  waiting :: "nat set"
  writing :: "nat option"
  got :: "(nat \<times> nat) list"

text \<open>\<open>(j, i)\<close> in \<open>got\<close>: caller \<open>j\<close> received the response to the data of caller \<open>i\<close>.\<close>

inductive put_step :: "nat \<Rightarrow> putState \<Rightarrow> putState \<Rightarrow> bool" for capacity :: nat where
  handover: "capacity = 0 \<Longrightarrow> i \<notin> waiting s \<Longrightarrow> writing s = None \<Longrightarrow>
    put_step capacity s (s\<lparr>waiting := insert i (waiting s), writing := Some i\<rparr>)"
| enqueue: "length (buffer s) < capacity \<Longrightarrow> i \<notin> waiting s \<Longrightarrow>
    put_step capacity s (s\<lparr>waiting := insert i (waiting s), buffer := buffer s @ [i]\<rparr>)"
| dequeue: "buffer s = i # rest \<Longrightarrow> writing s = None \<Longrightarrow>
    put_step capacity s (s\<lparr>buffer := rest, writing := Some i\<rparr>)"
| respond: "writing s = Some i \<Longrightarrow> j \<in> waiting s \<Longrightarrow>
    put_step capacity s (s\<lparr>writing := None, waiting := waiting s - {j}, got := got s @ [(j, i)]\<rparr>)"

definition put_start :: putState where
  "put_start = \<lparr>buffer = [], waiting = {}, writing = None, got = []\<rparr>"

definition put_inv :: "putState \<Rightarrow> bool" where
  "put_inv s \<longleftrightarrow> buffer s = [] \<and> waiting s = set_option (writing s) \<and> (\<forall>(j, i) \<in> set (got s). j = i)"

lemma put_inv_step: "put_step 0 s s' \<Longrightarrow> put_inv s \<Longrightarrow> put_inv s'"
  by (induction rule: put_step.induct) (auto simp: put_inv_def)

text \<open>C12: with the default unbuffered write channel every caller of \<open>Put\<close> receives the response to
  its own data. With a buffered channel it need not: two callers whose data wait together share the
  response channel, and the second one can take the response to the first one's data.\<close>

theorem put_response_matches:
  "(\<forall>s. (put_step 0)\<^sup>*\<^sup>* put_start s \<longrightarrow> (\<forall>(j, i) \<in> set (got s). j = i)) \<and>
   (1 < n \<longrightarrow> (\<exists>s. (put_step n)\<^sup>*\<^sup>* put_start s \<and> (2, 1) \<in> set (got s)))"
proof (intro conjI allI impI)
  fix s assume "(put_step 0)\<^sup>*\<^sup>* put_start s"
  then have "put_inv s"
    by (induction rule: rtranclp_induct) (simp add: put_inv_def put_start_def, rule put_inv_step)
  then show "\<forall>(j, i) \<in> set (got s). j = i" by (simp add: put_inv_def)
next
  assume n: "1 < n"
  let ?s1 = "\<lparr>buffer = [1], waiting = {1}, writing = None, got = []\<rparr>"
  let ?s2 = "\<lparr>buffer = [1, 2], waiting = {1, 2}, writing = None, got = []\<rparr>"
  let ?s3 = "\<lparr>buffer = [2], waiting = {1, 2}, writing = Some 1, got = []\<rparr>"
  let ?s4 = "\<lparr>buffer = [2], waiting = {1}, writing = None, got = [(2, 1)]\<rparr>"
  have "put_step n put_start ?s1" using put_step.enqueue [of put_start n 1] n by (simp add: put_start_def)
  moreover have "put_step n ?s1 ?s2" using put_step.enqueue [of ?s1 n 2] n by (simp add: insert_commute)
  moreover have "put_step n ?s2 ?s3" using put_step.dequeue [of ?s2 1 "[2]" n] by simp
  moreover have "put_step n ?s3 ?s4"
    using put_step.respond [of ?s3 1 2 n] by (simp add: insert_Diff_if)
  ultimately have "(put_step n)\<^sup>*\<^sup>* put_start ?s4"
    by (blast intro: converse_rtranclp_into_rtranclp)
  then show "\<exists>s. (put_step n)\<^sup>*\<^sup>* put_start s \<and> (2, 1) \<in> set (got s)" by (intro exI [of _ ?s4]) simp
qed

theorem put_response_matches_witness:
  "\<exists>s. (put_step 2)\<^sup>*\<^sup>* put_start s \<and> (2, 1) \<in> set (got s)"
  using put_response_matches [of 2] by simp

end
