(* ===== verification/FileIO.thy ===== *)
theory FileIO
  imports Codec
begin

section \<open>Segment files\<close>

text \<open>
  What the disk queue uses of Go's file and buffered-reader operations, and the format of a segment
  file.

  \<^item> A file is its content. \<open>writeAt\<close> is a write at the offset of the handle.
  \<^item> \<open>breader\<close> is a \<open>bufio.Reader\<close> on an open file: the offset of the file handle and the
    bytes already read from the file and not yet handed out. \<open>ReadFull\<close> is \<open>io.ReadFull\<close> on
    such a reader, with the reader's array of 4096 bytes: bytes that were buffered are never read
    from the file again. A short result is the end of the file.
  \<^item> A message is written as its length, an \<open>int32\<close> in big-endian order, and its bytes.
\<close>

definition writeAt :: "bytes \<Rightarrow> nat \<Rightarrow> bytes \<Rightarrow> bytes" where
  "writeAt f off b = take off f @ replicate (off - length f) 0 @ b @ drop (off + length b) f"

record breader =
  rdOff :: nat
  rdBuf :: bytes

definition NewReader :: "nat \<Rightarrow> breader" where
  "NewReader off = \<lparr>rdOff = off, rdBuf = []\<rparr>"

function ReadFull :: "nat \<Rightarrow> bytes \<Rightarrow> breader \<Rightarrow> bytes \<times> breader" where
  "ReadFull n f r =
     (if n = 0 then ([], r)
      else if rdBuf r \<noteq> [] then
        let k = min n (length (rdBuf r));
            (b, r') = ReadFull (n - k) f (r\<lparr>rdBuf := drop k (rdBuf r)\<rparr>)
        in (take k (rdBuf r) @ b, r')
      else if length f \<le> rdOff r then ([], r)
      else if 4096 \<le> n then
        let k = min n (length f - rdOff r);
            (b, r') = ReadFull (n - k) f (r\<lparr>rdOff := rdOff r + k\<rparr>)
        in (take k (drop (rdOff r) f) @ b, r')
      else
        let chunk = take 4096 (drop (rdOff r) f)
        in ReadFull n f \<lparr>rdOff = rdOff r + length chunk, rdBuf = chunk\<rparr>)"
  by pat_completeness auto
termination
  by (relation "measures [\<lambda>(n, f, r). n, \<lambda>(n, f, r). if rdBuf r = [] then 1 else 0]") auto

declare ReadFull.simps [simp del]

text \<open>The reader stands at position \<open>p\<close> and what it has buffered is what the file holds there.\<close>

definition coherent :: "nat \<Rightarrow> bytes \<Rightarrow> breader \<Rightarrow> bool" where
  "coherent p f r \<longleftrightarrow> rdOff r = p + length (rdBuf r) \<and> rdBuf r = take (length (rdBuf r)) (drop p f)"

lemma coherent_New [simp]: "coherent p f (NewReader p)"
  by (simp add: coherent_def NewReader_def)

lemma coherent_len: "coherent p f r \<Longrightarrow> length (rdBuf r) \<le> length f - p"
  by (metis coherent_def length_drop length_take min.cobounded1)

lemma coherent_take:
  assumes "coherent p f r" "k \<le> length (rdBuf r)"
  shows "take k (rdBuf r) = take k (drop p f)"
proof -
  have "take k (rdBuf r) = take k (take (length (rdBuf r)) (drop p f))"
    using assms(1) by (simp add: coherent_def)
  also have "\<dots> = take k (drop p f)" unfolding take_take using assms(2) by (simp add: min_def)
  finally show ?thesis .
qed

lemma coherent_drop:
  assumes "coherent p f r" "k \<le> length (rdBuf r)"
  shows "coherent (p + k) f (r\<lparr>rdBuf := drop k (rdBuf r)\<rparr>)"
proof -
  have "drop k (rdBuf r) = drop k (take (length (rdBuf r)) (drop p f))"
    using assms(1) by (simp add: coherent_def)
  also have "\<dots> = take (length (rdBuf r) - k) (drop (p + k) f)"
    by (simp add: drop_take add.commute)
  finally have "drop k (rdBuf r) = take (length (rdBuf r) - k) (drop (p + k) f)" .
  moreover have "rdOff r = p + length (rdBuf r)" using assms(1) by (simp add: coherent_def)
  ultimately show ?thesis
    unfolding coherent_def using assms(2) coherent_len [OF assms(1)] by simp
qed

lemma ReadFull_coherent:
  assumes "coherent p f r"
  shows "\<exists>r'. ReadFull n f r = (take n (drop p f), r') \<and> coherent (p + min n (length f - p)) f r'"
  using assms
proof (induction n f r arbitrary: p rule: ReadFull.induct)
  case (1 n f r)
  show ?case
  proof (cases "n = 0")
    case True
    with 1(4) show ?thesis by (simp add: ReadFull.simps)
  next
    case n: False
    consider (buf) "rdBuf r \<noteq> []" | (eof) "rdBuf r = []" "length f \<le> rdOff r"
      | (direct) "rdBuf r = []" "\<not> length f \<le> rdOff r" "4096 \<le> n"
      | (fill) "rdBuf r = []" "\<not> length f \<le> rdOff r" "\<not> 4096 \<le> n" by blast
    then show ?thesis
    proof cases
      case buf
      let ?k = "min n (length (rdBuf r))"
      have len: "length (rdBuf r) \<le> length f - p" by (rule coherent_len [OF 1(4)])
      have tk: "take ?k (rdBuf r) = take ?k (drop p f)" by (rule coherent_take [OF 1(4)]) simp
      obtain r' where r': "ReadFull (n - ?k) f (r\<lparr>rdBuf := drop ?k (rdBuf r)\<rparr>) =
          (take (n - ?k) (drop (p + ?k) f), r')"
        "coherent (p + ?k + min (n - ?k) (length f - (p + ?k))) f r'"
        using 1(1) [OF n buf refl coherent_drop [OF 1(4), of ?k]] by auto
      have "take n (drop p f) = take ?k (drop p f) @ take (n - ?k) (drop (p + ?k) f)"
        using take_add [of ?k "n - ?k" "drop p f"] by (simp add: add.commute)
      moreover have e: "p + ?k + min (n - ?k) (length f - (p + ?k)) = p + min n (length f - p)"
        using len by (auto simp: min_def)
      have "coherent (p + min n (length f - p)) f r'" using r'(2) unfolding e .
      ultimately show ?thesis
        using n buf r'(1) tk by (subst ReadFull.simps) (simp add: Let_def)
    next
      case eof
      then show ?thesis using 1(4) n by (subst ReadFull.simps) (auto simp: coherent_def)
    next
      case direct
      let ?k = "min n (length f - p)"
      have p: "rdOff r = p" using 1(4) direct by (simp add: coherent_def)
      have "coherent (p + ?k) f (r\<lparr>rdOff := p + ?k\<rparr>)" using direct by (simp add: coherent_def)
      then obtain r' where "ReadFull (n - ?k) f (r\<lparr>rdOff := p + ?k\<rparr>) =
          (take (n - ?k) (drop (p + ?k) f), r')"
        "coherent (p + ?k + min (n - ?k) (length f - (p + ?k))) f r'"
        using 1(2) [OF n _ direct(2,3) refl, of "p + ?k"] direct p by auto
      moreover have "take (n - ?k) (drop (p + ?k) f) = []" by (auto simp: min_def)
      moreover have "p + ?k + min (n - ?k) (length f - (p + ?k)) = p + ?k" by (auto simp: min_def)
      moreover have "take ?k (drop p f) = take n (drop p f)" by (simp add: min_def)
      ultimately show ?thesis
        using n direct p by (subst ReadFull.simps) (simp add: Let_def)
    next
      case fill
      let ?c = "take 4096 (drop (rdOff r) f)"
      have p: "rdOff r = p" using 1(4) fill by (simp add: coherent_def)
      have "coherent p f \<lparr>rdOff = rdOff r + length ?c, rdBuf = ?c\<rparr>"
        by (simp add: coherent_def p min_def)
      from 1(3) [OF n _ fill(2,3) refl this] fill show ?thesis
        using n by (subst ReadFull.simps) (simp add: Let_def)
    qed
  qed
qed

lemma writeAt_end: "writeAt f (length f) b = f @ b"
  by (simp add: writeAt_def)

lemma coherent_extend:
  assumes "coherent p f r" "p \<le> length f"
  shows "coherent p (f @ g) r"
proof -
  have "take (length (rdBuf r)) (drop p (f @ g)) = take (length (rdBuf r)) (drop p f)"
    using coherent_len [OF assms(1)] assms(2) by simp
  with assms(1) show ?thesis by (simp add: coherent_def)
qed

subsection \<open>Messages\<close>

definition lenPrefix :: "int \<Rightarrow> bytes" where
  "lenPrefix n = be_bytes 4 n"

definition prefixLen :: "bytes \<Rightarrow> int" where
  "prefixLen b = to_int32 (be_value b)"

definition encMsg :: "bytes \<Rightarrow> bytes" where
  "encMsg m = lenPrefix (int (length m)) @ m"

definition encMsgs :: "bytes list \<Rightarrow> bytes" where
  "encMsgs ms = concat (map encMsg ms)"

lemma length_lenPrefix [simp]: "length (lenPrefix n) = 4"
  by (simp add: lenPrefix_def)

lemma prefixLen_lenPrefix: "prefixLen (lenPrefix n) = to_int32 n"
  using to_int32_mod [of n] by (simp add: prefixLen_def lenPrefix_def be_value_be_bytes)

lemma length_encMsg [simp]: "length (encMsg m) = 4 + length m"
  by (simp add: encMsg_def)

lemma encMsgs_simps [simp]:
  "encMsgs [] = []" "encMsgs (m # ms) = encMsg m @ encMsgs ms"
  "encMsgs (ms @ ns) = encMsgs ms @ encMsgs ns"
  by (simp_all add: encMsgs_def)

lemma encMsg_nonempty [simp]: "encMsg m \<noteq> []"
  by (simp add: encMsg_def lenPrefix_def flip: length_0_conv)

lemma encMsgs_Nil_iff [simp]: "encMsgs ms = [] \<longleftrightarrow> ms = []" "[] = encMsgs ms \<longleftrightarrow> ms = []"
  by (cases ms; simp)+

text \<open>A reader that stands at a message reads its length, then its bytes.\<close>

lemma ReadFull_message:
  assumes "coherent p f r" "drop p f = encMsg m @ rest"
  shows "\<exists>r1 r2. ReadFull 4 f r = (lenPrefix (int (length m)), r1) \<and>
    ReadFull (length m) f r1 = (m, r2) \<and> coherent (p + 4 + length m) f r2"
proof -
  have len: "length (drop p f) = 4 + length m + length rest" using assms(2) by simp
  obtain r1 where r1: "ReadFull 4 f r = (take 4 (drop p f), r1)" "coherent (p + 4) f r1"
    using ReadFull_coherent [OF assms(1), of 4] len by auto
  have d: "drop (p + 4) f = m @ rest"
    using arg_cong [OF assms(2), of "drop 4"] by (simp add: encMsg_def add.commute)
  obtain r2 where "ReadFull (length m) f r1 = (m, r2)" "coherent (p + 4 + length m) f r2"
    using ReadFull_coherent [OF r1(2), of "length m"] d len by auto
  with r1 assms(2) show ?thesis by (auto simp: encMsg_def)
qed

end
