(* ===== verification/Offset.thy ===== *)
theory Offset
  imports Codec
begin

section \<open>Queue offsets\<close>

text \<open>
  \<open>core/queue/message.go\<close>: the position of a consumer in a queue. An offset is a segment
  number, a byte position in the segment file and a version; the version grows each time the
  offset of a consumer is reset, so that a commit still in flight from before the reset can be
  told apart. Offsets are stored as text, \<open>"segment,position,version"\<close>; the older format has no
  version. The theory holds the text format with its round trip, the order \<open>LatestThan\<close> that
  guards commits, the equality \<open>Equals\<close> that decides whether a queue has a lag, and the
  \<open>Context\<close> and \<open>Message\<close> a consumer fills.
\<close>

record Offset =
  Segment :: int
  Position :: int
  Version :: int

definition Itoa64 :: "int \<Rightarrow> string" where
  "Itoa64 i = FormatInt i"

definition AcquireOffset :: "int \<Rightarrow> int \<Rightarrow> Offset" where
  "AcquireOffset seg pos = \<lparr>Segment = seg, Position = pos, Version = 0\<rparr>"

definition NewOffset :: "int \<Rightarrow> int \<Rightarrow> Offset" where
  "NewOffset seg pos = \<lparr>Segment = seg, Position = pos, Version = 0\<rparr>"

definition NewOffsetWithVersion :: "int \<Rightarrow> int \<Rightarrow> int \<Rightarrow> Offset" where
  "NewOffsetWithVersion seg pos ver = \<lparr>Segment = seg, Position = pos, Version = ver\<rparr>"

definition ExtendConvertOffset :: "string \<Rightarrow> (int \<times> int \<times> int) go" where
  "ExtendConvertOffset offsetStr =
     (if offsetStr = [] then Panic ''offset can't be empty''
      else case split_on (CHR '','') offsetStr of
        [a, b] \<Rightarrow> Ret (fst (ToInt64 a), fst (ToInt64 b), 0)
      | [a, b, c] \<Rightarrow> Ret (fst (ToInt64 a), fst (ToInt64 b), fst (ToInt64 c))
      | _ \<Rightarrow> Panic (''invalid offset: '' @ offsetStr))"

definition ConvertOffset :: "string \<Rightarrow> (int \<times> int) go" where
  "ConvertOffset offsetStr =
     go_bind (ExtendConvertOffset offsetStr) (\<lambda>(segment, offset, _). Ret (segment, offset))"

definition DecodeFromString :: "string \<Rightarrow> Offset go" where
  "DecodeFromString offsetStr =
     go_bind (ExtendConvertOffset offsetStr) (\<lambda>(s, p, v). Ret (NewOffsetWithVersion s p v))"

definition Equals :: "Offset \<Rightarrow> Offset \<Rightarrow> bool" where
  "Equals c v =
     (if Segment c \<noteq> Segment v then False
      else if Position c \<le> 0 \<and> Position v \<le> 0 then True
      else if Position c \<noteq> Position v then False
      else True)"

definition LatestThan :: "Offset \<Rightarrow> Offset \<Rightarrow> bool" where
  "LatestThan c v =
     (if Version c > Version v then True
      else if Version c = Version v then
        (if Segment c > Segment v then True
         else if Segment c = Segment v then
           (if Position c > Position v then True else False)
         else False)
      else False)"

definition OffsetString :: "Offset \<Rightarrow> string" where
  "OffsetString c = FormatInt (Segment c) @ '','' @ FormatInt (Position c)"

definition EncodeToString :: "Offset \<Rightarrow> string" where
  "EncodeToString c =
     FormatInt (Segment c) @ '','' @ FormatInt (Position c) @ '','' @ FormatInt (Version c)"

text \<open>The fetch context and the message record.\<close>

record Context =
  MessageCount :: int
  NextOffset :: Offset
  InitOffset :: Offset

definition UpdateInitOffset :: "Context \<Rightarrow> int \<Rightarrow> int \<Rightarrow> int \<Rightarrow> Context" where
  "UpdateInitOffset c seg pos ver =
     c\<lparr>InitOffset := (InitOffset c)\<lparr>Segment := seg, Position := pos, Version := ver\<rparr>\<rparr>"

definition UpdateNextOffset :: "Context \<Rightarrow> int \<Rightarrow> int \<Rightarrow> Context" where
  "UpdateNextOffset c seg pos =
     c\<lparr>NextOffset := (NextOffset c)\<lparr>Segment := seg, Position := pos\<rparr>\<rparr>"

definition Valid :: "Context \<Rightarrow> bool" where
  "Valid c \<longleftrightarrow> MessageCount c > 0"

record Message =
  msgTimestamp :: int
  msgOffset :: Offset
  msgNextOffset :: Offset
  msgSize :: int
  msgData :: bytes

subsection \<open>The text format\<close>

definition fits_offset :: "Offset \<Rightarrow> bool" where
  "fits_offset c \<longleftrightarrow> fits_int64 (Segment c) \<and> fits_int64 (Position c) \<and> fits_int64 (Version c)"

lemma comma_not_in_FormatInt [simp]: "CHR '','' \<notin> set (FormatInt i)"
  by (rule FormatInt_no_sep) (simp_all add: is_digit_def)

lemma split_three:
  "split_on (CHR '','') (FormatInt a @ '','' @ FormatInt b @ '','' @ FormatInt c) =
    [FormatInt a, FormatInt b, FormatInt c]"
  by (simp add: split_simps)

lemma split_two:
  "split_on (CHR '','') (FormatInt a @ '','' @ FormatInt b) = [FormatInt a, FormatInt b]"
  by (simp add: split_simps)

lemma Decode_Encode:
  assumes "fits_offset c"
  shows "DecodeFromString (EncodeToString c) = Ret c"
proof -
  from assms have "ToInt64 (FormatInt (Segment c)) = (Segment c, None)"
    "ToInt64 (FormatInt (Position c)) = (Position c, None)"
    "ToInt64 (FormatInt (Version c)) = (Version c, None)"
    by (simp_all add: fits_offset_def codec_simps)
  then show ?thesis
    unfolding DecodeFromString_def EncodeToString_def ExtendConvertOffset_def split_three
    by (simp add: NewOffsetWithVersion_def)
qed

text \<open>Storing an offset as text and reading it back gives the offset, for every offset whose
  three numbers are \<open>int64\<close> values; the two-field text of the older format reads back with
  version 0.
\<close>

theorem offset_text_roundtrip:
  assumes "fits_offset c"
  shows "DecodeFromString (EncodeToString c) = Ret c \<and>
    DecodeFromString (OffsetString c) = Ret (c\<lparr>Version := 0\<rparr>)"
proof -
  from assms have "ToInt64 (FormatInt (Segment c)) = (Segment c, None)"
    "ToInt64 (FormatInt (Position c)) = (Position c, None)"
    by (simp_all add: fits_offset_def codec_simps)
  then have "DecodeFromString (OffsetString c) = Ret (c\<lparr>Version := 0\<rparr>)"
    unfolding DecodeFromString_def OffsetString_def ExtendConvertOffset_def split_two
    by (simp add: NewOffsetWithVersion_def)
  with Decode_Encode [OF assms] show ?thesis by blast
qed

theorem offset_text_roundtrip_witness:
  "DecodeFromString (EncodeToString (NewOffsetWithVersion 12 (-7) 3)) =
     Ret (NewOffsetWithVersion 12 (-7) 3) \<and>
   DecodeFromString (OffsetString (NewOffsetWithVersion 12 (-7) 3)) =
     Ret (NewOffsetWithVersion 12 (-7) 0)"
proof -
  have "fits_offset (NewOffsetWithVersion 12 (-7) 3)"
    by (simp add: fits_offset_def fits_int64_def NewOffsetWithVersion_def)
  from offset_text_roundtrip [OF this] show ?thesis
    by (simp add: NewOffsetWithVersion_def)
qed

subsection \<open>The commit order\<close>

definition offset_lt :: "Offset \<Rightarrow> Offset \<Rightarrow> bool" where
  "offset_lt a b \<longleftrightarrow> LatestThan b a"

definition offset_le :: "Offset \<Rightarrow> Offset \<Rightarrow> bool" where
  "offset_le a b \<longleftrightarrow> \<not> LatestThan a b"

lemma LatestThan_lex:
  "LatestThan c v \<longleftrightarrow>
    Version v < Version c \<or>
    (Version v = Version c \<and>
      (Segment v < Segment c \<or> (Segment v = Segment c \<and> Position v < Position c)))"
  by (auto simp: LatestThan_def)

lemma offset_eqI:
  "Segment a = Segment b \<Longrightarrow> Position a = Position b \<Longrightarrow> Version a = Version b \<Longrightarrow> (a :: Offset) = b"
  by simp

interpretation commit_order: linorder offset_le offset_lt
proof unfold_locales
  show "offset_le x y \<Longrightarrow> offset_le y x \<Longrightarrow> x = y" for x y
    by (auto simp: offset_le_def LatestThan_lex not_less intro: offset_eqI)
qed (auto simp: offset_le_def offset_lt_def LatestThan_lex not_less)

text \<open>\<open>LatestThan\<close>, the test that a commit must pass, orders the offsets of a consumer
  strictly and totally: no offset is later than itself, later is transitive, and of two different
  offsets exactly one is later. Whatever its segment and position, an offset of a higher version
  is later than one of a lower version.
\<close>

theorem latest_than_strict_total_order:
  "\<not> LatestThan a a \<and>
   (LatestThan a b \<and> LatestThan b c \<longrightarrow> LatestThan a c) \<and>
   (LatestThan a b \<or> LatestThan b a \<or> a = b) \<and>
   \<not> (LatestThan a b \<and> LatestThan b a) \<and>
   (Version b < Version a \<longrightarrow> LatestThan a b)"
proof (intro conjI impI)
  show "\<not> LatestThan a a"
    by (simp add: LatestThan_def)
  show "LatestThan a c" if "LatestThan a b \<and> LatestThan b c"
    using that commit_order.less_trans [of c b a] by (simp add: offset_lt_def)
  show "LatestThan a b \<or> LatestThan b a \<or> a = b"
    using commit_order.less_linear [of b a] by (auto simp: offset_lt_def)
  show "\<not> (LatestThan a b \<and> LatestThan b a)"
    using commit_order.less_asym [of a b] by (auto simp: offset_lt_def)
  show "LatestThan a b" if "Version b < Version a"
    using that by (simp add: LatestThan_def)
qed

theorem latest_than_strict_total_order_witness:
  "LatestThan (NewOffsetWithVersion 0 0 1) (NewOffsetWithVersion 9 100 0) \<and>
   LatestThan (NewOffsetWithVersion 9 100 0) (NewOffsetWithVersion 9 99 0) \<and>
   LatestThan (NewOffsetWithVersion 0 0 1) (NewOffsetWithVersion 9 99 0)"
proof -
  let ?a = "NewOffsetWithVersion 0 0 1" and ?b = "NewOffsetWithVersion 9 100 0"
    and ?c = "NewOffsetWithVersion 9 99 0"
  have ab: "LatestThan ?a ?b" and bc: "LatestThan ?b ?c"
    by (simp_all add: LatestThan_def NewOffsetWithVersion_def)
  with latest_than_strict_total_order [of ?a ?b ?c] show ?thesis by blast
qed

lemma Equals_refl [simp]: "Equals a a"
  by (simp add: Equals_def)

lemma Equals_sym: "Equals a b \<longleftrightarrow> Equals b a"
  by (auto simp: Equals_def)

lemma Equals_trans: "Equals a b \<Longrightarrow> Equals b c \<Longrightarrow> Equals a c"
  by (auto simp: Equals_def split: if_splits)

lemma Equals_ignores_version: "Equals (a\<lparr>Version := v\<rparr>) b = Equals a b"
  by (simp add: Equals_def)

end
