(* ===== verification/DiskQueue.thy ===== *)
theory DiskQueue
  imports FileIO Offset "HOL-Library.AList"
begin

section \<open>The disk-backed queue\<close>

text \<open>
  \<open>modules/queue/disk_queue/diskqueue.go\<close>: a queue kept in numbered segment files, with a write
  position, a read position and a metadata file. \<open>DiskBasedQueue\<close> is the state of one queue, its
  files included:

  \<^item> \<open>dDat\<close>, \<open>dBad\<close> and \<open>dZst\<close> hold the segment files, the files set aside as bad and the
    compressed segments, by segment number; \<open>dMeta\<close> is the text of the metadata file.
  \<^item> \<open>writeFile\<close> is the open write handle, the segment it was opened on and its offset;
    \<open>readFile\<close> is the open read handle with its buffered reader.
  \<^item> \<open>notified\<close> records the events sent to the module's event loop.

  Failures of the operating system are inputs: \<open>io\<close> says, for one call, which operations fail;
  \<open>writeErr\<close> is the number of bytes that reach the file before a write fails. Whether the queue has
  registered consumers is an input as well. The zstd functions are parameters.
\<close>

record CompressConfig =
  Enabled :: bool
  Level :: int

record DiskCompress =
  DeleteAfterCompress :: bool
  CompressMessage :: CompressConfig
  CompressSegment :: CompressConfig
  IdleThreshold :: int
  NumOfFilesDecompressAhead :: int

record RetentionConfig =
  MaxNumOfLocalFiles :: int

record DiskQueueConfig =
  MinMsgSize :: int
  MaxMsgSize :: int
  MaxBytesPerFile :: int
  SyncEveryRecords :: int
  WriteChanBuffer :: int
  AutoSkipCorruptFile :: bool
  UploadToS3 :: bool
  AlwaysDownload :: bool
  PrepareFilesToRead :: bool
  CompressAndCleanupDuringInit :: bool
  SkipZeroConsumers :: bool
  DiskCompression :: DiskCompress
  Retention :: RetentionConfig
  S3Configured :: bool
  S3Async :: bool
  MaxUsedBytes :: nat
  WarningFreeBytes :: nat
  ReservedFreeBytes :: nat

record disk =
  dDat :: "int \<rightharpoonup> bytes"
  dBad :: "int \<rightharpoonup> bytes"
  dZst :: "int \<rightharpoonup> bytes"
  dMeta :: "string option"

definition emptyDisk :: disk where
  "emptyDisk = \<lparr>dDat = Map.empty, dBad = Map.empty, dZst = Map.empty, dMeta = None\<rparr>"

datatype EventType = WriteComplete | ReadComplete

record DiskBasedQueue =
  writePos :: int
  writeSegmentNum :: int
  writeFile :: "(int \<times> nat) option"
  maxBytesPerFileRead :: int
  exitFlag :: bool
  needSync :: bool
  consumerMode :: bool
  depth :: int
  readPos :: int
  readSegmentFileNum :: int
  nextReadPos :: int
  nextReadFileNum :: int
  readFile :: "(int \<times> breader) option"
  consumersInReading :: "(string \<times> int) list"
  files :: disk
  notified :: "(EventType \<times> int) list"

record WriteResponse =
  resSegment :: int
  resPosition :: int
  resError :: "string option"

record io =
  openErr :: bool
  seekErr :: bool
  writeErr :: "nat option"
  syncErr :: bool
  metaErr :: bool
  removeErr :: "int \<Rightarrow> bool"
  renameErr :: bool
  readSeekErr :: bool

definition io_ok :: io where
  "io_ok = \<lparr>openErr = False, seekErr = False, writeErr = None, syncErr = False, metaErr = False,
     removeErr = \<lambda>_. False, renameErr = False, readSeekErr = False\<rparr>"

text \<open>The content a handle on segment \<open>i\<close> reads.\<close>

definition segBytes :: "disk \<Rightarrow> int \<Rightarrow> bytes" where
  "segBytes fs i = (case dDat fs i of None \<Rightarrow> [] | Some f \<Rightarrow> f)"

definition notify :: "DiskBasedQueue \<Rightarrow> EventType \<Rightarrow> int \<Rightarrow> DiskBasedQueue" where
  "notify d t fileNum = d\<lparr>notified := notified d @ [(t, fileNum)]\<rparr>"

subsection \<open>The metadata file\<close>

definition newline :: string where
  "newline = [char_of_byte 10]"

definition metaText :: "DiskBasedQueue \<Rightarrow> string" where
  "metaText d = FormatInt (depth d) @ newline @
     FormatInt (readSegmentFileNum d) @ '','' @ FormatInt (readPos d) @ newline @
     FormatInt (writeSegmentNum d) @ '','' @ FormatInt (writePos d) @ newline"

definition persistMetaData :: "io \<Rightarrow> DiskBasedQueue \<Rightarrow> DiskBasedQueue \<times> string option" where
  "persistMetaData x d =
     (if metaErr x then (d, Some ''write metadata'')
      else (d\<lparr>files := (files d)\<lparr>dMeta := Some (metaText d)\<rparr>\<rparr>, None))"

text \<open>\<open>fmt.Fscanf\<close> with the verbs the metadata uses: an integer, a comma, an end of line.\<close>

definition isBlank :: "char \<Rightarrow> bool" where
  "isBlank c \<longleftrightarrow> c = CHR '' '' \<or> c = char_of_byte 9"

definition scanInt :: "string \<Rightarrow> (int \<times> string) option" where
  "scanInt s =
     (let s = dropWhile isBlank s;
          sign = (case s of c # _ \<Rightarrow> if c = CHR ''-'' \<or> c = CHR ''+'' then [c] else [] | [] \<Rightarrow> []);
          r = drop (length sign) s;
          ds = takeWhile is_digit r
      in if ds = [] then None
         else case ToInt64 (sign @ ds) of
                (v, None) \<Rightarrow> Some (v, drop (length ds) r)
              | (_, Some _) \<Rightarrow> None)"

definition scanComma :: "string \<Rightarrow> string option" where
  "scanComma s = (case s of c # r \<Rightarrow> if c = CHR '','' then Some r else None | [] \<Rightarrow> None)"

definition scanNewline :: "string \<Rightarrow> string option" where
  "scanNewline s = (case s of c # r \<Rightarrow> if c = char_of_byte 10 then Some r else None | [] \<Rightarrow> Some [])"

datatype verb = VInt | VComma | VNewline

fun Fscanf :: "verb list \<Rightarrow> string \<Rightarrow> int list \<times> bool" where
  "Fscanf [] s = ([], True)"
| "Fscanf (VInt # vs) s =
     (case scanInt s of None \<Rightarrow> ([], False) | Some (i, r) \<Rightarrow> (case Fscanf vs r of (is, ok) \<Rightarrow> (i # is, ok)))"
| "Fscanf (VComma # vs) s = (case scanComma s of None \<Rightarrow> ([], False) | Some r \<Rightarrow> Fscanf vs r)"
| "Fscanf (VNewline # vs) s = (case scanNewline s of None \<Rightarrow> ([], False) | Some r \<Rightarrow> Fscanf vs r)"

definition metaFormat :: "verb list" where
  "metaFormat = [VInt, VNewline, VInt, VComma, VInt, VNewline, VInt, VComma, VInt, VNewline]"

text \<open>The four positions are assigned as they are scanned, also when a later field is missing.\<close>

definition assignMeta :: "int list \<Rightarrow> DiskBasedQueue \<Rightarrow> DiskBasedQueue" where
  "assignMeta is d =
     d\<lparr>readSegmentFileNum := (if length is > 1 then is ! 1 else readSegmentFileNum d),
       readPos := (if length is > 2 then is ! 2 else readPos d),
       writeSegmentNum := (if length is > 3 then is ! 3 else writeSegmentNum d),
       writePos := (if length is > 4 then is ! 4 else writePos d)\<rparr>"

definition retrieveMetaData :: "DiskBasedQueue \<Rightarrow> DiskBasedQueue \<times> string option" where
  "retrieveMetaData d =
     (case dMeta (files d) of
        None \<Rightarrow> (d, Some ''no such file'')
      | Some t \<Rightarrow>
          (case Fscanf metaFormat t of (is, ok) \<Rightarrow>
            let d = assignMeta is d
            in if \<not> ok then (d, Some ''unexpected newline'')
               else (d\<lparr>depth := is ! 0, nextReadFileNum := readSegmentFileNum d,
                        nextReadPos := readPos d\<rparr>, None)))"

definition dqSync :: "io \<Rightarrow> DiskBasedQueue \<Rightarrow> DiskBasedQueue \<times> string option" where
  "dqSync x d =
     (if writeFile d \<noteq> None \<and> syncErr x then (d\<lparr>writeFile := None\<rparr>, Some ''sync'')
      else case persistMetaData x d of
             (d, Some err) \<Rightarrow> (d, Some err)
           | (d, None) \<Rightarrow> (d\<lparr>needSync := False\<rparr>, None))"

subsection \<open>Writing\<close>

definition putBytes :: "disk \<Rightarrow> int \<Rightarrow> nat \<Rightarrow> bytes \<Rightarrow> disk" where
  "putBytes fs seg off b = fs\<lparr>dDat := (dDat fs)(seg \<mapsto> writeAt (segBytes fs seg) off b)\<rparr>"

definition openWrite :: "io \<Rightarrow> DiskBasedQueue \<Rightarrow> DiskBasedQueue \<times> string option" where
  "openWrite x d =
     (if writeFile d \<noteq> None then (d, None)
      else if openErr x then (d, Some ''open'')
      else
        let d = d\<lparr>files := (files d)\<lparr>dDat := (dDat (files d))(writeSegmentNum d \<mapsto>
                     segBytes (files d) (writeSegmentNum d))\<rparr>\<rparr>
        in if writePos d > 0 then
             (if seekErr x then (d, Some ''seek'')
              else (d\<lparr>writeFile := Some (writeSegmentNum d, nat (writePos d))\<rparr>, None))
           else (d\<lparr>writeFile := Some (writeSegmentNum d, 0)\<rparr>, None))"

definition storedForm :: "DiskQueueConfig \<Rightarrow> (int \<Rightarrow> bytes \<Rightarrow> bytes) \<Rightarrow> bytes \<Rightarrow> bytes" where
  "storedForm cfg ZSTDCompress data =
     (if Enabled (CompressMessage (DiskCompression cfg))
      then ZSTDCompress (Level (CompressMessage (DiskCompression cfg))) data else data)"

definition failed :: "string \<Rightarrow> WriteResponse" where
  "failed e = \<lparr>resSegment = 0, resPosition = 0, resError = Some e\<rparr>"

text \<open>The end of \<open>writeOne\<close>: count the message and start a new segment when this one is full.\<close>

definition nextSegment :: "DiskBasedQueue \<Rightarrow> DiskBasedQueue" where
  "nextSegment d =
     (let d = (if readSegmentFileNum d = writeSegmentNum d
               then d\<lparr>maxBytesPerFileRead := writePos d\<rparr> else d);
          d = notify d WriteComplete (writeSegmentNum d)
      in d\<lparr>writeSegmentNum := writeSegmentNum d + 1, writePos := 0\<rparr>)"

definition finishWrite ::
  "DiskQueueConfig \<Rightarrow> io \<Rightarrow> DiskBasedQueue \<Rightarrow> int \<Rightarrow> DiskBasedQueue \<times> WriteResponse" where
  "finishWrite cfg x d dataLen =
     (let totalBytes = to_int32 (4 + dataLen);
          d = d\<lparr>writePos := writePos d + totalBytes, depth := depth d + 1\<rparr>
      in if writePos d \<ge> MaxBytesPerFile cfg then
           (case dqSync x (nextSegment d) of (d, err) \<Rightarrow>
              (d\<lparr>writeFile := None\<rparr>,
               \<lparr>resSegment = writeSegmentNum d, resPosition = writePos d, resError = err\<rparr>))
         else (d, \<lparr>resSegment = writeSegmentNum d, resPosition = writePos d, resError = None\<rparr>))"

definition writeOne ::
  "DiskQueueConfig \<Rightarrow> (int \<Rightarrow> bytes \<Rightarrow> bytes) \<Rightarrow> io \<Rightarrow> DiskBasedQueue \<Rightarrow> bytes \<Rightarrow> DiskBasedQueue \<times> WriteResponse" where
  "writeOne cfg ZSTDCompress x d data =
     (case openWrite x d of
        (d, Some e) \<Rightarrow> (d, failed e)
      | (d, None) \<Rightarrow>
          let data = storedForm cfg ZSTDCompress data;
              dataLen = to_int32 (int (length data))
          in if dataLen < MinMsgSize cfg \<or> dataLen > MaxMsgSize cfg
             then (d, failed ''invalid message write size'')
             else
               let writeBuf = lenPrefix dataLen @ data;
                   (seg, off) = the (writeFile d)
               in case writeErr x of
                    Some n \<Rightarrow>
                      (d\<lparr>files := putBytes (files d) seg off (take n writeBuf), writeFile := None\<rparr>,
                       failed ''write'')
                  | None \<Rightarrow>
                      finishWrite cfg x
                        (d\<lparr>files := putBytes (files d) seg off writeBuf,
                           writeFile := Some (seg, off + length writeBuf)\<rparr>) dataLen)"

subsection \<open>Reading\<close>

text \<open>Opening the read file: \<open>Inl\<close> is the error, with the handle closed again.\<close>

definition openRead :: "DiskQueueConfig \<Rightarrow> io \<Rightarrow> DiskBasedQueue \<Rightarrow> string + DiskBasedQueue" where
  "openRead cfg x d =
     (if readFile d \<noteq> None then Inr d
      else case dDat (files d) (readSegmentFileNum d) of
        None \<Rightarrow> Inl ''no such file''
      | Some f \<Rightarrow>
          if readPos d > 0 \<and> readSeekErr x then Inl ''seek''
          else Inr (d\<lparr>maxBytesPerFileRead :=
                        (if readSegmentFileNum d < writeSegmentNum d then int (length f) else MaxBytesPerFile cfg),
                      readFile := Some (readSegmentFileNum d,
                        NewReader (if readPos d > 0 then nat (readPos d) else 0))\<rparr>))"

definition finishRead :: "DiskBasedQueue \<Rightarrow> breader \<Rightarrow> int \<Rightarrow> DiskBasedQueue" where
  "finishRead d r msgLen =
     (let totalBytes = to_int32 (4 + msgLen);
          d = d\<lparr>readFile := Some (readSegmentFileNum d, r),
                nextReadPos := readPos d + totalBytes, nextReadFileNum := readSegmentFileNum d\<rparr>
      in if readSegmentFileNum d < writeSegmentNum d \<and> nextReadPos d \<ge> maxBytesPerFileRead d
         then d\<lparr>readFile := None, nextReadFileNum := nextReadFileNum d + 1, nextReadPos := 0\<rparr>
         else d)"

definition readOne ::
  "DiskQueueConfig \<Rightarrow> (bytes \<Rightarrow> string + bytes) \<Rightarrow> io \<Rightarrow> DiskBasedQueue \<Rightarrow> DiskBasedQueue \<times> (string + bytes)" where
  "readOne cfg ZSTDDecompress x d =
     (case openRead cfg x d of
        Inl e \<Rightarrow> (d, Inl e)
      | Inr d \<Rightarrow>
          let (seg, r) = the (readFile d);
              f = segBytes (files d) seg;
              (pre, r) = ReadFull 4 f r
          in if length pre < 4 then (d\<lparr>readFile := None\<rparr>, Inl ''EOF'')
             else
               let msgLen = prefixLen pre
               in if msgLen < MinMsgSize cfg \<or> msgLen > MaxMsgSize cfg
                  then (d\<lparr>readFile := None\<rparr>, Inl ''invalid message read size'')
                  else
                    let (readBuf, r) = ReadFull (nat msgLen) f r
                    in if length readBuf < nat msgLen then (d\<lparr>readFile := None\<rparr>, Inl ''EOF'')
                       else
                         let d = finishRead d r msgLen
                         in if Enabled (CompressMessage (DiskCompression cfg))
                            then (d, ZSTDDecompress readBuf) else (d, Inr readBuf))"

subsection \<open>Moving on\<close>

text \<open>
  \<open>skipToNextRWFile\<close>: close both handles, remove the segments from the read to the write segment
  when asked to, and continue behind them.
\<close>

definition removeSegments :: "io \<Rightarrow> disk \<Rightarrow> int \<Rightarrow> int \<Rightarrow> disk" where
  "removeSegments x fs a b =
     fs\<lparr>dDat := (\<lambda>i. if a \<le> i \<and> i \<le> b \<and> \<not> removeErr x i then None else dDat fs i)\<rparr>"

definition skipToNextRWFile :: "io \<Rightarrow> bool \<Rightarrow> DiskBasedQueue \<Rightarrow> DiskBasedQueue \<times> string option" where
  "skipToNextRWFile x del d =
     (let d = d\<lparr>readFile := None, writeFile := None\<rparr>;
          err = (if del \<and> (\<exists>i \<in> set [readSegmentFileNum d..writeSegmentNum d].
                              dDat (files d) i \<noteq> None \<and> removeErr x i)
                 then Some ''remove'' else None);
          d = (if del then d\<lparr>files := removeSegments x (files d) (readSegmentFileNum d) (writeSegmentNum d)\<rparr>
               else d);
          d = d\<lparr>writeSegmentNum := writeSegmentNum d + 1, writePos := 0\<rparr>
      in (d\<lparr>readSegmentFileNum := writeSegmentNum d, readPos := 0,
             nextReadFileNum := writeSegmentNum d, nextReadPos := 0, depth := 0\<rparr>, err))"

definition deleteAllFiles :: "io \<Rightarrow> DiskBasedQueue \<Rightarrow> DiskBasedQueue \<times> string option" where
  "deleteAllFiles x d =
     (case skipToNextRWFile x True d of (d, err) \<Rightarrow>
        if dMeta (files d) \<noteq> None \<and> metaErr x then (d, Some ''remove metadata'')
        else (d\<lparr>files := (files d)\<lparr>dMeta := None\<rparr>\<rparr>, err))"

definition checkTailCorruption :: "io \<Rightarrow> DiskBasedQueue \<Rightarrow> int \<Rightarrow> DiskBasedQueue" where
  "checkTailCorruption x d dep =
     (if readSegmentFileNum d < writeSegmentNum d \<or> readPos d < writePos d then d
      else
        let d = (if dep \<noteq> 0 then d\<lparr>depth := 0, needSync := True\<rparr> else d)
        in if readSegmentFileNum d \<noteq> writeSegmentNum d \<or> readPos d \<noteq> writePos d
           then (fst (skipToNextRWFile x True d))\<lparr>needSync := True\<rparr>
           else d)"

definition readMoveForward :: "io \<Rightarrow> bool \<Rightarrow> DiskBasedQueue \<Rightarrow> DiskBasedQueue" where
  "readMoveForward x hasConsumers d =
     (let oldReadFileNum = readSegmentFileNum d;
          d = d\<lparr>readSegmentFileNum := nextReadFileNum d, readPos := nextReadPos d, depth := depth d - 1\<rparr>;
          d = (if oldReadFileNum \<noteq> nextReadFileNum d then
                 let d = d\<lparr>needSync := True\<rparr>
                 in if \<not> hasConsumers \<and> \<not> removeErr x oldReadFileNum
                    then d\<lparr>files := (files d)\<lparr>dDat := (dDat (files d))(oldReadFileNum := None)\<rparr>\<rparr>
                    else d
               else d)
      in checkTailCorruption x d (depth d))"

definition handleReadError :: "io \<Rightarrow> bool \<Rightarrow> DiskBasedQueue \<Rightarrow> DiskBasedQueue" where
  "handleReadError x hasConsumers d =
     (let d = (if readSegmentFileNum d = writeSegmentNum d
               then d\<lparr>writeFile := None, writeSegmentNum := writeSegmentNum d + 1, writePos := 0\<rparr> else d)
      in if hasConsumers then d\<lparr>consumerMode := True\<rparr>
         else
           let bad = readSegmentFileNum d;
               d = (case dDat (files d) bad of
                      None \<Rightarrow> d
                    | Some f \<Rightarrow>
                        if renameErr x then d
                        else d\<lparr>files := (files d)\<lparr>dDat := (dDat (files d))(bad := None),
                                                   dBad := (dBad (files d))(bad \<mapsto> f)\<rparr>\<rparr>)
           in d\<lparr>readSegmentFileNum := readSegmentFileNum d + 1, readPos := 0,
                nextReadFileNum := readSegmentFileNum d + 1, nextReadPos := 0, needSync := True\<rparr>)"

definition UpdateSegmentConsumerInReading :: "DiskBasedQueue \<Rightarrow> string \<Rightarrow> int \<Rightarrow> DiskBasedQueue" where
  "UpdateSegmentConsumerInReading d consumerID segment =
     d\<lparr>consumersInReading := AList.update consumerID segment (consumersInReading d)\<rparr>"

definition DeleteSegmentConsumerInReading :: "DiskBasedQueue \<Rightarrow> string \<Rightarrow> DiskBasedQueue" where
  "DeleteSegmentConsumerInReading d consumerID =
     d\<lparr>consumersInReading := AList.delete consumerID (consumersInReading d)\<rparr>"

subsection \<open>Opening and closing\<close>

definition blankQueue :: "disk \<Rightarrow> DiskBasedQueue" where
  "blankQueue fs =
     \<lparr>writePos = 0, writeSegmentNum = 0, writeFile = None, maxBytesPerFileRead = 0, exitFlag = False,
      needSync = False, consumerMode = False, depth = 0, readPos = 0, readSegmentFileNum = 0,
      nextReadPos = 0, nextReadFileNum = 0, readFile = None, consumersInReading = [],
      files = fs, notified = []\<rparr>"

definition NewDiskQueueByConfig :: "io \<Rightarrow> bool \<Rightarrow> disk \<Rightarrow> DiskBasedQueue" where
  "NewDiskQueueByConfig x hasConsumers fs =
     (case retrieveMetaData (blankQueue fs) of (d, err) \<Rightarrow>
        let d = (if err = None \<and> writePos d > 0 \<and> depth d > 0 then
                   let d = notify d WriteComplete (writeSegmentNum d)
                   in fst (persistMetaData x (d\<lparr>writeSegmentNum := writeSegmentNum d + 1, writePos := 0\<rparr>))
                 else d)
        in if hasConsumers then d\<lparr>consumerMode := True\<rparr> else d)"

definition dqLatestOffset :: "DiskBasedQueue \<Rightarrow> Offset" where
  "dqLatestOffset d = NewOffset (writeSegmentNum d) (writePos d)"

definition dqExit :: "DiskBasedQueue \<Rightarrow> DiskBasedQueue" where
  "dqExit d = d\<lparr>exitFlag := True, readFile := None, writeFile := None\<rparr>"

definition dqClose :: "io \<Rightarrow> DiskBasedQueue \<Rightarrow> DiskBasedQueue \<times> string option" where
  "dqClose x d = dqSync x (dqExit d)"

definition dqDestroy :: "io \<Rightarrow> string \<Rightarrow> DiskBasedQueue \<Rightarrow> DiskBasedQueue \<times> string option" where
  "dqDestroy x name d =
     (case dqClose x d of
        (d, Some err) \<Rightarrow> (d, Some err)
      | (d, None) \<Rightarrow>
          if name = [] then (d, None)
          else (d\<lparr>files := \<lparr>dDat = Map.empty, dBad = Map.empty, dZst = Map.empty, dMeta = None\<rparr>\<rparr>, None))"

subsection \<open>The I/O loop\<close>

text \<open>
  \<open>ioLoop\<close> owns the queue. Each round first syncs when that is due and reads one message ahead
  when none is waiting (\<open>loopTop\<close>), then serves one of the channels (\<open>onEvent\<close>). The channel
  operation that the \<open>select\<close> picks is the input; \<open>readReady\<close> says whether the read channel
  takes part in it.
\<close>

record ioState =
  lq :: DiskBasedQueue
  dataRead :: bytes
  count :: int
  readReady :: bool

datatype loopEvent = EvRead | EvDepth | EvEmpty | EvWrite bytes | EvTick | EvExit

datatype loopOut =
  Delivered bytes | DepthIs int | Emptied "string option" | Written WriteResponse | Quiet | Exited

definition syncDue :: "DiskQueueConfig \<Rightarrow> io \<Rightarrow> ioState \<Rightarrow> ioState" where
  "syncDue cfg x l =
     (let d = (if count l = SyncEveryRecords cfg then (lq l)\<lparr>needSync := True\<rparr> else lq l)
      in if needSync d then l\<lparr>lq := fst (dqSync x d), count := 0\<rparr> else l\<lparr>lq := d\<rparr>)"

definition loopTop ::
  "DiskQueueConfig \<Rightarrow> (bytes \<Rightarrow> string + bytes) \<Rightarrow> bool \<Rightarrow> io \<Rightarrow> ioState \<Rightarrow> ioState \<times> bool" where
  "loopTop cfg ZSTDDecompress hasConsumers x l =
     (let l = syncDue cfg x l; d = lq l
      in if \<not> consumerMode d \<and> (readSegmentFileNum d < writeSegmentNum d \<or> readPos d < writePos d) then
           (if nextReadPos d = readPos d then
              (case readOne cfg ZSTDDecompress x d of
                 (d, Inl _) \<Rightarrow> (l\<lparr>lq := handleReadError x hasConsumers d, dataRead := []\<rparr>, False)
               | (d, Inr b) \<Rightarrow> (l\<lparr>lq := d, dataRead := b, readReady := True\<rparr>, True))
            else (l\<lparr>readReady := True\<rparr>, True))
         else (l\<lparr>readReady := False\<rparr>, True))"

definition onEvent ::
  "DiskQueueConfig \<Rightarrow> (int \<Rightarrow> bytes \<Rightarrow> bytes) \<Rightarrow> bool \<Rightarrow> io \<Rightarrow> loopEvent \<Rightarrow> ioState \<Rightarrow> ioState \<times> loopOut" where
  "onEvent cfg ZSTDCompress hasConsumers x ev l =
     (case ev of
        EvRead \<Rightarrow>
          if readReady l
          then (l\<lparr>count := count l + 1, lq := readMoveForward x hasConsumers (lq l)\<rparr>, Delivered (dataRead l))
          else (l, Quiet)
      | EvDepth \<Rightarrow> (l, DepthIs (depth (lq l)))
      | EvEmpty \<Rightarrow> (case deleteAllFiles x (lq l) of (d, err) \<Rightarrow> (l\<lparr>lq := d, count := 0\<rparr>, Emptied err))
      | EvWrite data \<Rightarrow>
          (case writeOne cfg ZSTDCompress x (lq l) data of
             (d, res) \<Rightarrow> (l\<lparr>count := count l + 1, lq := d\<rparr>, Written res))
      | EvTick \<Rightarrow> (if count l = 0 then l else l\<lparr>lq := (lq l)\<lparr>needSync := True\<rparr>\<rparr>, Quiet)
      | EvExit \<Rightarrow> (l, Exited))"

text \<open>One round; a read error starts the next round before any channel is served.\<close>

definition loopRound ::
  "DiskQueueConfig \<Rightarrow> (int \<Rightarrow> bytes \<Rightarrow> bytes) \<Rightarrow> (bytes \<Rightarrow> string + bytes) \<Rightarrow> bool \<Rightarrow> io \<Rightarrow> loopEvent \<Rightarrow>
   ioState \<Rightarrow> ioState \<times> loopOut" where
  "loopRound cfg ZSTDCompress ZSTDDecompress hasConsumers x ev l =
     (case loopTop cfg ZSTDDecompress hasConsumers x l of
        (l, False) \<Rightarrow> (l, Quiet)
      | (l, True) \<Rightarrow> onEvent cfg ZSTDCompress hasConsumers x ev l)"

fun ioLoop ::
  "DiskQueueConfig \<Rightarrow> (int \<Rightarrow> bytes \<Rightarrow> bytes) \<Rightarrow> (bytes \<Rightarrow> string + bytes) \<Rightarrow> bool \<Rightarrow>
   (io \<times> loopEvent) list \<Rightarrow> ioState \<Rightarrow> ioState \<times> loopOut list" where
  "ioLoop cfg zc zd hasConsumers [] l = (l, [])"
| "ioLoop cfg zc zd hasConsumers ((x, ev) # evs) l =
     (case loopRound cfg zc zd hasConsumers x ev l of
        (l, Exited) \<Rightarrow> (l, [Exited])
      | (l, out) \<Rightarrow> (case ioLoop cfg zc zd hasConsumers evs l of (l, outs) \<Rightarrow> (l, out # outs)))"

definition startLoop :: "DiskBasedQueue \<Rightarrow> ioState" where
  "startLoop d = \<lparr>lq = d, dataRead = [], count = 0, readReady = False\<rparr>"

end
