(* ===== verification/QueueTypes.thy ===== *)
theory QueueTypes
  imports Offset
begin

section \<open>Queue and consumer configurations\<close>

text \<open>
  The two configuration records of \<open>core/queue\<close>: \<open>QueueConfig\<close> (\<open>queue_config.go\<close>) and
  \<open>ConsumerConfig\<close> (\<open>consumer_config.go\<close>), with the keys under which consumers and their
  committed offsets are stored. Both keys join their parts with a dash and escape nothing: they
  are injective only for parts that have no dash, which the theory states both ways.

  A label value is one of the scalar kinds a configuration file can hold; \<open>None\<close> is the nil map.
\<close>

datatype label_value = LStr string | LInt int | LBool bool

fun ToString :: "label_value \<Rightarrow> string" where
  "ToString (LStr s) = s"
| "ToString (LInt i) = FormatInt i"
| "ToString (LBool b) = (if b then ''true'' else ''false'')"

record QueueConfig =
  qID :: string
  qName :: string
  qSource :: string
  qCodec :: string
  qType :: string
  qCreated :: string
  qLabels :: "(string \<times> label_value) list option"

record ConsumerConfig =
  cID :: string
  cSource :: string
  cGroup :: string
  cName :: string
  AutoResetOffset :: string
  AutoCommitOffset :: bool
  SimpleSlicedGroup :: bool
  FetchMinBytes :: int
  FetchMaxBytes :: int
  FetchMaxMessages :: int
  FetchMaxWaitMs :: int
  ConsumeTimeoutInSeconds :: int
  EOFMaxRetryTimes :: int
  EOFRetryDelayInMs :: int
  ClientExpiredInSeconds :: int

definition getConsumerKey :: "string \<Rightarrow> string \<Rightarrow> string" where
  "getConsumerKey grp name = grp @ ''-'' @ name"

definition Key :: "ConsumerConfig \<Rightarrow> string" where
  "Key cfg = getConsumerKey (cGroup cfg) (cName cfg)"

text \<open>The MD5 digest of the standard library is a parameter; nothing below depends on its value.\<close>

definition NewConsumerConfig ::
  "(string \<Rightarrow> string) \<Rightarrow> string \<Rightarrow> string \<Rightarrow> string \<Rightarrow> ConsumerConfig" where
  "NewConsumerConfig MD5digest queueID grp name =
     \<lparr>cID = MD5digest (queueID @ ''_'' @ grp @ ''_'' @ name), cSource = ''dynamic'',
      cGroup = grp, cName = name, AutoResetOffset = [], AutoCommitOffset = False,
      SimpleSlicedGroup = False, FetchMinBytes = 1, FetchMaxBytes = 20 * 1024 * 1024,
      FetchMaxMessages = 500, FetchMaxWaitMs = 10000, ConsumeTimeoutInSeconds = 60,
      EOFMaxRetryTimes = 10, EOFRetryDelayInMs = 500, ClientExpiredInSeconds = 60\<rparr>"

definition getCommitKey :: "QueueConfig \<Rightarrow> ConsumerConfig \<Rightarrow> string" where
  "getCommitKey k consumer = qID k @ ''-'' @ Key consumer"

lemma Key_NewConsumerConfig [simp]:
  "Key (NewConsumerConfig MD5digest q g n) = getConsumerKey g n"
  by (simp add: Key_def NewConsumerConfig_def)

lemma getConsumerKey_inj:
  assumes "CHR ''-'' \<notin> set g" "CHR ''-'' \<notin> set g'"
  shows "getConsumerKey g n = getConsumerKey g' n' \<longleftrightarrow> g = g' \<and> n = n'"
  using append_sep_inj [OF assms] by (simp add: getConsumerKey_def)

lemma getCommitKey_inj:
  assumes "CHR ''-'' \<notin> set (qID k)" "CHR ''-'' \<notin> set (qID k')"
  shows "getCommitKey k c = getCommitKey k' c' \<longleftrightarrow> qID k = qID k' \<and> Key c = Key c'"
  using append_sep_inj [OF assms] by (simp add: getCommitKey_def)

end
