(* ===== verification/DiskConsumer.thy ===== *)
theory DiskConsumer
  imports DiskQueue QueueTypes
begin

section \<open>Consumers of the disk queue\<close>

text \<open>
  \<open>modules/queue/disk_queue/consumer.go\<close> and \<open>util.go\<close>: a consumer reads the segment files of a
  queue from an offset on, independently of the queue's own reader, and follows the writer from one
  segment to the next.

  \<^item> \<open>Consumer\<close> is the state of one instance. A file name is the segment number it is made from;
    \<open>conFile\<close> is \<open>None\<close> before the first file was opened. \<open>conReader\<close> is the buffered reader
    with the segment it reads, \<open>conHandle\<close> says whether the instance holds a handle and
    \<open>conClosed\<close> whether the file under the reader was closed: then only what is buffered can still be
    read.
  \<^item> \<open>remote\<close> is what lies outside: the zstd stream decoder, the number of the last segment
    uploaded to S3, and the S3 download.
  \<^item> \<open>FetchMessages\<close> is one loop with three labels. Each pass from \<open>READ_MSG\<close> to the next jump
    is \<open>fetchStep\<close>; \<open>onEOF\<close>, \<open>onInvalid\<close>, \<open>onMessage\<close> and \<open>reload\<close> are its branches. The
    consumer runs beside the queue's I/O loop, so each pass takes an \<open>fetchEnv\<close>: what the others
    did to the queue since the last pass, and which operating system calls fail in it. The list of
    these is also the number of passes: \<open>None\<close> means that the loop was still running.
  \<^item> A file removed while it is open reads as ended. Sleeping and statistics are left out.
\<close>

record Consumer =
  conID :: string
  conFile :: "int option"
  conMaxBytes :: int
  conReader :: "(int \<times> breader) option"
  conHandle :: bool
  conClosed :: bool
  conSegment :: int
  conReadPos :: int
  conVersion :: int
  lastFileSize :: int
  fileLoadCompleted :: bool

record remote =
  decode :: "bytes \<Rightarrow> bytes \<times> string option"
  lastUpload :: int
  download :: "int \<Rightarrow> string + bytes"

definition FileExists :: "DiskBasedQueue \<Rightarrow> int \<Rightarrow> bool" where
  "FileExists q i \<longleftrightarrow> dDat (files q) i \<noteq> None"

text \<open>\<open>zstd.DecompressFile\<close>: a stream that ends too early leaves what could be decoded.\<close>

definition DecompressFile :: "remote \<Rightarrow> DiskBasedQueue \<Rightarrow> int \<Rightarrow> DiskBasedQueue \<times> string option" where
  "DecompressFile rm q i =
     (if FileExists q i then (q, None)
      else case dZst (files q) i of
        None \<Rightarrow> (q, Some ''open'')
      | Some z \<Rightarrow>
          (case decode rm z of (b, err) \<Rightarrow>
             if err \<noteq> None \<and> err \<noteq> Some ''unexpected EOF'' then (q, err)
             else (q\<lparr>files := (files q)\<lparr>dDat := (dDat (files q))(i \<mapsto> b)\<rparr>\<rparr>, err)))"

definition decompressOrPanic :: "remote \<Rightarrow> DiskBasedQueue \<Rightarrow> int \<Rightarrow> DiskBasedQueue go" where
  "decompressOrPanic rm q i =
     (case DecompressFile rm q i of
        (q, None) \<Rightarrow> Ret q
      | (q, Some err) \<Rightarrow>
          if err \<noteq> ''unexpected EOF'' \<and> ContainStr err ''exists'' then Panic err else Ret q)"

text \<open>
  The result says whether the file and its successor existed when the call began; a file that is
  decompressed or downloaded on the way is reported as missing.
\<close>

definition SmartGetFileName ::
  "DiskQueueConfig \<Rightarrow> remote \<Rightarrow> DiskBasedQueue \<Rightarrow> int \<Rightarrow> (DiskBasedQueue \<times> bool \<times> bool) go" where
  "SmartGetFileName cfg rm q segmentID =
     (let ex = FileExists q segmentID;
          next_file_exists = FileExists q (segmentID + 1);
          compressed = Enabled (CompressSegment (DiskCompression cfg))
      in if ex then Ret (q, ex, next_file_exists)
         else
           go_bind (if compressed \<and> dZst (files q) segmentID \<noteq> None
                    then decompressOrPanic rm q segmentID else Ret q) (\<lambda>q.
             if (UploadToS3 cfg \<or> AlwaysDownload cfg) \<and> (AlwaysDownload cfg \<or> lastUpload rm \<ge> segmentID) then
               (case download rm segmentID of
                  Inl err \<Rightarrow>
                    if ContainStr err ''exist'' \<and> AlwaysDownload cfg then Ret (q, False, next_file_exists)
                    else Panic err
                | Inr b \<Rightarrow>
                    if compressed then
                      go_bind (decompressOrPanic rm
                                 (q\<lparr>files := (files q)\<lparr>dZst := (dZst (files q))(segmentID \<mapsto> b)\<rparr>\<rparr>) segmentID)
                        (\<lambda>q. Ret (q, ex, next_file_exists))
                    else Ret (q\<lparr>files := (files q)\<lparr>dDat := (dDat (files q))(segmentID \<mapsto> b)\<rparr>\<rparr>,
                              ex, next_file_exists))
             else Ret (q, ex, next_file_exists)))"

definition getFileSize :: "DiskBasedQueue \<Rightarrow> Consumer \<Rightarrow> int" where
  "getFileSize q c =
     (case conFile c of
        None \<Rightarrow> - 1
      | Some i \<Rightarrow> (case dDat (files q) i of None \<Rightarrow> - 1 | Some f \<Rightarrow> int (length f)))"

subsection \<open>Positioning\<close>

text \<open>The loop of \<open>ResetOffset\<close> that looks for the next segment with a file, below the write segment.\<close>

function skipMissing ::
  "DiskQueueConfig \<Rightarrow> remote \<Rightarrow> int \<Rightarrow> DiskBasedQueue \<Rightarrow> int \<Rightarrow> (DiskBasedQueue \<times> (int \<times> bool) option) go" where
  "skipMissing cfg rm w q nextSeg =
     (if nextSeg < w then
        go_bind (SmartGetFileName cfg rm q nextSeg) (\<lambda>(q, ex, nx).
          if ex \<or> FileExists q nextSeg then Ret (q, Some (nextSeg, nx))
          else skipMissing cfg rm w q (nextSeg + 1))
      else Ret (q, None))"
  by pat_completeness auto
termination
  by (relation "measure (\<lambda>(cfg, rm, w, q, n). nat (w - n))") auto

declare skipMissing.simps [simp del]

definition openSegment ::
  "bool \<Rightarrow> DiskBasedQueue \<Rightarrow> Consumer \<Rightarrow> int \<Rightarrow> bool \<Rightarrow> int \<Rightarrow> (DiskBasedQueue \<times> Consumer) \<times> string option" where
  "openSegment openFails q c file next_file_exists segment =
     (let c = c\<lparr>fileLoadCompleted := next_file_exists \<or> writeSegmentNum q > segment\<rparr>
      in case dDat (files q) file of
           None \<Rightarrow> ((q, c), Some ''no such file'')
         | Some f \<Rightarrow>
             if openFails then ((q, c), Some ''open'')
             else ((q, c\<lparr>conHandle := True, conClosed := False, conMaxBytes := int (length f),
                         conReader := Some (file, NewReader (if conReadPos c > 0 then nat (conReadPos c) else 0)),
                         conFile := Some file\<rparr>), None))"

definition notFound :: string where
  "notFound = ''not found''"

definition ResetOffset ::
  "DiskQueueConfig \<Rightarrow> remote \<Rightarrow> bool \<Rightarrow> DiskBasedQueue \<times> Consumer \<Rightarrow> int \<Rightarrow> int \<Rightarrow>
   ((DiskBasedQueue \<times> Consumer) \<times> string option) go" where
  "ResetOffset cfg rm openFails qc segment pos =
     (case qc of (q, c) \<Rightarrow>
        if writeSegmentNum q = 0 \<and> writePos q = 0 then Ret ((q, c), None)
        else if segment > writeSegmentNum q then Ret ((q, c), Some ''EOF'')
        else if segment = writeSegmentNum q \<and> pos > writePos q then Ret ((q, c), Some ''EOF'')
        else
          let c = (if conSegment c \<noteq> segment \<and> conHandle c then c\<lparr>conClosed := True\<rparr> else c);
              c = c\<lparr>conSegment := segment, conReadPos := pos, conMaxBytes := 0\<rparr>;
              q = UpdateSegmentConsumerInReading q (conID c) segment
          in go_bind (SmartGetFileName cfg rm q segment) (\<lambda>(q, ex, next_file_exists).
               if ex then Ret (openSegment openFails q c segment next_file_exists segment)
               else if FileExists q segment then Ret ((q, c), Some notFound)
               else if AutoSkipCorruptFile cfg then
                 (if segment + 1 > writeSegmentNum q then Ret ((q, c), Some notFound)
                  else
                    go_bind (skipMissing cfg rm (writeSegmentNum q) q (segment + 1)) (\<lambda>(q, found).
                      case found of
                        None \<Rightarrow> Ret ((q, c), Some notFound)
                      | Some (next, nx) \<Rightarrow>
                          let c = c\<lparr>conSegment := next, conReadPos := 0\<rparr>;
                              q = UpdateSegmentConsumerInReading q (conID c) next
                          in Ret (openSegment openFails q c next nx segment)))
               else Ret ((q, c), Some notFound)))"

definition newConsumer :: "string \<Rightarrow> Offset \<Rightarrow> Consumer" where
  "newConsumer ident offset =
     \<lparr>conID = ident, conFile = None, conMaxBytes = 0, conReader = None, conHandle = False, conClosed = False,
      conSegment = 0, conReadPos = 0, conVersion = Version offset, lastFileSize = 0,
      fileLoadCompleted = False\<rparr>"

definition AcquireConsumer ::
  "DiskQueueConfig \<Rightarrow> remote \<Rightarrow> bool \<Rightarrow> string \<Rightarrow> DiskBasedQueue \<Rightarrow> Offset \<Rightarrow>
   ((DiskBasedQueue \<times> Consumer) \<times> string option) go" where
  "AcquireConsumer cfg rm openFails ident q offset =
     ResetOffset cfg rm openFails (q, newConsumer ident offset) (Segment offset) (Position offset)"

definition consumerClose :: "DiskBasedQueue \<Rightarrow> Consumer \<Rightarrow> (DiskBasedQueue \<times> Consumer) \<times> string option" where
  "consumerClose q c =
     (let q = DeleteSegmentConsumerInReading q (conID c)
      in if conHandle c
         then ((q, c\<lparr>conHandle := False, conClosed := True\<rparr>), if conClosed c then Some ''file already closed'' else None)
         else ((q, c), None))"

subsection \<open>Fetching\<close>

record fetchEnv =
  others :: "DiskBasedQueue \<Rightarrow> DiskBasedQueue"
  shuttingDown :: bool
  openFails :: bool
  headFails :: bool
  bodyFails :: bool

definition env_ok :: fetchEnv where
  "env_ok = \<lparr>others = (\<lambda>q. q), shuttingDown = False, openFails = False, headFails = False, bodyFails = False\<rparr>"

text \<open>The variables of a running \<open>FetchMessages\<close>.\<close>

record fetch =
  fq :: DiskBasedQueue
  fc :: Consumer
  fctx :: Context
  fmsgs :: "Message list"
  fsize :: int
  fretry :: int

datatype jump = Again fetch | Finish fetch bool "string option"

definition nextOffsetHere :: "fetch \<Rightarrow> fetch" where
  "nextOffsetHere st = st\<lparr>fctx := UpdateNextOffset (fctx st) (conSegment (fc st)) (conReadPos (fc st))\<rparr>"

definition notifyRead :: "fetch \<Rightarrow> fetch" where
  "notifyRead st = st\<lparr>fq := notify (fq st) ReadComplete (conSegment (fc st))\<rparr>"

definition sawSize :: "fetch \<Rightarrow> int \<Rightarrow> fetch" where
  "sawSize st newSize = st\<lparr>fc := (fc st)\<lparr>lastFileSize := newSize\<rparr>\<rparr>"

text \<open>Reposition and go on; a missing file ends the fetch without an error, any other error panics.\<close>

definition resetThen ::
  "DiskQueueConfig \<Rightarrow> remote \<Rightarrow> fetchEnv \<Rightarrow> fetch \<Rightarrow> int \<Rightarrow> int \<Rightarrow> (fetch \<Rightarrow> jump) \<Rightarrow> jump go" where
  "resetThen cfg rm e st segment pos k =
     go_bind (ResetOffset cfg rm (openFails e) (fq st, fc st) segment pos) (\<lambda>((q, c), err).
       let st = st\<lparr>fq := q, fc := c\<rparr>
       in case err of
            None \<Rightarrow> Ret (k st)
          | Some m \<Rightarrow> if ContainStr m ''not found'' then Ret (Finish st False None) else Panic m)"

definition again :: "fetch \<Rightarrow> jump" where
  "again st = Again (st\<lparr>fretry := fretry st + 1\<rparr>)"

definition onEOF :: "DiskQueueConfig \<Rightarrow> remote \<Rightarrow> fetchEnv \<Rightarrow> fetch \<Rightarrow> jump go" where
  "onEOF cfg rm e st =
     (let c = fc st; newFileSize = getFileSize (fq st) c
      in if lastFileSize c \<noteq> newFileSize \<and> newFileSize > conReadPos c then
           resetThen cfg rm e (nextOffsetHere (sawSize st newFileSize)) (conSegment c) (conReadPos c) again
         else
           go_bind (SmartGetFileName cfg rm (fq st) (conSegment c + 1)) (\<lambda>(q, ex, _).
             let st = st\<lparr>fq := q\<rparr>
             in if fileLoadCompleted c \<and> ex then
                  resetThen cfg rm e (nextOffsetHere (notifyRead st)) (conSegment c + 1) 0
                    (\<lambda>st. Again ((nextOffsetHere st)\<lparr>fretry := 0\<rparr>))
                else if fileLoadCompleted c \<and> conSegment c < writeSegmentNum q then
                  resetThen cfg rm e (nextOffsetHere (notifyRead st)) (conSegment c + 1) 0
                    (\<lambda>st. Finish (nextOffsetHere st) False None)
                else Ret (Finish st False None)))"

text \<open>The loop of the corrupt-file branch: the next segment that has a file, up to the write segment.\<close>

function nextFile ::
  "DiskQueueConfig \<Rightarrow> remote \<Rightarrow> int \<Rightarrow> DiskBasedQueue \<Rightarrow> int \<Rightarrow> (DiskBasedQueue \<times> int option) go" where
  "nextFile cfg rm w q nextSeg =
     go_bind (SmartGetFileName cfg rm q nextSeg) (\<lambda>(q, ex, nx).
       if ex \<or> FileExists q nextSeg then Ret (q, Some nextSeg)
       else if nextSeg \<ge> w then Ret (q, None)
       else nextFile cfg rm w q (nextSeg + 1))"
  by pat_completeness auto
termination
  by (relation "measure (\<lambda>(cfg, rm, w, q, n). nat (w - n))") auto

declare nextFile.simps [simp del]

definition onInvalid :: "DiskQueueConfig \<Rightarrow> remote \<Rightarrow> fetchEnv \<Rightarrow> fetch \<Rightarrow> jump go" where
  "onInvalid cfg rm e st =
     (let c = fc st; newFileSize = getFileSize (fq st) c
      in if lastFileSize c \<noteq> newFileSize \<and> newFileSize > conMaxBytes c then
           let st = sawSize st newFileSize
           in go_bind (ResetOffset cfg rm (openFails e) (fq st, fc st) (conSegment c) (conReadPos c))
                (\<lambda>((q, c), err). Ret (Finish (st\<lparr>fq := q, fc := c\<rparr>) False err))
         else if AutoSkipCorruptFile cfg then
           go_bind (nextFile cfg rm (writeSegmentNum (fq st)) (fq st) (conSegment c + 1)) (\<lambda>(q, found).
             case found of
               None \<Rightarrow>
                 Ret (Finish (st\<lparr>fq := (fst (skipToNextRWFile io_ok False q))\<lparr>needSync := True\<rparr>\<rparr>) False None)
             | Some next \<Rightarrow>
                 go_bind (ResetOffset cfg rm (openFails e) (q, c) next 0) (\<lambda>((q, c), err).
                   let st = notifyRead (st\<lparr>fq := q, fc := c\<rparr>)
                   in case err of
                        None \<Rightarrow> Ret (Again (st\<lparr>fctx := UpdateNextOffset (fctx st) next 0, fretry := 0\<rparr>))
                      | Some m \<Rightarrow> if ContainStr m ''not found'' then Ret (Finish st False None) else Panic m))
         else Ret (Finish st False (Some ''invalid message size'')))"

definition reload ::
  "DiskQueueConfig \<Rightarrow> remote \<Rightarrow> fetchEnv \<Rightarrow> fetch \<Rightarrow> int \<Rightarrow> string option \<Rightarrow> jump go" where
  "reload cfg rm e st nextPos err =
     (let c = fc st
      in if nextPos \<ge> conMaxBytes c then
           (if \<not> fileLoadCompleted c then
              go_bind (ResetOffset cfg rm (openFails e) (fq st, c) (conSegment c) (conReadPos c))
                (\<lambda>((q, c), _). Ret (Finish (st\<lparr>fq := q, fc := c\<rparr>) False None))
            else
              go_bind (SmartGetFileName cfg rm (fq st) (conSegment c + 1)) (\<lambda>(q, ex, _).
                let st = st\<lparr>fq := q\<rparr>
                in if ex \<or> FileExists q (conSegment c + 1) then
                     let newFileSize = getFileSize q c
                     in if lastFileSize c \<noteq> newFileSize \<and> newFileSize > conReadPos c then
                          resetThen cfg rm e (nextOffsetHere (sawSize st newFileSize)) (conSegment c) (conReadPos c) again
                        else
                          resetThen cfg rm e (nextOffsetHere (notifyRead st)) (conSegment c + 1) 0
                            (\<lambda>st. Again (st\<lparr>fretry := 0\<rparr>))
                   else Ret (Finish st False err)))
         else Ret (Again st))"

definition takeMessage :: "fetch \<Rightarrow> int \<Rightarrow> int \<Rightarrow> bytes \<Rightarrow> fetch" where
  "takeMessage st previousPos totalBytes data =
     (let c = fc st;
          message = \<lparr>msgTimestamp = 0,
            msgOffset = NewOffsetWithVersion (conSegment c) previousPos (conVersion c),
            msgNextOffset = NewOffsetWithVersion (conSegment c) (previousPos + totalBytes) (conVersion c),
            msgSize = totalBytes, msgData = data\<rparr>;
          ctx = UpdateNextOffset (fctx st) (conSegment c) (previousPos + totalBytes)
      in st\<lparr>fctx := ctx\<lparr>MessageCount := MessageCount ctx + 1\<rparr>, fmsgs := fmsgs st @ [message],
            fsize := fsize st + totalBytes\<rparr>)"

definition onMessage ::
  "DiskQueueConfig \<Rightarrow> remote \<Rightarrow> (bytes \<Rightarrow> string + bytes) \<Rightarrow> ConsumerConfig \<Rightarrow> int \<Rightarrow> fetchEnv \<Rightarrow>
   fetch \<Rightarrow> int \<Rightarrow> int \<Rightarrow> bytes \<Rightarrow> jump go" where
  "onMessage cfg rm ZSTDDecompress ccfg numOfMessages e st previousPos totalBytes readBuf =
     (let c = fc st; q = fq st; nextPos = previousPos + totalBytes
      in if nextPos > conMaxBytes c \<or> (writeSegmentNum q = conSegment c \<and> nextPos > writePos q) then
           (if fileLoadCompleted c \<and> nextPos > conMaxBytes c
            then Ret (Finish st True (Some ''the read position exceeds max_bytes_to_read''))
            else reload cfg rm e (st\<lparr>fc := c\<lparr>conReadPos := previousPos\<rparr>\<rparr>) nextPos None)
         else
           case (if Enabled (CompressMessage (DiskCompression cfg)) then ZSTDDecompress readBuf else Inr readBuf) of
             Inl m \<Rightarrow>
               Ret (Finish (st\<lparr>fctx := UpdateNextOffset (fctx st) (conSegment c) nextPos\<rparr>) False (Some m))
           | Inr data \<Rightarrow>
               let st = takeMessage st previousPos totalBytes data
               in if int (length (fmsgs st)) \<ge> FetchMaxMessages ccfg \<or>
                     (int (length (fmsgs st)) \<ge> numOfMessages \<and> numOfMessages > 0)
                  then Ret (Finish st False None)
                  else if fsize st > FetchMaxBytes ccfg \<and> FetchMaxBytes ccfg > 0
                  then Ret (Finish st False None)
                  else reload cfg rm e st nextPos None)"

text \<open>What the reader of the consumer can still read.\<close>

definition readable :: "DiskBasedQueue \<Rightarrow> Consumer \<Rightarrow> int \<Rightarrow> breader \<Rightarrow> bytes" where
  "readable q c file r =
     (if conClosed c then take (rdOff r) (segBytes (files q) file) else segBytes (files q) file)"

definition readBody ::
  "DiskQueueConfig \<Rightarrow> remote \<Rightarrow> (bytes \<Rightarrow> string + bytes) \<Rightarrow> ConsumerConfig \<Rightarrow> int \<Rightarrow> fetchEnv \<Rightarrow>
   fetch \<Rightarrow> int \<Rightarrow> breader \<Rightarrow> int \<Rightarrow> jump go" where
  "readBody cfg rm ZSTDDecompress ccfg numOfMessages e st file r msgLen =
     (if msgLen < 0 then Panic ''makeslice: len out of range''
      else
        let (readBuf, r) = ReadFull (nat msgLen) (readable (fq st) (fc st) file r) r;
            totalBytes = to_int32 (4 + msgLen);
            previousPos = conReadPos (fc st);
            nextPos = previousPos + totalBytes;
            c = (fc st)\<lparr>conReader := Some (file, r), conReadPos := nextPos\<rparr>;
            st = st\<lparr>fc := c\<rparr>
        in if bodyFails e then Ret (Finish st False (Some ''read''))
           else if length readBuf < nat msgLen then
             (if conClosed c then Ret (Finish st False (Some ''file already closed''))
              else if conReadPos c \<ge> conMaxBytes c \<or> conMaxBytes c = getFileSize (fq st) c
              then reload cfg rm e st nextPos (Some (if readBuf = [] then ''EOF'' else ''unexpected EOF''))
              else Ret (Finish st False None))
           else onMessage cfg rm ZSTDDecompress ccfg numOfMessages e st previousPos totalBytes readBuf)"

definition fetchStep ::
  "DiskQueueConfig \<Rightarrow> remote \<Rightarrow> (bytes \<Rightarrow> string + bytes) \<Rightarrow> ConsumerConfig \<Rightarrow> int \<Rightarrow> fetchEnv \<Rightarrow> fetch \<Rightarrow> jump go" where
  "fetchStep cfg rm ZSTDDecompress ccfg numOfMessages e st =
     (let st = st\<lparr>fq := others e (fq st)\<rparr>
      in if shuttingDown e then Ret (Finish st False (Some ''shutting down''))
         else if fretry st > 0 \<and> EOFMaxRetryTimes ccfg > 0 \<and> fretry st \<ge> EOFMaxRetryTimes ccfg
         then Ret (Finish st False (Some ''too many retry times''))
         else case conReader (fc st) of
           None \<Rightarrow> Ret (Finish st False (Some ''reader is nil''))
         | Some (file, r) \<Rightarrow>
             if headFails e then Ret (Finish st False (Some ''read''))
             else
               let (pre, r) = ReadFull 4 (readable (fq st) (fc st) file r) r;
                   st = st\<lparr>fc := (fc st)\<lparr>conReader := Some (file, r)\<rparr>\<rparr>
               in if length pre < 4 then onEOF cfg rm e st
                  else if prefixLen pre < MinMsgSize cfg \<or> prefixLen pre > MaxMsgSize cfg
                  then onInvalid cfg rm e st
                  else readBody cfg rm ZSTDDecompress ccfg numOfMessages e st file r (prefixLen pre))"

fun fetchLoop ::
  "DiskQueueConfig \<Rightarrow> remote \<Rightarrow> (bytes \<Rightarrow> string + bytes) \<Rightarrow> ConsumerConfig \<Rightarrow> int \<Rightarrow> fetchEnv list \<Rightarrow>
   fetch \<Rightarrow> (fetch \<times> bool \<times> string option) go option" where
  "fetchLoop cfg rm zd ccfg n [] st = None"
| "fetchLoop cfg rm zd ccfg n (e # es) st =
     (case fetchStep cfg rm zd ccfg n e st of
        Panic m \<Rightarrow> Some (Panic m)
      | Ret (Finish st timeout err) \<Rightarrow> Some (Ret (st, timeout, err))
      | Ret (Again st) \<Rightarrow> fetchLoop cfg rm zd ccfg n es st)"

definition startFetch :: "DiskBasedQueue \<Rightarrow> Consumer \<Rightarrow> Context \<Rightarrow> fetch" where
  "startFetch q c ctx =
     (let ctx = UpdateInitOffset (ctx\<lparr>MessageCount := 0\<rparr>) (conSegment c) (conReadPos c) (conVersion c)
      in \<lparr>fq = q, fc = c, fctx = ctx\<lparr>NextOffset := InitOffset ctx\<rparr>, fmsgs = [], fsize = 0, fretry = 0\<rparr>)"

definition FetchMessages ::
  "DiskQueueConfig \<Rightarrow> remote \<Rightarrow> (bytes \<Rightarrow> string + bytes) \<Rightarrow> ConsumerConfig \<Rightarrow> int \<Rightarrow> fetchEnv list \<Rightarrow>
   DiskBasedQueue \<Rightarrow> Consumer \<Rightarrow> Context \<Rightarrow> (fetch \<times> bool \<times> string option) go option" where
  "FetchMessages cfg rm zd ccfg n es q c ctx =
     (let st = startFetch q c ctx
      in if writeSegmentNum q < conSegment c then Some (Ret (st, False, Some ''segment not found''))
         else fetchLoop cfg rm zd ccfg n es st)"

end
