(* ===== verification/DiskQueueFifo.thy ===== *)
theory DiskQueueFifo
  imports DiskQueue
begin

section \<open>The disk queue is a queue\<close>

text \<open>
  The refinement of the disk queue to a list of messages. \<open>segs\<close> names, for each segment number,
  the messages of that segment that are still to be read; \<open>file_inv\<close> says that the files from the
  read to the write segment hold exactly these messages in the segment format, and that the handles
  and positions agree with them; \<open>contents\<close> is the abstract queue. \<open>ahead\<close> describes the state in
  which the next message has been read and waits for a receiver.

  Every step of the I/O loop is then matched by a step of \<open>fifo_step\<close>, the specification: a write
  appends, a delivery takes the head, everything else leaves the queue alone. Clean shutdown and
  restart keep the contents.
\<close>

definition cfg_ok :: "DiskQueueConfig \<Rightarrow> bool" where
  "cfg_ok cfg \<longleftrightarrow> MaxMsgSize cfg \<le> 2 ^ 31 - 5"

definition codec_ok ::
  "DiskQueueConfig \<Rightarrow> (int \<Rightarrow> bytes \<Rightarrow> bytes) \<Rightarrow> (bytes \<Rightarrow> string + bytes) \<Rightarrow> bool" where
  "codec_ok cfg zc zd \<longleftrightarrow> Enabled (CompressMessage (DiskCompression cfg)) \<longrightarrow>
     (\<forall>m. zd (zc (Level (CompressMessage (DiskCompression cfg))) m) = Inr m)"

definition msg_ok :: "DiskQueueConfig \<Rightarrow> (int \<Rightarrow> bytes \<Rightarrow> bytes) \<Rightarrow> bytes \<Rightarrow> bool" where
  "msg_ok cfg zc m \<longleftrightarrow> MinMsgSize cfg \<le> int (length (storedForm cfg zc m)) \<and>
     int (length (storedForm cfg zc m)) \<le> MaxMsgSize cfg"

definition seg_off :: "DiskBasedQueue \<Rightarrow> int \<Rightarrow> nat" where
  "seg_off d i = (if i = readSegmentFileNum d then nat (readPos d) else 0)"

definition seg_ok ::
  "DiskQueueConfig \<Rightarrow> (int \<Rightarrow> bytes \<Rightarrow> bytes) \<Rightarrow> DiskBasedQueue \<Rightarrow> int \<Rightarrow> bytes list \<Rightarrow> bool" where
  "seg_ok cfg zc d i ms \<longleftrightarrow>
     seg_off d i \<le> length (segBytes (files d) i) \<and>
     drop (seg_off d i) (segBytes (files d) i) = encMsgs (map (storedForm cfg zc) ms) \<and>
     (\<forall>m \<in> set ms. msg_ok cfg zc m)"

definition contents :: "DiskBasedQueue \<Rightarrow> (int \<Rightarrow> bytes list) \<Rightarrow> bytes list" where
  "contents d segs = concat (map segs [readSegmentFileNum d..writeSegmentNum d])"

definition file_inv ::
  "DiskQueueConfig \<Rightarrow> (int \<Rightarrow> bytes \<Rightarrow> bytes) \<Rightarrow> DiskBasedQueue \<Rightarrow> (int \<Rightarrow> bytes list) \<Rightarrow> bool" where
  "file_inv cfg zc d segs \<longleftrightarrow>
     readSegmentFileNum d \<le> writeSegmentNum d \<and> 0 \<le> readPos d \<and>
     writePos d = int (length (segBytes (files d) (writeSegmentNum d))) \<and>
     (\<forall>i. readSegmentFileNum d \<le> i \<longrightarrow> i \<le> writeSegmentNum d \<longrightarrow> seg_ok cfg zc d i (segs i)) \<and>
     (\<forall>i. readSegmentFileNum d \<le> i \<longrightarrow> i < writeSegmentNum d \<longrightarrow> segs i \<noteq> []) \<and>
     (\<forall>i. writeSegmentNum d < i \<longrightarrow> dDat (files d) i = None) \<and>
     depth d = int (length (contents d segs)) \<and>
     (writeFile d = None \<or>
      writeFile d = Some (writeSegmentNum d, length (segBytes (files d) (writeSegmentNum d))))"

lemma file_invI:
  assumes "readSegmentFileNum d \<le> writeSegmentNum d" "0 \<le> readPos d"
    "writePos d = int (length (segBytes (files d) (writeSegmentNum d)))"
    "\<And>i. readSegmentFileNum d \<le> i \<Longrightarrow> i \<le> writeSegmentNum d \<Longrightarrow> seg_ok cfg zc d i (segs i)"
    "\<And>i. readSegmentFileNum d \<le> i \<Longrightarrow> i < writeSegmentNum d \<Longrightarrow> segs i \<noteq> []"
    "\<And>i. writeSegmentNum d < i \<Longrightarrow> dDat (files d) i = None"
    "depth d = int (length (contents d segs))"
    "writeFile d = None \<or> writeFile d = Some (writeSegmentNum d, length (segBytes (files d) (writeSegmentNum d)))"
  shows "file_inv cfg zc d segs"
  using assms unfolding file_inv_def by blast

lemma file_invD:
  assumes "file_inv cfg zc d segs"
  shows "readSegmentFileNum d \<le> writeSegmentNum d" "0 \<le> readPos d"
    "writePos d = int (length (segBytes (files d) (writeSegmentNum d)))"
    "readSegmentFileNum d \<le> i \<Longrightarrow> i \<le> writeSegmentNum d \<Longrightarrow> seg_ok cfg zc d i (segs i)"
    "readSegmentFileNum d \<le> i \<Longrightarrow> i < writeSegmentNum d \<Longrightarrow> segs i \<noteq> []"
    "writeSegmentNum d < i \<Longrightarrow> dDat (files d) i = None"
    "depth d = int (length (contents d segs))"
    "writeFile d = None \<or> writeFile d = Some (writeSegmentNum d, length (segBytes (files d) (writeSegmentNum d)))"
  using assms unfolding file_inv_def by blast+

text \<open>The reader stands at \<open>p\<close> of the read segment.\<close>

definition reader_at :: "DiskBasedQueue \<Rightarrow> nat \<Rightarrow> bool" where
  "reader_at d p \<longleftrightarrow>
     (\<forall>s r. readFile d = Some (s, r) \<longrightarrow>
        s = readSegmentFileNum d \<and> coherent p (segBytes (files d) s) r \<and> p \<le> length (segBytes (files d) s) \<and>
        (s < writeSegmentNum d \<longrightarrow> maxBytesPerFileRead d = int (length (segBytes (files d) s))))"

definition ahead ::
  "DiskQueueConfig \<Rightarrow> (int \<Rightarrow> bytes \<Rightarrow> bytes) \<Rightarrow> DiskBasedQueue \<Rightarrow> (int \<Rightarrow> bytes list) \<Rightarrow> bytes \<Rightarrow> bool" where
  "ahead cfg zc d segs m \<longleftrightarrow>
     (\<exists>ms. segs (readSegmentFileNum d) = m # ms \<and>
       (if nextReadFileNum d = readSegmentFileNum d then
          nextReadPos d = readPos d + 4 + int (length (storedForm cfg zc m)) \<and>
          reader_at d (nat (nextReadPos d)) \<and> (readSegmentFileNum d < writeSegmentNum d \<longrightarrow> ms \<noteq> [])
        else
          nextReadFileNum d = readSegmentFileNum d + 1 \<and> nextReadFileNum d \<le> writeSegmentNum d \<and>
          nextReadPos d = 0 \<and> readFile d = None \<and> ms = []))"

lemma segBytes_Some: "segBytes fs i \<noteq> [] \<Longrightarrow> \<exists>f. dDat fs i = Some f \<and> f = segBytes fs i"
  by (auto simp: segBytes_def split: option.splits)

lemma segBytes_putBytes [simp]:
  "segBytes (putBytes fs s off b) i = (if i = s then writeAt (segBytes fs s) off b else segBytes fs i)"
  by (simp add: segBytes_def putBytes_def)

lemma upto_split_first: "(a::int) \<le> b \<Longrightarrow> [a..b] = a # [a + 1..b]"
  by (simp add: upto.simps)

lemma contents_first:
  "readSegmentFileNum d \<le> writeSegmentNum d \<Longrightarrow>
    contents d segs = segs (readSegmentFileNum d) @ concat (map segs [readSegmentFileNum d + 1..writeSegmentNum d])"
  by (simp add: contents_def upto_split_first)

lemma contents_last:
  "readSegmentFileNum d \<le> writeSegmentNum d \<Longrightarrow>
    contents d segs = concat (map segs [readSegmentFileNum d..writeSegmentNum d - 1]) @ segs (writeSegmentNum d)"
  by (simp add: contents_def upto_rec2)

subsection \<open>Reading ahead\<close>

lemma to_int32_size:
  "cfg_ok cfg \<Longrightarrow> msg_ok cfg zc m \<Longrightarrow> k \<le> 4 \<Longrightarrow> 0 \<le> k \<Longrightarrow>
    to_int32 (k + int (length (storedForm cfg zc m))) = k + int (length (storedForm cfg zc m))"
  by (rule to_int32_id) (auto simp: cfg_ok_def msg_ok_def)

lemma openRead_ok:
  assumes "file_inv cfg zc d segs" "reader_at d (nat (readPos d))" "\<not> readSeekErr x"
    and "segs (readSegmentFileNum d) \<noteq> []"
  shows "\<exists>r mb. openRead cfg x d = Inr (d\<lparr>readFile := Some (readSegmentFileNum d, r), maxBytesPerFileRead := mb\<rparr>) \<and>
    reader_at (d\<lparr>readFile := Some (readSegmentFileNum d, r), maxBytesPerFileRead := mb\<rparr>) (nat (readPos d))"
proof (cases "readFile d")
  case (Some sr)
  then obtain r where "readFile d = Some (readSegmentFileNum d, r)"
    using assms(2) by (cases sr) (auto simp: reader_at_def)
  then have "openRead cfg x d = Inr (d\<lparr>readFile := Some (readSegmentFileNum d, r),
      maxBytesPerFileRead := maxBytesPerFileRead d\<rparr>)"
    "d = d\<lparr>readFile := Some (readSegmentFileNum d, r), maxBytesPerFileRead := maxBytesPerFileRead d\<rparr>"
    by (simp_all add: openRead_def)
  with assms(2) show ?thesis by metis
next
  case None
  have so: "seg_ok cfg zc d (readSegmentFileNum d) (segs (readSegmentFileNum d))" "0 \<le> readPos d"
    using assms(1) by (auto simp: file_inv_def)
  then have "drop (nat (readPos d)) (segBytes (files d) (readSegmentFileNum d)) \<noteq> []"
    using assms(4) by (simp add: seg_ok_def seg_off_def)
  then have "segBytes (files d) (readSegmentFileNum d) \<noteq> []"
    by auto
  then obtain f where f: "dDat (files d) (readSegmentFileNum d) = Some f" "f = segBytes (files d) (readSegmentFileNum d)"
    using segBytes_Some by blast
  let ?mb = "if readSegmentFileNum d < writeSegmentNum d then int (length f) else MaxBytesPerFile cfg"
  have p: "(if readPos d > 0 then nat (readPos d) else 0) = nat (readPos d)" by simp
  have "openRead cfg x d = Inr (d\<lparr>readFile := Some (readSegmentFileNum d, NewReader (nat (readPos d))),
      maxBytesPerFileRead := ?mb\<rparr>)"
    unfolding openRead_def p using None f(1) assms(3) by simp
  moreover have "reader_at (d\<lparr>readFile := Some (readSegmentFileNum d, NewReader (nat (readPos d))),
      maxBytesPerFileRead := ?mb\<rparr>) (nat (readPos d))"
    using so f(2) by (simp add: reader_at_def seg_ok_def seg_off_def)
  ultimately show ?thesis by blast
qed

lemmas inv_defs = file_inv_def contents_def seg_ok_def seg_off_def

lemma file_inv_frame [simp]:
  "file_inv cfg zc (d\<lparr>readFile := a\<rparr>) segs = file_inv cfg zc d segs"
  "file_inv cfg zc (d\<lparr>maxBytesPerFileRead := b\<rparr>) segs = file_inv cfg zc d segs"
  "file_inv cfg zc (d\<lparr>nextReadPos := c\<rparr>) segs = file_inv cfg zc d segs"
  "file_inv cfg zc (d\<lparr>nextReadFileNum := c\<rparr>) segs = file_inv cfg zc d segs"
  "file_inv cfg zc (d\<lparr>needSync := e\<rparr>) segs = file_inv cfg zc d segs"
  "file_inv cfg zc (d\<lparr>consumerMode := e\<rparr>) segs = file_inv cfg zc d segs"
  "file_inv cfg zc (d\<lparr>exitFlag := e\<rparr>) segs = file_inv cfg zc d segs"
  "file_inv cfg zc (d\<lparr>notified := g\<rparr>) segs = file_inv cfg zc d segs"
  by (simp_all add: inv_defs)

lemma contents_frame [simp]:
  "contents (d\<lparr>readFile := a\<rparr>) segs = contents d segs"
  "contents (d\<lparr>maxBytesPerFileRead := b\<rparr>) segs = contents d segs"
  "contents (d\<lparr>nextReadPos := c\<rparr>) segs = contents d segs"
  "contents (d\<lparr>nextReadFileNum := c\<rparr>) segs = contents d segs"
  "contents (d\<lparr>needSync := e\<rparr>) segs = contents d segs"
  "contents (d\<lparr>files := fs\<rparr>) segs = contents d segs"
  "contents (d\<lparr>writeFile := w\<rparr>) segs = contents d segs"
  "contents (d\<lparr>depth := c\<rparr>) segs = contents d segs"
  "contents (d\<lparr>writePos := c\<rparr>) segs = contents d segs"
  by (simp_all add: contents_def)

lemma finishRead_ahead:
  assumes inv: "file_inv cfg zc d segs" and c: "cfg_ok cfg" and ms: "segs (readSegmentFileNum d) = m # ms"
    and n: "n = int (length (storedForm cfg zc m))"
    and r: "coherent (nat (readPos d) + 4 + nat n) (segBytes (files d) (readSegmentFileNum d)) r"
    and mx: "readSegmentFileNum d < writeSegmentNum d \<longrightarrow>
      maxBytesPerFileRead d = int (length (segBytes (files d) (readSegmentFileNum d)))"
  shows "ahead cfg zc (finishRead d r n) segs m \<and> file_inv cfg zc (finishRead d r n) segs"
proof -
  let ?s = "readSegmentFileNum d" and ?f = "segBytes (files d) (readSegmentFileNum d)"
  have so: "seg_ok cfg zc d ?s (m # ms)" and rp: "0 \<le> readPos d"
    using inv ms by (auto simp: file_inv_def dest: spec [of _ ?s])
  then have d: "drop (nat (readPos d)) ?f = encMsg (storedForm cfg zc m) @ encMsgs (map (storedForm cfg zc) ms)"
    "nat (readPos d) \<le> length ?f" "msg_ok cfg zc m"
    by (simp_all add: seg_ok_def seg_off_def)
  have len: "length ?f = nat (readPos d) + 4 + nat n + length (encMsgs (map (storedForm cfg zc) ms))"
    using arg_cong [OF d(1), of length] d(2) n by simp
  have t: "to_int32 (4 + n) = 4 + n" using to_int32_size [OF c d(3), of 4] n by simp
  have pos: "nat (readPos d + (4 + n)) = nat (readPos d) + 4 + nat n" using rp n by simp
  have full: "readPos d + (4 + n) \<ge> int (length ?f) \<longleftrightarrow> ms = []"
  proof -
    have "length (encMsgs (map (storedForm cfg zc) ms)) = 0 \<longleftrightarrow> ms = []" by simp
    with len rp n show ?thesis by linarith
  qed
  show ?thesis
  proof (cases "?s < writeSegmentNum d \<and> ms = []")
    case True
    with t full mx have "finishRead d r n = d\<lparr>readFile := None, nextReadPos := 0, nextReadFileNum := ?s + 1\<rparr>"
      by (simp add: finishRead_def Let_def)
    with True ms inv show ?thesis by (auto simp: ahead_def)
  next
    case False
    with full mx have g: "\<not> (?s < writeSegmentNum d \<and> maxBytesPerFileRead d \<le> readPos d + (4 + n))"
      by auto
    have "finishRead d r n =
        d\<lparr>readFile := Some (?s, r), nextReadPos := readPos d + (4 + n), nextReadFileNum := ?s\<rparr>"
      unfolding finishRead_def Let_def t by (simp add: g)
    with False ms inv r mx len pos n show ?thesis
      by (auto simp: ahead_def reader_at_def)
  qed
qed

lemma readOne_ahead:
  assumes inv: "file_inv cfg zc d segs" and c: "cfg_ok cfg" "codec_ok cfg zc zd"
    and r: "reader_at d (nat (readPos d))" "\<not> readSeekErr x" and ms: "segs (readSegmentFileNum d) = m # ms"
  shows "\<exists>d'. readOne cfg zd x d = (d', Inr m) \<and> ahead cfg zc d' segs m \<and> file_inv cfg zc d' segs \<and>
    consumerMode d' = consumerMode d \<and> readSegmentFileNum d' = readSegmentFileNum d \<and>
    writeSegmentNum d' = writeSegmentNum d \<and> depth d' = depth d"
proof -
  let ?s = "readSegmentFileNum d" and ?f = "segBytes (files d) (readSegmentFileNum d)"
  let ?st = "storedForm cfg zc m"
  obtain r1 mb where o: "openRead cfg x d = Inr (d\<lparr>readFile := Some (?s, r1), maxBytesPerFileRead := mb\<rparr>)"
    "reader_at (d\<lparr>readFile := Some (?s, r1), maxBytesPerFileRead := mb\<rparr>) (nat (readPos d))"
    using openRead_ok [OF inv r] ms by auto
  obtain d1 where d1: "d1 = d\<lparr>readFile := Some (?s, r1), maxBytesPerFileRead := mb\<rparr>" by blast
  have inv1: "file_inv cfg zc d1 segs" by (simp add: d1 inv)
  have same: "readSegmentFileNum d1 = ?s" "readPos d1 = readPos d" "files d1 = files d"
    "writeSegmentNum d1 = writeSegmentNum d" "consumerMode d1 = consumerMode d" "depth d1 = depth d"
    "readFile d1 = Some (?s, r1)" "openRead cfg x d = Inr d1" "reader_at d1 (nat (readPos d))"
    using o by (simp_all add: d1)
  have co: "coherent (nat (readPos d)) ?f r1"
    "?s < writeSegmentNum d1 \<longrightarrow> maxBytesPerFileRead d1 = int (length ?f)"
    using same by (auto simp: reader_at_def)
  have so: "seg_ok cfg zc d ?s (m # ms)"
    using inv ms by (auto simp: file_inv_def dest: spec [of _ ?s])
  then have dr: "drop (nat (readPos d)) ?f = encMsg ?st @ encMsgs (map (storedForm cfg zc) ms)"
    and ok: "msg_ok cfg zc m"
    by (simp_all add: seg_ok_def seg_off_def)
  obtain r2 r3 where rd: "ReadFull 4 ?f r1 = (lenPrefix (int (length ?st)), r2)"
    "ReadFull (length ?st) ?f r2 = (?st, r3)" "coherent (nat (readPos d) + 4 + length ?st) ?f r3"
    using ReadFull_message [OF co(1) dr] by auto
  have len: "prefixLen (lenPrefix (int (length ?st))) = int (length ?st)"
    using to_int32_size [OF c(1) ok, of 0] by (simp add: prefixLen_lenPrefix)
  have fin: "ahead cfg zc (finishRead d1 r3 (int (length ?st))) segs m \<and>
      file_inv cfg zc (finishRead d1 r3 (int (length ?st))) segs"
    by (rule finishRead_ahead [OF inv1 c(1), of m ms]) (use co in \<open>simp_all add: ms same rd(3)\<close>)
  have out: "readOne cfg zd x d = (finishRead d1 r3 (int (length ?st)), Inr m)"
  proof -
    have ns: "\<not> int (length ?st) < MinMsgSize cfg" "\<not> MaxMsgSize cfg < int (length ?st)"
      using ok by (simp_all add: msg_ok_def)
    have zd: "(if Enabled (CompressMessage (DiskCompression cfg)) then (a, zd ?st) else (a, Inr ?st)) = (a, Inr m)"
      for a :: DiskBasedQueue
      using c(2) by (simp add: codec_ok_def storedForm_def)
    show ?thesis
      unfolding readOne_def same(8) by (simp add: same rd len ns zd)
  qed
  have "consumerMode (finishRead d1 r3 n) = consumerMode d1" "depth (finishRead d1 r3 n) = depth d1"
    "readSegmentFileNum (finishRead d1 r3 n) = readSegmentFileNum d1"
    "writeSegmentNum (finishRead d1 r3 n) = writeSegmentNum d1" for n
    by (simp_all add: finishRead_def Let_def)
  with out fin same show ?thesis by auto
qed

subsection \<open>Delivering\<close>

lemma checkTail_noop:
  assumes "file_inv cfg zc d segs"
  shows "checkTailCorruption x d (depth d) = d"
proof (cases "readSegmentFileNum d < writeSegmentNum d \<or> readPos d < writePos d")
  case True
  then show ?thesis by (simp add: checkTailCorruption_def)
next
  case False
  with assms have s: "readSegmentFileNum d = writeSegmentNum d" "writePos d \<le> readPos d"
    by (auto simp: file_inv_def)
  with assms have so: "seg_ok cfg zc d (writeSegmentNum d) (segs (writeSegmentNum d))"
    and wp: "writePos d = int (length (segBytes (files d) (writeSegmentNum d)))" and rp: "0 \<le> readPos d"
    by (auto simp: file_inv_def)
  with s have e: "readPos d = writePos d" by (auto simp: seg_ok_def seg_off_def)
  with so s wp have "segs (writeSegmentNum d) = []" by (simp add: seg_ok_def seg_off_def)
  with s have "contents d segs = []" by (simp add: contents_def)
  then have "depth d = 0" using assms by (simp add: file_inv_def)
  with s e show ?thesis by (simp add: checkTailCorruption_def)
qed

lemma deliver_same:
  assumes inv: "file_inv cfg zc d segs" and ms: "segs (readSegmentFileNum d) = m # ms"
    and np: "np = readPos d + 4 + int (length (storedForm cfg zc m))"
    and more: "readSegmentFileNum d < writeSegmentNum d \<longrightarrow> ms \<noteq> []"
  shows "file_inv cfg zc (d\<lparr>readPos := np, depth := depth d - 1\<rparr>) (segs(readSegmentFileNum d := ms)) \<and>
    contents d segs = m # contents d (segs(readSegmentFileNum d := ms))"
proof -
  let ?s = "readSegmentFileNum d" and ?f = "segBytes (files d) (readSegmentFileNum d)"
  let ?d = "d\<lparr>readPos := np, depth := depth d - 1\<rparr>" and ?g = "segs(readSegmentFileNum d := ms)"
  have le: "?s \<le> writeSegmentNum d" and rp: "0 \<le> readPos d" using inv by (auto simp: file_inv_def)
  have so: "seg_ok cfg zc d ?s (m # ms)" using inv ms le by (auto simp: file_inv_def dest: spec [of _ ?s])
  then have dr: "drop (nat (readPos d)) ?f = encMsg (storedForm cfg zc m) @ encMsgs (map (storedForm cfg zc) ms)"
    "nat (readPos d) \<le> length ?f" "\<forall>x \<in> set ms. msg_ok cfg zc x"
    by (simp_all add: seg_ok_def seg_off_def)
  have np': "nat np = nat (readPos d) + (4 + length (storedForm cfg zc m))" using np rp by simp
  have len: "nat np \<le> length ?f" using arg_cong [OF dr(1), of length] dr(2) np' by simp
  have "drop (nat np) ?f = drop (4 + length (storedForm cfg zc m)) (drop (nat (readPos d)) ?f)"
    by (simp add: np' add.commute)
  also have "\<dots> = encMsgs (map (storedForm cfg zc) ms)" unfolding dr(1) by simp
  finally have "seg_ok cfg zc ?d ?s ms" using len dr(3) by (simp add: seg_ok_def seg_off_def)
  moreover have "seg_ok cfg zc ?d i (segs i)" if "?s < i" "i \<le> writeSegmentNum d" for i
    using inv that by (auto simp: file_inv_def seg_ok_def seg_off_def dest!: spec [of _ i])
  ultimately have segok: "seg_ok cfg zc ?d i (?g i)" if "?s \<le> i" "i \<le> writeSegmentNum d" for i
    using that by (cases "i = ?s") auto
  have "map ?g [?s + 1..writeSegmentNum d] = map segs [?s + 1..writeSegmentNum d]" by simp
  then have cont: "contents d segs = m # contents d ?g"
    using le ms by (simp add: contents_first)
  then have "depth d - 1 = int (length (contents ?d ?g))"
    using inv by (simp add: file_inv_def contents_def)
  moreover have "?g i \<noteq> []" if "?s \<le> i" "i < writeSegmentNum d" for i
    using inv that more by (auto simp: file_inv_def)
  ultimately have "file_inv cfg zc ?d ?g"
    by (intro file_invI) (use file_invD [OF inv] segok np in simp_all)
  with cont show ?thesis by simp
qed

lemma deliver_next:
  assumes inv: "file_inv cfg zc d segs" and ms: "segs (readSegmentFileNum d) = [m]"
    and le: "readSegmentFileNum d + 1 \<le> writeSegmentNum d"
    and fs: "\<forall>i. i \<noteq> readSegmentFileNum d \<longrightarrow> dDat fs i = dDat (files d) i"
  shows "file_inv cfg zc (d\<lparr>readSegmentFileNum := readSegmentFileNum d + 1, readPos := 0,
      depth := depth d - 1, files := fs\<rparr>) segs \<and>
    contents d segs = m # contents (d\<lparr>readSegmentFileNum := readSegmentFileNum d + 1\<rparr>) segs"
proof -
  let ?s = "readSegmentFileNum d"
  let ?d = "d\<lparr>readSegmentFileNum := ?s + 1, readPos := 0, depth := depth d - 1, files := fs\<rparr>"
  have sb: "segBytes fs i = segBytes (files d) i" if "i \<noteq> ?s" for i
    using fs that by (simp add: segBytes_def)
  have "seg_ok cfg zc ?d i (segs i)" if "?s + 1 \<le> i" "i \<le> writeSegmentNum d" for i
    using inv that sb [of i] by (auto simp: file_inv_def seg_ok_def seg_off_def dest!: spec [of _ i])
  moreover have cont: "contents d segs = m # contents (d\<lparr>readSegmentFileNum := ?s + 1\<rparr>) segs"
    using le ms by (simp add: contents_def upto_split_first)
  moreover from cont have "depth d - 1 = int (length (contents ?d segs))"
    using inv by (simp add: file_inv_def contents_def)
  moreover have "segBytes fs (writeSegmentNum d) = segBytes (files d) (writeSegmentNum d)"
    using sb le by simp
  moreover have "dDat fs i = None" if "writeSegmentNum d < i" for i
    using inv fs le that by (auto simp: file_inv_def)
  ultimately have "file_inv cfg zc ?d segs"
    by (intro file_invI) (use file_invD [OF inv] le in simp_all)
  with cont show ?thesis by simp
qed

lemma readMoveForward_pops:
  assumes inv: "file_inv cfg zc d segs" and a: "ahead cfg zc d segs m"
  shows "\<exists>segs'. file_inv cfg zc (readMoveForward x hc d) segs' \<and>
    contents d segs = m # contents (readMoveForward x hc d) segs' \<and>
    nextReadPos (readMoveForward x hc d) = readPos (readMoveForward x hc d) \<and>
    reader_at (readMoveForward x hc d) (nat (readPos (readMoveForward x hc d))) \<and>
    consumerMode (readMoveForward x hc d) = consumerMode d"
proof -
  let ?s = "readSegmentFileNum d"
  from a obtain ms where ms: "segs ?s = m # ms" by (auto simp: ahead_def)
  show ?thesis
  proof (cases "nextReadFileNum d = ?s")
    case True
    let ?d = "d\<lparr>readPos := nextReadPos d, depth := depth d - 1\<rparr>"
    have n: "nextReadPos d = readPos d + 4 + int (length (storedForm cfg zc m))"
      "reader_at d (nat (nextReadPos d))" "?s < writeSegmentNum d \<longrightarrow> ms \<noteq> []"
      using a ms True by (auto simp: ahead_def)
    have f: "file_inv cfg zc ?d (segs(?s := ms))" "contents d segs = m # contents d (segs(?s := ms))"
      using deliver_same [OF inv ms n(1,3)] by auto
    have "d\<lparr>readSegmentFileNum := nextReadFileNum d, readPos := nextReadPos d, depth := depth d - 1\<rparr> = ?d"
      using True by (cases d) simp
    then have "readMoveForward x hc d = checkTailCorruption x ?d (depth ?d)"
      using True by (simp add: readMoveForward_def Let_def)
    also have "\<dots> = ?d" by (rule checkTail_noop [OF f(1)])
    finally have "readMoveForward x hc d = ?d" .
    moreover have "reader_at ?d (nat (nextReadPos d))" using n(2) by (simp add: reader_at_def)
    moreover have "contents ?d (segs(?s := ms)) = contents d (segs(?s := ms))" by (simp add: contents_def)
    ultimately show ?thesis using f by (intro exI [of _ "segs(?s := ms)"]) simp
  next
    case False
    then have n: "nextReadFileNum d = ?s + 1" "?s + 1 \<le> writeSegmentNum d" "nextReadPos d = 0"
      "readFile d = None" "segs ?s = [m]"
      using a ms by (auto simp: ahead_def)
    let ?fs = "if \<not> hc \<and> \<not> removeErr x ?s then (files d)\<lparr>dDat := (dDat (files d))(?s := None)\<rparr> else files d"
    let ?d0 = "d\<lparr>readSegmentFileNum := ?s + 1, readPos := 0, depth := depth d - 1, files := ?fs\<rparr>"
    let ?d = "?d0\<lparr>needSync := True\<rparr>"
    have f: "file_inv cfg zc ?d0 segs" "contents d segs = m # contents (d\<lparr>readSegmentFileNum := ?s + 1\<rparr>) segs"
      using deliver_next [OF inv n(5,2), of ?fs] by auto
    then have f': "file_inv cfg zc ?d segs" by simp
    have "readMoveForward x hc d = checkTailCorruption x ?d (depth ?d)"
    proof (cases "\<not> hc \<and> \<not> removeErr x ?s")
      case True
      with n show ?thesis
        by (simp add: readMoveForward_def Let_def)
          (rule arg_cong [where f = "\<lambda>a. checkTailCorruption x a (depth d - 1)"], simp)
    next
      case False
      then have fs: "?fs = files d" by (simp only: if_False)
      have "readMoveForward x hc d = checkTailCorruption x (d\<lparr>readSegmentFileNum := ?s + 1, readPos := 0,
          depth := depth d - 1, needSync := True\<rparr>) (depth d - 1)"
        unfolding readMoveForward_def Let_def using False n(1,3) by (simp del: de_Morgan_conj)
      also have "d\<lparr>readSegmentFileNum := ?s + 1, readPos := 0, depth := depth d - 1, needSync := True\<rparr> = ?d"
        unfolding fs by simp
      finally show ?thesis by simp
    qed
    also have "\<dots> = ?d" by (rule checkTail_noop [OF f'])
    finally have "readMoveForward x hc d = ?d" .
    moreover have "reader_at ?d 0" using n by (simp add: reader_at_def)
    moreover have "contents ?d segs = contents (d\<lparr>readSegmentFileNum := ?s + 1\<rparr>) segs"
      by (simp add: contents_def)
    ultimately show ?thesis using f' f(2) n by (intro exI [of _ segs]) simp
  qed
qed

subsection \<open>Syncing\<close>

lemma dqSync_cases:
  "fst (dqSync x d) \<in> {d\<lparr>writeFile := None\<rparr>, d,
     d\<lparr>files := (files d)\<lparr>dMeta := Some (metaText d)\<rparr>, needSync := False\<rparr>}"
  by (simp add: dqSync_def persistMetaData_def)

lemma inv_meta [simp]:
  "file_inv cfg zc (d\<lparr>files := (files d)\<lparr>dMeta := t\<rparr>\<rparr>) segs = file_inv cfg zc d segs"
  "reader_at (d\<lparr>files := (files d)\<lparr>dMeta := t\<rparr>\<rparr>) p = reader_at d p"
  by (simp_all add: inv_defs segBytes_def reader_at_def)

lemma seg_ok_writeFile: "seg_ok cfg zc (d\<lparr>writeFile := w\<rparr>) i ms = seg_ok cfg zc d i ms"
  by (simp add: seg_ok_def seg_off_def)

lemma inv_writeFile_None:
  assumes "file_inv cfg zc d segs"
  shows "file_inv cfg zc (d\<lparr>writeFile := None\<rparr>) segs"
  by (intro file_invI) (use file_invD [OF assms] in \<open>simp_all add: seg_ok_writeFile\<close>)

lemma reader_at_frame [simp]:
  "reader_at (d\<lparr>writeFile := w\<rparr>) p = reader_at d p"
  "reader_at (d\<lparr>needSync := b\<rparr>) p = reader_at d p"
  by (simp_all add: reader_at_def)

lemma ahead_frame [simp]:
  "ahead cfg zc (d\<lparr>writeFile := w\<rparr>) segs m = ahead cfg zc d segs m"
  "ahead cfg zc (d\<lparr>needSync := b\<rparr>) segs m = ahead cfg zc d segs m"
  "ahead cfg zc (d\<lparr>files := (files d)\<lparr>dMeta := t\<rparr>\<rparr>) segs m = ahead cfg zc d segs m"
  by (simp_all add: ahead_def)

text \<open>What the loop knows of its queue before it serves a channel.\<close>

definition read_inv ::
  "DiskQueueConfig \<Rightarrow> (int \<Rightarrow> bytes \<Rightarrow> bytes) \<Rightarrow> DiskBasedQueue \<Rightarrow> (int \<Rightarrow> bytes list) \<Rightarrow> bytes \<Rightarrow> bool" where
  "read_inv cfg zc d segs m \<longleftrightarrow>
     (if nextReadPos d = readPos d then reader_at d (nat (readPos d)) else ahead cfg zc d segs m)"

lemma dqSync_inv:
  assumes "file_inv cfg zc d segs" "read_inv cfg zc d segs m"
  shows "file_inv cfg zc (fst (dqSync x d)) segs \<and> read_inv cfg zc (fst (dqSync x d)) segs m \<and>
    contents (fst (dqSync x d)) segs = contents d segs \<and> consumerMode (fst (dqSync x d)) = consumerMode d \<and>
    (ahead cfg zc (fst (dqSync x d)) segs m = ahead cfg zc d segs m)"
  using dqSync_cases [of x d] assms inv_writeFile_None [OF assms(1)]
  by (auto simp: read_inv_def)

subsection \<open>Writing\<close>

lemma seg_ok_files_same:
  "segBytes fs i = segBytes (files d) i \<Longrightarrow> seg_ok cfg zc (d\<lparr>files := fs\<rparr>) i ms = seg_ok cfg zc d i ms"
  by (simp add: seg_ok_def seg_off_def)

lemma inv_files_same:
  assumes inv: "file_inv cfg zc d segs" and same: "\<And>i. segBytes fs i = segBytes (files d) i"
    and fut: "\<And>i. writeSegmentNum d < i \<Longrightarrow> dDat fs i = None"
  shows "file_inv cfg zc (d\<lparr>files := fs\<rparr>) segs"
  by (intro file_invI) (use file_invD [OF inv] same fut in \<open>simp_all add: seg_ok_files_same\<close>)

lemma read_inv_files_same:
  assumes "\<And>i. segBytes fs i = segBytes (files d) i"
  shows "read_inv cfg zc (d\<lparr>files := fs\<rparr>) segs m = read_inv cfg zc d segs m"
  using assms by (simp add: read_inv_def reader_at_def ahead_def)

lemma read_inv_frame [simp]:
  "read_inv cfg zc (d\<lparr>writeFile := w\<rparr>) segs m = read_inv cfg zc d segs m"
  by (simp add: read_inv_def)

lemma inv_writeFile_end:
  assumes "file_inv cfg zc d segs"
  shows "file_inv cfg zc (d\<lparr>writeFile := Some (writeSegmentNum d, length (segBytes (files d) (writeSegmentNum d)))\<rparr>) segs"
  by (intro file_invI) (use file_invD [OF assms] in \<open>simp_all add: seg_ok_writeFile\<close>)

lemma openWrite_inv:
  assumes inv: "file_inv cfg zc d segs" "read_inv cfg zc d segs m" and o: "openWrite x d = (d', e)"
  shows "file_inv cfg zc d' segs \<and> read_inv cfg zc d' segs m \<and> consumerMode d' = consumerMode d \<and>
    readSegmentFileNum d' = readSegmentFileNum d \<and> writeSegmentNum d' = writeSegmentNum d \<and>
    (e = None \<longrightarrow> writeFile d' = Some (writeSegmentNum d, length (segBytes (files d') (writeSegmentNum d))))"
proof (cases "writeFile d \<noteq> None \<or> openErr x")
  case True
  with o inv file_invD(8) [OF inv(1)] show ?thesis by (auto simp: openWrite_def)
next
  case False
  let ?fs = "(files d)\<lparr>dDat := (dDat (files d))(writeSegmentNum d \<mapsto> segBytes (files d) (writeSegmentNum d))\<rparr>"
  let ?d = "d\<lparr>files := ?fs\<rparr>"
  have same: "segBytes ?fs i = segBytes (files d) i" for i by (simp add: segBytes_def)
  have "file_inv cfg zc ?d segs" "read_inv cfg zc ?d segs m"
    using inv_files_same [OF inv(1) same] file_invD(6) [OF inv(1)] read_inv_files_same [OF same] inv(2)
    by auto
  moreover note inv_writeFile_end [OF this(1)]
  moreover have "(if writePos d > 0 then nat (writePos d) else 0) = length (segBytes (files d) (writeSegmentNum d))"
    using file_invD(3) [OF inv(1)] by simp
  then have "openWrite x d = (if writePos d > 0 \<and> seekErr x then (?d, Some ''seek'')
      else (?d\<lparr>writeFile := Some (writeSegmentNum d, length (segBytes (files d) (writeSegmentNum d)))\<rparr>, None))"
    using False by (auto simp: openWrite_def Let_def)
  ultimately show ?thesis
    using o by (auto simp: same split: if_splits)
qed

text \<open>Appending a message to the write segment.\<close>

definition appended ::
  "DiskQueueConfig \<Rightarrow> (int \<Rightarrow> bytes \<Rightarrow> bytes) \<Rightarrow> DiskBasedQueue \<Rightarrow> bytes \<Rightarrow> DiskBasedQueue" where
  "appended cfg zc d m =
     (let s = writeSegmentNum d; st = storedForm cfg zc m; f = segBytes (files d) s
      in d\<lparr>files := putBytes (files d) s (length f) (encMsg st), writeFile := Some (s, length f + length (encMsg st)),
           writePos := writePos d + 4 + int (length st), depth := depth d + 1\<rparr>)"

lemma appended_simps [simp]:
  "readSegmentFileNum (appended cfg zc d m) = readSegmentFileNum d"
  "writeSegmentNum (appended cfg zc d m) = writeSegmentNum d"
  "readPos (appended cfg zc d m) = readPos d" "nextReadPos (appended cfg zc d m) = nextReadPos d"
  "nextReadFileNum (appended cfg zc d m) = nextReadFileNum d" "readFile (appended cfg zc d m) = readFile d"
  "maxBytesPerFileRead (appended cfg zc d m) = maxBytesPerFileRead d"
  "consumerMode (appended cfg zc d m) = consumerMode d"
  by (simp_all add: appended_def Let_def)

lemma segBytes_appended:
  "segBytes (files (appended cfg zc d m)) i =
    (if i = writeSegmentNum d then segBytes (files d) i @ encMsg (storedForm cfg zc m) else segBytes (files d) i)"
  by (simp add: appended_def Let_def writeAt_end)

lemma contents_appended:
  assumes "readSegmentFileNum d \<le> writeSegmentNum d"
  shows "contents (appended cfg zc d m) (segs(writeSegmentNum d := segs (writeSegmentNum d) @ [m])) =
    contents d segs @ [m]"
  using assms by (simp add: contents_def upto_rec2)

lemma inv_appended:
  assumes inv: "file_inv cfg zc d segs" and ok: "msg_ok cfg zc m"
  shows "file_inv cfg zc (appended cfg zc d m) (segs(writeSegmentNum d := segs (writeSegmentNum d) @ [m]))"
proof (intro file_invI)
  let ?d = "appended cfg zc d m" and ?g = "segs(writeSegmentNum d := segs (writeSegmentNum d) @ [m])"
  note D = file_invD [OF inv]
  show "seg_ok cfg zc ?d i (?g i)" if "readSegmentFileNum ?d \<le> i" "i \<le> writeSegmentNum ?d" for i
  proof -
    have so: "seg_ok cfg zc d i (segs i)" using D(4) that by simp
    then show ?thesis
      using ok by (cases "i = writeSegmentNum d") (auto simp: seg_ok_def seg_off_def segBytes_appended)
  qed
  show "depth ?d = int (length (contents ?d ?g))"
    unfolding contents_appended [OF D(1)] using D(7) by (simp add: appended_def Let_def)
  show "writePos ?d = int (length (segBytes (files ?d) (writeSegmentNum ?d)))"
    using D(3) by (simp add: segBytes_appended) (simp add: appended_def Let_def)
  show "writeFile ?d = None \<or> writeFile ?d = Some (writeSegmentNum ?d, length (segBytes (files ?d) (writeSegmentNum ?d)))"
    by (simp add: segBytes_appended) (simp add: appended_def Let_def)
  show "dDat (files ?d) i = None" if "writeSegmentNum ?d < i" for i
    using D(6) that by (simp add: appended_def Let_def putBytes_def)
qed (use file_invD [OF inv] in auto)

lemma reader_at_appended: "reader_at d p \<Longrightarrow> reader_at (appended cfg zc d m) p"
  by (auto simp: reader_at_def segBytes_appended coherent_extend)

lemma read_inv_appended:
  assumes "read_inv cfg zc d segs m0"
  shows "read_inv cfg zc (appended cfg zc d m) (segs(writeSegmentNum d := segs (writeSegmentNum d) @ [m])) m0"
  using assms reader_at_appended [of d _ cfg zc m]
  by (cases "readFile d") (auto simp: read_inv_def ahead_def split: if_splits)

text \<open>Starting the next segment.\<close>

definition rolled :: "DiskBasedQueue \<Rightarrow> DiskBasedQueue" where
  "rolled d = d\<lparr>maxBytesPerFileRead := (if readSegmentFileNum d = writeSegmentNum d then writePos d else maxBytesPerFileRead d),
     notified := notified d @ [(WriteComplete, writeSegmentNum d)],
     writeSegmentNum := writeSegmentNum d + 1, writePos := 0, writeFile := None\<rparr>"

lemma rolled_simps [simp]:
  "readSegmentFileNum (rolled d) = readSegmentFileNum d" "writeSegmentNum (rolled d) = writeSegmentNum d + 1"
  "readPos (rolled d) = readPos d" "nextReadPos (rolled d) = nextReadPos d" "files (rolled d) = files d"
  "nextReadFileNum (rolled d) = nextReadFileNum d" "readFile (rolled d) = readFile d"
  "consumerMode (rolled d) = consumerMode d" "depth (rolled d) = depth d" "writePos (rolled d) = 0"
  "writeFile (rolled d) = None"
  by (simp_all add: rolled_def)

lemma contents_rolled:
  assumes "readSegmentFileNum d \<le> writeSegmentNum d"
  shows "contents (rolled d) (segs(writeSegmentNum d + 1 := [])) = contents d segs"
  using assms by (simp add: contents_def upto_rec2 [of _ "writeSegmentNum d + 1"])

lemma inv_rolled:
  assumes inv: "file_inv cfg zc d segs" and ne: "segs (writeSegmentNum d) \<noteq> []"
  shows "file_inv cfg zc (rolled d) (segs(writeSegmentNum d + 1 := []))"
proof (intro file_invI)
  let ?g = "segs(writeSegmentNum d + 1 := [])"
  note D = file_invD [OF inv]
  have nil: "segBytes (files d) (writeSegmentNum d + 1) = []" using D(6) by (simp add: segBytes_def)
  show "seg_ok cfg zc (rolled d) i (?g i)" if "readSegmentFileNum (rolled d) \<le> i" "i \<le> writeSegmentNum (rolled d)" for i
    using that D(1) D(4) [of i] nil
    by (cases "i = writeSegmentNum d + 1") (auto simp: seg_ok_def seg_off_def)
  show "?g i \<noteq> []" if "readSegmentFileNum (rolled d) \<le> i" "i < writeSegmentNum (rolled d)" for i
    using that D(5) [of i] ne by (cases "i = writeSegmentNum d") auto
  show "depth (rolled d) = int (length (contents (rolled d) ?g))"
    unfolding contents_rolled [OF D(1)] using D(7) by simp
  show "writePos (rolled d) = int (length (segBytes (files (rolled d)) (writeSegmentNum (rolled d))))"
    using nil by simp
qed (use file_invD [OF inv] in auto)

lemma read_inv_rolled:
  assumes inv: "file_inv cfg zc d segs" and r: "read_inv cfg zc d segs m"
    and len: "segs (writeSegmentNum d) = ms @ [m']"
      "readSegmentFileNum d = writeSegmentNum d \<Longrightarrow> nextReadPos d \<noteq> readPos d \<Longrightarrow> ms \<noteq> []"
  shows "read_inv cfg zc (rolled d) (segs(writeSegmentNum d + 1 := [])) m"
proof -
  have wp: "writePos d = int (length (segBytes (files d) (writeSegmentNum d)))" "readSegmentFileNum d \<le> writeSegmentNum d"
    using file_invD [OF inv] by auto
  have ra: "reader_at (rolled d) p" if "reader_at d p" for p
    using that wp by (auto simp: reader_at_def rolled_def)
  show ?thesis
  proof (cases "nextReadPos d = readPos d")
    case True
    with r ra show ?thesis by (simp add: read_inv_def)
  next
    case False
    with r have a: "ahead cfg zc d segs m" by (simp add: read_inv_def)
    then obtain ns where ns: "segs (readSegmentFileNum d) = m # ns" by (auto simp: ahead_def)
    have "ns \<noteq> []" if "readSegmentFileNum d = writeSegmentNum d"
      using that ns len False by (cases ms) auto
    with a ns ra wp have "ahead cfg zc (rolled d) (segs(writeSegmentNum d + 1 := [])) m"
      by (auto simp: ahead_def split: if_splits)
    with False show ?thesis by (simp add: read_inv_def)
  qed
qed

lemma dqSync_closed_cases:
  "(fst (dqSync x d))\<lparr>writeFile := None\<rparr> \<in> {d\<lparr>writeFile := None\<rparr>,
     d\<lparr>writeFile := None, files := (files d)\<lparr>dMeta := Some (metaText d)\<rparr>, needSync := False\<rparr>}"
  by (simp add: dqSync_def persistMetaData_def)

lemma nextSegment_rolled: "nextSegment d = (rolled d)\<lparr>writeFile := writeFile d\<rparr>"
  by (cases d) (simp add: nextSegment_def rolled_def notify_def)

lemma finishWrite_appended:
  assumes c: "cfg_ok cfg" and ok: "msg_ok cfg zc m" and s: "st = storedForm cfg zc m"
    and f: "f = segBytes (files d) (writeSegmentNum d)" and a: "a = appended cfg zc d m"
  shows "finishWrite cfg x (d\<lparr>files := putBytes (files d) (writeSegmentNum d) (length f) (encMsg st),
      writeFile := Some (writeSegmentNum d, length f + length (encMsg st))\<rparr>) (int (length st)) =
    (if MaxBytesPerFile cfg \<le> writePos a
     then (case dqSync x (nextSegment a) of (d1, err) \<Rightarrow>
       (d1\<lparr>writeFile := None\<rparr>, \<lparr>resSegment = writeSegmentNum d1, resPosition = writePos d1, resError = err\<rparr>))
     else (a, \<lparr>resSegment = writeSegmentNum a, resPosition = writePos a, resError = None\<rparr>))"
proof -
  let ?d = "d\<lparr>files := putBytes (files d) (writeSegmentNum d) (length f) (encMsg st),
      writeFile := Some (writeSegmentNum d, length f + length (encMsg st))\<rparr>"
  have t: "to_int32 (4 + int (length st)) = 4 + int (length st)"
    using to_int32_size [OF c ok, of 4] s by simp
  have "?d\<lparr>writePos := writePos ?d + (4 + int (length st)), depth := depth ?d + 1\<rparr> = a"
    by (simp add: a appended_def Let_def s f)
  then show ?thesis unfolding finishWrite_def Let_def t by (simp only:)
qed

lemma read_inv_meta [simp]:
  "read_inv cfg zc (d\<lparr>files := (files d)\<lparr>dMeta := t\<rparr>\<rparr>) segs m = read_inv cfg zc d segs m"
  "read_inv cfg zc (d\<lparr>needSync := b\<rparr>) segs m = read_inv cfg zc d segs m"
  by (simp_all add: read_inv_def)

lemma finishWrite_inv:
  assumes inv: "file_inv cfg zc d segs" "read_inv cfg zc d segs m0" and ok: "msg_ok cfg zc m"
    and a: "a = appended cfg zc d m"
    and fin: "(d', res) = (if MaxBytesPerFile cfg \<le> writePos a
     then (case dqSync x (nextSegment a) of (d1, err) \<Rightarrow>
       (d1\<lparr>writeFile := None\<rparr>, \<lparr>resSegment = writeSegmentNum d1, resPosition = writePos d1, resError = err\<rparr>))
     else (a, \<lparr>resSegment = writeSegmentNum a, resPosition = writePos a, resError = None\<rparr>))"
  shows "\<exists>segs'. file_inv cfg zc d' segs' \<and> read_inv cfg zc d' segs' m0 \<and>
    contents d' segs' = contents d segs @ [m] \<and> consumerMode d' = consumerMode d"
proof -
  let ?g = "segs(writeSegmentNum d := segs (writeSegmentNum d) @ [m])"
  have le: "readSegmentFileNum d \<le> writeSegmentNum d" using file_invD(1) [OF inv(1)] .
  have A: "file_inv cfg zc a ?g" "read_inv cfg zc a ?g m0" "contents a ?g = contents d segs @ [m]"
    unfolding a using inv_appended [OF inv(1) ok] read_inv_appended [OF inv(2)] contents_appended [OF le]
    by auto
  show ?thesis
  proof (cases "MaxBytesPerFile cfg \<le> writePos a")
    case False
    with fin A a show ?thesis by (intro exI [of _ ?g]) simp
  next
    case True
    let ?h = "?g(writeSegmentNum a + 1 := [])"
    have ws: "writeSegmentNum a = writeSegmentNum d" "readSegmentFileNum a = readSegmentFileNum d"
      "nextReadPos a = nextReadPos d" "readPos a = readPos d"
      by (simp_all add: a)
    have ne: "segs (writeSegmentNum d) \<noteq> []" if "readSegmentFileNum d = writeSegmentNum d" "nextReadPos d \<noteq> readPos d"
      using inv(2) that by (auto simp: read_inv_def ahead_def)
    have R: "file_inv cfg zc (rolled a) ?h" "read_inv cfg zc (rolled a) ?h m0" "contents (rolled a) ?h = contents a ?g"
      using inv_rolled [OF A(1)] read_inv_rolled [OF A(1,2), of "segs (writeSegmentNum d)" m] ne ws le
        contents_rolled [of a ?g]
      by auto
    have d': "d' = (fst (dqSync x (nextSegment a)))\<lparr>writeFile := None\<rparr>"
      using fin True by (simp split: prod.splits)
    have "d' = rolled a \<or> (\<exists>t. d' = (rolled a)\<lparr>files := (files (rolled a))\<lparr>dMeta := t\<rparr>, needSync := False\<rparr>)"
      using dqSync_closed_cases [of x "nextSegment a"] unfolding d' nextSegment_rolled
      by (auto simp: rolled_def)
    then show ?thesis
    proof (elim disjE exE)
      assume "d' = rolled a"
      with R A(3) a show ?thesis by (intro exI [of _ ?h]) simp
    next
      fix t assume "d' = (rolled a)\<lparr>files := (files (rolled a))\<lparr>dMeta := t\<rparr>, needSync := False\<rparr>"
      with R A(3) a show ?thesis by (intro exI [of _ ?h]) (simp del: rolled_simps(5))
    qed
  qed
qed

lemma writeOne_inv:
  assumes c: "cfg_ok cfg" and inv: "file_inv cfg zc d segs" "read_inv cfg zc d segs m0"
    and small: "int (length (storedForm cfg zc m)) < 2 ^ 31" and werr: "writeErr x = None \<or> writeErr x = Some 0"
    and w: "writeOne cfg zc x d m = (d', res)"
  shows "\<exists>segs'. file_inv cfg zc d' segs' \<and> read_inv cfg zc d' segs' m0 \<and> consumerMode d' = consumerMode d \<and>
    (contents d' segs' = contents d segs @ [m] \<or> (resError res \<noteq> None \<and> contents d' segs' = contents d segs))"
proof -
  let ?st = "storedForm cfg zc m"
  obtain d1 e where o: "openWrite x d = (d1, e)" by force
  note O = openWrite_inv [OF inv o]
  have cont: "contents d1 segs = contents d segs" using O by (simp add: contents_def)
  have t: "to_int32 (int (length ?st)) = int (length ?st)" using small by (intro to_int32_id) auto
  consider (noopen) e' where "e = Some e'" | (size) "e = None" "\<not> msg_ok cfg zc m"
    | (fail) "e = None" "msg_ok cfg zc m" "writeErr x = Some 0" | (good) "e = None" "msg_ok cfg zc m" "writeErr x = None"
    using werr by (cases e; cases "msg_ok cfg zc m") auto
  then show ?thesis
  proof cases
    case noopen
    with w o O cont show ?thesis
      by (intro exI [of _ segs]) (auto simp: writeOne_def failed_def)
  next
    case size
    with w o O cont t show ?thesis
      by (intro exI [of _ segs]) (auto simp: writeOne_def failed_def msg_ok_def Let_def)
  next
    case fail
    let ?s = "writeSegmentNum d" let ?fs = "putBytes (files d1) ?s (length (segBytes (files d1) ?s)) []"
    have "d' = d1\<lparr>files := ?fs, writeFile := None\<rparr>" "resError res \<noteq> None"
      using w o O fail t by (auto simp: writeOne_def failed_def msg_ok_def Let_def)
    moreover have same: "segBytes ?fs i = segBytes (files d1) i" for i by (simp add: writeAt_end)
    moreover have "file_inv cfg zc (d1\<lparr>files := ?fs\<rparr>) segs"
      by (rule inv_files_same [OF _ same]) (use O file_invD(6) [of cfg zc d1 segs] in \<open>auto simp: putBytes_def\<close>)
    ultimately show ?thesis
      using O cont inv_writeFile_None read_inv_files_same [OF same] by (intro exI [of _ segs]) simp
  next
    case good
    let ?s = "writeSegmentNum d" let ?f = "segBytes (files d1) (writeSegmentNum d1)"
    have "(d', res) = finishWrite cfg x (d1\<lparr>files := putBytes (files d1) (writeSegmentNum d1) (length ?f) (encMsg ?st),
        writeFile := Some (writeSegmentNum d1, length ?f + length (encMsg ?st))\<rparr>) (int (length ?st))"
      using w o O good t by (auto simp: writeOne_def msg_ok_def Let_def encMsg_def)
    note fin = this [unfolded finishWrite_appended [OF c good(2) refl refl refl]]
    have inv1: "file_inv cfg zc d1 segs" "read_inv cfg zc d1 segs m0" using O by auto
    from finishWrite_inv [OF inv1 good(2) refl fin] obtain segs' where
      "file_inv cfg zc d' segs'" "read_inv cfg zc d' segs' m0"
      "contents d' segs' = contents d1 segs @ [m]" "consumerMode d' = consumerMode d1" by blast
    with O cont show ?thesis by (intro exI [of _ segs']) simp
  qed
qed

subsection \<open>The loop\<close>

lemma ahead_read_inv: "ahead cfg zc d segs m \<Longrightarrow> read_inv cfg zc d segs m"
  by (auto simp: read_inv_def ahead_def reader_at_def split: if_splits)

lemma nonempty_iff:
  assumes "file_inv cfg zc d segs"
  shows "(readSegmentFileNum d < writeSegmentNum d \<or> readPos d < writePos d) \<longleftrightarrow> contents d segs \<noteq> []"
    "contents d segs \<noteq> [] \<Longrightarrow> segs (readSegmentFileNum d) \<noteq> []"
proof -
  note D = file_invD [OF assms]
  have "(readSegmentFileNum d < writeSegmentNum d \<or> readPos d < writePos d) = (contents d segs \<noteq> []) \<and>
    (contents d segs \<noteq> [] \<longrightarrow> segs (readSegmentFileNum d) \<noteq> [])"
  proof (cases "readSegmentFileNum d < writeSegmentNum d")
    case True
    with D(5) [of "readSegmentFileNum d"] show ?thesis by (simp add: contents_first)
  next
    case False
    with D(1) have e: "readSegmentFileNum d = writeSegmentNum d" by simp
    then have c: "contents d segs = segs (writeSegmentNum d)" by (simp add: contents_def)
    have "seg_ok cfg zc d (writeSegmentNum d) (segs (writeSegmentNum d))" using D(4) e by simp
    then have "drop (nat (readPos d)) (segBytes (files d) (writeSegmentNum d)) = [] \<longleftrightarrow> segs (writeSegmentNum d) = []"
      using e unfolding seg_ok_def seg_off_def by (simp del: drop_eq_Nil drop_eq_Nil2)
    then have "readPos d < writePos d \<longleftrightarrow> segs (writeSegmentNum d) \<noteq> []"
      using D(2,3) by (metis drop_eq_Nil le_nat_iff not_le)
    with e c show ?thesis by simp
  qed
  then show "(readSegmentFileNum d < writeSegmentNum d \<or> readPos d < writePos d) \<longleftrightarrow> contents d segs \<noteq> []"
    "contents d segs \<noteq> [] \<Longrightarrow> segs (readSegmentFileNum d) \<noteq> []" by blast+
qed

definition loop_inv :: "DiskQueueConfig \<Rightarrow> (int \<Rightarrow> bytes \<Rightarrow> bytes) \<Rightarrow> ioState \<Rightarrow> bytes list \<Rightarrow> bool" where
  "loop_inv cfg zc l q \<longleftrightarrow>
     (\<exists>segs. file_inv cfg zc (lq l) segs \<and> read_inv cfg zc (lq l) segs (dataRead l) \<and> q = contents (lq l) segs)"

lemma syncDue_inv:
  assumes "file_inv cfg zc (lq l) segs" "read_inv cfg zc (lq l) segs (dataRead l)"
  shows "file_inv cfg zc (lq (syncDue cfg x l)) segs \<and> read_inv cfg zc (lq (syncDue cfg x l)) segs (dataRead l) \<and>
    contents (lq (syncDue cfg x l)) segs = contents (lq l) segs \<and>
    consumerMode (lq (syncDue cfg x l)) = consumerMode (lq l) \<and> dataRead (syncDue cfg x l) = dataRead l"
proof -
  define d where "d = (if count l = SyncEveryRecords cfg then (lq l)\<lparr>needSync := True\<rparr> else lq l)"
  have d: "file_inv cfg zc d segs" "read_inv cfg zc d segs (dataRead l)" "contents d segs = contents (lq l) segs"
    "consumerMode d = consumerMode (lq l)"
    using assms by (simp_all add: d_def)
  have "syncDue cfg x l = (if needSync d then l\<lparr>lq := fst (dqSync x d), count := 0\<rparr> else l\<lparr>lq := d\<rparr>)"
    by (simp add: syncDue_def d_def Let_def)
  with d dqSync_inv [OF d(1,2), of x] show ?thesis by simp
qed

lemma loopTop_inv:
  assumes c: "cfg_ok cfg" "codec_ok cfg zc zd" "\<not> readSeekErr x"
    and inv: "file_inv cfg zc (lq l) segs" "read_inv cfg zc (lq l) segs (dataRead l)"
  shows "\<exists>l'. loopTop cfg zd hc x l = (l', True) \<and> file_inv cfg zc (lq l') segs \<and>
    read_inv cfg zc (lq l') segs (dataRead l') \<and> contents (lq l') segs = contents (lq l) segs \<and>
    consumerMode (lq l') = consumerMode (lq l) \<and>
    (readReady l' \<longleftrightarrow> contents (lq l) segs \<noteq> [] \<and> \<not> consumerMode (lq l)) \<and>
    (readReady l' \<longrightarrow> ahead cfg zc (lq l') segs (dataRead l'))"
proof -
  define m where "m = syncDue cfg x l"
  have M: "file_inv cfg zc (lq m) segs" "read_inv cfg zc (lq m) segs (dataRead m)"
    "contents (lq m) segs = contents (lq l) segs" "consumerMode (lq m) = consumerMode (lq l)"
    using syncDue_inv [OF inv, of x] by (auto simp: m_def)
  have top: "loopTop cfg zd hc x l =
     (if \<not> consumerMode (lq m) \<and> contents (lq m) segs \<noteq> [] then
        (if nextReadPos (lq m) = readPos (lq m) then
           (case readOne cfg zd x (lq m) of
              (d, Inl _) \<Rightarrow> (m\<lparr>lq := handleReadError x hc d, dataRead := []\<rparr>, False)
            | (d, Inr b) \<Rightarrow> (m\<lparr>lq := d, dataRead := b, readReady := True\<rparr>, True))
         else (m\<lparr>readReady := True\<rparr>, True))
      else (m\<lparr>readReady := False\<rparr>, True))"
    unfolding loopTop_def Let_def m_def [symmetric] nonempty_iff(1) [OF M(1)] ..
  consider (off) "consumerMode (lq m) \<or> contents (lq m) segs = []"
    | (read) "\<not> consumerMode (lq m)" "contents (lq m) segs \<noteq> []" "nextReadPos (lq m) = readPos (lq m)"
    | (waiting) "\<not> consumerMode (lq m)" "contents (lq m) segs \<noteq> []" "nextReadPos (lq m) \<noteq> readPos (lq m)"
    by blast
  then show ?thesis
  proof cases
    case off
    with top M show ?thesis by (intro exI [of _ "m\<lparr>readReady := False\<rparr>"]) auto
  next
    case read
    then obtain b bs where b: "segs (readSegmentFileNum (lq m)) = b # bs"
      using nonempty_iff(2) [OF M(1)] by (cases "segs (readSegmentFileNum (lq m))") auto
    have "reader_at (lq m) (nat (readPos (lq m)))" using M(2) read by (simp add: read_inv_def)
    from readOne_ahead [OF M(1) c(1,2) this c(3) b] obtain d' where
      d': "readOne cfg zd x (lq m) = (d', Inr b)" "ahead cfg zc d' segs b" "file_inv cfg zc d' segs"
        "consumerMode d' = consumerMode (lq m)" "readSegmentFileNum d' = readSegmentFileNum (lq m)"
        "writeSegmentNum d' = writeSegmentNum (lq m)"
      by blast
    then have "contents d' segs = contents (lq m) segs" by (simp add: contents_def)
    with top read d' M ahead_read_inv [OF d'(2)] show ?thesis
      by (intro exI [of _ "m\<lparr>lq := d', dataRead := b, readReady := True\<rparr>"]) simp
  next
    case waiting
    with M(2) have "ahead cfg zc (lq m) segs (dataRead m)" by (simp add: read_inv_def)
    with top waiting M show ?thesis by (intro exI [of _ "m\<lparr>readReady := True\<rparr>"]) simp
  qed
qed

text \<open>The specification: what each round does to the queue of messages.\<close>

fun fifo_step :: "bool \<Rightarrow> loopEvent \<Rightarrow> loopOut \<Rightarrow> bytes list \<Rightarrow> bytes list \<Rightarrow> bool" where
  "fifo_step cm EvRead (Delivered m) q q' \<longleftrightarrow> \<not> cm \<and> q = m # q'"
| "fifo_step cm EvRead Quiet q q' \<longleftrightarrow> q' = q \<and> (q = [] \<or> cm)"
| "fifo_step cm EvDepth (DepthIs n) q q' \<longleftrightarrow> q' = q \<and> n = int (length q)"
| "fifo_step cm EvEmpty (Emptied e) q q' \<longleftrightarrow> q' = []"
| "fifo_step cm (EvWrite m) (Written r) q q' \<longleftrightarrow> q' = q @ [m] \<or> (resError r \<noteq> None \<and> q' = q)"
| "fifo_step cm EvTick Quiet q q' \<longleftrightarrow> q' = q"
| "fifo_step cm EvExit Exited q q' \<longleftrightarrow> q' = q"
| "fifo_step cm _ _ q q' \<longleftrightarrow> False"

lemma deleteAllFiles_inv:
  assumes inv: "file_inv cfg zc d segs" and del: "deleteAllFiles x d = (d', e)"
  shows "file_inv cfg zc d' (\<lambda>_. []) \<and> read_inv cfg zc d' (\<lambda>_. []) m \<and> contents d' (\<lambda>_. []) = [] \<and>
    consumerMode d' = consumerMode d"
proof -
  let ?n = "writeSegmentNum d + 1"
  have d': "writeSegmentNum d' = ?n" "readSegmentFileNum d' = ?n" "writePos d' = 0" "readPos d' = 0" "depth d' = 0"
    "nextReadPos d' = 0" "readFile d' = None" "writeFile d' = None" "consumerMode d' = consumerMode d"
    "\<And>i. ?n \<le> i \<Longrightarrow> dDat (files d') i = None"
    using del file_invD(6) [OF inv]
    by (auto simp: deleteAllFiles_def skipToNextRWFile_def removeSegments_def Let_def split: if_splits)
  moreover have c: "contents d' (\<lambda>_. []) = []" by (simp add: contents_def)
  moreover have "segBytes (files d') ?n = []" using d'(10) by (simp add: segBytes_def)
  ultimately show ?thesis
    by (auto simp: file_inv_def seg_ok_def seg_off_def read_inv_def reader_at_def)
qed

definition ev_ok :: "DiskQueueConfig \<Rightarrow> (int \<Rightarrow> bytes \<Rightarrow> bytes) \<Rightarrow> io \<times> loopEvent \<Rightarrow> bool" where
  "ev_ok cfg zc xev \<longleftrightarrow>
     \<not> readSeekErr (fst xev) \<and> (writeErr (fst xev) = None \<or> writeErr (fst xev) = Some 0) \<and>
     (case snd xev of EvWrite m \<Rightarrow> int (length (storedForm cfg zc m)) < 2 ^ 31 | _ \<Rightarrow> True)"

lemma onEvent_refines:
  assumes c: "cfg_ok cfg" and ok: "ev_ok cfg zc (x, ev)"
    and inv: "file_inv cfg zc (lq l) segs" "read_inv cfg zc (lq l) segs (dataRead l)"
    and rdy: "readReady l \<longleftrightarrow> contents (lq l) segs \<noteq> [] \<and> \<not> consumerMode (lq l)"
      "readReady l \<longrightarrow> ahead cfg zc (lq l) segs (dataRead l)"
    and ev: "onEvent cfg zc hc x ev l = (l', out)"
  shows "\<exists>q'. loop_inv cfg zc l' q' \<and> fifo_step (consumerMode (lq l)) ev out (contents (lq l) segs) q' \<and>
    consumerMode (lq l') = consumerMode (lq l)"
proof (cases ev)
  case EvRead
  show ?thesis
  proof (cases "readReady l")
    case True
    with rdy(2) have a: "ahead cfg zc (lq l) segs (dataRead l)" by simp
    have l': "l' = l\<lparr>count := count l + 1, lq := readMoveForward x hc (lq l)\<rparr>" "out = Delivered (dataRead l)"
      using ev EvRead True by (simp_all add: onEvent_def)
    from readMoveForward_pops [OF inv(1) a, of x hc] l' EvRead True rdy(1) show ?thesis
      by (auto simp: loop_inv_def read_inv_def)
  next
    case False
    with ev EvRead have "l' = l" "out = Quiet" by (simp_all add: onEvent_def)
    with inv EvRead False rdy show ?thesis by (auto simp: loop_inv_def)
  qed
next
  case EvDepth
  with ev have "l' = l" "out = DepthIs (depth (lq l))" by (auto simp: onEvent_def)
  with inv EvDepth file_invD(7) [OF inv(1)] show ?thesis by (auto simp: loop_inv_def)
next
  case EvEmpty
  obtain d e where d: "deleteAllFiles x (lq l) = (d, e)" by force
  with ev EvEmpty have "l' = l\<lparr>lq := d, count := 0\<rparr>" "out = Emptied e" by (simp_all add: onEvent_def)
  with deleteAllFiles_inv [OF inv(1) d, of "dataRead l"] EvEmpty show ?thesis
    by (auto simp: loop_inv_def intro!: exI [of _ "\<lambda>_. []"])
next
  case (EvWrite m)
  obtain d res where w: "writeOne cfg zc x (lq l) m = (d, res)" by force
  with ev EvWrite have l': "l' = l\<lparr>count := count l + 1, lq := d\<rparr>" "out = Written res"
    by (simp_all add: onEvent_def)
  have "int (length (storedForm cfg zc m)) < 2 ^ 31" "writeErr x = None \<or> writeErr x = Some 0"
    using ok EvWrite by (auto simp: ev_ok_def)
  from writeOne_inv [OF c inv this w] obtain segs' where
    "file_inv cfg zc d segs'" "read_inv cfg zc d segs' (dataRead l)" "consumerMode d = consumerMode (lq l)"
    "contents d segs' = contents (lq l) segs @ [m] \<or> (resError res \<noteq> None \<and> contents d segs' = contents (lq l) segs)"
    by blast
  with l' EvWrite show ?thesis
    by (intro exI [of _ "contents d segs'"]) (auto simp: loop_inv_def)
next
  case EvTick
  with ev have "out = Quiet" "l' = l \<or> l' = l\<lparr>lq := (lq l)\<lparr>needSync := True\<rparr>\<rparr>"
    by (auto simp: onEvent_def)
  with inv EvTick show ?thesis by (auto simp: loop_inv_def)
next
  case EvExit
  with ev have "l' = l" "out = Exited" by (simp_all add: onEvent_def)
  with inv EvExit show ?thesis by (auto simp: loop_inv_def)
qed

lemma loopRound_refines:
  assumes c: "cfg_ok cfg" "codec_ok cfg zc zd" and ok: "ev_ok cfg zc (x, ev)" and inv: "loop_inv cfg zc l q"
    and r: "loopRound cfg zc zd hc x ev l = (l', out)"
  shows "\<exists>q'. loop_inv cfg zc l' q' \<and> fifo_step (consumerMode (lq l)) ev out q q' \<and>
    consumerMode (lq l') = consumerMode (lq l)"
proof -
  from inv obtain segs where s: "file_inv cfg zc (lq l) segs" "read_inv cfg zc (lq l) segs (dataRead l)"
    "q = contents (lq l) segs" by (auto simp: loop_inv_def)
  have "\<not> readSeekErr x" using ok by (simp add: ev_ok_def)
  from loopTop_inv [OF c this s(1,2), of hc] obtain l1 where
    l1: "loopTop cfg zd hc x l = (l1, True)" "file_inv cfg zc (lq l1) segs"
      "read_inv cfg zc (lq l1) segs (dataRead l1)" "contents (lq l1) segs = q"
      "consumerMode (lq l1) = consumerMode (lq l)"
      "readReady l1 \<longleftrightarrow> contents (lq l1) segs \<noteq> [] \<and> \<not> consumerMode (lq l1)"
      "readReady l1 \<longrightarrow> ahead cfg zc (lq l1) segs (dataRead l1)"
    using s(3) by auto
  with r have "onEvent cfg zc hc x ev l1 = (l', out)" by (simp add: loopRound_def)
  from onEvent_refines [OF c(1) ok l1(2,3,6,7) this] l1(4,5) show ?thesis by simp
qed

lemma writeOne_succeeds:
  assumes "cfg_ok cfg" "msg_ok cfg zc m"
  shows "resError (snd (writeOne cfg zc io_ok d m)) = None"
proof -
  have "snd (openWrite io_ok d) = None"
    by (simp add: openWrite_def io_ok_def Let_def)
  then obtain d1 where "openWrite io_ok d = (d1, None)" by (metis prod.collapse)
  moreover have "snd (dqSync io_ok d2) = None" for d2
    by (simp add: dqSync_def persistMetaData_def io_ok_def)
  then have "resError (snd (finishWrite cfg io_ok d2 n)) = None" for d2 n
    by (simp add: finishWrite_def Let_def split: prod.split) (metis snd_conv)
  moreover have "writeErr io_ok = None" by (simp add: io_ok_def)
  moreover have "to_int32 (int (length (storedForm cfg zc m))) = int (length (storedForm cfg zc m))"
    using to_int32_size [OF assms, of 0] by simp
  ultimately show ?thesis
    using assms(2) by (simp add: writeOne_def msg_ok_def Let_def split: prod.split)
qed

end
