(* ===== verification/DiskConsumerLog.thy ===== *)
theory DiskConsumerLog
  imports DiskConsumer DiskQueueFifo "HOL-Library.Sublist"
begin

section \<open>What a consumer reads\<close>

text \<open>
  The segments of a queue, read as a log. \<open>log_ok\<close> says that the files from segment \<open>lo\<close> to the
  write segment hold the messages of \<open>log\<close>; \<open>denotes\<close> says what is left of the log behind an
  offset. An offset at the end of a finished segment and the offset at the start of the next one denote
  the same rest. \<open>log_le\<close> is how the log may change while a consumer runs: messages are appended.

  \<open>ready\<close> is the state of a consumer that stands at a message boundary. Every pass of
  \<open>FetchMessages\<close> keeps it, keeps the number of messages handed out in step with the offset in the
  context, and the passes come to an end.
\<close>

subsection \<open>The log\<close>

definition local_only :: "DiskQueueConfig \<Rightarrow> bool" where
  "local_only cfg \<longleftrightarrow> \<not> UploadToS3 cfg \<and> \<not> AlwaysDownload cfg"

definition encLog :: "DiskQueueConfig \<Rightarrow> (int \<Rightarrow> bytes \<Rightarrow> bytes) \<Rightarrow> bytes list \<Rightarrow> bytes" where
  "encLog cfg zc ms = encMsgs (map (storedForm cfg zc) ms)"

definition log_ok ::
  "DiskQueueConfig \<Rightarrow> (int \<Rightarrow> bytes \<Rightarrow> bytes) \<Rightarrow> int \<Rightarrow> DiskBasedQueue \<Rightarrow> (int \<Rightarrow> bytes list) \<Rightarrow> bool" where
  "log_ok cfg zc lo q log \<longleftrightarrow>
     0 \<le> lo \<and> lo \<le> writeSegmentNum q \<and>
     writePos q = int (length (segBytes (files q) (writeSegmentNum q))) \<and>
     (\<forall>i. lo \<le> i \<longrightarrow> i \<le> writeSegmentNum q \<longrightarrow>
        segBytes (files q) i = encLog cfg zc (log i) \<and> (\<forall>m \<in> set (log i). msg_ok cfg zc m)) \<and>
     (\<forall>i. lo \<le> i \<longrightarrow> i < writeSegmentNum q \<longrightarrow> log i \<noteq> []) \<and>
     (\<forall>i. writeSegmentNum q < i \<longrightarrow> dDat (files q) i = None) \<and>
     (\<forall>i. writeSegmentNum q \<le> i \<longrightarrow> dZst (files q) i = None) \<and>
     (writeFile q = None \<or>
      writeFile q = Some (writeSegmentNum q, length (segBytes (files q) (writeSegmentNum q))))"

lemma log_okD:
  assumes "log_ok cfg zc lo q log"
  shows "0 \<le> lo" "lo \<le> writeSegmentNum q"
    "writePos q = int (length (segBytes (files q) (writeSegmentNum q)))"
    "lo \<le> i \<Longrightarrow> i \<le> writeSegmentNum q \<Longrightarrow> segBytes (files q) i = encLog cfg zc (log i)"
    "lo \<le> i \<Longrightarrow> i \<le> writeSegmentNum q \<Longrightarrow> m \<in> set (log i) \<Longrightarrow> msg_ok cfg zc m"
    "lo \<le> i \<Longrightarrow> i < writeSegmentNum q \<Longrightarrow> log i \<noteq> []"
    "writeSegmentNum q < i \<Longrightarrow> dDat (files q) i = None"
    "writeSegmentNum q \<le> i \<Longrightarrow> dZst (files q) i = None"
    "writeFile q = None \<or> writeFile q = Some (writeSegmentNum q, length (segBytes (files q) (writeSegmentNum q)))"
  using assms unfolding log_ok_def by blast+

lemma log_okI:
  assumes "0 \<le> lo" "lo \<le> writeSegmentNum q"
    "writePos q = int (length (segBytes (files q) (writeSegmentNum q)))"
    "\<And>i. lo \<le> i \<Longrightarrow> i \<le> writeSegmentNum q \<Longrightarrow> segBytes (files q) i = encLog cfg zc (log i)"
    "\<And>i m. lo \<le> i \<Longrightarrow> i \<le> writeSegmentNum q \<Longrightarrow> m \<in> set (log i) \<Longrightarrow> msg_ok cfg zc m"
    "\<And>i. lo \<le> i \<Longrightarrow> i < writeSegmentNum q \<Longrightarrow> log i \<noteq> []"
    "\<And>i. writeSegmentNum q < i \<Longrightarrow> dDat (files q) i = None"
    "\<And>i. writeSegmentNum q \<le> i \<Longrightarrow> dZst (files q) i = None"
    "writeFile q = None \<or> writeFile q = Some (writeSegmentNum q, length (segBytes (files q) (writeSegmentNum q)))"
  shows "log_ok cfg zc lo q log"
  using assms unfolding log_ok_def by blast

lemma encLog_simps [simp]:
  "encLog cfg zc [] = []"
  "encLog cfg zc (m # ms) = encMsg (storedForm cfg zc m) @ encLog cfg zc ms"
  "encLog cfg zc (ms @ ns) = encLog cfg zc ms @ encLog cfg zc ns"
  "encLog cfg zc ms = [] \<longleftrightarrow> ms = []"
  by (simp_all add: encLog_def)

lemma log_ok_frame [simp]:
  "log_ok cfg zc lo (notify q t n) log = log_ok cfg zc lo q log"
  "log_ok cfg zc lo (UpdateSegmentConsumerInReading q i s) log = log_ok cfg zc lo q log"
  by (simp_all add: log_ok_def notify_def UpdateSegmentConsumerInReading_def)

lemma queue_frame [simp]:
  "files (notify q t n) = files q" "writeSegmentNum (notify q t n) = writeSegmentNum q"
  "writePos (notify q t n) = writePos q" "writeFile (notify q t n) = writeFile q"
  "files (UpdateSegmentConsumerInReading q i s) = files q"
  "writeSegmentNum (UpdateSegmentConsumerInReading q i s) = writeSegmentNum q"
  "writePos (UpdateSegmentConsumerInReading q i s) = writePos q"
  "writeFile (UpdateSegmentConsumerInReading q i s) = writeFile q"
  by (simp_all add: notify_def UpdateSegmentConsumerInReading_def)

lemma FileExists_frame [simp]:
  "FileExists (notify q t n) i = FileExists q i"
  "FileExists (UpdateSegmentConsumerInReading q j s) i = FileExists q i"
  by (simp_all add: FileExists_def)

lemma FileExists_segBytes: "segBytes (files q) i \<noteq> [] \<Longrightarrow> FileExists q i"
  by (auto simp: segBytes_def FileExists_def split: option.splits)

lemma log_ok_file:
  assumes "log_ok cfg zc lo q log" "lo \<le> i" "i < writeSegmentNum q"
  shows "FileExists q i"
  by (rule FileExists_segBytes)
    (use log_okD(4) [OF assms(1,2)] log_okD(6) [OF assms] assms(3) in simp)

definition posOf :: "DiskQueueConfig \<Rightarrow> (int \<Rightarrow> bytes \<Rightarrow> bytes) \<Rightarrow> (int \<Rightarrow> bytes list) \<Rightarrow> int \<Rightarrow> nat \<Rightarrow> int" where
  "posOf cfg zc log s k = int (length (encLog cfg zc (take k (log s))))"

definition restAt :: "(int \<Rightarrow> bytes list) \<Rightarrow> int \<Rightarrow> int \<Rightarrow> nat \<Rightarrow> bytes list" where
  "restAt log w s k = drop k (log s) @ concat (map log [s + 1..w])"

text \<open>Behind the offset lie the messages \<open>xs\<close>.\<close>

definition denotes ::
  "DiskQueueConfig \<Rightarrow> (int \<Rightarrow> bytes \<Rightarrow> bytes) \<Rightarrow> int \<Rightarrow> DiskBasedQueue \<Rightarrow> (int \<Rightarrow> bytes list) \<Rightarrow> Offset \<Rightarrow> bytes list \<Rightarrow> bool" where
  "denotes cfg zc lo q log off xs \<longleftrightarrow>
     (\<exists>k. lo \<le> Segment off \<and> Segment off \<le> writeSegmentNum q \<and> k \<le> length (log (Segment off)) \<and>
       Position off = posOf cfg zc log (Segment off) k \<and> xs = restAt log (writeSegmentNum q) (Segment off) k)"

lemma posOf_0 [simp]: "posOf cfg zc log s 0 = 0"
  by (simp add: posOf_def)

lemma posOf_nonneg [simp]: "0 \<le> posOf cfg zc log s k"
  by (simp add: posOf_def)

lemma posOf_Suc:
  "k < length (log s) \<Longrightarrow>
    posOf cfg zc log s (Suc k) = posOf cfg zc log s k + 4 + int (length (storedForm cfg zc (log s ! k)))"
  by (simp add: posOf_def take_Suc_conv_app_nth)

lemma posOf_le:
  assumes "k \<le> length (log s)"
  shows "posOf cfg zc log s k \<le> int (length (encLog cfg zc (log s)))"
proof -
  have "encLog cfg zc (log s) = encLog cfg zc (take k (log s)) @ encLog cfg zc (drop k (log s))"
    by (metis append_take_drop_id encLog_simps(3))
  then show ?thesis by (simp add: posOf_def)
qed

lemma posOf_full: "posOf cfg zc log s (length (log s)) = int (length (encLog cfg zc (log s)))"
  by (simp add: posOf_def)

lemma drop_posOf:
  assumes "k \<le> length (log s)"
  shows "drop (nat (posOf cfg zc log s k)) (encLog cfg zc (log s)) = encLog cfg zc (drop k (log s))"
proof -
  have "encLog cfg zc (log s) = encLog cfg zc (take k (log s)) @ encLog cfg zc (drop k (log s))"
    by (metis append_take_drop_id encLog_simps(3))
  then show ?thesis by (simp add: posOf_def)
qed

lemma posOf_less:
  assumes "k < length (log s)"
  shows "posOf cfg zc log s k < int (length (encLog cfg zc (log s)))"
proof -
  have "posOf cfg zc log s (Suc k) \<le> int (length (encLog cfg zc (log s)))" using assms by (intro posOf_le) simp
  then show ?thesis using posOf_Suc [of k log s cfg zc] assms by simp
qed

lemma restAt_Suc: "k < length (log s) \<Longrightarrow> restAt log w s k = log s ! k # restAt log w s (Suc k)"
  by (simp add: restAt_def Cons_nth_drop_Suc)

lemma restAt_next: "s < w \<Longrightarrow> restAt log w s (length (log s)) = restAt log w (s + 1) 0"
  by (simp add: restAt_def upto_split_first)

subsection \<open>Growth\<close>

definition log_le :: "int \<Rightarrow> (int \<Rightarrow> bytes list) \<Rightarrow> int \<Rightarrow> (int \<Rightarrow> bytes list) \<Rightarrow> bool" where
  "log_le w log w' log' \<longleftrightarrow> w \<le> w' \<and> (\<forall>i < w. log' i = log i) \<and> prefix (log w) (log' w)"

text \<open>What lies behind the old end of the log.\<close>

definition extra :: "int \<Rightarrow> (int \<Rightarrow> bytes list) \<Rightarrow> int \<Rightarrow> (int \<Rightarrow> bytes list) \<Rightarrow> bytes list" where
  "extra w log w' log' = drop (length (log w)) (log' w) @ concat (map log' [w + 1..w'])"

lemma log_le_refl [simp]: "log_le w log w log"
  by (simp add: log_le_def)

lemma log_le_last: "log_le w log w' log' \<Longrightarrow> log' w = log w @ drop (length (log w)) (log' w)"
  by (auto simp: log_le_def prefix_def)

lemma log_le_take:
  "log_le w log w' log' \<Longrightarrow> s \<le> w \<Longrightarrow> k \<le> length (log s) \<Longrightarrow> take k (log' s) = take k (log s)"
  by (cases "s = w") (auto simp: log_le_def prefix_def)

lemma log_le_length: "log_le w log w' log' \<Longrightarrow> s \<le> w \<Longrightarrow> length (log s) \<le> length (log' s)"
  by (cases "s = w") (auto simp: log_le_def prefix_def)

lemma log_le_trans:
  "log_le w log w' log' \<Longrightarrow> log_le w' log' w'' log'' \<Longrightarrow> log_le w log w'' log''"
  unfolding log_le_def by (cases "w = w'") (auto dest: prefix_order.trans)

lemma posOf_grow:
  "log_le w log w' log' \<Longrightarrow> s \<le> w \<Longrightarrow> k \<le> length (log s) \<Longrightarrow> posOf cfg zc log' s k = posOf cfg zc log s k"
  by (simp add: posOf_def log_le_take)

lemma map_log_cong: "(\<forall>i < w. log' i = log i) \<Longrightarrow> b < w \<Longrightarrow> map log' [a..b] = map log [a..b]"
  by (rule map_cong) auto

lemma concat_upto_grow:
  assumes "log_le w log w' log'" "a \<le> w"
  shows "concat (map log' [a..w']) = concat (map log [a..w]) @ extra w log w' log'"
proof -
  from assms have w: "w \<le> w'" and eq: "\<forall>i < w. log' i = log i" by (simp_all add: log_le_def)
  have "[a..w'] = [a..w] @ [w + 1..w']" using assms(2) w by (intro upto_split2)
  moreover have "[a..w] = [a..w - 1] @ [w]" using assms(2) by (simp add: upto_rec2)
  moreover have "concat (map log' [a..w - 1]) = concat (map log [a..w - 1])"
    by (rule arg_cong [OF map_log_cong [OF eq]]) simp
  ultimately show ?thesis
    using log_le_last [OF assms(1)] by (simp add: extra_def)
qed

lemma restAt_grow:
  assumes "log_le w log w' log'" "s \<le> w" "k \<le> length (log s)"
  shows "restAt log' w' s k = restAt log w s k @ extra w log w' log'"
proof (cases "s = w")
  case True
  have "drop k (log' w) = drop k (log w) @ drop (length (log w)) (log' w)"
    using assms(3) True by (subst log_le_last [OF assms(1)]) simp
  with True show ?thesis by (simp add: restAt_def extra_def)
next
  case False
  with assms(1,2) have "log' s = log s" by (simp add: log_le_def)
  with False assms(2) concat_upto_grow [OF assms(1), of "s + 1"] show ?thesis by (simp add: restAt_def)
qed

lemma denotes_grow:
  assumes "denotes cfg zc lo q log off xs" "log_le (writeSegmentNum q) log (writeSegmentNum q') log'"
  shows "denotes cfg zc lo q' log' off (xs @ extra (writeSegmentNum q) log (writeSegmentNum q') log')"
proof -
  from assms(1) obtain k where k: "lo \<le> Segment off" "Segment off \<le> writeSegmentNum q"
    "k \<le> length (log (Segment off))" "Position off = posOf cfg zc log (Segment off) k"
    "xs = restAt log (writeSegmentNum q) (Segment off) k" by (auto simp: denotes_def)
  have "writeSegmentNum q \<le> writeSegmentNum q'" using assms(2) by (simp add: log_le_def)
  with k restAt_grow [OF assms(2) k(2,3)] posOf_grow [OF assms(2) k(2,3), of cfg zc]
    log_le_length [OF assms(2) k(2)] show ?thesis
    unfolding denotes_def by (intro exI [of _ k]) simp
qed

lemma denotes_frame [simp]:
  "denotes cfg zc lo (notify q t n) log off xs = denotes cfg zc lo q log off xs"
  "denotes cfg zc lo (UpdateSegmentConsumerInReading q i s) log off xs = denotes cfg zc lo q log off xs"
  by (simp_all add: denotes_def)

lemma denotesI:
  "lo \<le> s \<Longrightarrow> s \<le> writeSegmentNum q \<Longrightarrow> k \<le> length (log s) \<Longrightarrow> Segment off = s \<Longrightarrow>
    Position off = posOf cfg zc log s k \<Longrightarrow> xs = restAt log (writeSegmentNum q) s k \<Longrightarrow>
    denotes cfg zc lo q log off xs"
  by (auto simp: denotes_def)

text \<open>Others may only append to the log, and never remove a file of it.\<close>

definition appends :: "DiskQueueConfig \<Rightarrow> (int \<Rightarrow> bytes \<Rightarrow> bytes) \<Rightarrow> int \<Rightarrow> (DiskBasedQueue \<Rightarrow> DiskBasedQueue) \<Rightarrow> bool" where
  "appends cfg zc lo f \<longleftrightarrow>
     (\<forall>q log. log_ok cfg zc lo q log \<longrightarrow>
       (\<exists>log'. log_ok cfg zc lo (f q) log' \<and> log_le (writeSegmentNum q) log (writeSegmentNum (f q)) log' \<and>
         (\<forall>i. FileExists q i \<longrightarrow> FileExists (f q) i)))"

lemma appends_id [simp]: "appends cfg zc lo (\<lambda>q. q)"
  unfolding appends_def by (metis log_le_refl)

subsection \<open>Positioning a consumer\<close>

definition ready ::
  "DiskQueueConfig \<Rightarrow> (int \<Rightarrow> bytes \<Rightarrow> bytes) \<Rightarrow> int \<Rightarrow> DiskBasedQueue \<Rightarrow> (int \<Rightarrow> bytes list) \<Rightarrow> Consumer \<Rightarrow> nat \<Rightarrow> bool" where
  "ready cfg zc lo q log c k \<longleftrightarrow>
     lo \<le> conSegment c \<and> conSegment c \<le> writeSegmentNum q \<and> k \<le> length (log (conSegment c)) \<and>
     conReadPos c = posOf cfg zc log (conSegment c) k \<and> FileExists q (conSegment c) \<and>
     (\<exists>r. conReader c = Some (conSegment c, r) \<and>
        coherent (nat (conReadPos c)) (segBytes (files q) (conSegment c)) r) \<and>
     \<not> conClosed c \<and> conFile c = Some (conSegment c) \<and>
     conMaxBytes c \<le> int (length (segBytes (files q) (conSegment c))) \<and>
     (fileLoadCompleted c \<longrightarrow> conSegment c < writeSegmentNum q \<and>
        conMaxBytes c = int (length (segBytes (files q) (conSegment c))))"

lemma readyD:
  assumes "ready cfg zc lo q log c k"
  shows "lo \<le> conSegment c" "conSegment c \<le> writeSegmentNum q" "k \<le> length (log (conSegment c))"
    "conReadPos c = posOf cfg zc log (conSegment c) k" "FileExists q (conSegment c)"
    "\<exists>r. conReader c = Some (conSegment c, r) \<and>
        coherent (nat (conReadPos c)) (segBytes (files q) (conSegment c)) r"
    "\<not> conClosed c" "conFile c = Some (conSegment c)"
    "conMaxBytes c \<le> int (length (segBytes (files q) (conSegment c)))"
    "fileLoadCompleted c \<Longrightarrow> conSegment c < writeSegmentNum q"
    "fileLoadCompleted c \<Longrightarrow> conMaxBytes c = int (length (segBytes (files q) (conSegment c)))"
  using assms unfolding ready_def by blast+

lemma ready_frame [simp]:
  "ready cfg zc lo (notify q t n) log c k = ready cfg zc lo q log c k"
  "ready cfg zc lo (UpdateSegmentConsumerInReading q i s) log c k = ready cfg zc lo q log c k"
  by (simp_all add: ready_def)

lemma getFileSize_file:
  "conFile c = Some i \<Longrightarrow> FileExists q i \<Longrightarrow> getFileSize q c = int (length (segBytes (files q) i))"
  by (auto simp: getFileSize_def FileExists_def segBytes_def)

lemma getFileSize_frame [simp]: "getFileSize (notify q t n) c = getFileSize q c"
  by (simp add: getFileSize_def split: option.split)

lemma ready_grow:
  assumes "ready cfg zc lo q log c k" "log_ok cfg zc lo q log" "log_ok cfg zc lo q' log'"
    and "log_le (writeSegmentNum q) log (writeSegmentNum q') log'" "\<forall>i. FileExists q i \<longrightarrow> FileExists q' i"
  shows "ready cfg zc lo q' log' c k"
proof -
  let ?s = "conSegment c"
  note r = readyD [OF assms(1)]
  have w: "writeSegmentNum q \<le> writeSegmentNum q'" using assms(4) by (simp add: log_le_def)
  have old: "segBytes (files q) ?s = encLog cfg zc (log ?s)" by (rule log_okD(4) [OF assms(2) r(1,2)])
  have new: "segBytes (files q') ?s = encLog cfg zc (log' ?s)" by (rule log_okD(4) [OF assms(3) r(1)]) (use r(2) w in simp)
  have "\<exists>ys. log' ?s = log ?s @ ys" using assms(4) r(2) by (cases "?s = writeSegmentNum q") (auto simp: log_le_def prefix_def)
  then obtain ys where "log' ?s = log ?s @ ys" by blast
  with old new have ext: "segBytes (files q') ?s = segBytes (files q) ?s @ encLog cfg zc ys" by simp
  have sealed: "log' ?s = log ?s" if "fileLoadCompleted c" using r(10) [OF that] assms(4) by (simp add: log_le_def)
  have p: "nat (conReadPos c) \<le> length (segBytes (files q) ?s)"
    using posOf_le [of k log ?s cfg zc] r(3,4) old by simp
  show ?thesis
    unfolding ready_def
  proof (intro conjI impI)
    show "\<exists>rd. conReader c = Some (?s, rd) \<and> coherent (nat (conReadPos c)) (segBytes (files q') ?s) rd"
      using r(6) coherent_extend [OF _ p] ext by auto
    show "conMaxBytes c = int (length (segBytes (files q') ?s))" if "fileLoadCompleted c"
      using r(11) [OF that] sealed [OF that] old new by simp
  qed (use r w assms(5) posOf_grow [OF assms(4) r(2,3)] log_le_length [OF assms(4) r(2)] ext in auto)
qed

lemma SmartGetFileName_local:
  assumes "local_only cfg" "FileExists q i \<or> dZst (files q) i = None"
  shows "SmartGetFileName cfg rm q i = Ret (q, FileExists q i, FileExists q (i + 1))"
  using assms by (auto simp: SmartGetFileName_def local_only_def Let_def)

lemma Smart_log:
  assumes "local_only cfg" "log_ok cfg zc lo q log" "lo \<le> i"
  shows "SmartGetFileName cfg rm q i = Ret (q, FileExists q i, FileExists q (i + 1))"
  using log_ok_file [OF assms(2,3)] log_okD(8) [OF assms(2), of i]
  by (intro SmartGetFileName_local [OF assms(1)]) (cases "i < writeSegmentNum q"; simp)

text \<open>The queue holds something: its first segment is not the empty one a queue starts with.\<close>

definition nonvoid :: "DiskBasedQueue \<Rightarrow> bool" where
  "nonvoid q \<longleftrightarrow> \<not> (writeSegmentNum q = 0 \<and> writePos q = 0)"

lemma ResetOffset_ready:
  assumes loc: "local_only cfg" and log: "log_ok cfg zc lo q log" and s: "lo \<le> s" "s \<le> writeSegmentNum q"
    and k: "k \<le> length (log s)" and p: "p = posOf cfg zc log s k" and f: "FileExists q s" and nv: "nonvoid q"
  shows "\<exists>c'. ResetOffset cfg rm False (q, c) s p = Ret ((UpdateSegmentConsumerInReading q (conID c) s, c'), None) \<and>
    ready cfg zc lo q log c' k \<and> conSegment c' = s \<and> conReadPos c' = p \<and> conVersion c' = conVersion c \<and>
    lastFileSize c' = lastFileSize c \<and> conMaxBytes c' = int (length (segBytes (files q) s)) \<and>
    (s < writeSegmentNum q \<longrightarrow> fileLoadCompleted c')"
proof -
  let ?q = "UpdateSegmentConsumerInReading q (conID c) s"
  let ?c1 = "if conSegment c \<noteq> s \<and> conHandle c then c\<lparr>conClosed := True\<rparr> else c"
  let ?c2 = "?c1\<lparr>conSegment := s, conReadPos := p, conMaxBytes := 0\<rparr>"
  let ?c3 = "?c2\<lparr>fileLoadCompleted := FileExists q (s + 1) \<or> writeSegmentNum q > s\<rparr>"
  let ?c = "?c3\<lparr>conHandle := True, conClosed := False, conMaxBytes := int (length (segBytes (files q) s)),
      conReader := Some (s, NewReader (nat p)), conFile := Some s\<rparr>"
  have id: "conID ?c1 = conID c" by simp
  from f obtain b where b: "dDat (files q) s = Some b" "segBytes (files q) s = b"
    by (auto simp: FileExists_def segBytes_def)
  have p0: "0 \<le> p" using p by simp
  have pw: "\<not> (s = writeSegmentNum q \<and> p > writePos q)"
    using posOf_le [of k log s cfg zc] k p log_okD(3,4) [OF log] s by auto
  have sm: "SmartGetFileName cfg rm ?q s = Ret (?q, True, FileExists q (s + 1))"
    using Smart_log [OF loc, of zc lo ?q log s rm] log s(1) f by simp
  have run: "ResetOffset cfg rm False (q, c) s p = Ret ((?q, ?c), None)"
    unfolding ResetOffset_def using nv s(2) pw sm b p0 unfolding nonvoid_def
    by (auto simp: Let_def openSegment_def max_def)
  have comp: "FileExists q (s + 1) \<longrightarrow> s < writeSegmentNum q"
    using log_okD(7) [OF log, of "s + 1"] s(2) by (cases "s = writeSegmentNum q") (auto simp: FileExists_def)
  have "ready cfg zc lo q log ?c k"
    unfolding ready_def using s k p f comp by auto
  with run show ?thesis by (intro exI [of _ ?c]) (auto simp: p0)
qed

lemma ResetOffset_missing:
  assumes loc: "local_only cfg" and log: "log_ok cfg zc lo q log" and s: "lo \<le> s" "s \<le> writeSegmentNum q"
    and f: "\<not> FileExists q s" and nv: "nonvoid q"
  shows "\<exists>c'. ResetOffset cfg rm b (q, c) s 0 =
    Ret ((UpdateSegmentConsumerInReading q (conID c) s, c'), Some notFound)"
proof -
  let ?q = "UpdateSegmentConsumerInReading q (conID c) s"
  have sw: "s = writeSegmentNum q" using log_ok_file [OF log s(1)] s(2) f by force
  have "SmartGetFileName cfg rm ?q s = Ret (?q, False, FileExists q (s + 1))"
    using Smart_log [OF loc, of zc lo ?q log s rm] log s(1) f by simp
  with nv f sw log_okD(3) [OF log] show ?thesis
    unfolding ResetOffset_def nonvoid_def by (auto simp: Let_def)
qed

lemma nonvoid_frame [simp]:
  "nonvoid (notify q t n) = nonvoid q" "nonvoid (UpdateSegmentConsumerInReading q i s) = nonvoid q"
  by (simp_all add: nonvoid_def)

lemma nonvoid_grow:
  assumes "nonvoid q" "log_ok cfg zc lo q log" "log_ok cfg zc lo q' log'"
    and "log_le (writeSegmentNum q) log (writeSegmentNum q') log'"
  shows "nonvoid q'"
proof (cases "writeSegmentNum q' = 0")
  case True
  with assms have w: "writeSegmentNum q = 0" "lo = 0"
    using log_okD(1,2) [OF assms(2)] by (auto simp: log_le_def)
  with assms(1) have "writePos q \<noteq> 0" by (simp add: nonvoid_def)
  with log_okD(3,4) [OF assms(2)] w have "log 0 \<noteq> []" by auto
  with assms(4) w have "log' 0 \<noteq> []" by (auto simp: log_le_def)
  then have "writePos q' \<noteq> 0" using log_okD(3,4) [OF assms(3)] w True by auto
  then show ?thesis by (simp add: nonvoid_def)
qed (simp add: nonvoid_def)

subsection \<open>What a running fetch has handed out\<close>

definition offsets_ok ::
  "DiskQueueConfig \<Rightarrow> (int \<Rightarrow> bytes \<Rightarrow> bytes) \<Rightarrow> int \<Rightarrow> DiskBasedQueue \<Rightarrow> (int \<Rightarrow> bytes list) \<Rightarrow> Message list \<Rightarrow> bytes list \<Rightarrow> bool" where
  "offsets_ok cfg zc lo q log msgs rest \<longleftrightarrow>
     (\<forall>i < length msgs.
        denotes cfg zc lo q log (msgOffset (msgs ! i)) (drop i (map msgData msgs) @ rest) \<and>
        denotes cfg zc lo q log (msgNextOffset (msgs ! i)) (drop (Suc i) (map msgData msgs) @ rest))"

text \<open>
  The log when the fetch began: its end, its content, the offset the fetch began at, and the files when
  nothing but the fetch is at work.
\<close>

record baseline =
  bEnd :: int
  bLog :: "int \<Rightarrow> bytes list"
  bOffset :: Offset
  bFiles :: "disk option"

definition unchanged :: "baseline \<Rightarrow> DiskBasedQueue \<Rightarrow> bool" where
  "unchanged B q \<longleftrightarrow> (\<forall>fs. bFiles B = Some fs \<longrightarrow> files q = fs \<and> writeSegmentNum q = bEnd B)"

lemma unchanged_frame [simp]:
  "unchanged B (notify q t n) = unchanged B q" "unchanged B (UpdateSegmentConsumerInReading q i s) = unchanged B q"
  by (simp_all add: unchanged_def)

definition fetched ::
  "DiskQueueConfig \<Rightarrow> (int \<Rightarrow> bytes \<Rightarrow> bytes) \<Rightarrow> int \<Rightarrow> baseline \<Rightarrow> (int \<Rightarrow> bytes list) \<Rightarrow> fetch \<Rightarrow> bytes list \<Rightarrow> bool" where
  "fetched cfg zc lo B log st rest \<longleftrightarrow>
     log_ok cfg zc lo (fq st) log \<and>
     denotes cfg zc lo (fq st) log (InitOffset (fctx st)) (map msgData (fmsgs st) @ rest) \<and>
     denotes cfg zc lo (fq st) log (NextOffset (fctx st)) rest \<and>
     offsets_ok cfg zc lo (fq st) log (fmsgs st) rest \<and>
     MessageCount (fctx st) = int (length (fmsgs st)) \<and>
     log_le (bEnd B) (bLog B) (writeSegmentNum (fq st)) log \<and>
     InitOffset (fctx st) = bOffset B \<and> unchanged B (fq st)"

lemma fetchedD:
  assumes "fetched cfg zc lo B log st rest"
  shows "log_ok cfg zc lo (fq st) log"
    "denotes cfg zc lo (fq st) log (InitOffset (fctx st)) (map msgData (fmsgs st) @ rest)"
    "denotes cfg zc lo (fq st) log (NextOffset (fctx st)) rest"
    "offsets_ok cfg zc lo (fq st) log (fmsgs st) rest"
    "MessageCount (fctx st) = int (length (fmsgs st))"
    "log_le (bEnd B) (bLog B) (writeSegmentNum (fq st)) log" "InitOffset (fctx st) = bOffset B"
    "unchanged B (fq st)"
  using assms unfolding fetched_def by blast+

lemma fetched_grow:
  assumes "fetched cfg zc lo B log st rest" "log_ok cfg zc lo q' log'"
    and le: "log_le (writeSegmentNum (fq st)) log (writeSegmentNum q') log'" and un: "unchanged B q'"
  shows "fetched cfg zc lo B log' (st\<lparr>fq := q'\<rparr>) (rest @ extra (writeSegmentNum (fq st)) log (writeSegmentNum q') log')"
proof -
  note f = fetchedD [OF assms(1)]
  have g: "denotes cfg zc lo q' log' off (a @ rest @ extra (writeSegmentNum (fq st)) log (writeSegmentNum q') log')"
    if "denotes cfg zc lo (fq st) log off (a @ rest)" for off a
    using denotes_grow [OF that le] by simp
  show ?thesis
    unfolding fetched_def offsets_ok_def
    using assms(2) g [OF f(2)] denotes_grow [OF f(3) le] f(4,5) [unfolded offsets_ok_def] f(7) un
      log_le_trans [OF f(6) le]
    by (simp add: g)
qed

lemma fetched_frame [simp]:
  "fetched cfg zc lo B log (st\<lparr>fc := c\<rparr>) rest = fetched cfg zc lo B log st rest"
  "fetched cfg zc lo B log (st\<lparr>fretry := n\<rparr>) rest = fetched cfg zc lo B log st rest"
  "fetched cfg zc lo B log (st\<lparr>fq := UpdateSegmentConsumerInReading (fq st) i s\<rparr>) rest = fetched cfg zc lo B log st rest"
  "fetched cfg zc lo B log (notifyRead st) rest = fetched cfg zc lo B log st rest"
  by (simp_all add: fetched_def offsets_ok_def notifyRead_def)

lemma nextOffsetHere_simps [simp]:
  "fq (nextOffsetHere st) = fq st" "fc (nextOffsetHere st) = fc st" "fmsgs (nextOffsetHere st) = fmsgs st"
  "fretry (nextOffsetHere st) = fretry st" "fsize (nextOffsetHere st) = fsize st"
  by (simp_all add: nextOffsetHere_def)

lemma notifyRead_simps [simp]:
  "fc (notifyRead st) = fc st" "fmsgs (notifyRead st) = fmsgs st" "fctx (notifyRead st) = fctx st"
  "fretry (notifyRead st) = fretry st" "fq (notifyRead st) = notify (fq st) ReadComplete (conSegment (fc st))"
  by (simp_all add: notifyRead_def)

lemma fetched_here:
  assumes "fetched cfg zc lo B log st rest"
    and "lo \<le> conSegment (fc st)" "conSegment (fc st) \<le> writeSegmentNum (fq st)" "k \<le> length (log (conSegment (fc st)))"
    and "conReadPos (fc st) = posOf cfg zc log (conSegment (fc st)) k"
    and "rest = restAt log (writeSegmentNum (fq st)) (conSegment (fc st)) k"
  shows "fetched cfg zc lo B log (nextOffsetHere st) rest"
proof -
  have "denotes cfg zc lo (fq st) log (NextOffset (fctx (nextOffsetHere st))) rest"
    by (rule denotesI [of lo "conSegment (fc st)" _ k]) (use assms(2-4) in \<open>simp_all add: nextOffsetHere_def UpdateNextOffset_def assms(5,6)\<close>)
  with fetchedD [OF assms(1)] show ?thesis
    by (simp add: fetched_def nextOffsetHere_def UpdateNextOffset_def)
qed

subsection \<open>One pass\<close>

definition sound :: "DiskQueueConfig \<Rightarrow> (int \<Rightarrow> bytes \<Rightarrow> bytes) \<Rightarrow> (bytes \<Rightarrow> string + bytes) \<Rightarrow> bool" where
  "sound cfg zc zd \<longleftrightarrow> cfg_ok cfg \<and> codec_ok cfg zc zd \<and> local_only cfg"

abbreviation restOf :: "(int \<Rightarrow> bytes list) \<Rightarrow> fetch \<Rightarrow> nat \<Rightarrow> bytes list" where
  "restOf log st k \<equiv> restAt log (writeSegmentNum (fq st)) (conSegment (fc st)) k"

definition running ::
  "DiskQueueConfig \<Rightarrow> (int \<Rightarrow> bytes \<Rightarrow> bytes) \<Rightarrow> int \<Rightarrow> baseline \<Rightarrow> (int \<Rightarrow> bytes list) \<Rightarrow> fetch \<Rightarrow> nat \<Rightarrow> bool" where
  "running cfg zc lo B log st k \<longleftrightarrow>
     fetched cfg zc lo B log st (restOf log st k) \<and> ready cfg zc lo (fq st) log (fc st) k \<and>
     nonvoid (fq st) \<and> fretry st = 0"

lemma runningD:
  assumes "running cfg zc lo B log st k"
  shows "fetched cfg zc lo B log st (restOf log st k)" "ready cfg zc lo (fq st) log (fc st) k"
    "nonvoid (fq st)" "fretry st = 0" "log_ok cfg zc lo (fq st) log"
  using assms fetchedD(1) unfolding running_def by blast+

text \<open>The consumer stands before a message, or at the start of a segment.\<close>

definition fresh :: "(int \<Rightarrow> bytes list) \<Rightarrow> fetch \<Rightarrow> nat \<Rightarrow> bool" where
  "fresh log st k \<longleftrightarrow> k = 0 \<or> k < length (log (conSegment (fc st)))"

text \<open>A message that the next passes will reach.\<close>

definition avail ::
  "DiskQueueConfig \<Rightarrow> (int \<Rightarrow> bytes \<Rightarrow> bytes) \<Rightarrow> (int \<Rightarrow> bytes list) \<Rightarrow> fetch \<Rightarrow> nat \<Rightarrow> bool" where
  "avail cfg zc log st k \<longleftrightarrow>
     (let c = fc st
      in k < length (log (conSegment c)) \<and> posOf cfg zc log (conSegment c) (Suc k) \<le> conMaxBytes c \<or>
         k = length (log (conSegment c)) \<and> fileLoadCompleted c \<and> restOf log st k \<noteq> [])"

lemma resetThen_ready:
  assumes loc: "local_only cfg" and log: "log_ok cfg zc lo (fq st) log" and s: "lo \<le> s" "s \<le> writeSegmentNum (fq st)"
    and k: "k \<le> length (log s)" and p: "p = posOf cfg zc log s k" and f: "FileExists (fq st) s"
    and nv: "nonvoid (fq st)" and e: "\<not> openFails e"
  shows "\<exists>c'. resetThen cfg rm e st s p K =
      Ret (K (st\<lparr>fq := UpdateSegmentConsumerInReading (fq st) (conID (fc st)) s, fc := c'\<rparr>)) \<and>
    ready cfg zc lo (fq st) log c' k \<and> conSegment c' = s \<and> conReadPos c' = p \<and>
    conMaxBytes c' = int (length (segBytes (files (fq st)) s)) \<and> (s < writeSegmentNum (fq st) \<longrightarrow> fileLoadCompleted c')"
proof -
  obtain c' where "ResetOffset cfg rm False (fq st, fc st) s p =
      Ret ((UpdateSegmentConsumerInReading (fq st) (conID (fc st)) s, c'), None)"
    "ready cfg zc lo (fq st) log c' k" "conSegment c' = s" "conReadPos c' = p"
    "conMaxBytes c' = int (length (segBytes (files (fq st)) s))"
    "s < writeSegmentNum (fq st) \<longrightarrow> fileLoadCompleted c'"
    using ResetOffset_ready [OF loc log s k p f nv, of rm "fc st"] by blast
  then show ?thesis using e by (intro exI [of _ c']) (simp add: resetThen_def)
qed

lemma resetThen_missing:
  assumes "local_only cfg" "log_ok cfg zc lo (fq st) log" "lo \<le> s" "s \<le> writeSegmentNum (fq st)"
    "\<not> FileExists (fq st) s" "nonvoid (fq st)"
  shows "\<exists>c'. resetThen cfg rm e st s 0 K =
    Ret (Finish (st\<lparr>fq := UpdateSegmentConsumerInReading (fq st) (conID (fc st)) s, fc := c'\<rparr>) False None)"
proof -
  obtain c' where "ResetOffset cfg rm (openFails e) (fq st, fc st) s 0 =
      Ret ((UpdateSegmentConsumerInReading (fq st) (conID (fc st)) s, c'), Some notFound)"
    using ResetOffset_missing [OF assms, of rm "openFails e" "fc st"] by blast
  then show ?thesis by (intro exI [of _ c']) (simp add: resetThen_def notFound_def)
qed

lemma fetched_upd [simp]:
  "fetched cfg zc lo B log (st\<lparr>fq := UpdateSegmentConsumerInReading (fq st) i s, fc := c\<rparr>) rest =
    fetched cfg zc lo B log st rest"
  by (simp add: fetched_def offsets_ok_def)

text \<open>Moving on to the next segment, from the end of a finished one.\<close>

lemma next_segment:
  assumes snd: "local_only cfg" and log: "log_ok cfg zc lo (fq st) log" and lo: "lo \<le> conSegment (fc st)"
    and s: "conSegment (fc st) < writeSegmentNum (fq st)" and f: "FileExists (fq st) (conSegment (fc st) + 1)"
    and nv: "nonvoid (fq st)" and e: "\<not> openFails e" and r: "fretry st = 0"
    and fe: "fetched cfg zc lo B log st (restAt log (writeSegmentNum (fq st)) (conSegment (fc st) + 1) 0)"
  shows "\<exists>st'. resetThen cfg rm e (notifyRead st) (conSegment (fc st) + 1) 0 K = Ret (K st') \<and>
    running cfg zc lo B log st' 0 \<and> fmsgs st' = fmsgs st \<and> conSegment (fc st') = conSegment (fc st) + 1 \<and>
    writeSegmentNum (fq st') = writeSegmentNum (fq st) \<and> conReadPos (fc st') = 0 \<and>
    conMaxBytes (fc st') = int (length (encLog cfg zc (log (conSegment (fc st) + 1)))) \<and>
    (conSegment (fc st) + 1 < writeSegmentNum (fq st) \<longrightarrow> fileLoadCompleted (fc st'))"
proof -
  let ?s = "conSegment (fc st) + 1"
  obtain c' where c': "resetThen cfg rm e (notifyRead st) ?s 0 K =
      Ret (K ((notifyRead st)\<lparr>fq := UpdateSegmentConsumerInReading (fq (notifyRead st)) (conID (fc st)) ?s, fc := c'\<rparr>))"
    "ready cfg zc lo (fq st) log c' 0" "conSegment c' = ?s" "conReadPos c' = 0"
    "conMaxBytes c' = int (length (segBytes (files (fq st)) ?s))"
    "?s < writeSegmentNum (fq st) \<longrightarrow> fileLoadCompleted c'"
    using resetThen_ready [OF snd, of zc lo "notifyRead st" log ?s 0 0 e rm K] log lo s f nv e by auto
  have "segBytes (files (fq st)) ?s = encLog cfg zc (log ?s)" by (rule log_okD(4) [OF log]) (use lo s in auto)
  with c' fe nv r s show ?thesis
    by (intro exI [of _ "(notifyRead st)\<lparr>fq := UpdateSegmentConsumerInReading (fq (notifyRead st)) (conID (fc st)) ?s, fc := c'\<rparr>"])
      (simp add: running_def del: notifyRead_simps(5), simp)
qed

definition outcome ::
  "DiskQueueConfig \<Rightarrow> (int \<Rightarrow> bytes \<Rightarrow> bytes) \<Rightarrow> int \<Rightarrow> baseline \<Rightarrow> int \<Rightarrow> bool \<Rightarrow> bool \<Rightarrow> bool \<Rightarrow> fetch \<Rightarrow> jump go \<Rightarrow> bool" where
  "outcome cfg zc lo B maxMsgs bad g fr st j \<longleftrightarrow>
     (case j of
        Panic m \<Rightarrow> False
      | Ret (Again st') \<Rightarrow>
          (\<exists>log k. running cfg zc lo B log st' k \<and> fresh log st' k \<and>
             (g \<longrightarrow> fmsgs st' \<noteq> [] \<or> avail cfg zc log st' k)) \<and>
          (length (fmsgs st') = Suc (length (fmsgs st)) \<and> int (length (fmsgs st')) < maxMsgs \<or>
           fmsgs st' = fmsgs st \<and> \<not> fr)
      | Ret (Finish st' timeout err) \<Rightarrow>
          \<not> timeout \<and> (\<exists>log rest. fetched cfg zc lo B log st' rest) \<and> (err \<noteq> None \<longrightarrow> bad) \<and>
          (g \<and> \<not> bad \<longrightarrow> fmsgs st' \<noteq> []))"

lemma outcome_again:
  assumes "running cfg zc lo B log st' k" "fresh log st' k" "g \<Longrightarrow> fmsgs st' \<noteq> [] \<or> avail cfg zc log st' k"
    and "length (fmsgs st') = Suc (length (fmsgs st)) \<and> int (length (fmsgs st')) < maxMsgs \<or> fmsgs st' = fmsgs st \<and> \<not> fr"
  shows "outcome cfg zc lo B maxMsgs bad g fr st (Ret (Again st'))"
  using assms unfolding outcome_def by auto

lemma outcome_finish:
  assumes "fetched cfg zc lo B log st' rest" "err \<noteq> None \<Longrightarrow> bad" "g \<Longrightarrow> \<not> bad \<Longrightarrow> fmsgs st' \<noteq> []"
  shows "outcome cfg zc lo B maxMsgs bad g fr st (Ret (Finish st' False err))"
  using assms unfolding outcome_def by auto

lemma avail_start:
  assumes "restAt log w (s + 1) 0 \<noteq> []" "s + 1 \<le> w" "conSegment (fc st) = s + 1" "writeSegmentNum (fq st) = w"
    and "conMaxBytes (fc st) = int (length (encLog cfg zc (log (s + 1))))"
    and "\<And>i. s < i \<Longrightarrow> i < w \<Longrightarrow> log i \<noteq> []"
  shows "avail cfg zc log st 0"
proof -
  have "log (s + 1) \<noteq> []" using assms(1,2,6) by (cases "s + 1 = w") (auto simp: restAt_def)
  then show ?thesis using assms(3,5) posOf_le [of 1 log "s + 1" cfg zc]
    by (cases "log (s + 1)") (simp_all add: avail_def Let_def)
qed

lemma onEOF_outcome:
  assumes snd: "local_only cfg" and run: "running cfg zc lo B log st k" and e: "\<not> openFails e"
    and k: "k = length (log (conSegment (fc st)))"
  shows "outcome cfg zc lo B M bad (fmsgs st \<noteq> [] \<or> avail cfg zc log st k) (fresh log st k) st (onEOF cfg rm e st)"
proof -
  let ?c = "fc st" let ?s = "conSegment ?c" let ?w = "writeSegmentNum (fq st)"
  note rn = runningD [OF run] note rd = readyD [OF rn(2)]
  have seg: "segBytes (files (fq st)) ?s = encLog cfg zc (log ?s)" by (rule log_okD(4) [OF rn(5) rd(1,2)])
  have pos: "conReadPos ?c = int (length (encLog cfg zc (log ?s)))" using rd(4) k posOf_full by simp
  have sz: "getFileSize (fq st) ?c = conReadPos ?c" using getFileSize_file [OF rd(8,5)] seg pos by simp
  have sm: "SmartGetFileName cfg rm (fq st) (?s + 1) = Ret (fq st, FileExists (fq st) (?s + 1), FileExists (fq st) (?s + 1 + 1))"
    by (rule Smart_log [OF snd rn(5)]) (use rd(1) in simp)
  have here: "fetched cfg zc lo B log (nextOffsetHere st) (restOf log st k)"
    by (rule fetched_here [OF rn(1) rd(1-4)]) simp
  have upd: "st\<lparr>fq := fq st\<rparr> = st" by simp
  have swap: "nextOffsetHere (notifyRead st) = notifyRead (nextOffsetHere st)"
    by (simp add: nextOffsetHere_def notifyRead_def)
  show ?thesis
  proof (cases "fileLoadCompleted ?c")
    case False
    then have "onEOF cfg rm e st = Ret (Finish st False None)"
      unfolding onEOF_def using sz sm upd by (simp add: Let_def)
    moreover have "\<not> avail cfg zc log st k" using False k by (simp add: avail_def Let_def)
    ultimately show ?thesis using rn(1) by (auto intro: outcome_finish)
  next
    case comp: True
    have s: "?s < ?w" by (rule rd(10) [OF comp])
    have rest: "restOf log st k = restAt log ?w (?s + 1) 0" unfolding k by (rule restAt_next [OF s])
    have notfresh: "\<not> fresh log st k" using log_okD(6) [OF rn(5) rd(1) s] k by (simp add: fresh_def)
    show ?thesis
    proof (cases "FileExists (fq st) (?s + 1)")
      case f: True
      let ?K = "\<lambda>st. Again ((nextOffsetHere st)\<lparr>fretry := 0\<rparr>)"
      have eof: "onEOF cfg rm e st = resetThen cfg rm e (notifyRead (nextOffsetHere st)) (?s + 1) 0 ?K"
        unfolding onEOF_def using sz sm f comp upd swap by (simp add: Let_def)
      obtain st' where st': "onEOF cfg rm e st = Ret (?K st')" "running cfg zc lo B log st' 0" "fmsgs st' = fmsgs st"
        "conSegment (fc st') = ?s + 1" "writeSegmentNum (fq st') = ?w" "conReadPos (fc st') = 0"
        "conMaxBytes (fc st') = int (length (encLog cfg zc (log (?s + 1))))"
        using next_segment [of cfg zc lo "nextOffsetHere st" log e B rm ?K] snd rn rd(1) s f e here rest
        unfolding eof by (auto simp del: notifyRead_simps)
      note rn' = runningD [OF st'(2)] note rd' = readyD [OF rn'(2)]
      have "fetched cfg zc lo B log (nextOffsetHere st') (restOf log st' 0)"
        by (rule fetched_here [OF rn'(1) rd'(1-4)]) simp
      then have run': "running cfg zc lo B log ((nextOffsetHere st')\<lparr>fretry := 0\<rparr>) 0"
        using rn' by (simp add: running_def)
      have av: "avail cfg zc log ((nextOffsetHere st')\<lparr>fretry := 0\<rparr>) 0" if "avail cfg zc log st k"
      proof (rule avail_start [of log ?w ?s])
        show "restAt log ?w (?s + 1) 0 \<noteq> []" using that k rest by (simp add: avail_def Let_def)
        show "log i \<noteq> []" if "?s < i" "i < ?w" for i
          by (rule log_okD(6) [OF rn(5)]) (use rd(1) that in simp_all)
      qed (use s st' in simp_all)
      show ?thesis unfolding st'(1)
        by (rule outcome_again [OF run']) (use av notfresh st'(3) in \<open>auto simp: fresh_def\<close>)
    next
      case f: False
      let ?K = "\<lambda>st. Finish (nextOffsetHere st) False None"
      have "onEOF cfg rm e st = resetThen cfg rm e (notifyRead (nextOffsetHere st)) (?s + 1) 0 ?K"
        unfolding onEOF_def using sz sm f comp upd swap s by (simp add: Let_def)
      moreover have "\<exists>c'. resetThen cfg rm e (notifyRead (nextOffsetHere st)) (?s + 1) 0 ?K =
        Ret (Finish ((notifyRead (nextOffsetHere st))\<lparr>fq := UpdateSegmentConsumerInReading
          (fq (notifyRead (nextOffsetHere st))) (conID (fc (notifyRead (nextOffsetHere st)))) (?s + 1), fc := c'\<rparr>) False None)"
        by (rule resetThen_missing [OF snd, of zc lo _ log]) (use rn(3,5) rd(1) s f in simp_all)
      moreover have "restAt log ?w (?s + 1) 0 = []"
        using log_ok_file [OF rn(5), of "?s + 1"] rd(1) s f FileExists_segBytes [of "fq st" ?w]
          log_okD(4) [OF rn(5), of ?w] by (cases "?s + 1 = ?w") (auto simp: restAt_def)
      then have "\<not> avail cfg zc log st k" using k rest by (simp add: avail_def Let_def)
      ultimately show ?thesis
        using here by (auto intro!: outcome_finish [of _ _ _ _ log _ "restOf log st k"] simp del: notifyRead_simps(5))
    qed
  qed
qed

lemma reset_here:
  assumes "local_only cfg" "log_ok cfg zc lo (fq st) log" "lo \<le> conSegment c" "conSegment c \<le> writeSegmentNum (fq st)"
    "k \<le> length (log (conSegment c))" "conReadPos c = posOf cfg zc log (conSegment c) k"
    "FileExists (fq st) (conSegment c)" "nonvoid (fq st)" "\<not> openFails e" "fetched cfg zc lo B log st rest"
  shows "\<exists>st'. go_bind (ResetOffset cfg rm (openFails e) (fq st, c) (conSegment c) (conReadPos c))
      (\<lambda>((q, c), _). Ret (Finish (st\<lparr>fq := q, fc := c\<rparr>) False None)) = Ret (Finish st' False None) \<and>
    fetched cfg zc lo B log st' rest \<and> fmsgs st' = fmsgs st"
proof -
  obtain c' where "ResetOffset cfg rm False (fq st, c) (conSegment c) (conReadPos c) =
      Ret ((UpdateSegmentConsumerInReading (fq st) (conID c) (conSegment c), c'), None)"
    using ResetOffset_ready [OF assms(1-8), of rm c] by blast
  then show ?thesis using assms(9,10)
    by (intro exI [of _ "st\<lparr>fq := UpdateSegmentConsumerInReading (fq st) (conID c) (conSegment c), fc := c'\<rparr>"]) simp
qed

text \<open>After a message was taken: stay, move on, or end the fetch.\<close>

lemma reload_outcome:
  assumes snd: "local_only cfg" and run: "running cfg zc lo B log st k" and e: "\<not> openFails e"
    and p: "conReadPos (fc st) \<le> conMaxBytes (fc st)"
    and msgs: "length (fmsgs st) = Suc (length (fmsgs st0))" "int (length (fmsgs st)) < M"
  shows "outcome cfg zc lo B M bad g fr st0 (reload cfg rm e st (conReadPos (fc st)) None)"
proof -
  let ?c = "fc st" let ?s = "conSegment ?c" let ?w = "writeSegmentNum (fq st)"
  note rn = runningD [OF run] note rd = readyD [OF rn(2)]
  have seg: "segBytes (files (fq st)) ?s = encLog cfg zc (log ?s)" by (rule log_okD(4) [OF rn(5) rd(1,2)])
  have ne: "fmsgs st \<noteq> []" using msgs(1) by auto
  have upd: "st\<lparr>fq := fq st\<rparr> = st" by simp
  have swap: "nextOffsetHere (notifyRead st) = notifyRead (nextOffsetHere st)"
    by (simp add: nextOffsetHere_def notifyRead_def)
  consider (stay) "conReadPos ?c < conMaxBytes ?c" | (unfinished) "conReadPos ?c = conMaxBytes ?c" "\<not> fileLoadCompleted ?c"
    | (full) "conReadPos ?c = conMaxBytes ?c" "fileLoadCompleted ?c" using p by fastforce
  then show ?thesis
  proof cases
    case stay
    then have "reload cfg rm e st (conReadPos ?c) None = Ret (Again st)" by (simp add: reload_def Let_def)
    moreover have "k < length (log ?s)"
      using stay rd(3,4,9) seg posOf_full [of cfg zc log ?s] by (cases "k = length (log ?s)") auto
    ultimately show ?thesis using run msgs ne by (auto intro!: outcome_again [of _ _ _ _ log _ k] simp: fresh_def)
  next
    case unfinished
    obtain st' where "reload cfg rm e st (conReadPos ?c) None = Ret (Finish st' False None)"
      "fetched cfg zc lo B log st' (restOf log st k)" "fmsgs st' = fmsgs st"
      using reset_here [OF snd rn(5) rd(1-5) rn(3) e rn(1), of rm] unfinished by (auto simp: reload_def Let_def)
    with ne show ?thesis by (auto intro: outcome_finish)
  next
    case full
    have s: "?s < ?w" by (rule rd(10) [OF full(2)])
    have k: "k = length (log ?s)"
      using posOf_less [of k log ?s cfg zc] rd(3,4) rd(11) [OF full(2)] full(1) seg by fastforce
    have rest: "restOf log st k = restAt log ?w (?s + 1) 0" unfolding k by (rule restAt_next [OF s])
    have sz: "getFileSize (fq st) ?c = conReadPos ?c"
      using getFileSize_file [OF rd(8,5)] rd(11) [OF full(2)] full(1) by simp
    have sm: "SmartGetFileName cfg rm (fq st) (?s + 1) = Ret (fq st, FileExists (fq st) (?s + 1), FileExists (fq st) (?s + 1 + 1))"
      by (rule Smart_log [OF snd rn(5)]) (use rd(1) in simp)
    have here: "fetched cfg zc lo B log (nextOffsetHere st) (restOf log st k)"
      by (rule fetched_here [OF rn(1) rd(1-4)]) simp
    show ?thesis
    proof (cases "FileExists (fq st) (?s + 1)")
      case True
      let ?K = "\<lambda>st. Again (st\<lparr>fretry := 0\<rparr>)"
      have rl: "reload cfg rm e st (conReadPos ?c) None = resetThen cfg rm e (notifyRead (nextOffsetHere st)) (?s + 1) 0 ?K"
        unfolding reload_def using full sz sm True upd swap by (simp add: Let_def)
      obtain st' where st': "reload cfg rm e st (conReadPos ?c) None = Ret (?K st')" "running cfg zc lo B log st' 0"
        "fmsgs st' = fmsgs st"
        using next_segment [of cfg zc lo "nextOffsetHere st" log e B rm ?K] snd rn rd(1) s True e here rest
        unfolding rl by (auto simp del: notifyRead_simps)
      have "running cfg zc lo B log (st'\<lparr>fretry := 0\<rparr>) 0" using st'(2) by (simp add: running_def)
      then show ?thesis unfolding st'(1)
        by (rule outcome_again) (use msgs ne st'(3) in \<open>auto simp: fresh_def\<close>)
    next
      case False
      then have "reload cfg rm e st (conReadPos ?c) None = Ret (Finish st False None)"
        unfolding reload_def using full sm upd by (simp add: Let_def)
      with rn(1) ne show ?thesis by (auto intro: outcome_finish)
    qed
  qed
qed

lemma offsets_ok_snoc:
  assumes "offsets_ok cfg zc lo q log msgs (msgData m # rest)"
    and "denotes cfg zc lo q log (msgOffset m) (msgData m # rest)" "denotes cfg zc lo q log (msgNextOffset m) rest"
  shows "offsets_ok cfg zc lo q log (msgs @ [m]) rest"
  unfolding offsets_ok_def
proof (intro allI impI)
  fix i assume "i < length (msgs @ [m])"
  then consider "i < length msgs" | "i = length msgs" by fastforce
  then show "denotes cfg zc lo q log (msgOffset ((msgs @ [m]) ! i)) (drop i (map msgData (msgs @ [m])) @ rest) \<and>
    denotes cfg zc lo q log (msgNextOffset ((msgs @ [m]) ! i)) (drop (Suc i) (map msgData (msgs @ [m])) @ rest)"
    by cases (use assms in \<open>auto simp: offsets_ok_def nth_append\<close>)
qed

lemma takeMessage_running:
  assumes run: "running cfg zc lo B log st k" and k: "k < length (log (conSegment (fc st)))"
    and c': "c' = (fc st)\<lparr>conReader := Some (conSegment (fc st), r),
      conReadPos := posOf cfg zc log (conSegment (fc st)) (Suc k)\<rparr>"
    and coh: "coherent (nat (posOf cfg zc log (conSegment (fc st)) (Suc k))) (segBytes (files (fq st)) (conSegment (fc st))) r"
    and t: "t = 4 + int (length (storedForm cfg zc (log (conSegment (fc st)) ! k)))"
  shows "running cfg zc lo B log (takeMessage (st\<lparr>fc := c'\<rparr>) (conReadPos (fc st)) t (log (conSegment (fc st)) ! k)) (Suc k)"
proof -
  let ?s = "conSegment (fc st)" let ?p = "conReadPos (fc st)" let ?m = "log ?s ! k"
  let ?st = "takeMessage (st\<lparr>fc := c'\<rparr>) ?p t ?m"
  note rn = runningD [OF run] note rd = readyD [OF rn(2)] note f = fetchedD [OF rn(1)]
  have next_p: "?p + t = posOf cfg zc log ?s (Suc k)" using posOf_Suc [of k log ?s cfg zc] k rd(4) t by simp
  have rest: "restOf log st k = ?m # restOf log st (Suc k)" using k by (rule restAt_Suc [of k log ?s])
  have fc: "fc ?st = c'" "fq ?st = fq st" "fretry ?st = fretry st" by (simp_all add: takeMessage_def Let_def)
  have here: "denotes cfg zc lo (fq st) log \<lparr>Segment = ?s, Position = ?p, Version = v\<rparr> (?m # restOf log st (Suc k))"
    for v by (rule denotesI [of lo ?s _ k]) (use rd rest in simp_all)
  have there: "denotes cfg zc lo (fq st) log off (restOf log st (Suc k))"
    if "Segment off = ?s" "Position off = ?p + t" for off
    by (rule denotesI [of lo ?s _ "Suc k"]) (use rd k next_p that in simp_all)
  have msgs: "\<exists>msg. fmsgs ?st = fmsgs st @ [msg] \<and> msgData msg = ?m \<and>
      msgOffset msg = \<lparr>Segment = ?s, Position = ?p, Version = conVersion c'\<rparr> \<and>
      msgNextOffset msg = \<lparr>Segment = ?s, Position = ?p + t, Version = conVersion c'\<rparr>"
    by (simp add: takeMessage_def Let_def NewOffsetWithVersion_def c')
  then obtain msg where msg: "fmsgs ?st = fmsgs st @ [msg]" "msgData msg = ?m"
      "msgOffset msg = \<lparr>Segment = ?s, Position = ?p, Version = conVersion c'\<rparr>"
      "msgNextOffset msg = \<lparr>Segment = ?s, Position = ?p + t, Version = conVersion c'\<rparr>" by blast
  have ctx: "InitOffset (fctx ?st) = InitOffset (fctx st)" "MessageCount (fctx ?st) = MessageCount (fctx st) + 1"
    "Segment (NextOffset (fctx ?st)) = ?s" "Position (NextOffset (fctx ?st)) = ?p + t"
    by (simp_all add: takeMessage_def Let_def UpdateNextOffset_def c')
  have offs: "offsets_ok cfg zc lo (fq st) log (fmsgs ?st) (restOf log st (Suc k))"
    unfolding msg(1) by (rule offsets_ok_snoc) (use f(4) rest here there msg in simp_all)
  have "fetched cfg zc lo B log ?st (restOf log st (Suc k))"
    unfolding fetched_def fc ctx(1,2)
    using f rest there [OF ctx(3,4)] offs msg(1,2) by simp
  moreover have "ready cfg zc lo (fq st) log c' (Suc k)"
    unfolding ready_def c' using rd k coh by auto
  ultimately show ?thesis using rn(3,4) fc by (simp add: running_def c')
qed

lemma codec_inverse:
  "codec_ok cfg zc zd \<Longrightarrow>
    (if Enabled (CompressMessage (DiskCompression cfg)) then zd (storedForm cfg zc m) else Inr (storedForm cfg zc m)) = Inr m"
  by (simp add: codec_ok_def storedForm_def)

lemma onMessage_outcome:
  assumes snd: "sound cfg zc zd" and run: "running cfg zc lo B log st k" and e: "\<not> openFails e"
    and k: "k < length (log (conSegment (fc st)))"
    and c': "c' = (fc st)\<lparr>conReader := Some (conSegment (fc st), r),
      conReadPos := posOf cfg zc log (conSegment (fc st)) (Suc k)\<rparr>"
    and coh: "coherent (nat (posOf cfg zc log (conSegment (fc st)) (Suc k))) (segBytes (files (fq st)) (conSegment (fc st))) r"
    and t: "t = 4 + int (length (storedForm cfg zc (log (conSegment (fc st)) ! k)))"
  shows "outcome cfg zc lo B (FetchMaxMessages ccfg) bad (fmsgs st \<noteq> [] \<or> avail cfg zc log st k) fr st
    (onMessage cfg rm zd ccfg n e (st\<lparr>fc := c'\<rparr>) (conReadPos (fc st)) t (storedForm cfg zc (log (conSegment (fc st)) ! k)))"
proof -
  let ?c = "fc st" let ?s = "conSegment ?c" let ?p = "conReadPos ?c" let ?m = "log ?s ! k"
  let ?st = "takeMessage (st\<lparr>fc := c'\<rparr>) ?p t ?m"
  have loc: "local_only cfg" and codec: "codec_ok cfg zc zd" using snd by (simp_all add: sound_def)
  note rn = runningD [OF run] note rd = readyD [OF rn(2)]
  have seg: "segBytes (files (fq st)) ?s = encLog cfg zc (log ?s)" by (rule log_okD(4) [OF rn(5) rd(1,2)])
  have next_p: "?p + t = posOf cfg zc log ?s (Suc k)" using posOf_Suc [of k log ?s cfg zc] k rd(4) t by simp
  have le: "?p + t \<le> int (length (encLog cfg zc (log ?s)))" unfolding next_p by (rule posOf_le) (use k in simp)
  have wp: "\<not> (writeSegmentNum (fq st) = ?s \<and> ?p + t > writePos (fq st))" using le log_okD(3) [OF rn(5)] seg by auto
  have cs: "conSegment c' = ?s" "conMaxBytes c' = conMaxBytes ?c" "fileLoadCompleted c' = fileLoadCompleted ?c"
    by (simp_all add: c')
  show ?thesis
  proof (cases "?p + t > conMaxBytes ?c")
    case True
    have nc: "\<not> fileLoadCompleted ?c" using True le rd(11) seg by auto
    let ?c1 = "c'\<lparr>conReadPos := ?p\<rparr>"
    have "onMessage cfg rm zd ccfg n e (st\<lparr>fc := c'\<rparr>) ?p t (storedForm cfg zc ?m) =
      go_bind (ResetOffset cfg rm (openFails e) (fq st, ?c1) (conSegment ?c1) (conReadPos ?c1))
        (\<lambda>((q, c), _). Ret (Finish (st\<lparr>fq := q, fc := c\<rparr>) False None))"
      unfolding onMessage_def using True nc by (simp add: Let_def reload_def cs split: prod.split)
    moreover have "\<exists>st'. go_bind (ResetOffset cfg rm (openFails e) (fq st, ?c1) (conSegment ?c1) (conReadPos ?c1))
        (\<lambda>((q, c), _). Ret (Finish (st\<lparr>fq := q, fc := c\<rparr>) False None)) = Ret (Finish st' False None) \<and>
      fetched cfg zc lo B log st' (restOf log st k) \<and> fmsgs st' = fmsgs st"
      by (rule reset_here [OF loc rn(5), where k = k]) (use rd rn e cs in simp_all)
    moreover have "\<not> avail cfg zc log st k" using True k next_p by (simp add: avail_def Let_def)
    ultimately show ?thesis by (auto intro!: outcome_finish)
  next
    case False
    have run': "running cfg zc lo B log ?st (Suc k)" by (rule takeMessage_running [OF run k c' coh t])
    have st: "conReadPos (fc ?st) = ?p + t" "conMaxBytes (fc ?st) = conMaxBytes ?c"
      "length (fmsgs ?st) = Suc (length (fmsgs st))"
      using next_p by (simp_all add: takeMessage_def Let_def c')
    have "onMessage cfg rm zd ccfg n e (st\<lparr>fc := c'\<rparr>) ?p t (storedForm cfg zc ?m) =
      (if int (length (fmsgs ?st)) \<ge> FetchMaxMessages ccfg \<or> (int (length (fmsgs ?st)) \<ge> n \<and> n > 0)
       then Ret (Finish ?st False None)
       else if fsize ?st > FetchMaxBytes ccfg \<and> FetchMaxBytes ccfg > 0 then Ret (Finish ?st False None)
       else reload cfg rm e ?st (?p + t) None)"
      unfolding onMessage_def codec_inverse [OF codec] using False wp cs by (auto simp: Let_def)
    moreover have "outcome cfg zc lo B (FetchMaxMessages ccfg) bad g fr st (reload cfg rm e ?st (?p + t) None)"
      if "\<not> int (length (fmsgs ?st)) \<ge> FetchMaxMessages ccfg" for g
      using reload_outcome [OF loc run' e, of st "FetchMaxMessages ccfg" bad g fr rm] st False that by simp
    moreover have "outcome cfg zc lo B (FetchMaxMessages ccfg) bad g fr st (Ret (Finish ?st False None))" for g
      by (rule outcome_finish [OF runningD(1) [OF run']]) (use st(3) in auto)
    ultimately show ?thesis by (smt (verit))
  qed
qed

lemma outcome_mono:
  assumes "outcome cfg zc lo B M bad g' fr' st' j" "g \<Longrightarrow> g'" "fr \<Longrightarrow> fr'" "fmsgs st' = fmsgs st"
  shows "outcome cfg zc lo B M bad g fr st j"
proof (cases j)
  case (Ret r)
  with assms show ?thesis by (cases r) (auto simp: outcome_def)
qed (use assms in \<open>simp add: outcome_def\<close>)

definition failing :: "fetchEnv \<Rightarrow> bool" where
  "failing e \<longleftrightarrow> shuttingDown e \<or> headFails e \<or> bodyFails e"

definition env_fine :: "DiskQueueConfig \<Rightarrow> (int \<Rightarrow> bytes \<Rightarrow> bytes) \<Rightarrow> int \<Rightarrow> baseline \<Rightarrow> fetchEnv \<Rightarrow> bool" where
  "env_fine cfg zc lo B e \<longleftrightarrow>
     appends cfg zc lo (others e) \<and> \<not> openFails e \<and> (bFiles B \<noteq> None \<longrightarrow> others e = (\<lambda>q. q))"

lemma running_grow:
  assumes run: "running cfg zc lo B log st k" and app: "appends cfg zc lo f"
    and un: "bFiles B \<noteq> None \<Longrightarrow> f (fq st) = fq st"
  shows "\<exists>log'. running cfg zc lo B log' (st\<lparr>fq := f (fq st)\<rparr>) k \<and>
    (fresh log st k \<longrightarrow> fresh log' (st\<lparr>fq := f (fq st)\<rparr>) k) \<and>
    (avail cfg zc log st k \<longrightarrow> avail cfg zc log' (st\<lparr>fq := f (fq st)\<rparr>) k)"
proof -
  let ?q = "f (fq st)" let ?s = "conSegment (fc st)"
  note rn = runningD [OF run] note rd = readyD [OF rn(2)]
  from app rn(5) obtain log' where log': "log_ok cfg zc lo ?q log'"
    "log_le (writeSegmentNum (fq st)) log (writeSegmentNum ?q) log'" "\<forall>i. FileExists (fq st) i \<longrightarrow> FileExists ?q i"
    unfolding appends_def by blast
  have rest: "restAt log' (writeSegmentNum ?q) ?s k =
      restOf log st k @ extra (writeSegmentNum (fq st)) log (writeSegmentNum ?q) log'"
    by (rule restAt_grow [OF log'(2) rd(2,3)])
  have "unchanged B ?q" using fetchedD(8) [OF rn(1)] un by (auto simp: unchanged_def)
  then have "running cfg zc lo B log' (st\<lparr>fq := ?q\<rparr>) k"
    using fetched_grow [OF rn(1) log'(1,2)] rest rn(4)
      ready_grow [OF rn(2,5) log'] nonvoid_grow [OF rn(3,5) log'(1,2)] by (simp add: running_def)
  moreover have "length (log ?s) \<le> length (log' ?s)" by (rule log_le_length [OF log'(2) rd(2)])
  moreover have "log' ?s = log ?s" if "fileLoadCompleted (fc st)"
    using rd(10) [OF that] log'(2) by (simp add: log_le_def)
  moreover have "posOf cfg zc log' ?s (Suc k) = posOf cfg zc log ?s (Suc k)" if "k < length (log ?s)"
    by (rule posOf_grow [OF log'(2) rd(2)]) (use that in simp)
  ultimately show ?thesis
    using rest by (intro exI [of _ log']) (auto simp: fresh_def avail_def Let_def)
qed

text \<open>The pass reads a message where there is one, and the end of the file otherwise.\<close>

lemma fetchStep_running:
  assumes snd: "sound cfg zc zd" and run: "running cfg zc lo B log st k" and e: "\<not> openFails e" "others e (fq st) = fq st"
  shows "outcome cfg zc lo B (FetchMaxMessages ccfg) (failing e) (fmsgs st \<noteq> [] \<or> avail cfg zc log st k)
    (fresh log st k) st (fetchStep cfg rm zd ccfg n e st)"
proof -
  let ?c = "fc st" let ?s = "conSegment ?c" let ?p = "nat (conReadPos ?c)"
  note rn = runningD [OF run] note rd = readyD [OF rn(2)]
  have loc: "local_only cfg" and cfg: "cfg_ok cfg" using snd by (simp_all add: sound_def)
  have seg: "segBytes (files (fq st)) ?s = encLog cfg zc (log ?s)" by (rule log_okD(4) [OF rn(5) rd(1,2)])
  obtain r where r: "conReader ?c = Some (?s, r)" "coherent ?p (segBytes (files (fq st)) ?s) r" using rd(6) by blast
  have rdb: "readable (fq st) ((fc st)\<lparr>conReader := x\<rparr>) ?s r' = segBytes (files (fq st)) ?s" for r' x
    using rd(7) by (simp add: readable_def)
  have rdb0: "readable (fq st) (fc st) ?s r' = segBytes (files (fq st)) ?s" for r'
    using rd(7) by (simp add: readable_def)
  have upd: "st\<lparr>fq := others e (fq st)\<rparr> = st" using e(2) by simp
  have drp: "drop ?p (segBytes (files (fq st)) ?s) = encLog cfg zc (drop k (log ?s))"
    using drop_posOf [of k log ?s cfg zc] rd(3,4) seg by simp
  have fin: "outcome cfg zc lo B (FetchMaxMessages ccfg) (failing e) g fr st (Ret (Finish st False (Some m)))"
    if "failing e" for g fr m by (rule outcome_finish [OF rn(1)]) (use that in auto)
  show ?thesis
  proof (cases "shuttingDown e \<or> headFails e")
    case True
    then have "failing e" by (auto simp: failing_def)
    moreover from True have "\<exists>m. fetchStep cfg rm zd ccfg n e st = Ret (Finish st False (Some m))"
      unfolding fetchStep_def using upd rn(4) r(1) by (auto simp: Let_def)
    ultimately show ?thesis using fin by auto
  next
    case nf: False
    show ?thesis
    proof (cases "k < length (log ?s)")
      case k: True
      let ?m = "log ?s ! k" let ?b = "storedForm cfg zc ?m" let ?t = "4 + int (length ?b)"
      let ?p' = "posOf cfg zc log ?s (Suc k)"
      have ok: "msg_ok cfg zc ?m" by (rule log_okD(5) [OF rn(5) rd(1,2)]) (use k in simp)
      have len: "to_int32 (int (length ?b)) = int (length ?b)" "to_int32 ?t = ?t"
        using to_int32_size [OF cfg ok, of 0] to_int32_size [OF cfg ok, of 4] by simp_all
      have "drop ?p (segBytes (files (fq st)) ?s) = encMsg ?b @ encLog cfg zc (drop (Suc k) (log ?s))"
        unfolding drp using k by (simp add: Cons_nth_drop_Suc [symmetric])
      then obtain r1 r2 where r12: "ReadFull 4 (segBytes (files (fq st)) ?s) r = (lenPrefix (int (length ?b)), r1)"
        "ReadFull (length ?b) (segBytes (files (fq st)) ?s) r1 = (?b, r2)"
        "coherent (?p + 4 + length ?b) (segBytes (files (fq st)) ?s) r2"
        using ReadFull_message [OF r(2)] by blast
      have np: "conReadPos ?c + ?t = ?p'" using posOf_Suc [of k log ?s cfg zc] k rd(4) by simp
      have coh: "coherent (nat ?p') (segBytes (files (fq st)) ?s) r2"
        using r12(3) np rd(4) posOf_nonneg [of cfg zc log ?s k] by (simp add: nat_add_distrib add.assoc flip: np)
      let ?c' = "?c\<lparr>conReader := Some (?s, r2), conReadPos := ?p'\<rparr>"
      have body: "fetchStep cfg rm zd ccfg n e st =
        (if bodyFails e then Ret (Finish (st\<lparr>fc := ?c'\<rparr>) False (Some ''read''))
         else onMessage cfg rm zd ccfg n e (st\<lparr>fc := ?c'\<rparr>) (conReadPos ?c) ?t ?b)"
        unfolding fetchStep_def readBody_def using upd nf rn(4) r(1) r12(1,2) rdb rdb0 len ok np
        by (simp add: Let_def prefixLen_lenPrefix msg_ok_def not_less)
      have om: "outcome cfg zc lo B (FetchMaxMessages ccfg) (failing e) (fmsgs st \<noteq> [] \<or> avail cfg zc log st k)
        (fresh log st k) st (onMessage cfg rm zd ccfg n e (st\<lparr>fc := ?c'\<rparr>) (conReadPos ?c) ?t ?b)"
        by (rule onMessage_outcome [OF snd run e(1) k refl coh refl])
      show ?thesis
      proof (cases "bodyFails e")
        case True
        then have "failing e" by (simp add: failing_def)
        moreover have "fetched cfg zc lo B log (st\<lparr>fc := ?c'\<rparr>) (restOf log st k)" using rn(1) by simp
        ultimately show ?thesis unfolding body using True by (auto intro: outcome_finish)
      qed (use om body in simp)
    next
      case False
      with rd(3) have k: "k = length (log ?s)" by simp
      obtain r1 where r1: "ReadFull 4 (segBytes (files (fq st)) ?s) r = ([], r1)"
        "coherent (?p + min 4 (length (segBytes (files (fq st)) ?s) - ?p)) (segBytes (files (fq st)) ?s) r1"
        using ReadFull_coherent [OF r(2), of 4] drp k by auto
      have "length (segBytes (files (fq st)) ?s) - ?p = 0" using drp k by simp
      with r1(2) have coh: "coherent ?p (segBytes (files (fq st)) ?s) r1" by simp
      let ?st = "st\<lparr>fc := ?c\<lparr>conReader := Some (?s, r1)\<rparr>\<rparr>"
      have "running cfg zc lo B log ?st k"
        using rn rd coh unfolding running_def ready_def by simp
      then have "outcome cfg zc lo B (FetchMaxMessages ccfg) (failing e) (fmsgs ?st \<noteq> [] \<or> avail cfg zc log ?st k)
        (fresh log ?st k) ?st (onEOF cfg rm e ?st)"
        by (rule onEOF_outcome [OF loc _ e(1)]) (simp add: k)
      moreover have "fetchStep cfg rm zd ccfg n e st = onEOF cfg rm e ?st"
        unfolding fetchStep_def using upd nf rn(4) r(1) r1(1) rdb0 by (simp add: Let_def)
      ultimately show ?thesis
        by (auto elim!: outcome_mono simp: avail_def fresh_def Let_def)
    qed
  qed
qed

lemma others_simps:
  "openFails (e\<lparr>others := f\<rparr>) = openFails e" "shuttingDown (e\<lparr>others := f\<rparr>) = shuttingDown e"
  "headFails (e\<lparr>others := f\<rparr>) = headFails e" "bodyFails (e\<lparr>others := f\<rparr>) = bodyFails e"
  by simp_all

lemma branches_others:
  "onEOF cfg rm (e\<lparr>others := f\<rparr>) = onEOF cfg rm e" "onInvalid cfg rm (e\<lparr>others := f\<rparr>) = onInvalid cfg rm e"
  "readBody cfg rm zd ccfg n (e\<lparr>others := f\<rparr>) = readBody cfg rm zd ccfg n e"
  unfolding onEOF_def onInvalid_def readBody_def onMessage_def reload_def resetThen_def others_simps fun_eq_iff
  by (rule refl allI)+

lemma fetchStep_outcome:
  assumes snd: "sound cfg zc zd" and run: "running cfg zc lo B log st k" and e: "env_fine cfg zc lo B e"
  shows "outcome cfg zc lo B (FetchMaxMessages ccfg) (failing e) (fmsgs st \<noteq> [] \<or> avail cfg zc log st k)
    (fresh log st k) st (fetchStep cfg rm zd ccfg n e st)"
proof -
  let ?st = "st\<lparr>fq := others e (fq st)\<rparr>" let ?e = "e\<lparr>others := (\<lambda>q. q)\<rparr>"
  obtain log' where log': "running cfg zc lo B log' ?st k" "fresh log st k \<longrightarrow> fresh log' ?st k"
    "avail cfg zc log st k \<longrightarrow> avail cfg zc log' ?st k"
    using running_grow [OF run, of "others e"] e unfolding env_fine_def by auto
  have "outcome cfg zc lo B (FetchMaxMessages ccfg) (failing ?e) (fmsgs ?st \<noteq> [] \<or> avail cfg zc log' ?st k)
    (fresh log' ?st k) ?st (fetchStep cfg rm zd ccfg n ?e ?st)"
    by (rule fetchStep_running [OF snd log'(1)]) (use e in \<open>simp_all add: env_fine_def\<close>)
  moreover have "fetchStep cfg rm zd ccfg n ?e ?st = fetchStep cfg rm zd ccfg n e st"
    unfolding fetchStep_def others_simps branches_others by (simp add: Let_def)
  moreover have "failing ?e = failing e" by (simp add: failing_def)
  ultimately show ?thesis using log'(2,3) by (auto elim!: outcome_mono)
qed

subsection \<open>The whole fetch\<close>

text \<open>What a fetch returns: no timeout, an account of what it handed out, an error only when a call failed.\<close>

definition fetch_result ::
  "DiskQueueConfig \<Rightarrow> (int \<Rightarrow> bytes \<Rightarrow> bytes) \<Rightarrow> int \<Rightarrow> baseline \<Rightarrow> bool \<Rightarrow> bool \<Rightarrow>
   (fetch \<times> bool \<times> string option) go option \<Rightarrow> bool" where
  "fetch_result cfg zc lo B bad g r \<longleftrightarrow>
     (\<exists>st err log rest. r = Some (Ret (st, False, err)) \<and> fetched cfg zc lo B log st rest \<and>
        (err \<noteq> None \<longrightarrow> bad) \<and> (g \<and> \<not> bad \<longrightarrow> fmsgs st \<noteq> []))"

lemma fetch_result_mono:
  "fetch_result cfg zc lo B bad g r \<Longrightarrow> (bad \<Longrightarrow> bad') \<Longrightarrow> (g' \<Longrightarrow> g) \<Longrightarrow> fetch_result cfg zc lo B bad' g' r"
  unfolding fetch_result_def by blast

lemma fetch_result_finish:
  "outcome cfg zc lo B M bad g fr st (Ret (Finish st' t err)) \<Longrightarrow> fetch_result cfg zc lo B bad g (Some (Ret (st', t, err)))"
  unfolding outcome_def fetch_result_def by auto

lemma fetchLoop_fresh:
  assumes "sound cfg zc zd" "running cfg zc lo B log st k" "fresh log st k" "\<forall>e \<in> set es. env_fine cfg zc lo B e"
    and "length es > nat (FetchMaxMessages ccfg - int (length (fmsgs st)))"
  shows "fetch_result cfg zc lo B (\<exists>e \<in> set es. failing e) (fmsgs st \<noteq> [] \<or> avail cfg zc log st k)
    (fetchLoop cfg rm zd ccfg n es st)"
  using assms
proof (induction es arbitrary: log st k)
  case (Cons e es)
  let ?g = "fmsgs st \<noteq> [] \<or> avail cfg zc log st k"
  have "env_fine cfg zc lo B e" using Cons.prems(4) by simp
  note out = fetchStep_outcome [OF Cons.prems(1,2) this, of ccfg rm n]
  show ?case
  proof (cases "fetchStep cfg rm zd ccfg n e st")
    case (Ret j)
    show ?thesis
    proof (cases j)
      case (Again st')
      from out Cons.prems(3) obtain log' k' where st': "running cfg zc lo B log' st' k'" "fresh log' st' k'"
        "?g \<longrightarrow> fmsgs st' \<noteq> [] \<or> avail cfg zc log' st' k'"
        "length (fmsgs st') = Suc (length (fmsgs st))" "int (length (fmsgs st')) < FetchMaxMessages ccfg"
        unfolding Ret Again outcome_def by auto
      have "fetch_result cfg zc lo B (\<exists>e \<in> set es. failing e) (fmsgs st' \<noteq> [] \<or> avail cfg zc log' st' k')
        (fetchLoop cfg rm zd ccfg n es st')"
        by (rule Cons.IH [OF Cons.prems(1) st'(1,2)]) (use Cons.prems(4,5) st'(4,5) in auto)
      with Ret Again st'(3) show ?thesis by (auto elim!: fetch_result_mono)
    next
      case (Finish st' t err)
      with Ret out have "fetch_result cfg zc lo B (failing e) ?g (Some (Ret (st', t, err)))"
        by (simp only:) (rule fetch_result_finish)
      with Ret Finish show ?thesis by (auto elim!: fetch_result_mono)
    qed
  qed (use out in \<open>simp add: outcome_def\<close>)
qed simp

lemma fetchLoop_result:
  assumes "sound cfg zc zd" "running cfg zc lo B log st k" "\<forall>e \<in> set es. env_fine cfg zc lo B e"
    and "length es > nat (FetchMaxMessages ccfg - int (length (fmsgs st))) + 1"
  shows "fetch_result cfg zc lo B (\<exists>e \<in> set es. failing e) (fmsgs st \<noteq> [] \<or> avail cfg zc log st k)
    (fetchLoop cfg rm zd ccfg n es st)"
proof -
  let ?g = "fmsgs st \<noteq> [] \<or> avail cfg zc log st k"
  from assms(4) obtain e es' where es: "es = e # es'" by (cases es) auto
  have "env_fine cfg zc lo B e" using assms(3) es by simp
  note out = fetchStep_outcome [OF assms(1,2) this, of ccfg rm n]
  show ?thesis
  proof (cases "fetchStep cfg rm zd ccfg n e st")
    case (Ret j)
    show ?thesis
    proof (cases j)
      case (Again st')
      from out obtain log' k' where st': "running cfg zc lo B log' st' k'" "fresh log' st' k'"
        "?g \<longrightarrow> fmsgs st' \<noteq> [] \<or> avail cfg zc log' st' k'" "length (fmsgs st') \<ge> length (fmsgs st)"
        unfolding Ret Again outcome_def by force
      have "fetch_result cfg zc lo B (\<exists>e \<in> set es'. failing e) (fmsgs st' \<noteq> [] \<or> avail cfg zc log' st' k')
        (fetchLoop cfg rm zd ccfg n es' st')"
        by (rule fetchLoop_fresh [OF assms(1) st'(1,2)]) (use assms(3,4) st'(4) es in auto)
      with Ret Again st'(3) es show ?thesis by (auto elim!: fetch_result_mono)
    next
      case (Finish st' t err)
      with Ret out have "fetch_result cfg zc lo B (failing e) ?g (Some (Ret (st', t, err)))"
        by (simp only:) (rule fetch_result_finish)
      with Ret Finish es show ?thesis by (auto elim!: fetch_result_mono)
    qed
  qed (use out in \<open>simp add: outcome_def\<close>)
qed

lemma denotes_nonempty_file:
  assumes "log_ok cfg zc lo q log" "denotes cfg zc lo q log off xs" "xs \<noteq> []"
  shows "FileExists q (Segment off)"
proof -
  from assms(2) obtain k where k: "lo \<le> Segment off" "Segment off \<le> writeSegmentNum q"
    "xs = restAt log (writeSegmentNum q) (Segment off) k" by (auto simp: denotes_def)
  show ?thesis
  proof (cases "Segment off = writeSegmentNum q")
    case True
    with k assms(3) have "log (Segment off) \<noteq> []" by (auto simp: restAt_def)
    with log_okD(4) [OF assms(1) k(1,2)] show ?thesis by (intro FileExists_segBytes) simp
  qed (use k log_ok_file [OF assms(1) k(1)] in simp)
qed

lemma acquire_running:
  assumes loc: "local_only cfg" and log: "log_ok cfg zc lo q log" and nv: "nonvoid q"
    and B: "bEnd B = writeSegmentNum q" "bLog B = log" "bOffset B = off" "bFiles B = None \<or> bFiles B = Some (files q)"
    and off: "denotes cfg zc lo q log off xs" and f: "FileExists q (Segment off)"
  shows "\<exists>q' c k. AcquireConsumer cfg rm False ident q off = Ret ((q', c), None) \<and>
    running cfg zc lo B log (startFetch q' c ctx) k \<and>
    (xs \<noteq> [] \<longrightarrow> avail cfg zc log (startFetch q' c ctx) k) \<and>
    conSegment c \<le> writeSegmentNum q' \<and> conVersion c = Version off"
proof -
  from off obtain k where k: "lo \<le> Segment off" "Segment off \<le> writeSegmentNum q"
    "k \<le> length (log (Segment off))" "Position off = posOf cfg zc log (Segment off) k"
    "xs = restAt log (writeSegmentNum q) (Segment off) k" by (auto simp: denotes_def)
  let ?q = "UpdateSegmentConsumerInReading q (conID (newConsumer ident off)) (Segment off)"
  obtain c where c: "AcquireConsumer cfg rm False ident q off = Ret ((?q, c), None)" "ready cfg zc lo q log c k"
    "conSegment c = Segment off" "conReadPos c = Position off" "conVersion c = Version off"
    "conMaxBytes c = int (length (segBytes (files q) (Segment off)))"
    "Segment off < writeSegmentNum q \<longrightarrow> fileLoadCompleted c"
    using ResetOffset_ready [OF loc log k(1-4) f nv, of rm "newConsumer ident off"]
    by (auto simp: AcquireConsumer_def newConsumer_def)
  let ?st = "startFetch ?q c ctx"
  have st: "InitOffset (fctx ?st) = off" "NextOffset (fctx ?st) = off" "fmsgs ?st = []" "fq ?st = ?q" "fc ?st = c"
    "fretry ?st = 0" "MessageCount (fctx ?st) = 0"
    by (simp_all add: startFetch_def UpdateInitOffset_def Let_def c)
  have "running cfg zc lo B log ?st k"
    using log off nv c(2,3) k(5) st B by (auto simp: running_def fetched_def offsets_ok_def unchanged_def)
  moreover have "avail cfg zc log ?st k" if "xs \<noteq> []"
  proof (cases "k < length (log (Segment off))")
    case True
    have "segBytes (files q) (Segment off) = encLog cfg zc (log (Segment off))" by (rule log_okD(4) [OF log k(1,2)])
    with True c(3,6) posOf_le [of "Suc k" log "Segment off" cfg zc] show ?thesis by (simp add: avail_def st)
  next
    case False
    with k(3) have k': "k = length (log (Segment off))" by simp
    with that k(2,5) have "Segment off < writeSegmentNum q" by (cases "Segment off = writeSegmentNum q") (auto simp: restAt_def)
    with k' c(3,7) that k(5) show ?thesis by (simp add: avail_def st)
  qed
  ultimately show ?thesis using c(1,3,5) k(2) by (intro exI [of _ ?q] exI [of _ c] exI [of _ k]) simp
qed

lemma acquire_fetch:
  assumes snd: "sound cfg zc zd" and log: "log_ok cfg zc lo q log" and nv: "nonvoid q"
    and B: "bEnd B = writeSegmentNum q" "bLog B = log" "bOffset B = off" "bFiles B = None \<or> bFiles B = Some (files q)"
    and off: "denotes cfg zc lo q log off xs" and f: "FileExists q (Segment off)"
    and es: "\<forall>e \<in> set es. env_fine cfg zc lo B e" "length es \<ge> nat (FetchMaxMessages ccfg) + 2"
  shows "\<exists>q' c st err log' rest. AcquireConsumer cfg rm False ident q off = Ret ((q', c), None) \<and>
    FetchMessages cfg rm zd ccfg n es q' c ctx = Some (Ret (st, False, err)) \<and>
    fetched cfg zc lo B log' st rest \<and> conVersion c = Version off \<and>
    (err \<noteq> None \<longrightarrow> (\<exists>e \<in> set es. failing e)) \<and>
    (xs \<noteq> [] \<and> \<not> (\<exists>e \<in> set es. failing e) \<longrightarrow> fmsgs st \<noteq> [])"
proof -
  have "local_only cfg" using snd by (simp add: sound_def)
  then obtain q' c k where c: "AcquireConsumer cfg rm False ident q off = Ret ((q', c), None)"
    "running cfg zc lo B log (startFetch q' c ctx) k"
    "xs \<noteq> [] \<longrightarrow> avail cfg zc log (startFetch q' c ctx) k" "conSegment c \<le> writeSegmentNum q'" "conVersion c = Version off"
    using acquire_running [OF _ log nv B off f, of rm ident ctx] by blast
  let ?st = "startFetch q' c ctx"
  have "fetch_result cfg zc lo B (\<exists>e \<in> set es. failing e)
      (fmsgs ?st \<noteq> [] \<or> avail cfg zc log ?st k) (fetchLoop cfg rm zd ccfg n es ?st)"
    by (rule fetchLoop_result [OF snd c(2) es(1)]) (use es(2) in \<open>simp add: startFetch_def Let_def\<close>)
  moreover have "FetchMessages cfg rm zd ccfg n es q' c ctx = fetchLoop cfg rm zd ccfg n es ?st"
    using c(4) by (simp add: FetchMessages_def Let_def)
  ultimately show ?thesis using c(1,3,5) unfolding fetch_result_def by auto
qed

subsection \<open>The writer appends\<close>

lemma log_ok_create:
  assumes "log_ok cfg zc lo q log"
  shows "log_ok cfg zc lo (q\<lparr>files := (files q)\<lparr>dDat := (dDat (files q))(writeSegmentNum q \<mapsto>
      segBytes (files q) (writeSegmentNum q))\<rparr>\<rparr>) log"
proof -
  let ?fs = "(files q)\<lparr>dDat := (dDat (files q))(writeSegmentNum q \<mapsto> segBytes (files q) (writeSegmentNum q))\<rparr>"
  have same: "segBytes ?fs i = segBytes (files q) i" for i by (simp add: segBytes_def)
  show ?thesis by (rule log_okI) (use log_okD [OF assms] same in \<open>simp_all\<close>)
qed

lemma log_ok_writeFile:
  assumes "log_ok cfg zc lo q log"
  shows "log_ok cfg zc lo (q\<lparr>writeFile := None\<rparr>) log"
    "log_ok cfg zc lo (q\<lparr>writeFile := Some (writeSegmentNum q, length (segBytes (files q) (writeSegmentNum q)))\<rparr>) log"
  using assms by (simp_all add: log_ok_def)

lemma log_ok_meta [simp]:
  "log_ok cfg zc lo (q\<lparr>files := (files q)\<lparr>dMeta := t\<rparr>\<rparr>) log = log_ok cfg zc lo q log"
  "log_ok cfg zc lo (q\<lparr>needSync := b\<rparr>) log = log_ok cfg zc lo q log"
  by (simp_all add: log_ok_def segBytes_def)

lemma openWrite_log:
  assumes log: "log_ok cfg zc lo q log"
  shows "\<exists>q1. openWrite io_ok q = (q1, None) \<and> log_ok cfg zc lo q1 log \<and> writeSegmentNum q1 = writeSegmentNum q \<and>
    writeFile q1 = Some (writeSegmentNum q, length (segBytes (files q1) (writeSegmentNum q))) \<and>
    (\<forall>i. FileExists q i \<longrightarrow> FileExists q1 i)"
proof (cases "writeFile q")
  case (Some h)
  with log_okD(9) [OF log] log show ?thesis by (auto simp: openWrite_def)
next
  case None
  let ?w = "writeSegmentNum q"
  let ?q = "q\<lparr>files := (files q)\<lparr>dDat := (dDat (files q))(?w \<mapsto> segBytes (files q) ?w)\<rparr>\<rparr>"
  let ?q1 = "?q\<lparr>writeFile := Some (?w, length (segBytes (files q) ?w))\<rparr>"
  have same: "segBytes (files ?q) i = segBytes (files q) i" for i by (simp add: segBytes_def)
  have "openWrite io_ok q = (?q1, None)"
    using None log_okD(3) [OF log] by (auto simp: openWrite_def io_ok_def Let_def)
  moreover have "log_ok cfg zc lo ?q1 log"
    using log_ok_writeFile(2) [OF log_ok_create [OF log]] same [of ?w] by simp
  ultimately show ?thesis using same [of ?w] by (intro exI [of _ ?q1]) (auto simp: FileExists_def)
qed

lemma log_ok_appended:
  assumes log: "log_ok cfg zc lo q log" and m: "msg_ok cfg zc m"
  shows "log_ok cfg zc lo (appended cfg zc q m) (log(writeSegmentNum q := log (writeSegmentNum q) @ [m]))"
proof (rule log_okI)
  let ?q = "appended cfg zc q m" let ?w = "writeSegmentNum q"
  note D = log_okD [OF log]
  show "writePos ?q = int (length (segBytes (files ?q) (writeSegmentNum ?q)))"
    using D(3) by (simp add: segBytes_appended) (simp add: appended_def Let_def)
  show "segBytes (files ?q) i = encLog cfg zc ((log(?w := log ?w @ [m])) i)" if "lo \<le> i" "i \<le> writeSegmentNum ?q" for i
    using D(4) that by (simp add: segBytes_appended)
  show "msg_ok cfg zc x" if "lo \<le> i" "i \<le> writeSegmentNum ?q" "x \<in> set ((log(?w := log ?w @ [m])) i)" for i x
    using D(5) [of i x] that m by (auto split: if_splits)
  show "dDat (files ?q) i = None" if "writeSegmentNum ?q < i" for i
    using D(7) that by (simp add: appended_def Let_def putBytes_def)
  show "dZst (files ?q) i = None" if "writeSegmentNum ?q \<le> i" for i
    using D(8) that by (simp add: appended_def Let_def putBytes_def)
  show "writeFile ?q = None \<or> writeFile ?q = Some (writeSegmentNum ?q, length (segBytes (files ?q) (writeSegmentNum ?q)))"
    by (simp add: segBytes_appended) (simp add: appended_def Let_def)
qed (use log_okD [OF log] in auto)

lemma log_ok_rolled:
  assumes log: "log_ok cfg zc lo q log" and ne: "log (writeSegmentNum q) \<noteq> []"
  shows "log_ok cfg zc lo (rolled q) (log(writeSegmentNum q + 1 := []))"
proof (rule log_okI)
  let ?w = "writeSegmentNum q" let ?log = "log(?w + 1 := [])"
  note D = log_okD [OF log]
  have nil: "segBytes (files q) (?w + 1) = []" using D(7) by (simp add: segBytes_def)
  show "writePos (rolled q) = int (length (segBytes (files (rolled q)) (writeSegmentNum (rolled q))))" using nil by simp
  show "segBytes (files (rolled q)) i = encLog cfg zc (?log i)" if "lo \<le> i" "i \<le> writeSegmentNum (rolled q)" for i
    using D(4) [of i] that nil by (cases "i = ?w + 1") auto
  show "msg_ok cfg zc x" if "lo \<le> i" "i \<le> writeSegmentNum (rolled q)" "x \<in> set (?log i)" for i x
    using D(5) [of i x] that by (cases "i = ?w + 1") auto
  show "?log i \<noteq> []" if "lo \<le> i" "i < writeSegmentNum (rolled q)" for i
    using D(6) [of i] that ne by (cases "i = ?w") auto
qed (use log_okD [OF log] in auto)

lemma rolled_sync:
  "\<exists>t b. (fst (dqSync x (nextSegment a)))\<lparr>writeFile := None\<rparr> = (rolled a)\<lparr>files := (files (rolled a))\<lparr>dMeta := t\<rparr>, needSync := b\<rparr>"
proof -
  let ?d = "(fst (dqSync x (nextSegment a)))\<lparr>writeFile := None\<rparr>"
  have "?d = rolled a \<or> (\<exists>t. ?d = (rolled a)\<lparr>files := (files (rolled a))\<lparr>dMeta := t\<rparr>, needSync := False\<rparr>)"
    using dqSync_closed_cases [of x "nextSegment a"] unfolding nextSegment_rolled by (auto simp: rolled_def)
  moreover have "rolled a = (rolled a)\<lparr>files := (files (rolled a))\<lparr>dMeta := dMeta (files (rolled a))\<rparr>, needSync := needSync (rolled a)\<rparr>"
    by simp
  ultimately show ?thesis by metis
qed

lemma writeOne_log:
  assumes c: "cfg_ok cfg" and log: "log_ok cfg zc lo q log" and m: "msg_ok cfg zc m"
  shows "\<exists>log'. log_ok cfg zc lo (fst (writeOne cfg zc io_ok q m)) log' \<and>
    log_le (writeSegmentNum q) log (writeSegmentNum (fst (writeOne cfg zc io_ok q m))) log' \<and>
    extra (writeSegmentNum q) log (writeSegmentNum (fst (writeOne cfg zc io_ok q m))) log' = [m] \<and>
    (\<forall>i. FileExists q i \<longrightarrow> FileExists (fst (writeOne cfg zc io_ok q m)) i)"
proof -
  let ?w = "writeSegmentNum q" let ?st = "storedForm cfg zc m"
  obtain q1 where q1: "openWrite io_ok q = (q1, None)" "log_ok cfg zc lo q1 log" "writeSegmentNum q1 = ?w"
    "writeFile q1 = Some (?w, length (segBytes (files q1) ?w))" "\<forall>i. FileExists q i \<longrightarrow> FileExists q1 i"
    using openWrite_log [OF log] by blast
  let ?a = "appended cfg zc q1 m" let ?log = "log(?w := log ?w @ [m])"
  have t: "to_int32 (int (length ?st)) = int (length ?st)" using to_int32_size [OF c m, of 0] by simp
  have "writeOne cfg zc io_ok q m = finishWrite cfg io_ok
      (q1\<lparr>files := putBytes (files q1) (writeSegmentNum q1) (length (segBytes (files q1) (writeSegmentNum q1))) (encMsg ?st),
        writeFile := Some (writeSegmentNum q1, length (segBytes (files q1) (writeSegmentNum q1)) + length (encMsg ?st))\<rparr>)
      (int (length ?st))"
    using q1(1,3,4) t m by (simp add: writeOne_def msg_ok_def Let_def encMsg_def io_ok_def)
  note w = this [unfolded finishWrite_appended [OF c m refl refl refl]]
  have A: "log_ok cfg zc lo ?a ?log" using log_ok_appended [OF q1(2) m] q1(3) by simp
  have F: "FileExists ?a i" if "FileExists q1 i" for i
    using that by (auto simp: FileExists_def appended_def Let_def putBytes_def)
  show ?thesis
  proof (cases "MaxBytesPerFile cfg \<le> writePos ?a")
    case False
    with w have e: "fst (writeOne cfg zc io_ok q m) = ?a" by simp
    show ?thesis unfolding e using A F q1(3,5)
      by (intro exI [of _ ?log]) (auto simp: log_le_def extra_def)
  next
    case True
    obtain tm b where e: "fst (writeOne cfg zc io_ok q m) = (rolled ?a)\<lparr>files := (files (rolled ?a))\<lparr>dMeta := tm\<rparr>, needSync := b\<rparr>"
      using rolled_sync [of io_ok ?a] w True by (auto split: prod.splits)
    have R: "log_ok cfg zc lo (rolled ?a) (?log(?w + 1 := []))"
      using log_ok_rolled [OF A] q1(3) by simp
    have "log_ok cfg zc lo ((rolled ?a)\<lparr>files := (files (rolled ?a))\<lparr>dMeta := tm\<rparr>, needSync := b\<rparr>) (?log(?w + 1 := []))"
      using R by (simp del: rolled_simps)
    then show ?thesis unfolding e using F q1(3,5)
      by (intro exI [of _ "?log(?w + 1 := [])"]) (auto simp: log_le_def extra_def FileExists_def)
  qed
qed

lemma writeOne_appends:
  "cfg_ok cfg \<Longrightarrow> msg_ok cfg zc m \<Longrightarrow> appends cfg zc lo (\<lambda>q. fst (writeOne cfg zc io_ok q m))"
  unfolding appends_def using writeOne_log by blast

end
