(* ===== verification/DiskQueueRestart.thy ===== *)
theory DiskQueueRestart
  imports DiskQueueFifo
begin

section \<open>Runs, restarts and failures of the disk queue\<close>

text \<open>
  Properties of whole runs of the I/O loop that follow from the refinement: messages come out in
  the order they went in, the metadata file is read back exactly, a clean shutdown and restart keep
  the queue. The last part shows what the queue does not survive: a write that fails halfway, a
  crash before the metadata is written, and \<open>Empty\<close>, which waits for a lock its caller holds.
\<close>

subsection \<open>Runs\<close>



lemma loop_inv_start:
  assumes "file_inv cfg zc d segs" "nextReadPos d = readPos d" "readFile d = None"
  shows "loop_inv cfg zc (startLoop d) (contents d segs)"
  using assms by (auto simp: loop_inv_def startLoop_def read_inv_def reader_at_def)

lemma new_queue_inv: "loop_inv cfg zc (startLoop (NewDiskQueueByConfig x hc emptyDisk)) []"
proof -
  let ?d = "NewDiskQueueByConfig x hc emptyDisk"
  have "?d = (blankQueue emptyDisk)\<lparr>consumerMode := hc\<rparr>"
    by (simp add: NewDiskQueueByConfig_def retrieveMetaData_def blankQueue_def emptyDisk_def Let_def)
  then have "file_inv cfg zc ?d (\<lambda>_. [])" "nextReadPos ?d = readPos ?d" "readFile ?d = None"
    "contents ?d (\<lambda>_. []) = []"
    by (simp_all add: inv_defs blankQueue_def emptyDisk_def segBytes_def)
  from loop_inv_start [OF this(1-3)] this(4) show ?thesis by simp
qed





subsection \<open>The queue of a fault-free run\<close>

text \<open>A queue of messages as a list, and what an observer of the channels sees of it.\<close>

datatype observation = Got bytes | Count int | Cleared | Stored | Nothing | Stopped

fun observe :: "loopOut \<Rightarrow> observation" where
  "observe (Delivered m) = Got m"
| "observe (DepthIs n) = Count n"
| "observe (Emptied e) = Cleared"
| "observe (Written r) = (if resError r = None then Stored else Nothing)"
| "observe Quiet = Nothing"
| "observe Exited = Stopped"

fun list_step :: "bool \<Rightarrow> loopEvent \<Rightarrow> bytes list \<Rightarrow> observation \<times> bytes list" where
  "list_step cm EvRead q = (if cm then (Nothing, q) else case q of [] \<Rightarrow> (Nothing, []) | m # q' \<Rightarrow> (Got m, q'))"
| "list_step cm EvDepth q = (Count (int (length q)), q)"
| "list_step cm EvEmpty q = (Cleared, [])"
| "list_step cm (EvWrite m) q = (Stored, q @ [m])"
| "list_step cm EvTick q = (Nothing, q)"
| "list_step cm EvExit q = (Stopped, q)"

fun list_queue :: "bool \<Rightarrow> loopEvent list \<Rightarrow> bytes list \<Rightarrow> observation list \<times> bytes list" where
  "list_queue cm [] q = ([], q)"
| "list_queue cm (ev # evs) q =
     (case list_step cm ev q of (ob, q1) \<Rightarrow>
        if ob = Stopped then ([ob], q1)
        else case list_queue cm evs q1 of (obs, q2) \<Rightarrow> (ob # obs, q2))"

definition plain_ok :: "DiskQueueConfig \<Rightarrow> (int \<Rightarrow> bytes \<Rightarrow> bytes) \<Rightarrow> loopEvent \<Rightarrow> bool" where
  "plain_ok cfg zc ev \<longleftrightarrow> (case ev of EvWrite m \<Rightarrow> msg_ok cfg zc m | _ \<Rightarrow> True)"

lemma fifo_step_list:
  assumes "fifo_step cm ev out q q'" "\<And>r. out = Written r \<Longrightarrow> resError r = None"
  shows "list_step cm ev q = (observe out, q')"
  using assms by (cases ev; cases out) (auto split: list.splits)

lemma written_ok:
  assumes "cfg_ok cfg" "plain_ok cfg zc ev" "loopRound cfg zc zd hc io_ok ev l = (l1, Written r)"
  shows "resError r = None"
proof -
  obtain l' b where t: "loopTop cfg zd hc io_ok l = (l', b)" by force
  with assms(3) have "b" "onEvent cfg zc hc io_ok ev l' = (l1, Written r)"
    by (auto simp: loopRound_def split: if_splits bool.splits)
  then obtain m where "ev = EvWrite m" "r = snd (writeOne cfg zc io_ok (lq l') m)"
    by (cases ev) (auto simp: onEvent_def split: prod.splits if_splits)
  with writeOne_succeeds [OF assms(1), of zc m "lq l'"] assms(2) show ?thesis by (simp add: plain_ok_def)
qed

lemma ioLoop_list:
  assumes c: "cfg_ok cfg" "codec_ok cfg zc zd" and "\<forall>ev \<in> set evs. plain_ok cfg zc ev" "loop_inv cfg zc l q"
    and "ioLoop cfg zc zd hc (map (Pair io_ok) evs) l = (l', outs)"
  shows "loop_inv cfg zc l' (snd (list_queue (consumerMode (lq l)) evs q)) \<and>
    map observe outs = fst (list_queue (consumerMode (lq l)) evs q)"
  using assms(3-)
proof (induction evs arbitrary: l q outs)
  case Nil
  then show ?case by simp
next
  case (Cons ev evs)
  obtain l1 out where r: "loopRound cfg zc zd hc io_ok ev l = (l1, out)" by force
  have "ev_ok cfg zc (io_ok, ev)"
    using Cons.prems(1) c(1) by (auto simp: ev_ok_def io_ok_def plain_ok_def msg_ok_def cfg_ok_def split: loopEvent.splits)
  from loopRound_refines [OF c this Cons.prems(2) r] obtain q1 where
    q1: "loop_inv cfg zc l1 q1" "fifo_step (consumerMode (lq l)) ev out q q1"
      "consumerMode (lq l1) = consumerMode (lq l)" by blast
  have ls: "list_step (consumerMode (lq l)) ev q = (observe out, q1)"
    by (rule fifo_step_list [OF q1(2)]) (use written_ok [OF c(1)] r Cons.prems(1) in auto)
  show ?case
  proof (cases "out = Exited")
    case True
    with Cons.prems(3) r have "l' = l1" "outs = [Exited]" by simp_all
    with q1 True ls show ?thesis by simp
  next
    case False
    then have ob: "observe out \<noteq> Stopped" by (cases out) auto
    obtain l2 outs2 where l2: "ioLoop cfg zc zd hc (map (Pair io_ok) evs) l1 = (l2, outs2)" by force
    with Cons.prems(3) r False have "l' = l2" "outs = out # outs2"
      by (auto split: loopOut.splits)
    with Cons.IH [OF _ q1(1), of outs2] l2 Cons.prems(1) q1(3) ls ob show ?thesis
      by (auto split: prod.splits)
  qed
qed

lemma consumerMode_new: "consumerMode (NewDiskQueueByConfig x hc emptyDisk) = hc"
  by (simp add: NewDiskQueueByConfig_def retrieveMetaData_def blankQueue_def emptyDisk_def Let_def)

text \<open>C1: the disk queue is a queue. For every sequence of channel operations on a new queue, with
  acceptable messages and no failing system call, the answers are those of a list to which writes
  append and from which reads take the head: messages are delivered once each and in the order they
  were written, across segment files, read-ahead and syncs; a read is answered whenever a message is
  stored; the depth is the number of stored messages.\<close>

theorem disk_queue_is_fifo:
  assumes "cfg_ok cfg" "codec_ok cfg zc zd" "\<forall>ev \<in> set evs. plain_ok cfg zc ev"
    and "ioLoop cfg zc zd hc (map (Pair io_ok) evs) (startLoop (NewDiskQueueByConfig io_ok hc emptyDisk)) = (l', outs)"
  shows "map observe outs = fst (list_queue hc evs []) \<and>
    depth (lq l') = int (length (snd (list_queue hc evs [])))"
proof -
  let ?l = "startLoop (NewDiskQueueByConfig io_ok hc emptyDisk)"
  have cm: "consumerMode (lq ?l) = hc" by (simp add: startLoop_def consumerMode_new)
  from ioLoop_list [OF assms(1-3) new_queue_inv assms(4)]
  have "loop_inv cfg zc l' (snd (list_queue hc evs []))" "map observe outs = fst (list_queue hc evs [])"
    unfolding cm by blast+
  then show ?thesis by (auto simp: loop_inv_def dest: file_invD(7))
qed

definition sample_cfg :: DiskQueueConfig where
  "sample_cfg = \<lparr>MinMsgSize = 1, MaxMsgSize = 104857600, MaxBytesPerFile = 8, SyncEveryRecords = 1000,
     WriteChanBuffer = 0, AutoSkipCorruptFile = True, UploadToS3 = False, AlwaysDownload = False,
     PrepareFilesToRead = True, CompressAndCleanupDuringInit = False, SkipZeroConsumers = False,
     DiskCompression = \<lparr>DeleteAfterCompress = False, CompressMessage = \<lparr>Enabled = False, Level = 3\<rparr>,
       CompressSegment = \<lparr>Enabled = True, Level = 11\<rparr>, IdleThreshold = 3, NumOfFilesDecompressAhead = 3\<rparr>,
     Retention = \<lparr>MaxNumOfLocalFiles = 5\<rparr>, S3Configured = False, S3Async = False,
     MaxUsedBytes = 0, WarningFreeBytes = 0, ReservedFreeBytes = 0\<rparr>"

lemma sample_cfg_ok: "cfg_ok sample_cfg" "codec_ok sample_cfg (\<lambda>_ m. m) Inr"
  "msg_ok sample_cfg zc m \<longleftrightarrow> 1 \<le> length m \<and> length m \<le> 104857600"
  by (auto simp: cfg_ok_def codec_ok_def msg_ok_def storedForm_def sample_cfg_def)

theorem disk_queue_is_fifo_witness:
  "map observe (snd (ioLoop sample_cfg (\<lambda>_ m. m) Inr False
      (map (Pair io_ok) [EvWrite [1], EvWrite [2], EvRead, EvWrite [3], EvDepth, EvRead, EvRead, EvRead])
      (startLoop (NewDiskQueueByConfig io_ok False emptyDisk)))) =
    [Stored, Stored, Got [1], Stored, Count 2, Got [2], Got [3], Nothing]"
proof -
  let ?evs = "[EvWrite [1], EvWrite [2], EvRead, EvWrite [3], EvDepth, EvRead, EvRead, EvRead]"
  obtain l' outs where o: "ioLoop sample_cfg (\<lambda>_ m. m) Inr False (map (Pair io_ok) ?evs)
      (startLoop (NewDiskQueueByConfig io_ok False emptyDisk)) = (l', outs)"
    by (rule prod.exhaust)
  have "\<forall>ev \<in> set ?evs. plain_ok sample_cfg (\<lambda>_ m. m) ev"
    by (simp add: plain_ok_def sample_cfg_ok)
  from disk_queue_is_fifo [OF sample_cfg_ok(1,2) this o]
  have "map observe outs = [Stored, Stored, Got [1], Stored, Count 2, Got [2], Got [3], Nothing]"
    by simp
  then show ?thesis unfolding o snd_conv .
qed



subsection \<open>Restart\<close>

lemma takeWhile_show_nat:
  assumes "r = [] \<or> \<not> is_digit (hd r)"
  shows "takeWhile is_digit (show_nat n @ r) = show_nat n"
proof -
  have "\<forall>c \<in> set (show_nat n). is_digit c" using show_nat_digits by blast
  with assms show ?thesis by (cases r) (simp_all add: takeWhile_append)
qed

lemma hd_show_nat_digit: "is_digit (hd (show_nat n))"
  using show_nat_digits [of "hd (show_nat n)" n] by simp

lemma digit_not_blank: "is_digit c \<Longrightarrow> \<not> isBlank c \<and> c \<noteq> CHR ''-'' \<and> c \<noteq> CHR ''+''"
  by (auto simp: is_digit_def isBlank_def char_of_byte_def)

lemma dash_not_blank: "\<not> isBlank (CHR ''-'')"
  by code_simp

lemma scanInt_FormatInt:
  assumes "fits_int64 i" "r = [] \<or> \<not> is_digit (hd r)"
  shows "scanInt (FormatInt i @ r) = Some (i, r)"
proof (cases "i < 0")
  case True
  have "FormatInt i @ r = CHR ''-'' # show_nat (nat (- i)) @ r" "FormatInt i = CHR ''-'' # show_nat (nat (- i))"
    using True by (simp_all add: FormatInt_def)
  moreover have "dropWhile isBlank (CHR ''-'' # show_nat (nat (- i)) @ r) = CHR ''-'' # show_nat (nat (- i)) @ r"
    by (simp add: dash_not_blank)
  ultimately show ?thesis
    using ToInt64_FormatInt [OF assms(1)] takeWhile_show_nat [OF assms(2), of "nat (- i)"]
    by (simp add: scanInt_def Let_def)
next
  case False
  let ?s = "show_nat (nat i)"
  obtain c cs where s: "?s = c # cs" by (cases ?s) auto
  then have c: "is_digit c" using hd_show_nat_digit [of "nat i"] by simp
  have f: "FormatInt i = ?s" using False by (simp add: FormatInt_def)
  have "dropWhile isBlank (?s @ r) = ?s @ r" using digit_not_blank [OF c] s by simp
  moreover have "(case ?s @ r of c # _ \<Rightarrow> if c = CHR ''-'' \<or> c = CHR ''+'' then [c] else [] | [] \<Rightarrow> []) = []"
    using digit_not_blank [OF c] s by simp
  ultimately show ?thesis
    using ToInt64_FormatInt [OF assms(1)] takeWhile_show_nat [OF assms(2), of "nat i"]
    unfolding f scanInt_def by (simp add: Let_def)
qed

lemma sep_not_digit [simp]: "\<not> is_digit (CHR '','')" "\<not> is_digit (char_of_byte 10)"
  by (simp_all add: is_digit_def char_of_byte_def)

definition meta_fits :: "DiskBasedQueue \<Rightarrow> bool" where
  "meta_fits d \<longleftrightarrow> fits_int64 (depth d) \<and> fits_int64 (readSegmentFileNum d) \<and> fits_int64 (readPos d) \<and>
     fits_int64 (writeSegmentNum d) \<and> fits_int64 (writePos d)"

lemma Fscanf_metaText:
  assumes "meta_fits d"
  shows "Fscanf metaFormat (metaText d) =
    ([depth d, readSegmentFileNum d, readPos d, writeSegmentNum d, writePos d], True)"
  using assms
  by (simp add: metaFormat_def metaText_def meta_fits_def newline_def scanInt_FormatInt scanComma_def scanNewline_def)

lemma retrieve_persisted:
  assumes "meta_fits d" "dMeta fs = Some (metaText d)"
  shows "retrieveMetaData (blankQueue fs) = ((blankQueue fs)\<lparr>depth := depth d, readSegmentFileNum := readSegmentFileNum d,
    readPos := readPos d, writeSegmentNum := writeSegmentNum d, writePos := writePos d,
    nextReadFileNum := readSegmentFileNum d, nextReadPos := readPos d\<rparr>, None)"
  by (simp add: retrieveMetaData_def blankQueue_def assms Fscanf_metaText assignMeta_def Let_def)

text \<open>The metadata file round-trips. What \<open>persistMetaData\<close> writes, \<open>retrieveMetaData\<close> reads
  back into the depth and the four positions, and the next read position is the read position.\<close>

theorem metadata_roundtrip:
  assumes "meta_fits d" "persistMetaData x d = (d', None)"
  shows "\<exists>r. retrieveMetaData (blankQueue (files d')) = (r, None) \<and>
    depth r = depth d \<and> readSegmentFileNum r = readSegmentFileNum d \<and> readPos r = readPos d \<and>
    writeSegmentNum r = writeSegmentNum d \<and> writePos r = writePos d \<and>
    nextReadFileNum r = readSegmentFileNum d \<and> nextReadPos r = readPos d"
proof -
  have "dMeta (files d') = Some (metaText d)"
    using assms(2) by (auto simp: persistMetaData_def split: if_splits)
  with retrieve_persisted [OF assms(1) this] show ?thesis by simp
qed

theorem metadata_roundtrip_witness:
  "\<exists>r. retrieveMetaData (blankQueue (files (fst (persistMetaData io_ok
      ((blankQueue emptyDisk)\<lparr>depth := 3, readPos := 20, writeSegmentNum := 2, writePos := 70\<rparr>))))) = (r, None) \<and>
    depth r = 3 \<and> readPos r = 20 \<and> writeSegmentNum r = 2 \<and> writePos r = 70"
proof -
  let ?d = "(blankQueue emptyDisk)\<lparr>depth := 3, readPos := 20, writeSegmentNum := 2, writePos := 70\<rparr>"
  have f: "meta_fits ?d" by (simp add: meta_fits_def fits_int64_def blankQueue_def)
  obtain d' where d': "persistMetaData io_ok ?d = (d', None)"
    by (simp add: persistMetaData_def io_ok_def)
  from metadata_roundtrip [OF f d'] show ?thesis unfolding d' fst_conv by auto
qed

lemma restored_inv:
  assumes inv: "file_inv cfg zc d segs" and fs: "dDat fs = dDat (files d)"
  shows "file_inv cfg zc ((blankQueue fs)\<lparr>depth := depth d, readSegmentFileNum := readSegmentFileNum d,
    readPos := readPos d, writeSegmentNum := writeSegmentNum d, writePos := writePos d,
    nextReadFileNum := readSegmentFileNum d, nextReadPos := readPos d\<rparr>) segs"
proof -
  have sb: "segBytes fs i = segBytes (files d) i" for i using fs by (simp add: segBytes_def)
  let ?r = "(blankQueue fs)\<lparr>depth := depth d, readSegmentFileNum := readSegmentFileNum d,
    readPos := readPos d, writeSegmentNum := writeSegmentNum d, writePos := writePos d,
    nextReadFileNum := readSegmentFileNum d, nextReadPos := readPos d\<rparr>"
  have "seg_ok cfg zc ?r i ms = seg_ok cfg zc d i ms" for i ms
    by (simp add: seg_ok_def seg_off_def blankQueue_def sb)
  then show ?thesis
    by (intro file_invI) (use file_invD [OF inv] fs in \<open>simp_all add: blankQueue_def sb contents_def\<close>)
qed

lemma write_segment_nonempty:
  assumes inv: "file_inv cfg zc d segs" and "writePos d > 0" "depth d > 0"
  shows "segs (writeSegmentNum d) \<noteq> []"
proof (cases "readSegmentFileNum d = writeSegmentNum d")
  case True
  with file_invD(7) [OF inv] assms(3) show ?thesis by (simp add: contents_def)
next
  case False
  with file_invD(1) [OF inv] file_invD(4) [OF inv, of "writeSegmentNum d"]
  have "seg_ok cfg zc d (writeSegmentNum d) (segs (writeSegmentNum d))" by simp
  with False file_invD(3) [OF inv] assms(2) show ?thesis by (auto simp: seg_ok_def seg_off_def)
qed

lemma restart_inv:
  assumes inv: "file_inv cfg zc d segs" and m: "meta_fits d" and cl: "dqClose x d = (d1, None)"
  shows "\<exists>segs'. file_inv cfg zc (NewDiskQueueByConfig y hc (files d1)) segs' \<and>
    contents (NewDiskQueueByConfig y hc (files d1)) segs' = contents d segs \<and>
    nextReadPos (NewDiskQueueByConfig y hc (files d1)) = readPos (NewDiskQueueByConfig y hc (files d1)) \<and>
    readFile (NewDiskQueueByConfig y hc (files d1)) = None \<and>
    consumerMode (NewDiskQueueByConfig y hc (files d1)) = hc"
proof -
  let ?N = "NewDiskQueueByConfig y hc (files d1)"
  have f1: "dDat (files d1) = dDat (files d)" "dMeta (files d1) = Some (metaText d)"
    using cl by (auto simp: dqClose_def dqSync_def dqExit_def persistMetaData_def metaText_def split: if_splits)
  define r where "r = (blankQueue (files d1))\<lparr>depth := depth d, readSegmentFileNum := readSegmentFileNum d,
    readPos := readPos d, writeSegmentNum := writeSegmentNum d, writePos := writePos d,
    nextReadFileNum := readSegmentFileNum d, nextReadPos := readPos d\<rparr>"
  have R: "retrieveMetaData (blankQueue (files d1)) = (r, None)"
    unfolding r_def by (rule retrieve_persisted [OF m f1(2)])
  have ri: "file_inv cfg zc r segs" unfolding r_def by (rule restored_inv [OF inv f1(1)])
  have rs: "nextReadPos r = readPos r" "readFile r = None" "writeFile r = None" "consumerMode r = False"
    "contents r segs = contents d segs" "writePos r = writePos d" "depth r = depth d"
    "writeSegmentNum r = writeSegmentNum d" "readSegmentFileNum r \<le> writeSegmentNum r"
    using file_invD(1) [OF inv] by (simp_all add: r_def blankQueue_def contents_def)
  show ?thesis
  proof (cases "writePos d > 0 \<and> depth d > 0")
    case False
    with R rs(6,7) have N: "?N = r\<lparr>consumerMode := hc\<rparr>"
      using rs(4) by (cases r) (auto simp: NewDiskQueueByConfig_def Let_def)
    have "contents (r\<lparr>consumerMode := hc\<rparr>) segs = contents r segs" by (simp add: contents_def)
    with N ri rs show ?thesis by (intro exI [of _ segs]) simp
  next
    case True
    define a where "a = (rolled r)\<lparr>maxBytesPerFileRead := maxBytesPerFileRead r\<rparr>"
    let ?g = "segs(writeSegmentNum r + 1 := [])"
    have "segs (writeSegmentNum r) \<noteq> []"
      using write_segment_nonempty [OF ri] True rs by simp
    from inv_rolled [OF ri this] have ia: "file_inv cfg zc a ?g" by (simp add: a_def)
    have ca: "contents a ?g = contents d segs"
      using contents_rolled [OF rs(9), of segs] rs(5) by (simp add: a_def)
    have sa: "nextReadPos a = readPos a" "readFile a = None" "\<not> consumerMode a" using rs by (simp_all add: a_def)
    have "notify r WriteComplete (writeSegmentNum r)\<lparr>writeSegmentNum := writeSegmentNum r + 1, writePos := 0\<rparr> = a"
      using rs(3) unfolding a_def by (cases r) (simp add: notify_def rolled_def)
    then have N: "?N = (if hc then (fst (persistMetaData y a))\<lparr>consumerMode := True\<rparr> else fst (persistMetaData y a))"
      using R True rs by (simp add: NewDiskQueueByConfig_def Let_def persistMetaData_def notify_def)
    have P: "fst (persistMetaData y a) \<in> {a, a\<lparr>files := (files a)\<lparr>dMeta := Some (metaText a)\<rparr>\<rparr>}"
      by (simp add: persistMetaData_def)
    have cc: "contents (b\<lparr>consumerMode := True\<rparr>) ?g = contents b ?g" for b by (simp add: contents_def)
    show ?thesis
      unfolding N using P ia ca sa by (intro exI [of _ ?g]) (cases hc; elim insertE; simp add: cc)
  qed
qed

lemma restart_loop_inv:
  assumes "loop_inv cfg zc l q" "meta_fits (lq l)" "dqClose x (lq l) = (d1, None)"
  shows "loop_inv cfg zc (startLoop (NewDiskQueueByConfig y hc (files d1))) q"
    "consumerMode (lq (startLoop (NewDiskQueueByConfig y hc (files d1)))) = hc"
proof -
  from assms(1) obtain segs where s: "file_inv cfg zc (lq l) segs" "q = contents (lq l) segs"
    by (auto simp: loop_inv_def)
  from restart_inv [OF s(1) assms(2,3), of y hc] obtain segs' where
    N: "file_inv cfg zc (NewDiskQueueByConfig y hc (files d1)) segs'"
      "contents (NewDiskQueueByConfig y hc (files d1)) segs' = contents (lq l) segs"
      "nextReadPos (NewDiskQueueByConfig y hc (files d1)) = readPos (NewDiskQueueByConfig y hc (files d1))"
      "readFile (NewDiskQueueByConfig y hc (files d1)) = None"
      "consumerMode (NewDiskQueueByConfig y hc (files d1)) = hc"
    by blast
  from loop_inv_start [OF N(1,3,4)] N(2) s(2)
  show "loop_inv cfg zc (startLoop (NewDiskQueueByConfig y hc (files d1))) q" by simp
  from N(5) show "consumerMode (lq (startLoop (NewDiskQueueByConfig y hc (files d1)))) = hc"
    by (simp add: startLoop_def)
qed

text \<open>C6: a clean restart is invisible. After any fault-free run on a new queue, closing it and
  opening it again, a second run gets the answers of the list queue that continues where the first
  run stopped: nothing is lost, repeated or reordered.\<close>

theorem clean_restart_keeps_queue:
  assumes "cfg_ok cfg" "codec_ok cfg zc zd" "\<forall>ev \<in> set (evs1 @ evs2). plain_ok cfg zc ev"
    and "ioLoop cfg zc zd hc (map (Pair io_ok) evs1) (startLoop (NewDiskQueueByConfig io_ok hc emptyDisk)) = (l1, outs1)"
    and "meta_fits (lq l1)" "dqClose io_ok (lq l1) = (d1, None)"
    and "ioLoop cfg zc zd hc (map (Pair io_ok) evs2) (startLoop (NewDiskQueueByConfig io_ok hc (files d1))) = (l2, outs2)"
  shows "map observe outs2 = fst (list_queue hc evs2 (snd (list_queue hc evs1 [])))"
proof -
  have ok: "\<forall>ev \<in> set evs1. plain_ok cfg zc ev" "\<forall>ev \<in> set evs2. plain_ok cfg zc ev"
    using assms(3) by auto
  have "consumerMode (lq (startLoop (NewDiskQueueByConfig io_ok hc emptyDisk))) = hc"
    by (simp add: startLoop_def consumerMode_new)
  with ioLoop_list [OF assms(1,2) ok(1) new_queue_inv assms(4)]
  have "loop_inv cfg zc l1 (snd (list_queue hc evs1 []))" by simp
  note R = restart_loop_inv [OF this assms(5,6), of io_ok hc]
  from ioLoop_list [OF assms(1,2) ok(2) R(1) assms(7)] show ?thesis unfolding R(2) by blast
qed

lemmas run_defs = loopRound_def loopTop_def onEvent_def syncDue_def startLoop_def NewDiskQueueByConfig_def
  retrieveMetaData_def blankQueue_def emptyDisk_def Let_def io_ok_def

lemmas write_defs = writeOne_def openWrite_def storedForm_def to_int32_def segBytes_def putBytes_def
  writeAt_def lenPrefix_def finishWrite_def failed_def

lemma sample_meta_fits:
  "meta_fits (lq (fst (ioLoop sample_cfg (\<lambda>_ m. m) Inr False (map (Pair io_ok) [EvWrite [7]])
     (startLoop (NewDiskQueueByConfig io_ok False emptyDisk)))))"
  by (simp add: run_defs write_defs sample_cfg_def meta_fits_def fits_int64_def)

theorem clean_restart_keeps_queue_witness:
  "\<exists>l1 outs1 d1. ioLoop sample_cfg (\<lambda>_ m. m) Inr False (map (Pair io_ok) [EvWrite [7]])
      (startLoop (NewDiskQueueByConfig io_ok False emptyDisk)) = (l1, outs1) \<and>
    dqClose io_ok (lq l1) = (d1, None) \<and>
    map observe (snd (ioLoop sample_cfg (\<lambda>_ m. m) Inr False (map (Pair io_ok) [EvWrite [8], EvRead, EvRead])
      (startLoop (NewDiskQueueByConfig io_ok False (files d1))))) = [Stored, Got [7], Got [8]]"
proof -
  let ?l = "startLoop (NewDiskQueueByConfig io_ok False emptyDisk)" and ?evs = "[EvWrite [8], EvRead, EvRead]"
  obtain l1 outs1 where o1: "ioLoop sample_cfg (\<lambda>_ m. m) Inr False (map (Pair io_ok) [EvWrite [7]]) ?l = (l1, outs1)"
    by (rule prod.exhaust)
  have m: "meta_fits (lq l1)" using sample_meta_fits unfolding o1 fst_conv .
  have "snd (dqClose io_ok (lq l1)) = None"
    by (simp add: dqClose_def dqSync_def dqExit_def persistMetaData_def io_ok_def)
  then obtain d1 where d1: "dqClose io_ok (lq l1) = (d1, None)" by (metis prod.collapse)
  obtain l2 outs2 where o: "ioLoop sample_cfg (\<lambda>_ m. m) Inr False (map (Pair io_ok) ?evs)
      (startLoop (NewDiskQueueByConfig io_ok False (files d1))) = (l2, outs2)" by (rule prod.exhaust)
  have "\<forall>ev \<in> set ([EvWrite [7]] @ ?evs). plain_ok sample_cfg (\<lambda>_ m. m) ev"
    by (simp add: plain_ok_def sample_cfg_ok)
  from clean_restart_keeps_queue [OF sample_cfg_ok(1,2) this o1 m d1 o]
  have "map observe outs2 = [Stored, Got [7], Got [8]]" by simp
  then have "map observe (snd (ioLoop sample_cfg (\<lambda>_ m. m) Inr False (map (Pair io_ok) ?evs)
      (startLoop (NewDiskQueueByConfig io_ok False (files d1))))) = [Stored, Got [7], Got [8]]"
    unfolding o snd_conv .
  with o1 d1 show ?thesis by (intro exI [of _ l1] exI [of _ outs1] exI [of _ d1] conjI)
qed

subsection \<open>What the queue does not survive\<close>

lemma writeOne_first:
  assumes "cfg_ok cfg" "msg_ok cfg zc m" "st = storedForm cfg zc m" "4 + int (length st) < MaxBytesPerFile cfg"
    and d: "writePos d = 0" "writeSegmentNum d = 0" "writeFile d = None"
  shows "writeOne cfg zc io_ok d m =
    (d\<lparr>files := (files d)\<lparr>dDat := (dDat (files d))(0 \<mapsto> encMsg st @ drop (length (encMsg st)) (segBytes (files d) 0))\<rparr>,
       writeFile := Some (0, length (encMsg st)), writePos := 4 + int (length st), depth := depth d + 1\<rparr>,
     \<lparr>resSegment = 0, resPosition = 4 + int (length st), resError = None\<rparr>)"
proof -
  have t: "to_int32 (int (length st)) = int (length st)" "to_int32 (4 + int (length st)) = 4 + int (length st)"
    using to_int32_size [OF assms(1,2), of 0] to_int32_size [OF assms(1,2), of 4] assms(3) by simp_all
  have n: "\<not> int (length st) < MinMsgSize cfg" "\<not> MaxMsgSize cfg < int (length st)"
    using assms(2,3) by (simp_all add: msg_ok_def)
  show ?thesis
    using assms(4) d
    by (simp add: writeOne_def openWrite_def io_ok_def Let_def assms(3) [symmetric] t n finishWrite_def
        putBytes_def writeAt_def encMsg_def segBytes_def)
qed

text \<open>C10: a crash before the first sync loses acknowledged messages. Opening a queue starts a new
  segment only when the metadata counts messages; after a crash that left no metadata, or metadata of
  an empty queue, the queue is opened at the old position: an acknowledged message is not read, and
  the next write replaces its bytes.\<close>

theorem crash_before_sync_overwrites:
  fixes zc :: "int \<Rightarrow> bytes \<Rightarrow> bytes"
  assumes "cfg_ok cfg" "msg_ok cfg zc m1" "msg_ok cfg zc m2"
    and "4 + int (length (storedForm cfg zc m1)) < MaxBytesPerFile cfg"
    and "4 + int (length (storedForm cfg zc m2)) < MaxBytesPerFile cfg"
    and w1: "writeOne cfg zc io_ok (NewDiskQueueByConfig io_ok hc emptyDisk) m1 = (d1, r1)"
    and w2: "writeOne cfg zc io_ok (NewDiskQueueByConfig io_ok hc (files d1)) m2 = (d2, r2)"
  shows "resError r1 = None \<and> depth d1 = 1 \<and> depth (NewDiskQueueByConfig io_ok hc (files d1)) = 0 \<and>
    segBytes (files d2) 0 = encMsg (storedForm cfg zc m2) @
      drop (length (encMsg (storedForm cfg zc m2))) (encMsg (storedForm cfg zc m1))"
proof -
  have new: "NewDiskQueueByConfig io_ok hc fs = (blankQueue fs)\<lparr>consumerMode := hc\<rparr>" if "dMeta fs = None" for fs
    using that by (simp add: NewDiskQueueByConfig_def retrieveMetaData_def blankQueue_def Let_def)
  let ?d = "NewDiskQueueByConfig io_ok hc emptyDisk"
  have nm: "dMeta emptyDisk = None" by (simp add: emptyDisk_def)
  have e0: "?d = (blankQueue emptyDisk)\<lparr>consumerMode := hc\<rparr>" by (rule new [OF nm])
  have f: "files d1 = emptyDisk\<lparr>dDat := [0 \<mapsto> encMsg (storedForm cfg zc m1)]\<rparr>" "depth d1 = 1" "resError r1 = None"
    using w1 writeOne_first [OF assms(1,2) refl assms(4), of ?d] unfolding e0
    by (auto simp: blankQueue_def emptyDisk_def segBytes_def)
  let ?e = "NewDiskQueueByConfig io_ok hc (files d1)"
  have e: "?e = (blankQueue (files d1))\<lparr>consumerMode := hc\<rparr>" by (rule new) (simp add: f emptyDisk_def)
  have "files d2 = (files ?e)\<lparr>dDat := (dDat (files ?e))(0 \<mapsto> encMsg (storedForm cfg zc m2) @
      drop (length (encMsg (storedForm cfg zc m2))) (segBytes (files ?e) 0))\<rparr>"
    using w2 writeOne_first [OF assms(1,3) refl assms(5), of ?e] by (simp add: e blankQueue_def)
  then have "segBytes (files d2) 0 = encMsg (storedForm cfg zc m2) @
      drop (length (encMsg (storedForm cfg zc m2))) (encMsg (storedForm cfg zc m1))"
    unfolding e by (simp add: f blankQueue_def segBytes_def)
  with f show ?thesis unfolding e by (simp add: blankQueue_def)
qed

theorem crash_before_sync_overwrites_witness:
  "\<exists>d1 r1 d2 r2.
    writeOne (sample_cfg\<lparr>MaxBytesPerFile := 100\<rparr>) (\<lambda>_ m. m) io_ok (NewDiskQueueByConfig io_ok False emptyDisk) [1, 2] = (d1, r1) \<and>
    writeOne (sample_cfg\<lparr>MaxBytesPerFile := 100\<rparr>) (\<lambda>_ m. m) io_ok (NewDiskQueueByConfig io_ok False (files d1)) [3, 4] = (d2, r2) \<and>
    resError r1 = None \<and> segBytes (files d2) 0 = encMsg [3, 4]"
proof -
  let ?c = "sample_cfg\<lparr>MaxBytesPerFile := 100\<rparr>" and ?z = "\<lambda>(_ :: int) (m :: bytes). m"
  obtain d1 r1 where w1: "writeOne ?c ?z io_ok (NewDiskQueueByConfig io_ok False emptyDisk) [1, 2] = (d1, r1)"
    by (rule prod.exhaust)
  obtain d2 r2 where w2: "writeOne ?c ?z io_ok (NewDiskQueueByConfig io_ok False (files d1)) [3, 4] = (d2, r2)"
    by (rule prod.exhaust)
  have st: "storedForm ?c ?z m = m" for m by (simp add: storedForm_def sample_cfg_def)
  have "cfg_ok ?c" "msg_ok ?c ?z [1, 2]" "msg_ok ?c ?z [3, 4]" "100 = MaxBytesPerFile ?c"
    by (simp_all add: cfg_ok_def msg_ok_def st) (simp_all add: sample_cfg_def)
  from crash_before_sync_overwrites [OF this(1-3) _ _ w1 w2] this(4)
  have "resError r1 = None" "segBytes (files d2) 0 = encMsg [3, 4]" by (simp_all add: st)
  with w1 w2 show ?thesis by blast
qed

lemmas read_defs = readOne_def openRead_def finishRead_def readMoveForward_def checkTailCorruption_def
  NewReader_def ReadFull.simps prefixLen_def be_value_def segBytes_def to_int32_def Let_def io_ok_def

definition poison_cfg :: DiskQueueConfig where
  "poison_cfg = sample_cfg\<lparr>MaxBytesPerFile := 1000\<rparr>"

text \<open>The states of the run below: one message stored, half of a second one behind it, the first one
  read with the read-ahead of the reader, a third one written over the half message.\<close>

definition poison1 :: DiskBasedQueue where
  "poison1 = (blankQueue (emptyDisk\<lparr>dDat := [0 \<mapsto> [0, 0, 0, 1, 1]]\<rparr>))
     \<lparr>writePos := 5, depth := 1, writeFile := Some (0, 5)\<rparr>"

definition poison2 :: DiskBasedQueue where
  "poison2 = poison1\<lparr>writeFile := None, files := emptyDisk\<lparr>dDat := [0 \<mapsto> [0, 0, 0, 1, 1, 0, 0, 0, 6, 9]]\<rparr>\<rparr>"

definition poison3 :: DiskBasedQueue where
  "poison3 = poison2\<lparr>maxBytesPerFileRead := 1000, readFile := Some (0, \<lparr>rdOff = 10, rdBuf = [0, 0, 0, 6, 9]\<rparr>),
     nextReadPos := 5, nextReadFileNum := 0\<rparr>"

definition poison4 :: DiskBasedQueue where
  "poison4 = poison3\<lparr>readPos := 5, writePos := 10, depth := 1, writeFile := Some (0, 10),
     files := emptyDisk\<lparr>dDat := [0 \<mapsto> [0, 0, 0, 1, 1, 0, 0, 0, 1, 5]]\<rparr>\<rparr>"

lemma poison_write1: "writeOne poison_cfg (\<lambda>_ m. m) io_ok (blankQueue emptyDisk) [1] =
    (poison1, \<lparr>resSegment = 0, resPosition = 5, resError = None\<rparr>)"
  by (simp add: write_defs Let_def io_ok_def blankQueue_def emptyDisk_def poison1_def poison_cfg_def sample_cfg_def eval_nat_numeral)

lemma poison_write2: "writeOne poison_cfg (\<lambda>_ m. m) (io_ok\<lparr>writeErr := Some 5\<rparr>) poison1 [9, 9, 9, 9, 9, 9] =
    (poison2, failed ''write'')"
  by (simp add: write_defs Let_def io_ok_def blankQueue_def emptyDisk_def poison1_def poison2_def poison_cfg_def sample_cfg_def eval_nat_numeral)

lemma poison_read1: "readOne poison_cfg Inr io_ok poison2 = (poison3, Inr [1])"
  by (simp add: read_defs blankQueue_def emptyDisk_def poison1_def poison2_def poison3_def poison_cfg_def sample_cfg_def)

lemma poison_write3:
  "writeOne poison_cfg (\<lambda>_ m. m) io_ok (readMoveForward io_ok False poison3) [5] =
    (poison4, \<lparr>resSegment = 0, resPosition = 10, resError = None\<rparr>)"
  by (simp add: write_defs read_defs Let_def io_ok_def blankQueue_def emptyDisk_def poison1_def poison2_def
      poison3_def poison4_def poison_cfg_def sample_cfg_def eval_nat_numeral)

lemma poison_read2: "readOne poison_cfg Inr io_ok poison4 = (poison4\<lparr>readFile := None\<rparr>, Inl ''EOF'')"
  by (simp add: read_defs blankQueue_def emptyDisk_def poison1_def poison2_def poison3_def poison4_def
      poison_cfg_def sample_cfg_def)

text \<open>A write that fails halfway can lose a later message. The reader buffers what lies behind the
  write position; when half of a message was left there, the next write replaces it in the file and
  not in the buffer. In this run the messages \<open>[1]\<close> and \<open>[5]\<close> are acknowledged, the write between
  them fails after five bytes, \<open>[1]\<close> is delivered, and the attempt to read \<open>[5]\<close> fails: its file
  is set aside as bad and the queue continues behind it.\<close>

theorem partial_write_poisons_reader:
  "\<exists>d1 r1 d2 r2 d3 d4 r4 d5.
     writeOne poison_cfg (\<lambda>_ m. m) io_ok (blankQueue emptyDisk) [1] = (d1, r1) \<and> resError r1 = None \<and>
     writeOne poison_cfg (\<lambda>_ m. m) (io_ok\<lparr>writeErr := Some 5\<rparr>) d1 [9, 9, 9, 9, 9, 9] = (d2, r2) \<and> resError r2 \<noteq> None \<and>
     readOne poison_cfg Inr io_ok d2 = (d3, Inr [1]) \<and>
     writeOne poison_cfg (\<lambda>_ m. m) io_ok (readMoveForward io_ok False d3) [5] = (d4, r4) \<and> resError r4 = None \<and>
     readOne poison_cfg Inr io_ok d4 = (d5, Inl ''EOF'') \<and>
     dBad (files (handleReadError io_ok False d5)) 0 = Some [0, 0, 0, 1, 1, 0, 0, 0, 1, 5] \<and>
     dDat (files (handleReadError io_ok False d5)) 0 = None \<and>
     readSegmentFileNum (handleReadError io_ok False d5) = writeSegmentNum (handleReadError io_ok False d5)"
proof -
  let ?e = "handleReadError io_ok False (poison4\<lparr>readFile := None\<rparr>)"
  have "dBad (files ?e) 0 = Some [0, 0, 0, 1, 1, 0, 0, 0, 1, 5]" "dDat (files ?e) 0 = None"
    "readSegmentFileNum ?e = writeSegmentNum ?e"
    by (simp_all add: handleReadError_def poison4_def poison3_def poison2_def poison1_def blankQueue_def
        emptyDisk_def io_ok_def Let_def)
  with poison_write1 poison_write2 poison_read1 poison_write3 poison_read2 show ?thesis
    by (simp add: failed_def)
qed

end
