(* ===== verification/DiskDelivery.thy ===== *)
theory DiskDelivery
  imports DiskConsumerLog DiskQueueRestart
begin

section \<open>Delivery to consumers\<close>

text \<open>
  What the fetch of a consumer guarantees for whole calls, and two situations in which a consumer
  loses messages: when it waits for a segment that is not there yet, and when it reads a message that
  is only half written.
\<close>

definition nowhere :: remote where
  "nowhere = \<lparr>decode = (\<lambda>b. (b, None)), lastUpload = - 1, download = (\<lambda>_. Inl ''no such bucket'')\<rparr>"

definition noContext :: Context where
  "noContext = \<lparr>MessageCount = 0, NextOffset = NewOffset 0 0, InitOffset = NewOffset 0 0\<rparr>"

lemma log_ok_blank: "log_ok cfg zc 0 (blankQueue emptyDisk) (\<lambda>_. [])"
  by (simp add: log_ok_def blankQueue_def emptyDisk_def segBytes_def)

text \<open>C13: a fetch hands out the log, without gaps and in order. Let a consumer be acquired at an
  offset behind which the messages \<open>xs\<close> lie, and let the writer append during every pass of the
  fetch. Then the fetch returns within two passes more than it may return messages; what it returns is
  the beginning of what lies behind the offset; the next offset in the context, and the offsets of every
  single message, denote what lies behind that message; there is an error only if a read failed or the
  process is shutting down; and at least one message comes back if there was one.\<close>

theorem fetch_hands_out_the_log:
  assumes "sound cfg zc zd" "log_ok cfg zc lo q log" "nonvoid q"
    and "denotes cfg zc lo q log off xs" "FileExists q (Segment off)"
    and "\<forall>e \<in> set es. appends cfg zc lo (others e) \<and> \<not> openFails e" "length es \<ge> nat (FetchMaxMessages ccfg) + 2"
  shows "\<exists>q' c st err log' rest. AcquireConsumer cfg rm False ident q off = Ret ((q', c), None) \<and>
    FetchMessages cfg rm zd ccfg n es q' c ctx = Some (Ret (st, False, err)) \<and>
    log_ok cfg zc lo (fq st) log' \<and> log_le (writeSegmentNum q) log (writeSegmentNum (fq st)) log' \<and>
    denotes cfg zc lo (fq st) log' off (map msgData (fmsgs st) @ rest) \<and>
    denotes cfg zc lo (fq st) log' (NextOffset (fctx st)) rest \<and>
    offsets_ok cfg zc lo (fq st) log' (fmsgs st) rest \<and>
    (err \<noteq> None \<longrightarrow> (\<exists>e \<in> set es. failing e)) \<and>
    (xs \<noteq> [] \<and> \<not> (\<exists>e \<in> set es. failing e) \<longrightarrow> fmsgs st \<noteq> [])"
proof -
  let ?B = "\<lparr>bEnd = writeSegmentNum q, bLog = log, bOffset = off, bFiles = None\<rparr>"
  have B: "bEnd ?B = writeSegmentNum q" "bLog ?B = log" "bOffset ?B = off" "bFiles ?B = None \<or> bFiles ?B = Some (files q)"
    by simp_all
  have "\<forall>e \<in> set es. env_fine cfg zc lo ?B e" using assms(6) by (simp add: env_fine_def)
  from acquire_fetch [OF assms(1-3) B assms(4,5) this assms(7), of rm ident n ctx]
  obtain q' c st err log' rest where "AcquireConsumer cfg rm False ident q off = Ret ((q', c), None)"
    "FetchMessages cfg rm zd ccfg n es q' c ctx = Some (Ret (st, False, err))" and f: "fetched cfg zc lo ?B log' st rest"
    and "err \<noteq> None \<longrightarrow> (\<exists>e \<in> set es. failing e)" "xs \<noteq> [] \<and> \<not> (\<exists>e \<in> set es. failing e) \<longrightarrow> fmsgs st \<noteq> []"
    by blast
  with fetchedD(1-4,6,7) [OF f] show ?thesis by (metis baseline.select_convs(1-3))
qed

definition one_at_a_time :: ConsumerConfig where
  "one_at_a_time = (NewConsumerConfig (\<lambda>s. s) ''q'' ''g'' ''n'')\<lparr>FetchMaxMessages := 1\<rparr>"

definition oneMessageQueue :: DiskBasedQueue where
  "oneMessageQueue = fst (writeOne sample_cfg (\<lambda>_ m. m) io_ok (blankQueue emptyDisk) [1])"

lemma one_message_queue:
  "\<exists>log. log_ok sample_cfg (\<lambda>_ m. m) 0 oneMessageQueue log \<and> denotes sample_cfg (\<lambda>_ m. m) 0 oneMessageQueue log (NewOffset 0 0) [[1]]"
  "nonvoid oneMessageQueue" "sound sample_cfg (\<lambda>_ m. m) Inr"
proof -
  let ?z = "\<lambda>_ m. m :: bytes"
  have "msg_ok sample_cfg ?z [1]" by (simp add: sample_cfg_ok)
  from writeOne_log [OF sample_cfg_ok(1) log_ok_blank this] obtain log where log: "log_ok sample_cfg ?z 0 oneMessageQueue log"
    "log_le 0 (\<lambda>_. []) (writeSegmentNum oneMessageQueue) log" "extra 0 (\<lambda>_. []) (writeSegmentNum oneMessageQueue) log = [[1]]"
    by (auto simp: blankQueue_def oneMessageQueue_def)
  have rest: "restAt log (writeSegmentNum oneMessageQueue) 0 0 = [[1]]"
    using restAt_grow [OF log(2), of 0 0] log(3) by (simp add: restAt_def)
  have "denotes sample_cfg ?z 0 oneMessageQueue log (NewOffset 0 0) [[1]]"
    by (rule denotesI [of 0 0 _ 0]) (use log_okD(2) [OF log(1)] rest in \<open>simp_all add: NewOffset_def\<close>)
  with log(1) show "\<exists>log. log_ok sample_cfg ?z 0 oneMessageQueue log \<and> denotes sample_cfg ?z 0 oneMessageQueue log (NewOffset 0 0) [[1]]"
    by blast
  show "nonvoid oneMessageQueue"
  proof (rule ccontr)
    assume "\<not> nonvoid oneMessageQueue"
    then have "writeSegmentNum oneMessageQueue = 0" "writePos oneMessageQueue = 0" by (simp_all add: nonvoid_def)
    with log_okD(3,4) [OF log(1)] rest show False by (auto simp: restAt_def)
  qed
  show "sound sample_cfg ?z Inr" using sample_cfg_ok by (simp add: sound_def local_only_def sample_cfg_def)
qed

lemma one_message_size:
  "writeSegmentNum oneMessageQueue = 0" "length (segBytes (files oneMessageQueue) i) \<le> 5"
  by (simp_all add: oneMessageQueue_def write_defs Let_def io_ok_def sample_cfg_def blankQueue_def emptyDisk_def eval_nat_numeral)

theorem fetch_hands_out_the_log_witness:
  "\<exists>q' c st. AcquireConsumer sample_cfg nowhere False ''c'' oneMessageQueue (NewOffset 0 0) = Ret ((q', c), None) \<and>
    FetchMessages sample_cfg nowhere Inr one_at_a_time 0
      (replicate 3 (env_ok\<lparr>others := (\<lambda>q. fst (writeOne sample_cfg (\<lambda>_ m. m) io_ok q [2]))\<rparr>)) q' c noContext = Some (Ret (st, False, None)) \<and>
    fmsgs st \<noteq> []"
proof -
  let ?z = "\<lambda>_ m. m :: bytes" let ?e = "env_ok\<lparr>others := (\<lambda>q. fst (writeOne sample_cfg ?z io_ok q [2]))\<rparr>"
  from one_message_queue(1) obtain log where log: "log_ok sample_cfg ?z 0 oneMessageQueue log"
    and den: "denotes sample_cfg ?z 0 oneMessageQueue log (NewOffset 0 0) [[1]]" by blast
  have f: "FileExists oneMessageQueue (Segment (NewOffset 0 0))" by (rule denotes_nonempty_file [OF log den]) simp
  have "msg_ok sample_cfg ?z [2]" by (simp add: sample_cfg_ok)
  then have es: "\<forall>e \<in> set (replicate 3 ?e). appends sample_cfg ?z 0 (others e) \<and> \<not> openFails e"
    using writeOne_appends [OF sample_cfg_ok(1)] by (auto simp: env_ok_def)
  have len: "nat (FetchMaxMessages one_at_a_time) + 2 \<le> length (replicate 3 ?e)" by (simp add: one_at_a_time_def)
  have nf: "\<not> (\<exists>e \<in> set (replicate 3 ?e). failing e)" by (auto simp: failing_def env_ok_def)
  from fetch_hands_out_the_log [OF one_message_queue(3) log one_message_queue(2) den f es len, of nowhere "''c''" 0 noContext] nf
  show ?thesis by (metis list.distinct(1) option.collapse)
qed

subsection \<open>A consumer that waits for the next segment\<close>


definition patient :: ConsumerConfig where
  "patient = NewConsumerConfig (\<lambda>s. s) ''q'' ''g'' ''n''"

















definition tinyQueue :: "DiskBasedQueue \<Rightarrow> byte list \<Rightarrow> bool" where
  "tinyQueue q bs \<longleftrightarrow> writeSegmentNum q = int (length bs) \<and> writePos q = 0 \<and> writeFile q = None \<and>
     (\<forall>i. dDat (files q) i = (if 0 \<le> i \<and> i < int (length bs) then Some [0, 0, 0, 1, bs ! nat i] else None)) \<and>
     (\<forall>i. dZst (files q) i = None)"


lemma tinyQueue_frame [simp]:
  "tinyQueue (notify q t n) bs = tinyQueue q bs" "tinyQueue (UpdateSegmentConsumerInReading q i s) bs = tinyQueue q bs"
  by (simp_all add: tinyQueue_def)



lemmas fetch_unfold = FetchMessages_def startFetch_def fetchStep_def readBody_def onMessage_def takeMessage_def reload_def
  onEOF_def resetThen_def again_def nextOffsetHere_def notifyRead_def sawSize_def ResetOffset_def openSegment_def
  SmartGetFileName_def getFileSize_def FileExists_def readable_def segBytes_def notFound_def
  env_ok_def NewReader_def prefixLen_def be_value_def to_int32_def Let_def

lemmas fetch_defs = fetch_unfold skipMissing.simps ReadFull.simps








subsection \<open>A message that is still being written\<close>

text \<open>The first segment and the write position as the consumer finds them when a fetch begins.\<close>

definition become :: "bytes \<Rightarrow> int \<Rightarrow> DiskBasedQueue \<Rightarrow> DiskBasedQueue" where
  "become f pos q = q\<lparr>files := emptyDisk\<lparr>dDat := [0 \<mapsto> f]\<rparr>, writePos := pos\<rparr>"

definition tornFetch :: "bytes \<Rightarrow> int \<Rightarrow> DiskBasedQueue \<Rightarrow> Consumer \<Rightarrow> (fetch \<times> bool \<times> string option) go option" where
  "tornFetch f pos q c =
     FetchMessages poison_cfg nowhere Inr patient 0 (env_ok\<lparr>others := become f pos\<rparr> # replicate 3 env_ok) q c noContext"

definition reading :: "nat \<Rightarrow> int \<Rightarrow> int \<Rightarrow> Consumer" where
  "reading off pos mx = \<lparr>conID = ''c'', conFile = Some 0, conMaxBytes = mx, conReader = Some (0, \<lparr>rdOff = off, rdBuf = []\<rparr>),
     conHandle = True, conClosed = False, conSegment = 0, conReadPos = pos, conVersion = 0, lastFileSize = 0,
     fileLoadCompleted = False\<rparr>"

definition seg0 :: "DiskBasedQueue \<Rightarrow> bool" where
  "seg0 q \<longleftrightarrow> writeSegmentNum q = 0"

lemmas torn_defs = tornFetch_def become_def reading_def seg0_def patient_def NewConsumerConfig_def poison_cfg_def sample_cfg_def
  emptyDisk_def noContext_def

lemma torn_acquire:
  "\<exists>q. AcquireConsumer poison_cfg nowhere False ''c'' (become [0, 0, 0, 1, 1] 5 (blankQueue emptyDisk)) (NewOffset 0 0) =
    Ret ((q, reading 0 0 5), None) \<and> seg0 q"
  by (simp add: AcquireConsumer_def newConsumer_def NewOffset_def fetch_defs torn_defs blankQueue_def UpdateSegmentConsumerInReading_def)

lemma torn_fetch1:
  assumes "seg0 q"
  shows "\<exists>st. tornFetch [0, 0, 0, 1, 1] 5 q (reading 0 0 5) = Some (Ret (st, False, None)) \<and>
    map msgData (fmsgs st) = [[1]] \<and> fc st = reading 5 5 5 \<and> seg0 (fq st)"
  using assms by (simp add: fetch_defs torn_defs eval_nat_numeral UpdateSegmentConsumerInReading_def)

lemma torn_reads:
  "ReadFull 4 [0, 0, 0, 1, 1, 0, 0, 0, 3, 7] \<lparr>rdOff = 5, rdBuf = []\<rparr> = ([0, 0, 0, 3], \<lparr>rdOff = 10, rdBuf = [7]\<rparr>)"
  "ReadFull 3 [0, 0, 0, 1, 1, 0, 0, 0, 3, 7] \<lparr>rdOff = 10, rdBuf = [7]\<rparr> = ([7], \<lparr>rdOff = 10, rdBuf = []\<rparr>)"
  "ReadFull 4 [0, 0, 0, 1, 1, 0, 0, 0, 3, 7, 8, 9, 0, 0, 0, 1, 5] \<lparr>rdOff = 12, rdBuf = []\<rparr> = ([0, 0, 0, 1], \<lparr>rdOff = 17, rdBuf = [5]\<rparr>)"
  "ReadFull (Suc 0) [0, 0, 0, 1, 1, 0, 0, 0, 3, 7, 8, 9, 0, 0, 0, 1, 5] \<lparr>rdOff = 17, rdBuf = [5]\<rparr> = ([5], \<lparr>rdOff = 17, rdBuf = []\<rparr>)"
  by (simp_all add: ReadFull.simps)

lemma torn_fetch2:
  assumes "seg0 q"
  shows "\<exists>st. tornFetch [0, 0, 0, 1, 1, 0, 0, 0, 3, 7] 5 q (reading 5 5 5) = Some (Ret (st, False, None)) \<and>
    fmsgs st = [] \<and> fc st = reading 10 12 5 \<and> seg0 (fq st)"
  using assms by (simp add: fetch_unfold torn_reads torn_defs UpdateSegmentConsumerInReading_def)

lemma torn_fetch3:
  assumes "seg0 q"
  shows "\<exists>st. tornFetch [0, 0, 0, 1, 1, 0, 0, 0, 3, 7, 8, 9] 12 q (reading 10 12 5) = Some (Ret (st, False, None)) \<and>
    fmsgs st = [] \<and> fc st = reading 12 12 5 \<and> seg0 (fq st)"
  using assms by (simp add: fetch_defs torn_defs eval_nat_numeral UpdateSegmentConsumerInReading_def)

lemma torn_fetch4:
  assumes "seg0 q"
  shows "\<exists>st. tornFetch [0, 0, 0, 1, 1, 0, 0, 0, 3, 7, 8, 9, 0, 0, 0, 1, 5] 17 q (reading 12 12 5) = Some (Ret (st, False, None)) \<and>
    fmsgs st = [] \<and> fc st = reading 12 12 17 \<and> seg0 (fq st)"
  using assms by (simp add: fetch_unfold torn_reads torn_defs UpdateSegmentConsumerInReading_def)

lemma torn_fetch5:
  assumes "seg0 q"
  shows "\<exists>st. tornFetch [0, 0, 0, 1, 1, 0, 0, 0, 3, 7, 8, 9, 0, 0, 0, 1, 5] 17 q (reading 12 12 17) = Some (Ret (st, False, None)) \<and>
    map msgData (fmsgs st) = [[5]] \<and> fc st = reading 17 17 17 \<and> seg0 (fq st)"
  using assms by (simp add: fetch_unfold torn_reads torn_defs UpdateSegmentConsumerInReading_def)

text \<open>A message that a consumer meets while only a part of it is in the file is never delivered. The
  messages [1], [7, 8, 9] and [5] are written in this order, and the second fetch finds the length prefix and
  the first byte of the second. The read position is moved behind the message before the result of reading
  its body is looked at, so the fetches after the write is complete go on with [5]: over five fetches, none of
  which reports an error, the consumer receives [1] and [5].\<close>

theorem torn_read_skips_message:
  "\<exists>q c st1 st2 st3 st4 st5.
     AcquireConsumer poison_cfg nowhere False ''c'' (become [0, 0, 0, 1, 1] 5 (blankQueue emptyDisk)) (NewOffset 0 0) =
       Ret ((q, c), None) \<and>
     tornFetch [0, 0, 0, 1, 1] 5 q c = Some (Ret (st1, False, None)) \<and>
     tornFetch [0, 0, 0, 1, 1, 0, 0, 0, 3, 7] 5 (fq st1) (fc st1) = Some (Ret (st2, False, None)) \<and>
     tornFetch [0, 0, 0, 1, 1, 0, 0, 0, 3, 7, 8, 9] 12 (fq st2) (fc st2) = Some (Ret (st3, False, None)) \<and>
     tornFetch [0, 0, 0, 1, 1, 0, 0, 0, 3, 7, 8, 9, 0, 0, 0, 1, 5] 17 (fq st3) (fc st3) = Some (Ret (st4, False, None)) \<and>
     tornFetch [0, 0, 0, 1, 1, 0, 0, 0, 3, 7, 8, 9, 0, 0, 0, 1, 5] 17 (fq st4) (fc st4) = Some (Ret (st5, False, None)) \<and>
     map msgData (concat (map fmsgs [st1, st2, st3, st4, st5])) = [[1], [5]]"
proof -
  obtain q where q: "AcquireConsumer poison_cfg nowhere False ''c'' (become [0, 0, 0, 1, 1] 5 (blankQueue emptyDisk)) (NewOffset 0 0) =
      Ret ((q, reading 0 0 5), None)" "seg0 q" using torn_acquire by auto
  obtain st1 where 1: "tornFetch [0, 0, 0, 1, 1] 5 q (reading 0 0 5) = Some (Ret (st1, False, None))"
    "map msgData (fmsgs st1) = [[1]]" "fc st1 = reading 5 5 5" "seg0 (fq st1)" using torn_fetch1 [OF q(2)] by auto
  obtain st2 where 2: "tornFetch [0, 0, 0, 1, 1, 0, 0, 0, 3, 7] 5 (fq st1) (fc st1) = Some (Ret (st2, False, None))"
    "fmsgs st2 = []" "fc st2 = reading 10 12 5" "seg0 (fq st2)" using torn_fetch2 [OF 1(4)] 1(3) by auto
  obtain st3 where 3: "tornFetch [0, 0, 0, 1, 1, 0, 0, 0, 3, 7, 8, 9] 12 (fq st2) (fc st2) = Some (Ret (st3, False, None))"
    "fmsgs st3 = []" "fc st3 = reading 12 12 5" "seg0 (fq st3)" using torn_fetch3 [OF 2(4)] 2(3) by auto
  obtain st4 where 4: "tornFetch [0, 0, 0, 1, 1, 0, 0, 0, 3, 7, 8, 9, 0, 0, 0, 1, 5] 17 (fq st3) (fc st3) = Some (Ret (st4, False, None))"
    "fmsgs st4 = []" "fc st4 = reading 12 12 17" "seg0 (fq st4)" using torn_fetch4 [OF 3(4)] 3(3) by auto
  obtain st5 where 5: "tornFetch [0, 0, 0, 1, 1, 0, 0, 0, 3, 7, 8, 9, 0, 0, 0, 1, 5] 17 (fq st4) (fc st4) = Some (Ret (st5, False, None))"
    "map msgData (fmsgs st5) = [[5]]" using torn_fetch5 [OF 4(4)] 4(3) by auto
  from q 1 2 3 4 5 show ?thesis
    by (intro exI [of _ q] exI [of _ "reading 0 0 5"] exI [of _ st1] exI [of _ st2] exI [of _ st3] exI [of _ st4]
        exI [of _ st5] conjI) (simp_all only: list.map concat.simps map_append append.simps append_Nil2)
qed

end
