(* ===== verification/DiskFetchBounds.thy ===== *)
theory DiskFetchBounds
  imports DiskDelivery
begin

section \<open>Bounds of a fetch\<close>

text \<open>
  How much one call of \<open>FetchMessages\<close> hands out, in every environment: whatever the files hold, whatever
  the other parties do to the queue between two passes, and whatever fails. Only \<open>onMessage\<close> extends the
  batch; every other branch leaves it alone.
\<close>

definition batch :: "fetch \<Rightarrow> Message list \<times> int \<times> int \<times> int" where
  "batch st = (fmsgs st, fsize st, MessageCount (fctx st), Version (NextOffset (fctx st)))"

fun jumpState :: "jump \<Rightarrow> fetch" where
  "jumpState (Again st) = st"
| "jumpState (Finish st _ _) = st"

definition sameBatch :: "fetch \<Rightarrow> jump go \<Rightarrow> bool" where
  "sameBatch st r \<longleftrightarrow> (\<forall>j. r = Ret j \<longrightarrow> batch (jumpState j) = batch st)"

lemma batch_frame [simp]:
  "batch (st\<lparr>fq := q\<rparr>) = batch st" "batch (st\<lparr>fc := c\<rparr>) = batch st" "batch (st\<lparr>fretry := n\<rparr>) = batch st"
  "batch (st\<lparr>fq := q, fc := c\<rparr>) = batch st"
  "batch (nextOffsetHere st) = batch st" "batch (notifyRead st) = batch st" "batch (sawSize st s) = batch st"
  "batch (st\<lparr>fctx := UpdateNextOffset (fctx st) a b\<rparr>) = batch st"
  "batch (st\<lparr>fctx := UpdateNextOffset (fctx st) a b, fretry := n\<rparr>) = batch st"
  by (simp_all add: batch_def nextOffsetHere_def notifyRead_def sawSize_def UpdateNextOffset_def)

lemma sameBatch_Ret [simp]: "sameBatch st (Ret j) \<longleftrightarrow> batch (jumpState j) = batch st"
  and sameBatch_Panic [simp]: "sameBatch st (Panic m)"
  by (simp_all add: sameBatch_def)

lemma sameBatch_bind: "(\<And>x. m = Ret x \<Longrightarrow> sameBatch st (f x)) \<Longrightarrow> sameBatch st (go_bind m f)"
  by (cases m) (simp_all add: sameBatch_def)

lemma resetThen_batch:
  assumes "\<And>st'. batch st' = batch st \<Longrightarrow> batch (jumpState (k st')) = batch st"
  shows "sameBatch st (resetThen cfg rm e st seg pos k)"
  unfolding resetThen_def
  by (rule sameBatch_bind) (auto simp: Let_def assms split: prod.split option.split)

lemma resetThen_batch':
  assumes "batch st0 = batch st" "\<And>st'. batch st' = batch st \<Longrightarrow> batch (jumpState (k st')) = batch st"
  shows "sameBatch st (resetThen cfg rm e st0 seg pos k)"
  using resetThen_batch [of st0 k cfg rm e seg pos] assms by (simp add: sameBatch_def)

lemma onEOF_batch: "sameBatch st (onEOF cfg rm e st)"
  unfolding onEOF_def Let_def
  by (auto intro!: resetThen_batch' sameBatch_bind simp: again_def split: prod.split)

lemma onInvalid_batch: "sameBatch st (onInvalid cfg rm e st)"
  unfolding onInvalid_def Let_def
  by (auto intro!: sameBatch_bind split: prod.split option.split) (simp_all add: batch_def notifyRead_def UpdateNextOffset_def)

lemma reload_batch: "sameBatch st (reload cfg rm e st p err)"
  unfolding reload_def Let_def
  by (auto intro!: resetThen_batch' sameBatch_bind simp: again_def split: prod.split)


text \<open>The batch while the loop goes on, and when it ends.\<close>

fun bounded :: "ConsumerConfig \<Rightarrow> int \<Rightarrow> int \<Rightarrow> Message list \<times> int \<times> int \<times> int \<Rightarrow> bool" where
  "bounded ccfg n v (ms, bytes, cnt, ver) \<longleftrightarrow> ver = v \<and> bytes = sum_list (map msgSize ms) \<and> cnt = int (length ms) \<and>
     (ms = [] \<or> (int (length ms) \<le> max 1 (FetchMaxMessages ccfg) \<and> (n > 0 \<longrightarrow> int (length ms) \<le> n) \<and>
        (FetchMaxBytes ccfg > 0 \<longrightarrow> sum_list (map msgSize (butlast ms)) \<le> FetchMaxBytes ccfg)))"

fun growing :: "ConsumerConfig \<Rightarrow> int \<Rightarrow> int \<Rightarrow> Message list \<times> int \<times> int \<times> int \<Rightarrow> bool" where
  "growing ccfg n v (ms, bytes, cnt, ver) \<longleftrightarrow> bounded ccfg n v (ms, bytes, cnt, ver) \<and>
     (ms = [] \<or> (int (length ms) < FetchMaxMessages ccfg \<and> (n > 0 \<longrightarrow> int (length ms) < n) \<and>
        (FetchMaxBytes ccfg > 0 \<longrightarrow> bytes \<le> FetchMaxBytes ccfg)))"

definition batchStep :: "ConsumerConfig \<Rightarrow> int \<Rightarrow> int \<Rightarrow> jump \<Rightarrow> bool" where
  "batchStep ccfg n v j \<longleftrightarrow>
     (case j of Again st \<Rightarrow> growing ccfg n v (batch st) | Finish st _ _ \<Rightarrow> bounded ccfg n v (batch st))"

lemma growing_bounded: "growing ccfg n v b \<Longrightarrow> bounded ccfg n v b"
  by (cases b) simp

lemma sameBatch_step: "sameBatch st r \<Longrightarrow> growing ccfg n v (batch st) \<Longrightarrow> r = Ret j \<Longrightarrow> batchStep ccfg n v j"
  by (cases j) (auto simp: batchStep_def sameBatch_def growing_bounded)

lemma takeMessage_bounded:
  assumes "growing ccfg n v (batch st)"
  shows "bounded ccfg n v (batch (takeMessage st p t d))"
  using assms by (auto simp: batch_def takeMessage_def Let_def UpdateNextOffset_def max_def butlast_append)

lemma onMessage_step:
  assumes "growing ccfg n v (batch st)" "onMessage cfg rm zd ccfg n e st p t buf = Ret j"
  shows "batchStep ccfg n v j"
proof -
  let ?st = "\<lambda>data. takeMessage st p t data"
  let ?full = "\<lambda>data. int (length (fmsgs (?st data))) \<ge> FetchMaxMessages ccfg \<or> (int (length (fmsgs (?st data))) \<ge> n \<and> n > 0) \<or>
    (fsize (?st data) > FetchMaxBytes ccfg \<and> FetchMaxBytes ccfg > 0)"
  have fin: "bounded ccfg n v (batch (?st data))" for data by (rule takeMessage_bounded [OF assms(1)])
  have go: "growing ccfg n v (batch (?st data))" if "\<not> ?full data" for data
    using fin [of data] that by (auto simp: batch_def)
  have rel: "batchStep ccfg n v j" if "reload cfg rm e st' np err = Ret j" "growing ccfg n v (batch st')" for st' np err
    using sameBatch_step [OF reload_batch that(2,1)] .
  from assms show ?thesis
    by (auto simp: onMessage_def Let_def batchStep_def growing_bounded fin split: if_splits sum.splits
        intro: rel [unfolded batchStep_def] go)
qed

lemma readBody_step:
  assumes "growing ccfg n v (batch st)" "readBody cfg rm zd ccfg n e st file r msgLen = Ret j"
  shows "batchStep ccfg n v j"
proof -
  obtain buf r' where rf: "ReadFull (nat msgLen) (readable (fq st) (fc st) file r) r = (buf, r')" by fastforce
  let ?st = "st\<lparr>fc := (fc st)\<lparr>conReader := Some (file, r'), conReadPos := conReadPos (fc st) + to_int32 (4 + msgLen)\<rparr>\<rparr>"
  have b: "growing ccfg n v (batch ?st)" using assms(1) by simp
  have fin: "batchStep ccfg n v (Finish ?st t err)" for t err using growing_bounded [OF b] by (simp add: batchStep_def)
  from assms(2) rf show ?thesis
    by (auto simp: readBody_def Let_def fin split: if_splits
        intro: sameBatch_step [OF reload_batch b] onMessage_step [OF b])
qed

lemma fetchStep_step:
  assumes "growing ccfg n v (batch st)" "fetchStep cfg rm zd ccfg n e st = Ret j"
  shows "batchStep ccfg n v j"
proof -
  let ?st = "st\<lparr>fq := others e (fq st)\<rparr>"
  have b: "growing ccfg n v (batch ?st)" using assms(1) by simp
  have fin: "batchStep ccfg n v (Finish ?st t err)" for t err using growing_bounded [OF b] by (simp add: batchStep_def)
  show ?thesis
  proof (cases "conReader (fc ?st)")
    case None
    then show ?thesis using assms(2) fin by (auto simp: fetchStep_def Let_def split: if_splits)
  next
    case (Some p)
    obtain fl r where p: "p = (fl, r)" by (cases p)
    obtain pre r' where rf: "ReadFull 4 (readable (fq ?st) (fc ?st) fl r) r = (pre, r')" by fastforce
    let ?st1 = "?st\<lparr>fc := (fc ?st)\<lparr>conReader := Some (fl, r')\<rparr>\<rparr>"
    have b1: "growing ccfg n v (batch ?st1)" using assms(1) by simp
    from assms(2) Some p rf show ?thesis
      by (auto simp: fetchStep_def Let_def fin split: if_splits
          intro: sameBatch_step [OF onEOF_batch b1] sameBatch_step [OF onInvalid_batch b1] readBody_step [OF b1])
  qed
qed

lemma fetchLoop_bounded:
  "growing ccfg n v (batch st) \<Longrightarrow> fetchLoop cfg rm zd ccfg n es st = Some (Ret (st', t, err)) \<Longrightarrow> bounded ccfg n v (batch st')"
proof (induction cfg rm zd ccfg n es st rule: fetchLoop.induct)
  case (2 cfg rm zd ccfg n e es st)
  from "2.prems"(2) obtain j where j: "fetchStep cfg rm zd ccfg n e st = Ret j" by (cases "fetchStep cfg rm zd ccfg n e st") auto
  note step = fetchStep_step [OF "2.prems"(1) j]
  show ?case
  proof (cases j)
    case (Again s)
    then show ?thesis using "2.IH" [OF j] "2.prems"(2) step j by (simp add: batchStep_def)
  next
    case (Finish s t' e')
    then show ?thesis using "2.prems"(2) step j by (simp add: batchStep_def)
  qed
qed simp

lemma fetch_bounded:
  assumes "FetchMessages cfg rm zd ccfg n es q c ctx = Some (Ret (st, timeout, err))"
  shows "bounded ccfg n (Version (NextOffset (fctx (startFetch q c ctx)))) (batch st)"
proof -
  let ?v = "Version (NextOffset (fctx (startFetch q c ctx)))"
  have start: "growing ccfg n ?v (batch (startFetch q c ctx))"
    by (simp add: batch_def startFetch_def Let_def UpdateInitOffset_def)
  show ?thesis
  proof (cases "writeSegmentNum q < conSegment c")
    case True
    then show ?thesis using assms growing_bounded [OF start] by (simp add: FetchMessages_def Let_def)
  next
    case False
    then show ?thesis using assms fetchLoop_bounded [OF start] by (simp add: FetchMessages_def Let_def)
  qed
qed

text \<open>C22: a fetch respects its limits in every environment. It returns at most \<open>FetchMaxMessages\<close> messages, or one
  if that is less than one, and no more than were asked for; without the last message the batch has at
  most \<open>FetchMaxBytes\<close> bytes; and the count in the context is the number of messages returned. Nothing is
  assumed of the files, of what others do to the queue, or of which calls fail.\<close>

theorem fetch_respects_limits:
  assumes "FetchMessages cfg rm zd ccfg n es q c ctx = Some (Ret (st, timeout, err))"
  shows "int (length (fmsgs st)) \<le> max 1 (FetchMaxMessages ccfg) \<and> (n > 0 \<longrightarrow> int (length (fmsgs st)) \<le> n) \<and>
    (FetchMaxBytes ccfg > 0 \<longrightarrow> sum_list (map msgSize (butlast (fmsgs st))) \<le> FetchMaxBytes ccfg) \<and>
    MessageCount (fctx st) = int (length (fmsgs st))"
  using fetch_bounded [OF assms] by (auto simp: batch_def)

theorem fetch_respects_limits_witness:
  "\<exists>q st. tornFetch [0, 0, 0, 1, 1] 5 q (reading 0 0 5) = Some (Ret (st, False, None)) \<and>
    MessageCount (fctx st) = int (length (fmsgs st)) \<and> map msgData (fmsgs st) = [[1]]"
proof -
  have "seg0 (blankQueue emptyDisk)" by (simp add: seg0_def blankQueue_def)
  from torn_fetch1 [OF this] obtain st where
    st: "tornFetch [0, 0, 0, 1, 1] 5 (blankQueue emptyDisk) (reading 0 0 5) = Some (Ret (st, False, None))" "map msgData (fmsgs st) = [[1]]"
    by (elim exE conjE)
  note lim = fetch_respects_limits [OF st(1) [unfolded tornFetch_def]]
  show ?thesis
    by (rule exI [of _ "blankQueue emptyDisk"], rule exI [of _ st], intro conjI)
      (rule st(1), rule lim [THEN conjunct2, THEN conjunct2, THEN conjunct2], rule st(2))
qed

end
