(* ===== verification/OffsetStore.thy ===== *)
theory OffsetStore
  imports QueueTypes SimpleKv
begin

section \<open>Committed consumer offsets\<close>

text \<open>
  \<open>modules/queue/disk_queue/module.go\<close>: \<open>loadOffset\<close>, \<open>saveOffset\<close> and \<open>deleteOffset\<close>, which
  keep the committed offset of a consumer in the key-value store. A commit is refused with a panic
  when the stored offset is newer; a reset stores \<open>0,0\<close> with the next version, so that commits
  still in flight from before the reset are refused as well.

  The operations take the key-value handler as an argument. Their laws are proved once in the
  context of the contract \<open>kv_store\<close> and reach the properties through its interpretation with the
  file-backed store.
\<close>

definition ConsumerOffsetBucket :: string where
  "ConsumerOffsetBucket = ''queue_consumer_commit_offset''"

definition ConsumerBucket :: string where
  "ConsumerBucket = ''queue_consumers''"

definition commitBytes :: "QueueConfig \<Rightarrow> ConsumerConfig \<Rightarrow> bytes" where
  "commitBytes k consumer = str_bytes (getCommitKey k consumer)"

definition loadOffset :: "'s KVHandler \<Rightarrow> 's \<Rightarrow> QueueConfig \<Rightarrow> ConsumerConfig \<Rightarrow> Offset go" where
  "loadOffset h s k consumer =
     (case hGetValue h s ConsumerOffsetBucket (commitBytes k consumer) of
        Inr (Some b) \<Rightarrow> if length b > 0 then DecodeFromString (bytes_str b) else Ret (NewOffset 0 0)
      | Inr None \<Rightarrow> Ret (NewOffset 0 0)
      | Inl _ \<Rightarrow> Ret (NewOffset 0 0))"

definition saveOffset ::
  "'s KVHandler \<Rightarrow> 's \<Rightarrow> QueueConfig \<Rightarrow> ConsumerConfig \<Rightarrow> Offset \<Rightarrow> ('s \<times> bool \<times> string option) go" where
  "saveOffset h s k consumer offset =
     (if \<not> hExistsKey h s ConsumerBucket (str_bytes (qID k))
      then Ret (s, False, Some (''consumer '' @ Key consumer @ '' for queue '' @ qID k @ '' was not found''))
      else go_bind (loadOffset h s k consumer) (\<lambda>current.
        if LatestThan current offset
        then Panic (''consumer: current offset is larger than committed value'')
        else (case hAddValue h s ConsumerOffsetBucket (commitBytes k consumer)
                     (str_bytes (EncodeToString offset)) of
                (s', Some err) \<Rightarrow> Ret (s', False, Some err)
              | (s', None) \<Rightarrow> Ret (s', True, None))))"

definition deleteOffset ::
  "'s KVHandler \<Rightarrow> 's \<Rightarrow> QueueConfig \<Rightarrow> ConsumerConfig \<Rightarrow> ('s \<times> string option) go" where
  "deleteOffset h s k consumer =
     (if \<not> hExistsKey h s ConsumerBucket (str_bytes (qID k))
      then Ret (s, Some (''consumer '' @ Key consumer @ '' for queue '' @ qID k @ '' was not found''))
      else go_bind (loadOffset h s k consumer) (\<lambda>oldOffset.
        let o' = oldOffset\<lparr>Segment := 0, Position := 0, Version := to_int64 (Version oldOffset + 1)\<rparr>
        in Ret (hAddValue h s ConsumerOffsetBucket (commitBytes k consumer)
                  (str_bytes (EncodeToString o')))))"

lemma EncodeToString_nonempty [simp]: "EncodeToString c \<noteq> []"
  by (simp add: EncodeToString_def)

lemma bucket_names [simp]:
  "CHR '','' \<notin> set ConsumerOffsetBucket" "CHR '','' \<notin> set ConsumerBucket"
  "ConsumerOffsetBucket \<noteq> ConsumerBucket"
  by (simp_all add: ConsumerOffsetBucket_def ConsumerBucket_def)

text \<open>Any sequence of commits and resets, by any consumers of any queues.\<close>

inductive offset_run :: "'s KVHandler \<Rightarrow> 's \<Rightarrow> 's \<Rightarrow> bool" for h :: "'s KVHandler" where
  start: "offset_run h s s"
| commit: "offset_run h s s' \<Longrightarrow> fits_offset offset \<Longrightarrow>
    saveOffset h s' k c offset = Ret (s'', r) \<Longrightarrow> offset_run h s s''"
| reset: "offset_run h s s' \<Longrightarrow> loadOffset h s' k c = Ret cur \<Longrightarrow> fits_int64 (Version cur + 1) \<Longrightarrow>
    deleteOffset h s' k c = Ret (s'', err) \<Longrightarrow> offset_run h s s''"

lemma loadOffset_key: "getCommitKey k c = getCommitKey k' c' \<Longrightarrow> loadOffset h s k c = loadOffset h s k' c'"
  by (simp add: loadOffset_def commitBytes_def)

context kv_store
begin

lemma load_after_add:
  assumes "usable s" "fits_offset offset"
  shows "loadOffset h (fst (hAddValue h s ConsumerOffsetBucket (commitBytes k c)
    (str_bytes (EncodeToString offset)))) k c = Ret offset"
  using assms get_add_same [of s] Decode_Encode [of offset] by (simp add: loadOffset_def)

lemma load_add_other:
  assumes "usable s" "bucket_ok ConsumerOffsetBucket" "getCommitKey k c \<noteq> getCommitKey k' c'"
  shows "loadOffset h (fst (hAddValue h s ConsumerOffsetBucket (commitBytes k c) v)) k' c' =
    loadOffset h s k' c'"
  using assms get_add_other [of s ConsumerOffsetBucket ConsumerOffsetBucket "commitBytes k c" "commitBytes k' c'"]
  by (simp add: loadOffset_def commitBytes_def inj_str_bytes)

lemma save_cases:
  assumes "saveOffset h s k c offset = Ret (s', ok, err)"
  shows "(s' = s \<and> \<not> ok) \<or>
    (\<exists>cur. loadOffset h s k c = Ret cur \<and> \<not> LatestThan cur offset \<and> (ok \<longleftrightarrow> err = None) \<and>
       s' = fst (hAddValue h s ConsumerOffsetBucket (commitBytes k c) (str_bytes (EncodeToString offset))))"
  using assms
  by (auto simp: saveOffset_def go_bind_Ret_iff split: if_splits prod.splits option.splits)

lemma save_commits:
  assumes "usable s" "fits_offset offset" "saveOffset h s k c offset = Ret (s', True, err)"
  shows "loadOffset h s' k c = Ret offset"
    "\<exists>cur. loadOffset h s k c = Ret cur \<and> \<not> LatestThan cur offset"
  using save_cases [OF assms(3)] load_after_add [OF assms(1,2)] by auto

lemma delete_resets:
  assumes "usable s" "loadOffset h s k c = Ret cur"
    and "hExistsKey h s ConsumerBucket (str_bytes (qID k))"
  shows "\<exists>s' err. deleteOffset h s k c = Ret (s', err) \<and> usable s' \<and>
    loadOffset h s' k c = Ret (NewOffsetWithVersion 0 0 (to_int64 (Version cur + 1)))"
proof -
  let ?o = "cur\<lparr>Segment := 0, Position := 0, Version := to_int64 (Version cur + 1)\<rparr>"
  have "fits_offset ?o"
    using signed_take_bit_int_less_exp [of 63] signed_take_bit_int_greater_eq_minus_exp [of 63]
    by (simp add: fits_offset_def fits_int64_def to_int64_def)
  then have "loadOffset h (fst (hAddValue h s ConsumerOffsetBucket (commitBytes k c)
      (str_bytes (EncodeToString ?o)))) k c = Ret ?o"
    by (rule load_after_add [OF assms(1)])
  with assms usable_add show ?thesis
    by (auto simp: deleteOffset_def Let_def NewOffsetWithVersion_def prod_eq_iff
        intro!: exI [of _ "fst (hAddValue h s ConsumerOffsetBucket (commitBytes k c)
          (str_bytes (EncodeToString ?o)))"]
          exI [of _ "snd (hAddValue h s ConsumerOffsetBucket (commitBytes k c)
          (str_bytes (EncodeToString ?o)))"])
qed

lemma delete_cases:
  assumes "deleteOffset h s k c = Ret (s', err)"
  shows "s' = s \<or>
    (\<exists>cur. loadOffset h s k c = Ret cur \<and>
       s' = fst (hAddValue h s ConsumerOffsetBucket (commitBytes k c)
         (str_bytes (EncodeToString (NewOffsetWithVersion 0 0 (to_int64 (Version cur + 1)))))))"
  using assms
  by (auto simp: deleteOffset_def go_bind_Ret_iff Let_def NewOffsetWithVersion_def EncodeToString_def
      split: if_splits)

lemma write_advances:
  assumes "usable s" "bucket_ok ConsumerOffsetBucket" "fits_offset offset"
    and "loadOffset h s k' c' = Ret cur'" "offset_le cur' offset" "loadOffset h s k c = Ret cur"
  shows "\<exists>o'. loadOffset h (fst (hAddValue h s ConsumerOffsetBucket (commitBytes k' c')
      (str_bytes (EncodeToString offset)))) k c = Ret o' \<and> offset_le cur o'"
proof (cases "getCommitKey k' c' = getCommitKey k c")
  case True
  have "cur = cur'" using assms(4,6) loadOffset_key [OF True, of h s] by simp
  with load_after_add [OF assms(1,3), of k' c'] loadOffset_key [OF True, of h] assms(5)
  show ?thesis by simp
next
  case False
  with load_add_other [OF assms(1,2) False] assms(6) show ?thesis by simp
qed

lemma run_usable: "offset_run h s s' \<Longrightarrow> usable s \<Longrightarrow> usable s'"
proof (induction rule: offset_run.induct)
  case (commit s s' offset k c s'' r)
  obtain ok err where "r = (ok, err)" by force
  with commit save_cases [of s' k c offset s'' ok err] usable_add show ?case by auto
next
  case (reset s s' k c cur s'' err)
  with delete_cases [of s' k c s'' err] usable_add show ?case by auto
qed

lemma run_monotone:
  assumes "offset_run h s s'" "usable s" "bucket_ok ConsumerOffsetBucket" "loadOffset h s k c = Ret cur"
  shows "\<exists>o'. loadOffset h s' k c = Ret o' \<and> offset_le cur o'"
  using assms
proof (induction rule: offset_run.induct)
  case (commit s s' offset k' c' s'' r)
  then obtain o' where o': "loadOffset h s' k c = Ret o'" "offset_le cur o'" by auto
  obtain ok err where r: "r = (ok, err)" by force
  have us: "usable s'" using run_usable commit by blast
  from save_cases [of s' k' c' offset s'' ok err] commit(3) r
  consider "s'' = s'" | cur' where "loadOffset h s' k' c' = Ret cur'" "offset_le cur' offset"
    "s'' = fst (hAddValue h s' ConsumerOffsetBucket (commitBytes k' c') (str_bytes (EncodeToString offset)))"
    by (auto simp: offset_le_def)
  then show ?case
  proof cases
    case 2
    with write_advances [OF us commit(6) commit(2) 2(1,2) o'(1)] o'(2) show ?thesis
      using commit_order.order_trans by blast
  qed (use o' in auto)
next
  case (reset s s' k' c' cur' s'' err)
  then obtain o' where o': "loadOffset h s' k c = Ret o'" "offset_le cur o'" by auto
  have us: "usable s'" using run_usable reset by blast
  let ?n = "NewOffsetWithVersion 0 0 (to_int64 (Version cur' + 1))"
  have n: "fits_offset ?n" "offset_le cur' ?n"
    using reset(3) by (auto simp: fits_offset_def fits_int64_def NewOffsetWithVersion_def
        to_int64_id offset_le_def LatestThan_lex)
  from delete_cases [of s' k' c' s'' err] reset(2,4)
  consider "s'' = s'" | "s'' = fst (hAddValue h s' ConsumerOffsetBucket (commitBytes k' c')
    (str_bytes (EncodeToString ?n)))"
    by auto
  then show ?case
  proof cases
    case 2
    with write_advances [OF us reset(7) n(1) reset(2) n(2) o'(1)] o'(2) show ?thesis
      using commit_order.order_trans by blast
  qed (use o' in auto)
qed (auto)

lemma stale_commit_refused:
  assumes "usable s" "loadOffset h s k c = Ret cur" "deleteOffset h s k c = Ret (s', None)"
    and "bucket_ok ConsumerOffsetBucket" "bucket_ok ConsumerBucket"
    and "fits_int64 (Version cur + 1)" "Version offset \<le> Version cur"
  shows "is_panic (saveOffset h s' k c offset)"
proof -
  have ex: "hExistsKey h s ConsumerBucket (str_bytes (qID k))"
    using assms(3) by (auto simp: deleteOffset_def split: if_splits)
  obtain s1 err where s1: "deleteOffset h s k c = Ret (s1, err)"
      "loadOffset h s1 k c = Ret (NewOffsetWithVersion 0 0 (Version cur + 1))"
    using delete_resets [OF assms(1,2) ex] assms(6) by (auto simp: to_int64_id)
  from s1(1) assms(3) have "s1 = s'" by simp
  moreover have "hExistsKey h s' ConsumerBucket (str_bytes (qID k))"
    using delete_cases [OF assms(3)] ex exists_add_other [OF assms(1,4,5)] by auto
  ultimately show ?thesis
    using s1(2) assms(7)
    by (simp add: saveOffset_def LatestThan_def NewOffsetWithVersion_def)
qed

end

subsection \<open>The offsets in the file-backed store\<close>

definition sample_queue :: QueueConfig where
  "sample_queue = \<lparr>qID = ''q1'', qName = ''q1'', qSource = [], qCodec = [], qType = ''disk'',
     qCreated = [], qLabels = None\<rparr>"

definition sample_consumer :: ConsumerConfig where
  "sample_consumer = NewConsumerConfig (\<lambda>s. s) ''q1'' ''g'' ''c''"

definition sample_store :: SimpleKV where
  "sample_store = \<lparr>closed = False, kvstore =
     \<lparr>kvData = [joinKey ConsumerBucket (str_bytes ''q1'') \<mapsto> str_bytes ''{}''],
      walFile = [], lastState = NoSnapshot, walPlan = []\<rparr>\<rparr>"

lemma sample_load: "loadOffset simple_kv sample_store sample_queue sample_consumer = Ret (NewOffset 0 0)"
  by (simp add: loadOffset_def simple_kv_def GetValue_def kvGet_def sample_store_def joinKey_inj)

lemma sample_exists: "hExistsKey simple_kv sample_store ConsumerBucket (str_bytes (qID sample_queue))"
  by (simp add: simple_kv_def ExistsKey_def Exists_def kvGet_def sample_store_def sample_queue_def)

lemma sample_open: "\<not> closed sample_store"
  by (simp add: sample_store_def)

text \<open>C4: the committed offset of a consumer never moves back. Over any sequence of commits and
  resets, by this consumer and by others, the offset that \<open>loadOffset\<close> returns at the end is not
  older than the one it returned at the start.\<close>

theorem committed_offset_monotone:
  assumes "\<not> closed f" "offset_run simple_kv f f'" "loadOffset simple_kv f k c = Ret cur"
  shows "\<exists>o'. loadOffset simple_kv f' k c = Ret o' \<and> \<not> LatestThan cur o'"
  using skv.run_monotone [OF assms(2,1) bucket_names(1) assms(3)] by (simp add: offset_le_def)

theorem committed_offset_monotone_witness:
  "\<exists>f'. saveOffset simple_kv sample_store sample_queue sample_consumer (NewOffset 2 70) = Ret (f', True, None) \<and>
    (\<exists>o'. loadOffset simple_kv f' sample_queue sample_consumer = Ret o' \<and> \<not> LatestThan (NewOffset 0 0) o')"
proof -
  let ?o = "NewOffset 2 70"
  let ?f = "fst (AddValue sample_store ConsumerOffsetBucket (commitBytes sample_queue sample_consumer)
    (str_bytes (EncodeToString ?o)))"
  have save: "saveOffset simple_kv sample_store sample_queue sample_consumer ?o = Ret (?f, True, None)"
    using sample_exists sample_load
    by (simp add: saveOffset_def LatestThan_def NewOffset_def)
      (simp add: simple_kv_def AddValue_def sample_store_def kvSet_def writeEntry_def)
  have "offset_run simple_kv sample_store ?f"
    by (rule offset_run.commit [OF offset_run.start _ save])
      (simp add: fits_offset_def fits_int64_def NewOffset_def)
  from committed_offset_monotone [OF sample_open this sample_load] save show ?thesis by blast
qed

text \<open>C5: a reset fences off the commits still in flight. After a successful \<open>deleteOffset\<close> the
  consumer starts again at \<open>0,0\<close> with the next version, and every commit that carries the
  version from before the reset, or an older one, panics whatever its segment and position.\<close>

theorem reset_fences_stale_commits:
  assumes "\<not> closed f" "loadOffset simple_kv f k c = Ret cur" "fits_int64 (Version cur + 1)"
    and "deleteOffset simple_kv f k c = Ret (f', None)" "Version offset \<le> Version cur"
  shows "loadOffset simple_kv f' k c = Ret (NewOffsetWithVersion 0 0 (Version cur + 1)) \<and>
    is_panic (saveOffset simple_kv f' k c offset)"
proof
  have "hExistsKey simple_kv f ConsumerBucket (str_bytes (qID k))"
    using assms(4) by (auto simp: deleteOffset_def split: if_splits)
  from skv.delete_resets [OF assms(1,2) this] assms(3,4)
  show "loadOffset simple_kv f' k c = Ret (NewOffsetWithVersion 0 0 (Version cur + 1))"
    by (auto simp: to_int64_id)
  show "is_panic (saveOffset simple_kv f' k c offset)"
    by (rule skv.stale_commit_refused [OF assms(1,2,4) _ _ assms(3,5)]) simp_all
qed

theorem reset_fences_stale_commits_witness:
  "\<exists>f'. deleteOffset simple_kv sample_store sample_queue sample_consumer = Ret (f', None) \<and>
    is_panic (saveOffset simple_kv f' sample_queue sample_consumer (NewOffset 7 4096))"
proof -
  obtain f' where f': "deleteOffset simple_kv sample_store sample_queue sample_consumer = Ret (f', None)"
    using sample_exists sample_load
    by (simp add: deleteOffset_def NewOffset_def Let_def)
      (simp add: simple_kv_def AddValue_def sample_store_def kvSet_def writeEntry_def)
  from reset_fences_stale_commits [OF sample_open sample_load _ this, of "NewOffset 7 4096"] f'
  show ?thesis by (auto simp: fits_int64_def NewOffset_def)
qed

end
