(* ===== verification/ConsumerRegistry.thy ===== *)
theory ConsumerRegistry
  imports OffsetStore "HOL-Library.AList"
begin

section \<open>The registry of consumers\<close>

text \<open>
  \<open>core/queue/consumer_config.go\<close>: the consumers of a queue are kept in the key-value store, one
  JSON object per queue that maps the key of a consumer to its configuration.

  \<^item> \<open>'s registry\<close> is the key-value store with the calls made to the registered listeners.
  \<^item> The JSON library is a parameter: \<open>json\<close> has its encoder, and its decoder for non-empty input.
    A Go map is an association list, which is also the order in which the code ranges over it.
  \<^item> \<open>RemoveAllConsumers\<close> resets the offsets through the queue handler; here this is the disk
    queue's \<open>deleteOffset\<close>.
\<close>

type_synonym consumers = "(string \<times> ConsumerConfig) list"

record json =
  toConsumers :: "consumers \<Rightarrow> bytes"
  fromConsumers :: "bytes \<Rightarrow> string + consumers"

record 's registry =
  rkv :: 's
  consumerConfigListener :: "string list"
  announced :: "(string \<times> string \<times> consumers) list"

text \<open>\<open>util.FromJSONBytes\<close> leaves the target alone when there is nothing to decode.\<close>

definition FromJSONBytes :: "(bytes \<Rightarrow> string + 'a) \<Rightarrow> bytes option \<Rightarrow> 'a \<Rightarrow> string + 'a" where
  "FromJSONBytes unmarshal b v = (case b of None \<Rightarrow> Inr v | Some b \<Rightarrow> if b = [] then Inr v else unmarshal b)"

definition RegisterConsumerConfigChangeListener :: "'s registry \<Rightarrow> string \<Rightarrow> 's registry" where
  "RegisterConsumerConfigChangeListener r l =
     r\<lparr>consumerConfigListener := consumerConfigListener r @ [l]\<rparr>"

definition TriggerChangeEvent :: "'s registry \<Rightarrow> string \<Rightarrow> consumers \<Rightarrow> 's registry" where
  "TriggerChangeEvent r queueID cfgs =
     r\<lparr>announced := announced r @ map (\<lambda>f. (f, queueID, cfgs)) (consumerConfigListener r)\<rparr>"

definition RegisterConsumer ::
  "'s KVHandler \<Rightarrow> json \<Rightarrow> 's registry \<Rightarrow> string \<Rightarrow> ConsumerConfig \<Rightarrow> ('s registry \<times> bool \<times> string option) go" where
  "RegisterConsumer h j r queueID consumer =
     (let add = (\<lambda>cfgs.
            let cfgs = AList.update (Key consumer) consumer cfgs;
                r = r\<lparr>rkv := fst (hAddValue h (rkv r) ConsumerBucket (str_bytes queueID) (toConsumers j cfgs))\<rparr>
            in Ret (TriggerChangeEvent r queueID cfgs, True, None))
      in if hExistsKey h (rkv r) ConsumerBucket (str_bytes queueID) then
           (case hGetValue h (rkv r) ConsumerBucket (str_bytes queueID) of
              Inl err \<Rightarrow> Panic err
            | Inr data \<Rightarrow>
                (case FromJSONBytes (fromConsumers j) data [] of Inl err \<Rightarrow> Panic err | Inr cfgs \<Rightarrow> add cfgs))
         else add [])"

definition GetConsumerConfig ::
  "'s KVHandler \<Rightarrow> json \<Rightarrow> 's registry \<Rightarrow> string \<Rightarrow> string \<Rightarrow> string \<Rightarrow> ConsumerConfig option go" where
  "GetConsumerConfig h j r queueID grp name =
     (case hGetValue h (rkv r) ConsumerBucket (str_bytes queueID) of
        Inl err \<Rightarrow> Panic err
      | Inr data \<Rightarrow>
          (case FromJSONBytes (fromConsumers j) data [] of
             Inl err \<Rightarrow> Panic err
           | Inr cfgs \<Rightarrow> Ret (map_of cfgs (getConsumerKey grp name))))"

definition GetOrInitConsumerConfig ::
  "'s KVHandler \<Rightarrow> json \<Rightarrow> (string \<Rightarrow> string) \<Rightarrow> 's registry \<Rightarrow> string \<Rightarrow> string \<Rightarrow> string \<Rightarrow> ('s registry \<times> ConsumerConfig) go" where
  "GetOrInitConsumerConfig h j MD5digest r queueID grp name =
     go_bind (GetConsumerConfig h j r queueID grp name) (\<lambda>found.
       case found of
         Some cfg \<Rightarrow> Ret (r, cfg)
       | None \<Rightarrow>
           let cfg = (NewConsumerConfig MD5digest queueID grp name)\<lparr>cSource := ''dynamic''\<rparr>
           in go_bind (RegisterConsumer h j r queueID cfg) (\<lambda>(r, _). Ret (r, cfg)))"

definition GetConsumerConfigsByQueueID ::
  "'s KVHandler \<Rightarrow> json \<Rightarrow> 's registry \<Rightarrow> string \<Rightarrow> (consumers \<times> bool) go" where
  "GetConsumerConfigsByQueueID h j r queueID =
     (case hGetValue h (rkv r) ConsumerBucket (str_bytes queueID) of
        Inl err \<Rightarrow> Panic err
      | Inr data \<Rightarrow>
          (case FromJSONBytes (fromConsumers j) data [] of
             Inl err \<Rightarrow> Panic err
           | Inr cfgs \<Rightarrow> Ret (cfgs, length cfgs > 0)))"

definition GetConsumerConfigID ::
  "'s KVHandler \<Rightarrow> json \<Rightarrow> 's registry \<Rightarrow> string \<Rightarrow> string \<Rightarrow> ConsumerConfig option go" where
  "GetConsumerConfigID h j r queueID consumerID =
     go_bind (GetConsumerConfigsByQueueID h j r queueID) (\<lambda>(m, ok).
       Ret (if ok then find (\<lambda>v. cID v = consumerID) (map snd m) else None))"

definition RemoveConsumer ::
  "'s KVHandler \<Rightarrow> json \<Rightarrow> 's registry \<Rightarrow> string \<Rightarrow> string \<Rightarrow> 's registry \<times> bool \<times> string option" where
  "RemoveConsumer h j r queueID consumerKey =
     (if hExistsKey h (rkv r) ConsumerBucket (str_bytes queueID) then
        (case hGetValue h (rkv r) ConsumerBucket (str_bytes queueID) of
           Inl err \<Rightarrow> (r, False, Some err)
         | Inr data \<Rightarrow>
             (case FromJSONBytes (fromConsumers j) data [] of
                Inl err \<Rightarrow> (r, False, Some err)
              | Inr cfgs \<Rightarrow>
                  let cfgs = AList.delete consumerKey cfgs
                  in case hAddValue h (rkv r) ConsumerBucket (str_bytes queueID) (toConsumers j cfgs) of
                       (s, Some err) \<Rightarrow> (r\<lparr>rkv := s\<rparr>, False, Some err)
                     | (s, None) \<Rightarrow> (TriggerChangeEvent (r\<lparr>rkv := s\<rparr>) queueID cfgs, True, None)))
      else (r, False, Some ''consumer not found''))"

fun removeEach ::
  "'s KVHandler \<Rightarrow> json \<Rightarrow> QueueConfig \<Rightarrow> ConsumerConfig list \<Rightarrow> 's registry \<Rightarrow> ('s registry \<times> string option) go" where
  "removeEach h j qConfig [] r = Ret (r, None)"
| "removeEach h j qConfig (v # vs) r =
     (case RemoveConsumer h j r (qID qConfig) (Key v) of
        (r, _, Some err) \<Rightarrow> Ret (r, Some err)
      | (r, _, None) \<Rightarrow>
          go_bind (deleteOffset h (rkv r) qConfig v) (\<lambda>(s, err).
            case err of
              Some m \<Rightarrow> Ret (r\<lparr>rkv := s\<rparr>, Some m)
            | None \<Rightarrow> removeEach h j qConfig vs (r\<lparr>rkv := s\<rparr>)))"

definition RemoveAllConsumers ::
  "'s KVHandler \<Rightarrow> json \<Rightarrow> 's registry \<Rightarrow> QueueConfig \<Rightarrow> ('s registry \<times> bool \<times> string option) go" where
  "RemoveAllConsumers h j r qConfig =
     go_bind (GetConsumerConfigsByQueueID h j r (qID qConfig)) (\<lambda>(v, ok).
       go_bind (if ok then removeEach h j qConfig (map snd v) r else Ret (r, None)) (\<lambda>(r, err).
         case err of
           Some m \<Rightarrow> Ret (r, False, Some m)
         | None \<Rightarrow>
             (case hDeleteKey h (rkv r) ConsumerBucket (str_bytes (qID qConfig)) of
                (s, Some m) \<Rightarrow> Ret (r\<lparr>rkv := s\<rparr>, False, Some m)
              | (s, None) \<Rightarrow> Ret (r\<lparr>rkv := s\<rparr>, True, None))))"

text \<open>The consumers of a queue, as the store has them.\<close>

definition consumersOf :: "'s KVHandler \<Rightarrow> json \<Rightarrow> 's registry \<Rightarrow> string \<Rightarrow> consumers \<Rightarrow> bool" where
  "consumersOf h j r queueID cfgs \<longleftrightarrow>
     (\<exists>data. hGetValue h (rkv r) ConsumerBucket (str_bytes queueID) = Inr data \<and>
        FromJSONBytes (fromConsumers j) data [] = Inr cfgs)"

text \<open>The encoder writes no empty text and the decoder reads back what it wrote.\<close>

definition json_exact :: "json \<Rightarrow> consumers \<Rightarrow> bool" where
  "json_exact j cfgs \<longleftrightarrow> toConsumers j cfgs \<noteq> [] \<and> fromConsumers j (toConsumers j cfgs) = Inr cfgs"

lemma TriggerChangeEvent_kv [simp]: "rkv (TriggerChangeEvent r q cfgs) = rkv r"
  by (simp add: TriggerChangeEvent_def)

lemma consumersOf_Trigger [simp]:
  "consumersOf h j (TriggerChangeEvent r q' cfgs') q cfgs = consumersOf h j r q cfgs"
  by (simp add: consumersOf_def)

lemma consumersOf_unique: "consumersOf h j r q cfgs \<Longrightarrow> consumersOf h j r q cfgs' \<Longrightarrow> cfgs = cfgs'"
  by (auto simp: consumersOf_def)

lemma GetConsumerConfig_eq:
  "consumersOf h j r q cfgs \<Longrightarrow> GetConsumerConfig h j r q g n = Ret (map_of cfgs (getConsumerKey g n))"
  by (auto simp: consumersOf_def GetConsumerConfig_def)

lemma GetConsumerConfigsByQueueID_eq:
  "consumersOf h j r q cfgs \<Longrightarrow> GetConsumerConfigsByQueueID h j r q = Ret (cfgs, cfgs \<noteq> [])"
  by (auto simp: consumersOf_def GetConsumerConfigsByQueueID_def)


subsection \<open>Registering and removing\<close>

context kv_store
begin

lemma exists_consumers:
  assumes "usable (rkv r)" "consumersOf h j r q cfgs" "\<not> hExistsKey h (rkv r) ConsumerBucket (str_bytes q)"
  shows "cfgs = []"
  using assms exists_iff [of "rkv r" ConsumerBucket "str_bytes q"]
  by (auto simp: consumersOf_def FromJSONBytes_def split: option.splits if_splits)

lemma stored_consumers:
  assumes "usable (rkv r)" "json_exact j cfgs"
    and "rkv r' = fst (hAddValue h (rkv r) ConsumerBucket (str_bytes q) (toConsumers j cfgs))"
  shows "consumersOf h j r' q cfgs" "usable (rkv r')"
    "hExistsKey h (rkv r') ConsumerBucket (str_bytes q)"
  using assms get_add_same [of "rkv r"] usable_add [of "rkv r"] exists_after_add [of "rkv r"]
  by (auto simp: consumersOf_def json_exact_def FromJSONBytes_def)

lemma stored_others:
  assumes "usable (rkv r)" "bucket_ok ConsumerBucket"
    and "rkv r' = fst (hAddValue h (rkv r) ConsumerBucket (str_bytes q) v)"
  shows "q' \<noteq> q \<Longrightarrow> consumersOf h j r' q' cfgs = consumersOf h j r q' cfgs"
    "bucket_ok ConsumerOffsetBucket \<Longrightarrow> loadOffset h (rkv r') k c = loadOffset h (rkv r) k c"
  using assms get_add_other [of "rkv r" ConsumerBucket] bucket_names(3) [symmetric]
  by (simp_all add: consumersOf_def inj_str_bytes loadOffset_def)

lemma register_effect:
  assumes "usable (rkv r)" "consumersOf h j r q cfgs"
  shows "RegisterConsumer h j r q c =
    Ret (TriggerChangeEvent (r\<lparr>rkv := fst (hAddValue h (rkv r) ConsumerBucket (str_bytes q)
      (toConsumers j (AList.update (Key c) c cfgs)))\<rparr>) q (AList.update (Key c) c cfgs), True, None)"
  using assms exists_consumers [OF assms]
  by (cases "hExistsKey h (rkv r) ConsumerBucket (str_bytes q)") (auto simp: RegisterConsumer_def consumersOf_def Let_def)

lemma register_consumer:
  assumes "usable (rkv r)" "bucket_ok ConsumerBucket" "bucket_ok ConsumerOffsetBucket"
    and "consumersOf h j r q cfgs" "json_exact j (AList.update (Key c) c cfgs)"
  shows "\<exists>r'. RegisterConsumer h j r q c = Ret (r', True, None) \<and> usable (rkv r') \<and>
    consumersOf h j r' q (AList.update (Key c) c cfgs) \<and>
    (\<forall>q' cfgs'. q' \<noteq> q \<longrightarrow> consumersOf h j r' q' cfgs' = consumersOf h j r q' cfgs') \<and>
    (\<forall>k c'. loadOffset h (rkv r') k c' = loadOffset h (rkv r) k c') \<and>
    announced r' = announced r @ map (\<lambda>l. (l, q, AList.update (Key c) c cfgs)) (consumerConfigListener r)"
proof -
  let ?cs = "AList.update (Key c) c cfgs"
  let ?r = "r\<lparr>rkv := fst (hAddValue h (rkv r) ConsumerBucket (str_bytes q) (toConsumers j ?cs))\<rparr>"
  have *: "rkv ?r = fst (hAddValue h (rkv r) ConsumerBucket (str_bytes q) (toConsumers j ?cs))" by simp
  show ?thesis
    using register_effect [OF assms(1,4), of c] stored_consumers [OF assms(1,5) *] stored_others [OF assms(1,2) *] assms(3)
    by (auto simp: TriggerChangeEvent_def consumersOf_def)
qed

lemma get_or_init:
  assumes "usable (rkv r)" "bucket_ok ConsumerBucket" "bucket_ok ConsumerOffsetBucket"
    and "consumersOf h j r q cfgs" "map_of cfgs (getConsumerKey g n) = None"
    and "json_exact j (AList.update (getConsumerKey g n) (NewConsumerConfig md5 q g n) cfgs)"
  shows "\<exists>r'. GetOrInitConsumerConfig h j md5 r q g n = Ret (r', NewConsumerConfig md5 q g n) \<and> usable (rkv r') \<and>
    consumersOf h j r' q (AList.update (getConsumerKey g n) (NewConsumerConfig md5 q g n) cfgs)"
proof -
  have "(NewConsumerConfig md5 q g n)\<lparr>cSource := ''dynamic''\<rparr> = NewConsumerConfig md5 q g n"
    by (simp add: NewConsumerConfig_def)
  with register_consumer [OF assms(1-4), of "NewConsumerConfig md5 q g n"] assms(5,6) show ?thesis
    by (auto simp: GetOrInitConsumerConfig_def GetConsumerConfig_eq [OF assms(4)])
qed

lemma get_existing:
  "consumersOf h j r q cfgs \<Longrightarrow> map_of cfgs (getConsumerKey g n) = Some c \<Longrightarrow>
    GetOrInitConsumerConfig h j md5 r q g n = Ret (r, c)"
  by (simp add: GetOrInitConsumerConfig_def GetConsumerConfig_eq)

end


text \<open>Removing every consumer of a queue.\<close>

definition keyed :: "consumers \<Rightarrow> bool" where
  "keyed cfgs \<longleftrightarrow> distinct (map fst cfgs) \<and> (\<forall>(k, c) \<in> set cfgs. k = Key c)"

lemma keyed_Cons: "keyed ((k, c) # cfgs) \<longleftrightarrow> k = Key c \<and> keyed cfgs \<and> (\<forall>c' \<in> set (map snd cfgs). Key c' \<noteq> Key c)"
  by (force simp: keyed_def)

lemma keyed_delete: "keyed ((k, c) # cfgs) \<Longrightarrow> AList.delete (Key c) ((k, c) # cfgs) = cfgs"
  by (force simp: keyed_def AList.delete_eq filter_id_conv)

context kv_reliable
begin

lemma remove_consumer:
  assumes "usable (rkv r)" "bucket_ok ConsumerBucket" "bucket_ok ConsumerOffsetBucket"
    and "consumersOf h j r q cfgs" "hExistsKey h (rkv r) ConsumerBucket (str_bytes q)"
    and "json_exact j (AList.delete key cfgs)"
  shows "\<exists>r'. RemoveConsumer h j r q key = (r', True, None) \<and> usable (rkv r') \<and>
    consumersOf h j r' q (AList.delete key cfgs) \<and> hExistsKey h (rkv r') ConsumerBucket (str_bytes q) \<and>
    (\<forall>k c'. loadOffset h (rkv r') k c' = loadOffset h (rkv r) k c')"
proof -
  let ?cs = "AList.delete key cfgs"
  let ?a = "hAddValue h (rkv r) ConsumerBucket (str_bytes q) (toConsumers j ?cs)"
  let ?r = "r\<lparr>rkv := fst ?a\<rparr>"
  have *: "rkv ?r = fst (hAddValue h (rkv r) ConsumerBucket (str_bytes q) (toConsumers j ?cs))" by simp
  have "?a = (fst ?a, None)" using add_no_error [OF assms(1)] by (metis prod.collapse)
  then have "RemoveConsumer h j r q key = (TriggerChangeEvent ?r q ?cs, True, None)"
    using assms(4,5) by (auto simp: RemoveConsumer_def consumersOf_def Let_def split: prod.splits)
  with stored_consumers [OF assms(1,6) *] stored_others [OF assms(1,2) *] assms(3) show ?thesis by auto
qed

lemma delete_offset:
  assumes "usable (rkv r)" "bucket_ok ConsumerBucket" "bucket_ok ConsumerOffsetBucket"
    and "hExistsKey h (rkv r) ConsumerBucket (str_bytes (qID k))" "loadOffset h (rkv r) k c = Ret cur"
  shows "\<exists>s'. deleteOffset h (rkv r) k c = Ret (s', None) \<and> usable s' \<and>
    loadOffset h s' k c = Ret (NewOffsetWithVersion 0 0 (to_int64 (Version cur + 1))) \<and>
    (\<forall>c'. Key c' \<noteq> Key c \<longrightarrow> loadOffset h s' k c' = loadOffset h (rkv r) k c') \<and>
    hExistsKey h s' ConsumerBucket (str_bytes (qID k)) \<and> (\<forall>cfgs. consumersOf h j (r\<lparr>rkv := s'\<rparr>) (qID k) cfgs = consumersOf h j r (qID k) cfgs)"
proof -
  from delete_resets [OF assms(1,5,4)] obtain s' err where s': "deleteOffset h (rkv r) k c = Ret (s', err)" "usable s'"
    "loadOffset h s' k c = Ret (NewOffsetWithVersion 0 0 (to_int64 (Version cur + 1)))" by blast
  let ?o = "cur\<lparr>Segment := 0, Position := 0, Version := to_int64 (Version cur + 1)\<rparr>"
  have a: "hAddValue h (rkv r) ConsumerOffsetBucket (commitBytes k c) (str_bytes (EncodeToString ?o)) = (s', err)"
    using s'(1) assms(4,5) by (simp add: deleteOffset_def Let_def)
  have err: "err = None" using a add_no_error [OF assms(1), of ConsumerOffsetBucket "commitBytes k c" "str_bytes (EncodeToString ?o)"] by simp
  have s'': "s' = fst (hAddValue h (rkv r) ConsumerOffsetBucket (commitBytes k c) (str_bytes (EncodeToString ?o)))"
    using a by simp
  have oth: "hGetValue h s' ConsumerBucket x = hGetValue h (rkv r) ConsumerBucket x" for x
    unfolding s'' by (rule get_add_other [OF assms(1,3,2)]) simp
  have ex: "hExistsKey h s' ConsumerBucket (str_bytes (qID k))"
    using assms(1,4) s'(2) by (simp add: exists_iff oth)
  have "loadOffset h s' k c' = loadOffset h (rkv r) k c'" if "Key c' \<noteq> Key c" for c'
    unfolding s'' by (rule load_add_other [OF assms(1,3)]) (use that in \<open>simp add: getCommitKey_def\<close>)
  with s' err ex oth show ?thesis by (auto simp: consumersOf_def)
qed

lemma remove_each:
  assumes "bucket_ok ConsumerBucket" "bucket_ok ConsumerOffsetBucket"
  shows "usable (rkv r) \<Longrightarrow> consumersOf h j r (qID k) cfgs \<Longrightarrow> hExistsKey h (rkv r) ConsumerBucket (str_bytes (qID k)) \<Longrightarrow>
    keyed cfgs \<Longrightarrow> \<forall>n. json_exact j (drop n cfgs) \<Longrightarrow> \<forall>c \<in> set (map snd cfgs). loadOffset h (rkv r) k c = Ret (cur c) \<Longrightarrow>
    \<exists>r'. removeEach h j k (map snd cfgs) r = Ret (r', None) \<and> usable (rkv r') \<and>
      (\<forall>c \<in> set (map snd cfgs). loadOffset h (rkv r') k c = Ret (NewOffsetWithVersion 0 0 (to_int64 (Version (cur c) + 1)))) \<and>
      (\<forall>c'. Key c' \<notin> Key ` set (map snd cfgs) \<longrightarrow> loadOffset h (rkv r') k c' = loadOffset h (rkv r) k c')"
proof (induction cfgs arbitrary: r)
  case Nil
  then show ?case by simp
next
  case (Cons x cfgs)
  obtain key c where x: "x = (key, c)" by (cases x)
  have d: "AList.delete (Key c) (x # cfgs) = cfgs" using keyed_delete Cons.prems(4) x by blast
  have "json_exact j (AList.delete (Key c) (x # cfgs))" using Cons.prems(5) d by (metis drop0 drop_Suc_Cons)
  from remove_consumer [OF Cons.prems(1) assms Cons.prems(2,3) this]
  obtain r1 where r1: "RemoveConsumer h j r (qID k) (Key c) = (r1, True, None)" "usable (rkv r1)" "consumersOf h j r1 (qID k) cfgs"
    "hExistsKey h (rkv r1) ConsumerBucket (str_bytes (qID k))" "\<And>k c'. loadOffset h (rkv r1) k c' = loadOffset h (rkv r) k c'"
    using d by auto
  have "loadOffset h (rkv r1) k c = Ret (cur c)" using Cons.prems(6) r1(5) x by simp
  from delete_offset [OF r1(2) assms r1(4) this, of j]
  obtain s where s: "deleteOffset h (rkv r1) k c = Ret (s, None)" "usable s"
    "loadOffset h s k c = Ret (NewOffsetWithVersion 0 0 (to_int64 (Version (cur c) + 1)))"
    "\<And>c'. Key c' \<noteq> Key c \<Longrightarrow> loadOffset h s k c' = loadOffset h (rkv r1) k c'"
    "hExistsKey h s ConsumerBucket (str_bytes (qID k))" "consumersOf h j (r1\<lparr>rkv := s\<rparr>) (qID k) cfgs"
    using r1(3) by blast
  have kc: "keyed cfgs" "\<And>c'. c' \<in> set (map snd cfgs) \<Longrightarrow> Key c' \<noteq> Key c"
    using Cons.prems(4) x by (auto simp: keyed_Cons)
  have js: "\<forall>n. json_exact j (drop n cfgs)" using Cons.prems(5) by (metis drop_Suc_Cons)
  have cur: "\<forall>c \<in> set (map snd cfgs). loadOffset h (rkv (r1\<lparr>rkv := s\<rparr>)) k c = Ret (cur c)"
    using Cons.prems(6) r1(5) s(4) kc(2) by simp
  from Cons.IH [OF _ s(6) _ kc(1) js cur] s(2,5) obtain r' where
    r': "removeEach h j k (map snd cfgs) (r1\<lparr>rkv := s\<rparr>) = Ret (r', None)" "usable (rkv r')"
    "\<And>c. c \<in> set (map snd cfgs) \<Longrightarrow> loadOffset h (rkv r') k c = Ret (NewOffsetWithVersion 0 0 (to_int64 (Version (cur c) + 1)))"
    "\<And>c'. Key c' \<notin> Key ` set (map snd cfgs) \<Longrightarrow> loadOffset h (rkv r') k c' = loadOffset h s k c'" by auto
  have "Key c \<notin> Key ` set (map snd cfgs)" using kc(2) by (metis imageE)
  then have "loadOffset h (rkv r') k c = Ret (NewOffsetWithVersion 0 0 (to_int64 (Version (cur c) + 1)))"
    using r'(4) s(3) by simp
  then show ?case using r' r1 s(1,4) x by (intro exI [of _ r']) auto
qed

end


context kv_reliable
begin

lemma remove_all:
  assumes "usable (rkv r)" "bucket_ok ConsumerBucket" "bucket_ok ConsumerOffsetBucket"
    and "consumersOf h j r (qID k) cfgs" "keyed cfgs" "\<forall>n. json_exact j (drop n cfgs)"
    and "\<forall>c \<in> set (map snd cfgs). loadOffset h (rkv r) k c = Ret (cur c)"
  shows "\<exists>r'. RemoveAllConsumers h j r k = Ret (r', True, None) \<and> usable (rkv r') \<and> consumersOf h j r' (qID k) [] \<and>
    (\<forall>c \<in> set (map snd cfgs). loadOffset h (rkv r') k c = Ret (NewOffsetWithVersion 0 0 (to_int64 (Version (cur c) + 1)))) \<and>
    (\<forall>c'. Key c' \<notin> Key ` set (map snd cfgs) \<longrightarrow> loadOffset h (rkv r') k c' = loadOffset h (rkv r) k c') \<and>
    \<not> hExistsKey h (rkv r') ConsumerBucket (str_bytes (qID k))"
proof -
  have "\<exists>r1. (if cfgs \<noteq> [] then removeEach h j k (map snd cfgs) r else Ret (r, None)) = Ret (r1, None) \<and> usable (rkv r1) \<and>
    (\<forall>c \<in> set (map snd cfgs). loadOffset h (rkv r1) k c = Ret (NewOffsetWithVersion 0 0 (to_int64 (Version (cur c) + 1)))) \<and>
    (\<forall>c'. Key c' \<notin> Key ` set (map snd cfgs) \<longrightarrow> loadOffset h (rkv r1) k c' = loadOffset h (rkv r) k c')"
  proof (cases "cfgs = []")
    case False
    then have "hExistsKey h (rkv r) ConsumerBucket (str_bytes (qID k))" using exists_consumers assms(1,4) by blast
    from remove_each [OF assms(2,3,1,4) this assms(5-7)] False show ?thesis by simp
  qed (use assms(1) in simp)
  then obtain r1 where r1: "(if cfgs \<noteq> [] then removeEach h j k (map snd cfgs) r else Ret (r, None)) = Ret (r1, None)" "usable (rkv r1)"
    "\<forall>c \<in> set (map snd cfgs). loadOffset h (rkv r1) k c = Ret (NewOffsetWithVersion 0 0 (to_int64 (Version (cur c) + 1)))"
    "\<forall>c'. Key c' \<notin> Key ` set (map snd cfgs) \<longrightarrow> loadOffset h (rkv r1) k c' = loadOffset h (rkv r) k c'" by blast
  let ?d = "hDeleteKey h (rkv r1) ConsumerBucket (str_bytes (qID k))"
  let ?r = "r1\<lparr>rkv := fst ?d\<rparr>"
  have d: "?d = (fst ?d, None)" using delete_no_error [OF r1(2)] by (metis prod.collapse)
  have oth: "hGetValue h (fst ?d) ConsumerOffsetBucket x = hGetValue h (rkv r1) ConsumerOffsetBucket x" for x
    by (rule get_delete_other [OF r1(2) assms(2,3)]) (use bucket_names(3) [symmetric] in simp)
  have "RemoveAllConsumers h j r k = Ret (?r, True, None)"
    using r1(1) d by (auto simp: RemoveAllConsumers_def GetConsumerConfigsByQueueID_eq [OF assms(4)] split: prod.splits)
  moreover have "consumersOf h j ?r (qID k) []"
    using get_delete_same [OF r1(2)] by (simp add: consumersOf_def FromJSONBytes_def)
  moreover have "loadOffset h (rkv ?r) k c = loadOffset h (rkv r1) k c" for c by (simp add: loadOffset_def oth)
  ultimately show ?thesis
    using r1(3,4) usable_delete [OF r1(2)] not_exists_after_delete [OF r1(2)] by (intro exI [of _ ?r]) simp
qed

end

lemmas buckets_ok = bucket_names(1,2)

text \<open>C19: registering a consumer makes it known under its group and name and changes nothing else. The
  new configuration is what \<open>GetConsumerConfig\<close> returns, every other consumer of the queue keeps its
  configuration, other queues keep theirs, no committed offset moves, and every listener is told the new
  set once.\<close>

theorem consumer_registration:
  assumes "\<not> closed (rkv r)" "consumersOf simple_kv j r q cfgs" "json_exact j (AList.update (Key c) c cfgs)"
  shows "\<exists>r'. RegisterConsumer simple_kv j r q c = Ret (r', True, None) \<and> \<not> closed (rkv r') \<and>
    GetConsumerConfig simple_kv j r' q (cGroup c) (cName c) = Ret (Some c) \<and>
    (\<forall>g n. getConsumerKey g n \<noteq> Key c \<longrightarrow>
       GetConsumerConfig simple_kv j r' q g n = GetConsumerConfig simple_kv j r q g n) \<and>
    (\<forall>q' cfgs'. q' \<noteq> q \<longrightarrow> consumersOf simple_kv j r' q' cfgs' = consumersOf simple_kv j r q' cfgs') \<and>
    (\<forall>k c'. loadOffset simple_kv (rkv r') k c' = loadOffset simple_kv (rkv r) k c') \<and>
    announced r' = announced r @ map (\<lambda>l. (l, q, AList.update (Key c) c cfgs)) (consumerConfigListener r)"
proof -
  from skv.register_consumer [OF assms(1) buckets_ok(2,1) assms(2,3)] obtain r' where
    r': "RegisterConsumer simple_kv j r q c = Ret (r', True, None)" "\<not> closed (rkv r')"
    "consumersOf simple_kv j r' q (AList.update (Key c) c cfgs)"
    "\<forall>q' cfgs'. q' \<noteq> q \<longrightarrow> consumersOf simple_kv j r' q' cfgs' = consumersOf simple_kv j r q' cfgs'"
    "\<forall>k c'. loadOffset simple_kv (rkv r') k c' = loadOffset simple_kv (rkv r) k c'"
    "announced r' = announced r @ map (\<lambda>l. (l, q, AList.update (Key c) c cfgs)) (consumerConfigListener r)" by blast
  have "getConsumerKey (cGroup c) (cName c) = Key c" by (simp add: Key_def)
  with r' show ?thesis
    by (intro exI [of _ r']) (simp add: GetConsumerConfig_eq [OF assms(2)] GetConsumerConfig_eq [OF r'(3)] update_conv')
qed


text \<open>An empty registry with one listener, and a codec for at most one consumer.\<close>

definition emptyRegistry :: "SimpleKV registry" where
  "emptyRegistry =
     \<lparr>rkv = \<lparr>closed = False, kvstore = \<lparr>kvData = Map.empty, walFile = [], lastState = NoSnapshot, walPlan = []\<rparr>\<rparr>,
      consumerConfigListener = [''l''], announced = []\<rparr>"

definition oneJson :: "ConsumerConfig \<Rightarrow> json" where
  "oneJson c =
     \<lparr>toConsumers = (\<lambda>cs. if cs = [] then [0] else [1]),
      fromConsumers = (\<lambda>b. if b = [0] then Inr [] else Inr [(Key c, c)])\<rparr>"

lemma empty_registry:
  "\<not> closed (rkv emptyRegistry)" "walPlan (kvstore (rkv emptyRegistry)) = []" "consumersOf simple_kv j emptyRegistry q []"
  by (simp_all add: emptyRegistry_def consumersOf_def FromJSONBytes_def simple_kv_def GetValue_def kvGet_def)

lemma one_json: "json_exact (oneJson c) [(Key c, c)]" "json_exact (oneJson c) []"
  by (simp_all add: json_exact_def oneJson_def)

theorem consumer_registration_witness:
  "\<exists>r'. RegisterConsumer simple_kv (oneJson sample_consumer) emptyRegistry ''q'' sample_consumer = Ret (r', True, None) \<and>
    GetConsumerConfig simple_kv (oneJson sample_consumer) r' ''q'' (cGroup sample_consumer) (cName sample_consumer) = Ret (Some sample_consumer) \<and>
    announced r' = [(''l'', ''q'', [(Key sample_consumer, sample_consumer)])]"
  using consumer_registration [OF empty_registry(1,3), of "oneJson sample_consumer" sample_consumer "''q''"] one_json
  by (auto simp: emptyRegistry_def)

text \<open>C20: removing all consumers of a queue leaves none behind and resets each of their offsets to the
  start, under the next version, so that commits still in flight are refused; until a consumer is
  registered again no commit for the queue is accepted at all.\<close>

theorem remove_all_consumers:
  assumes "\<not> closed (rkv r)" "walPlan (kvstore (rkv r)) = []" "consumersOf simple_kv j r (qID k) cfgs" "keyed cfgs"
    and "\<forall>n. json_exact j (drop n cfgs)" "\<forall>c \<in> set (map snd cfgs). loadOffset simple_kv (rkv r) k c = Ret (cur c)"
  shows "\<exists>r'. RemoveAllConsumers simple_kv j r k = Ret (r', True, None) \<and>
    GetConsumerConfigsByQueueID simple_kv j r' (qID k) = Ret ([], False) \<and>
    (\<forall>c \<in> set (map snd cfgs). loadOffset simple_kv (rkv r') k c =
       Ret (NewOffsetWithVersion 0 0 (to_int64 (Version (cur c) + 1)))) \<and>
    (\<forall>c off. \<exists>err. saveOffset simple_kv (rkv r') k c off = Ret (rkv r', False, Some err))"
proof -
  from assms(1,2) have "\<not> closed (rkv r) \<and> walPlan (kvstore (rkv r)) = []" by simp
  from rel.remove_all [OF this buckets_ok(2,1) assms(3-6)] obtain r' where
    "RemoveAllConsumers simple_kv j r k = Ret (r', True, None)" and c: "consumersOf simple_kv j r' (qID k) []"
    "\<forall>c \<in> set (map snd cfgs). loadOffset simple_kv (rkv r') k c = Ret (NewOffsetWithVersion 0 0 (to_int64 (Version (cur c) + 1)))"
    and "\<not> hExistsKey simple_kv (rkv r') ConsumerBucket (str_bytes (qID k))" by blast
  then show ?thesis
    by (intro exI [of _ r']) (simp add: GetConsumerConfigsByQueueID_eq [OF c(1)] saveOffset_def)
qed

theorem remove_all_consumers_witness:
  "\<exists>r r'. RegisterConsumer simple_kv (oneJson sample_consumer) emptyRegistry (qID sample_queue) sample_consumer = Ret (r, True, None) \<and>
    RemoveAllConsumers simple_kv (oneJson sample_consumer) r sample_queue = Ret (r', True, None) \<and>
    GetConsumerConfigsByQueueID simple_kv (oneJson sample_consumer) r' (qID sample_queue) = Ret ([], False)"
proof -
  let ?j = "oneJson sample_consumer" let ?cs = "[(Key sample_consumer, sample_consumer)]"
  from empty_registry(1,2) have e: "\<not> closed (rkv emptyRegistry) \<and> walPlan (kvstore (rkv emptyRegistry)) = []" by simp
  have js: "json_exact ?j (AList.update (Key sample_consumer) sample_consumer [])" using one_json by simp
  from rel.register_consumer [OF e buckets_ok(2,1) empty_registry(3) js, of "qID sample_queue"]
  obtain r where r: "RegisterConsumer simple_kv ?j emptyRegistry (qID sample_queue) sample_consumer = Ret (r, True, None)"
    "\<not> closed (rkv r)" "walPlan (kvstore (rkv r)) = []" "consumersOf simple_kv ?j r (qID sample_queue) ?cs"
    "\<forall>k c. loadOffset simple_kv (rkv r) k c = loadOffset simple_kv (rkv emptyRegistry) k c" by auto
  have l: "\<forall>c \<in> set (map snd ?cs). loadOffset simple_kv (rkv r) sample_queue c = Ret (NewOffset 0 0)"
    using r(5) by (simp add: emptyRegistry_def loadOffset_def simple_kv_def GetValue_def kvGet_def)
  have d: "\<forall>n. json_exact ?j (drop n ?cs)" using one_json by (metis drop0 drop_Suc_Cons drop_Nil not0_implies_Suc)
  have k: "keyed ?cs" by (simp add: keyed_def)
  from remove_all_consumers [OF r(2-4) k d l] r(1) show ?thesis by blast
qed

text \<open>two different consumers can be one. The registry joins group and name with a dash, so once the
  consumer \<open>n-x\<close> of the group \<open>g\<close> is registered, asking for the consumer \<open>x\<close> of the group \<open>g-n\<close>
  returns that configuration, with the other group and name, and both commit to the same offset.\<close>

theorem consumer_keys_collide:
  assumes "\<not> closed (rkv r)" "consumersOf simple_kv j r q []"
    and "json_exact j [(Key (NewConsumerConfig md5 q g (n @ ''-'' @ x)), NewConsumerConfig md5 q g (n @ ''-'' @ x))]"
  shows "\<exists>r' c. GetOrInitConsumerConfig simple_kv j md5 r q g (n @ ''-'' @ x) = Ret (r', c) \<and>
    GetOrInitConsumerConfig simple_kv j md5 r' q (g @ ''-'' @ n) x = Ret (r', c) \<and>
    cGroup c = g \<and> cName c = n @ ''-'' @ x \<and>
    getCommitKey k c = getCommitKey k (NewConsumerConfig md5 q (g @ ''-'' @ n) x)"
proof -
  let ?c = "NewConsumerConfig md5 q g (n @ ''-'' @ x)"
  have js: "json_exact j (AList.update (getConsumerKey g (n @ ''-'' @ x)) ?c [])" using assms(3) by simp
  from skv.get_or_init [OF assms(1) buckets_ok(2,1) assms(2) _ js] obtain r' where
    r': "GetOrInitConsumerConfig simple_kv j md5 r q g (n @ ''-'' @ x) = Ret (r', ?c)"
    "consumersOf simple_kv j r' q [(getConsumerKey g (n @ ''-'' @ x), ?c)]" by auto
  have "GetOrInitConsumerConfig simple_kv j md5 r' q (g @ ''-'' @ n) x = Ret (r', ?c)"
    by (rule skv.get_existing [OF r'(2)]) (simp add: getConsumerKey_def)
  with r'(1) show ?thesis
    by (intro exI [of _ r'] exI [of _ ?c]) (simp add: getCommitKey_def getConsumerKey_def, simp add: NewConsumerConfig_def)
qed

theorem consumer_keys_collide_witness:
  "\<exists>r' c. GetOrInitConsumerConfig simple_kv (oneJson (NewConsumerConfig (\<lambda>s. s) ''q'' ''a'' ''b-c'')) (\<lambda>s. s) emptyRegistry ''q'' ''a'' ''b-c'' = Ret (r', c) \<and>
    GetOrInitConsumerConfig simple_kv (oneJson (NewConsumerConfig (\<lambda>s. s) ''q'' ''a'' ''b-c'')) (\<lambda>s. s) r' ''q'' ''a-b'' ''c'' = Ret (r', c) \<and>
    cGroup c = ''a''"
proof -
  have js: "json_exact (oneJson (NewConsumerConfig (\<lambda>s. s) ''q'' ''a'' (''b'' @ ''-'' @ ''c'')))
      [(Key (NewConsumerConfig (\<lambda>s. s) ''q'' ''a'' (''b'' @ ''-'' @ ''c'')), NewConsumerConfig (\<lambda>s. s) ''q'' ''a'' (''b'' @ ''-'' @ ''c''))]"
    by (rule one_json(1))
  from consumer_keys_collide [OF empty_registry(1,3) js, of sample_queue] show ?thesis by auto
qed

end
