(* ===== verification/QueueRegistry.thy ===== *)
theory QueueRegistry
  imports ConsumerRegistry
begin

section \<open>The registry of queues\<close>

text \<open>
  \<open>core/queue/queue_config.go\<close>: the configurations of the queues, cached by name and by ID and kept in
  the key-value store by ID.

  The caches hold pointers, and \<open>AdvancedGetOrInitConfig\<close> changes a configuration that is already
  cached. \<open>cfgHeap\<close> is therefore an explicit store of configurations, a pointer is an index into it, and
  \<open>configs\<close> and \<open>idConfigs\<close> are the two caches. \<open>notices\<close> are the calls of the registered
  listeners, with the pointer they get. The JSON library, the MD5 digest and the time stamp are
  parameters.
\<close>

type_synonym labels = "(string \<times> label_value) list"

record cfgJson =
  toQueue :: "QueueConfig \<Rightarrow> bytes"
  fromQueue :: "bytes \<Rightarrow> string + QueueConfig"

record 's queues =
  qkv :: 's
  cfgHeap :: "QueueConfig list"
  configs :: "(string \<times> nat) list"
  idConfigs :: "(string \<times> nat) list"
  queueConfigListener :: "string list"
  notices :: "(string \<times> nat) list"

definition queueConfigBucket :: string where
  "queueConfigBucket = ''queue_configs''"

definition cfgAt :: "'s queues \<Rightarrow> nat \<Rightarrow> QueueConfig" where
  "cfgAt st p = cfgHeap st ! p"

definition setCfg :: "'s queues \<Rightarrow> nat \<Rightarrow> QueueConfig \<Rightarrow> 's queues" where
  "setCfg st p cfg = st\<lparr>cfgHeap := (cfgHeap st)[p := cfg]\<rparr>"

definition newCfg :: "'s queues \<Rightarrow> QueueConfig \<Rightarrow> 's queues \<times> nat" where
  "newCfg st cfg = (st\<lparr>cfgHeap := cfgHeap st @ [cfg]\<rparr>, length (cfgHeap st))"

definition emptyCfg :: QueueConfig where
  "emptyCfg = \<lparr>qID = [], qName = [], qSource = [], qCodec = [], qType = [], qCreated = [], qLabels = None\<rparr>"

definition UpdateLabel :: "'s queues \<Rightarrow> nat \<Rightarrow> string \<Rightarrow> label_value \<Rightarrow> 's queues go" where
  "UpdateLabel st p key val =
     (case qLabels (cfgAt st p) of
        None \<Rightarrow> Panic ''assignment to entry in nil map''
      | Some ls \<Rightarrow> Ret (setCfg st p ((cfgAt st p)\<lparr>qLabels := Some (AList.update key val ls)\<rparr>)))"

definition ReplaceLabels :: "'s queues \<Rightarrow> nat \<Rightarrow> labels option \<Rightarrow> 's queues" where
  "ReplaceLabels st p labels = setCfg st p ((cfgAt st p)\<lparr>qLabels := labels\<rparr>)"

definition RegisterQueueConfigChangeListener :: "'s queues \<Rightarrow> string \<Rightarrow> 's queues" where
  "RegisterQueueConfigChangeListener st l = st\<lparr>queueConfigListener := queueConfigListener st @ [l]\<rparr>"

definition addCfgToCache :: "'s queues \<Rightarrow> nat \<Rightarrow> 's queues" where
  "addCfgToCache st p =
     st\<lparr>configs := AList.update (qName (cfgAt st p)) p (configs st),
        idConfigs := AList.update (qID (cfgAt st p)) p (idConfigs st)\<rparr>"

text \<open>The defaults \<open>RegisterConfig\<close> fills in before it stores a configuration.\<close>

definition nameAndID :: "(string \<Rightarrow> string) \<Rightarrow> QueueConfig \<Rightarrow> QueueConfig go" where
  "nameAndID MD5digest cfg =
     (let cfg = (if qName cfg = [] \<and> qID cfg \<noteq> [] then cfg\<lparr>qName := qID cfg\<rparr> else cfg)
      in if qID cfg = [] then
           (if qName cfg = [] then Panic ''queue name is empty'' else Ret (cfg\<lparr>qID := MD5digest (qName cfg)\<rparr>))
         else Ret cfg)"

definition RegisterConfig ::
  "'s KVHandler \<Rightarrow> cfgJson \<Rightarrow> (string \<Rightarrow> string) \<Rightarrow> string \<Rightarrow> 's queues \<Rightarrow> nat \<Rightarrow> ('s queues \<times> bool \<times> string option) go" where
  "RegisterConfig h j MD5digest now st p =
     go_bind (nameAndID MD5digest (cfgAt st p)) (\<lambda>cfg.
       let cfg = cfg\<lparr>qCreated := now\<rparr>;
           st = addCfgToCache (setCfg st p cfg) p
       in case hAddValue h (qkv st) queueConfigBucket (str_bytes (qID cfg)) (toQueue j cfg) of
            (s, Some err) \<Rightarrow> Panic err
          | (s, None) \<Rightarrow>
              Ret (st\<lparr>qkv := s, notices := notices st @ map (\<lambda>f. (f, p)) (queueConfigListener st)\<rparr>, False, None))"

definition RemoveConfig :: "'s queues \<Rightarrow> nat \<Rightarrow> 's queues \<times> bool" where
  "RemoveConfig st p =
     (st\<lparr>idConfigs := AList.delete (qID (cfgAt st p)) (idConfigs st),
         configs := AList.delete (qName (cfgAt st p)) (configs st)\<rparr>, True)"

definition IsConfigExists :: "'s queues \<Rightarrow> string \<Rightarrow> bool" where
  "IsConfigExists st key \<longleftrightarrow> map_of (configs st) key \<noteq> None"

definition GetConfigByKey :: "'s queues \<Rightarrow> string \<Rightarrow> nat option" where
  "GetConfigByKey st key = map_of (configs st) key"

definition GetConfigByUUID ::
  "'s KVHandler \<Rightarrow> cfgJson \<Rightarrow> 's queues \<Rightarrow> string \<Rightarrow> ('s queues \<times> nat option) go" where
  "GetConfigByUUID h j st ident =
     (case map_of (idConfigs st) ident of
        Some p \<Rightarrow> Ret (st, Some p)
      | None \<Rightarrow>
          (case hGetValue h (qkv st) queueConfigBucket (str_bytes ident) of
             Inl err \<Rightarrow> Panic err
           | Inr None \<Rightarrow> Ret (st, None)
           | Inr (Some vbytes) \<Rightarrow>
               (case FromJSONBytes (fromQueue j) (Some vbytes) emptyCfg of
                  Inl err \<Rightarrow> Panic err
                | Inr cfg \<Rightarrow>
                    if qID cfg \<noteq> [] \<and> qID cfg = ident
                    then (let (st, p) = newCfg st cfg in Ret (addCfgToCache st p, Some p))
                    else Ret (st, None))))"

definition SmartGetConfig ::
  "'s KVHandler \<Rightarrow> cfgJson \<Rightarrow> 's queues \<Rightarrow> string \<Rightarrow> ('s queues \<times> nat option) go" where
  "SmartGetConfig h j st keyOrID =
     (case GetConfigByKey st keyOrID of Some p \<Rightarrow> Ret (st, Some p) | None \<Rightarrow> GetConfigByUUID h j st keyOrID)"

definition labelChanged :: "labels option \<Rightarrow> labels option \<Rightarrow> bool" where
  "labelChanged newLabels oldLabels =
     (let new = (case newLabels of None \<Rightarrow> [] | Some l \<Rightarrow> l); old = (case oldLabels of None \<Rightarrow> [] | Some l \<Rightarrow> l)
      in length new > length old \<or> (length old = 0 \<and> length new > 0) \<or>
         (\<exists>(k, v) \<in> set new. map_of old k \<noteq> Some v))"

definition AdvancedGetOrInitConfig ::
  "'s KVHandler \<Rightarrow> cfgJson \<Rightarrow> (string \<Rightarrow> string) \<Rightarrow> string \<Rightarrow> 's queues \<Rightarrow> string \<Rightarrow> string \<Rightarrow> labels option \<Rightarrow>
   ('s queues \<times> nat) go" where
  "AdvancedGetOrInitConfig h j MD5digest now st queueType key labels =
     go_bind (SmartGetConfig h j st key) (\<lambda>(st, found).
       case found of
         None \<Rightarrow>
           let cfg = emptyCfg\<lparr>qType := queueType, qID := MD5digest key, qName := key, qSource := ''dynamic'', qLabels := labels\<rparr>;
               (st, p) = newCfg st cfg
           in go_bind (RegisterConfig h j MD5digest now st p) (\<lambda>(st, _). Ret (st, p))
       | Some p \<Rightarrow>
           if labelChanged labels (qLabels (cfgAt st p)) then
             go_bind (RegisterConfig h j MD5digest now (setCfg st p ((cfgAt st p)\<lparr>qName := key, qLabels := labels\<rparr>)) p)
               (\<lambda>(st, _). Ret (st, p))
           else Ret (st, p))"

definition GetOrInitConfig ::
  "'s KVHandler \<Rightarrow> cfgJson \<Rightarrow> (string \<Rightarrow> string) \<Rightarrow> string \<Rightarrow> 's queues \<Rightarrow> string \<Rightarrow> ('s queues \<times> nat) go" where
  "GetOrInitConfig h j MD5digest now st key =
     (if key = [] then Panic ''queue config key can't be empty''
      else AdvancedGetOrInitConfig h j MD5digest now st [] key None)"

definition SmartGetOrInitConfig ::
  "'s KVHandler \<Rightarrow> cfgJson \<Rightarrow> (string \<Rightarrow> string) \<Rightarrow> string \<Rightarrow> 's queues \<Rightarrow> QueueConfig \<Rightarrow> ('s queues \<times> nat option) go" where
  "SmartGetOrInitConfig h j MD5digest now st cfg =
     (if qID cfg \<noteq> [] then GetConfigByUUID h j st (qID cfg)
      else go_bind (AdvancedGetOrInitConfig h j MD5digest now st (qType cfg) (qName cfg) (qLabels cfg))
             (\<lambda>(st, p). Ret (st, Some p)))"

definition GetAllConfigs :: "'s queues \<Rightarrow> (string \<times> nat) list" where
  "GetAllConfigs st = fold (\<lambda>(_, p) cfgs. AList.update (qName (cfgAt st p)) p cfgs) (configs st) []"


subsection \<open>Lookup by ID\<close>

text \<open>Every pointer of a cache is valid, and a configuration is cached under its own ID.\<close>

definition cache_ok :: "'s queues \<Rightarrow> bool" where
  "cache_ok st \<longleftrightarrow>
     (\<forall>k p. map_of (configs st) k = Some p \<longrightarrow> p < length (cfgHeap st)) \<and>
     (\<forall>i p. map_of (idConfigs st) i = Some p \<longrightarrow> p < length (cfgHeap st) \<and> qID (cfgAt st p) = i \<and> i \<noteq> [])"

lemma cache_okD:
  assumes "cache_ok st"
  shows "map_of (configs st) k = Some p \<Longrightarrow> p < length (cfgHeap st)"
    "map_of (idConfigs st) i = Some p \<Longrightarrow> p < length (cfgHeap st)"
    "map_of (idConfigs st) i = Some p \<Longrightarrow> qID (cfgAt st p) = i" "map_of (idConfigs st) i = Some p \<Longrightarrow> i \<noteq> []"
  using assms by (auto simp: cache_ok_def)

lemma cfgAt_setCfg [simp]:
  "cfgAt (setCfg st p c) p' = (if p' = p \<and> p < length (cfgHeap st) then c else cfgAt st p')"
  by (cases "p < length (cfgHeap st)") (auto simp: cfgAt_def setCfg_def not_less list_update_beyond)

lemma setCfg_frame [simp]:
  "configs (setCfg st p c) = configs st" "idConfigs (setCfg st p c) = idConfigs st" "qkv (setCfg st p c) = qkv st"
  "length (cfgHeap (setCfg st p c)) = length (cfgHeap st)" "queueConfigListener (setCfg st p c) = queueConfigListener st"
  "notices (setCfg st p c) = notices st"
  by (simp_all add: setCfg_def)

lemma addCfgToCache_frame [simp]:
  "cfgHeap (addCfgToCache st p) = cfgHeap st" "cfgAt (addCfgToCache st p) = cfgAt st" "qkv (addCfgToCache st p) = qkv st"
  "queueConfigListener (addCfgToCache st p) = queueConfigListener st" "notices (addCfgToCache st p) = notices st"
  by (simp_all add: addCfgToCache_def cfgAt_def fun_eq_iff)

lemma addCfgToCache_maps:
  "map_of (configs (addCfgToCache st p)) = (map_of (configs st))(qName (cfgAt st p) \<mapsto> p)"
  "map_of (idConfigs (addCfgToCache st p)) = (map_of (idConfigs st))(qID (cfgAt st p) \<mapsto> p)"
  by (simp_all add: addCfgToCache_def update_conv')

lemma cfgAt_kv [simp]: "cfgAt (st\<lparr>qkv := s, notices := n\<rparr>) p = cfgAt st p" "cfgAt (st\<lparr>qkv := s\<rparr>) p = cfgAt st p"
  by (simp_all add: cfgAt_def)

lemma cache_ok_add:
  "cache_ok st \<Longrightarrow> p < length (cfgHeap st) \<Longrightarrow> qID (cfgAt st p) \<noteq> [] \<Longrightarrow> cache_ok (addCfgToCache st p)"
  by (auto simp: cache_ok_def addCfgToCache_maps split: if_splits)

lemma cache_ok_set:
  "cache_ok st \<Longrightarrow> qID c = qID (cfgAt st p) \<or> qID (cfgAt st p) = [] \<Longrightarrow> cache_ok (setCfg st p c)"
  by (auto simp: cache_ok_def)

lemma cache_ok_new:
  "cache_ok st \<Longrightarrow> cache_ok (fst (newCfg st cfg))" "snd (newCfg st cfg) < length (cfgHeap (fst (newCfg st cfg)))"
  "cfgAt (fst (newCfg st cfg)) (snd (newCfg st cfg)) = cfg"
  by (auto simp: cache_ok_def newCfg_def cfgAt_def nth_append less_Suc_eq)

lemma nameAndID_ok:
  assumes "nameAndID md5 c = Ret c'" "\<forall>s. md5 s \<noteq> []"
  shows "qID c' \<noteq> []" "qID c' = qID c \<or> qID c = []" "qName c \<noteq> [] \<Longrightarrow> qName c' = qName c" "qName c' \<noteq> []"
    "qLabels c' = qLabels c"
  using assms by (auto simp: nameAndID_def Let_def split: if_splits)

lemma RegisterConfig_cases:
  assumes "RegisterConfig h j md5 now st p = Ret (st', r)"
  obtains cfg s where "nameAndID md5 (cfgAt st p) = Ret cfg"
    "hAddValue h (qkv st) queueConfigBucket (str_bytes (qID cfg)) (toQueue j (cfg\<lparr>qCreated := now\<rparr>)) = (s, None)"
    "st' = (addCfgToCache (setCfg st p (cfg\<lparr>qCreated := now\<rparr>)) p)\<lparr>qkv := s,
       notices := notices st @ map (\<lambda>f. (f, p)) (queueConfigListener st)\<rparr>"
proof -
  obtain cfg where c: "nameAndID md5 (cfgAt st p) = Ret cfg" using assms by (auto simp: RegisterConfig_def go_bind_Ret_iff)
  obtain s e where a: "hAddValue h (qkv st) queueConfigBucket (str_bytes (qID cfg)) (toQueue j (cfg\<lparr>qCreated := now\<rparr>)) = (s, e)"
    by fastforce
  with assms c have "e = None" by (cases e) (simp_all add: RegisterConfig_def Let_def)
  with assms c a show ?thesis by (intro that [of cfg s]) (auto simp: RegisterConfig_def Let_def)
qed

lemma cache_ok_kv [simp]:
  "cache_ok (st\<lparr>qkv := s, notices := n\<rparr>) = cache_ok st" "cache_ok (st\<lparr>qkv := s\<rparr>) = cache_ok st"
  by (simp_all add: cache_ok_def cfgAt_def)

lemma cache_ok_register:
  assumes "cache_ok st" "p < length (cfgHeap st)" "\<forall>s. md5 s \<noteq> []" "RegisterConfig h j md5 now st p = Ret (st', r)"
  shows "cache_ok st'"
proof -
  obtain cfg s where c: "nameAndID md5 (cfgAt st p) = Ret cfg"
    "st' = (addCfgToCache (setCfg st p (cfg\<lparr>qCreated := now\<rparr>)) p)\<lparr>qkv := s,
       notices := notices st @ map (\<lambda>f. (f, p)) (queueConfigListener st)\<rparr>"
    using RegisterConfig_cases [OF assms(4)] by metis
  have "cache_ok (setCfg st p (cfg\<lparr>qCreated := now\<rparr>))"
    using nameAndID_ok(2) [OF c(1) assms(3)] by (intro cache_ok_set [OF assms(1)]) auto
  then have "cache_ok (addCfgToCache (setCfg st p (cfg\<lparr>qCreated := now\<rparr>)) p)"
    by (rule cache_ok_add) (use assms(2) nameAndID_ok(1) [OF c(1) assms(3)] in auto)
  then show ?thesis using c(2) by simp
qed

lemma GetConfigByUUID_cases:
  assumes "GetConfigByUUID h j st i = Ret (st', r)"
  obtains "st' = st" "r = map_of (idConfigs st) i"
  | cfg b where "map_of (idConfigs st) i = None" "hGetValue h (qkv st) queueConfigBucket (str_bytes i) = Inr (Some b)"
      "FromJSONBytes (fromQueue j) (Some b) emptyCfg = Inr cfg" "qID cfg = i" "i \<noteq> []"
      "st' = addCfgToCache (fst (newCfg st cfg)) (snd (newCfg st cfg))" "r = Some (snd (newCfg st cfg))"
  using assms by (auto simp: GetConfigByUUID_def newCfg_def split: option.splits sum.splits if_splits)

lemma cache_ok_uuid:
  assumes "cache_ok st" "GetConfigByUUID h j st i = Ret (st', r)"
  shows "cache_ok st'" "r = Some p \<Longrightarrow> p < length (cfgHeap st') \<and> qID (cfgAt st' p) = i"
proof -
  note new = cache_ok_new(1) [OF assms(1)] cache_ok_new(2,3) [of st]
  show "cache_ok st'" by (rule GetConfigByUUID_cases [OF assms(2)]) (auto simp: assms(1) new intro!: cache_ok_add)
  show "p < length (cfgHeap st') \<and> qID (cfgAt st' p) = i" if "r = Some p"
    by (rule GetConfigByUUID_cases [OF assms(2)]) (use that cache_okD(2,3) [OF assms(1)] new in auto)
qed

lemma cache_ok_smart:
  assumes "cache_ok st" "SmartGetConfig h j st i = Ret (st', r)"
  shows "cache_ok st'" "r = Some p \<Longrightarrow> p < length (cfgHeap st')"
  using assms cache_ok_uuid [OF assms(1)] cache_okD(1) [OF assms(1)]
  by (auto simp: SmartGetConfig_def GetConfigByKey_def split: option.splits)

lemma cache_ok_init:
  assumes "cache_ok st" "\<forall>s. md5 s \<noteq> []" "AdvancedGetOrInitConfig h j md5 now st t key labels = Ret (st', p)"
  shows "cache_ok st'"
proof -
  obtain st1 found where f: "SmartGetConfig h j st key = Ret (st1, found)"
    using assms(3) by (auto simp: AdvancedGetOrInitConfig_def go_bind_Ret_iff)
  note ok = cache_ok_smart [OF assms(1) f]
  show ?thesis
  proof (cases found)
    case None
    let ?cfg = "emptyCfg\<lparr>qType := t, qID := md5 key, qName := key, qSource := ''dynamic'', qLabels := labels\<rparr>"
    obtain st2 p2 where n: "newCfg st1 ?cfg = (st2, p2)" by (cases "newCfg st1 ?cfg")
    from assms(3) f None n obtain r where "RegisterConfig h j md5 now st2 p2 = Ret (st', r)"
      by (auto simp: AdvancedGetOrInitConfig_def go_bind_Ret_iff)
    moreover have "cache_ok st2" "p2 < length (cfgHeap st2)"
      using cache_ok_new(1) [OF ok(1), of ?cfg] cache_ok_new(2) [of st1 ?cfg] n by simp_all
    ultimately show ?thesis using cache_ok_register assms(2) by blast
  next
    case (Some q)
    let ?st = "setCfg st1 q ((cfgAt st1 q)\<lparr>qName := key, qLabels := labels\<rparr>)"
    have "cache_ok ?st" by (rule cache_ok_set [OF ok(1)]) simp
    moreover have "q < length (cfgHeap ?st)" using ok(2) Some by simp
    ultimately show ?thesis using assms(2,3) f Some ok(1) cache_ok_register [of ?st q]
      by (auto simp: AdvancedGetOrInitConfig_def go_bind_Ret_iff split: if_splits)
  qed
qed


text \<open>Any sequence of operations on the registry.\<close>

inductive queue_run :: "'s KVHandler \<Rightarrow> cfgJson \<Rightarrow> (string \<Rightarrow> string) \<Rightarrow> 's queues \<Rightarrow> 's queues \<Rightarrow> bool"
  for h :: "'s KVHandler" and j md5 where
  start: "queue_run h j md5 st st"
| alloc: "queue_run h j md5 st s1 \<Longrightarrow> newCfg s1 cfg = (s2, p) \<Longrightarrow> queue_run h j md5 st s2"
| register: "queue_run h j md5 st s1 \<Longrightarrow> p < length (cfgHeap s1) \<Longrightarrow> RegisterConfig h j md5 now s1 p = Ret (s2, r) \<Longrightarrow>
    queue_run h j md5 st s2"
| get_uuid: "queue_run h j md5 st s1 \<Longrightarrow> GetConfigByUUID h j s1 i = Ret (s2, found) \<Longrightarrow> queue_run h j md5 st s2"
| get_or_init: "queue_run h j md5 st s1 \<Longrightarrow> AdvancedGetOrInitConfig h j md5 now s1 t key labels = Ret (s2, p) \<Longrightarrow>
    queue_run h j md5 st s2"
| remove: "queue_run h j md5 st s1 \<Longrightarrow> RemoveConfig s1 p = (s2, b) \<Longrightarrow> queue_run h j md5 st s2"
| label_update: "queue_run h j md5 st s1 \<Longrightarrow> UpdateLabel s1 p key v = Ret s2 \<Longrightarrow> queue_run h j md5 st s2"
| label_replace: "queue_run h j md5 st s1 \<Longrightarrow> ReplaceLabels s1 p labels' = s2 \<Longrightarrow> queue_run h j md5 st s2"

lemma cache_ok_remove: "cache_ok st \<Longrightarrow> cache_ok (fst (RemoveConfig st p))"
  by (auto simp: cache_ok_def RemoveConfig_def cfgAt_def delete_conv' split: if_splits)

lemma cache_ok_labels:
  "cache_ok st \<Longrightarrow> UpdateLabel st p key v = Ret st' \<Longrightarrow> cache_ok st'"
  "cache_ok st \<Longrightarrow> cache_ok (ReplaceLabels st p labels)"
  by (auto simp: UpdateLabel_def ReplaceLabels_def split: option.splits intro!: cache_ok_set)

lemma queue_run_cache_ok:
  "queue_run h j md5 st st' \<Longrightarrow> \<forall>s. md5 s \<noteq> [] \<Longrightarrow> cache_ok st \<Longrightarrow> cache_ok st'"
proof (induction rule: queue_run.induct)
  case (alloc st s1 cfg s2 p)
  then show ?case using cache_ok_new(1) [of s1 cfg] by simp
next
  case (remove st s1 p s2 b)
  then show ?case using cache_ok_remove [of s1 p] by simp
qed (auto intro: cache_ok_register cache_ok_uuid(1) cache_ok_init cache_ok_labels)

text \<open>C18: a lookup by ID never returns another queue. After any sequence of registrations, lookups,
  initialisations, label changes and removals that starts with empty caches, the configuration
  \<open>GetConfigByUUID\<close> returns carries the ID it was asked for.\<close>

theorem lookup_by_id_is_right:
  assumes "\<forall>s. md5 s \<noteq> []" "configs st = []" "idConfigs st = []" "queue_run h j md5 st st'"
    and "GetConfigByUUID h j st' i = Ret (st'', Some p)"
  shows "p < length (cfgHeap st'') \<and> qID (cfgAt st'' p) = i"
proof -
  have "cache_ok st" using assms(2,3) by (simp add: cache_ok_def)
  from queue_run_cache_ok [OF assms(4,1) this] show ?thesis by (rule cache_ok_uuid(2) [OF _ assms(5) refl])
qed

definition emptyQueues :: "SimpleKV queues" where
  "emptyQueues = \<lparr>qkv = rkv emptyRegistry, cfgHeap = [], configs = [], idConfigs = [], queueConfigListener = [''l''], notices = []\<rparr>"

definition cfgJson0 :: "QueueConfig \<Rightarrow> cfgJson" where
  "cfgJson0 cfg = \<lparr>toQueue = (\<lambda>_. [1]), fromQueue = (\<lambda>_. Inr cfg)\<rparr>"

lemmas queue_defs = emptyQueues_def emptyRegistry_def cfgJson0_def AdvancedGetOrInitConfig_def SmartGetConfig_def
  GetConfigByKey_def GetConfigByUUID_def RegisterConfig_def nameAndID_def newCfg_def setCfg_def addCfgToCache_def cfgAt_def
  emptyCfg_def simple_kv_def GetValue_def AddValue_def kvSet_def kvGet_def writeEntry_def FromJSONBytes_def Let_def

theorem lookup_by_id_is_right_witness:
  "\<exists>st p st''. AdvancedGetOrInitConfig simple_kv (cfgJson0 emptyCfg) (\<lambda>_. ''x'') ''now'' emptyQueues ''disk'' ''k'' None = Ret (st, p) \<and>
    GetConfigByUUID simple_kv (cfgJson0 emptyCfg) st ''x'' = Ret (st'', Some p) \<and> qID (cfgAt st'' p) = ''x''"
proof -
  obtain st where st: "AdvancedGetOrInitConfig simple_kv (cfgJson0 emptyCfg) (\<lambda>_. ''x'') ''now'' emptyQueues ''disk'' ''k'' None = Ret (st, 0)"
    "GetConfigByUUID simple_kv (cfgJson0 emptyCfg) st ''x'' = Ret (st, Some 0)"
    by (simp add: queue_defs)
  have "queue_run simple_kv (cfgJson0 emptyCfg) (\<lambda>_. ''x'') emptyQueues st"
    by (rule queue_run.get_or_init [OF queue_run.start st(1)])
  from lookup_by_id_is_right [OF _ _ _ this st(2)] st show ?thesis by (auto simp: emptyQueues_def)
qed


subsection \<open>The stored copy\<close>

text \<open>A new process finds the key-value store and nothing else.\<close>

definition restart :: "'s queues \<Rightarrow> 's queues" where
  "restart st = st\<lparr>cfgHeap := [], configs := [], idConfigs := [], queueConfigListener := [], notices := []\<rparr>"

lemma registered:
  assumes "RegisterConfig h j md5 now st p = Ret (st', r)" "p < length (cfgHeap st)" "\<forall>s. md5 s \<noteq> []"
  shows "qkv st' = fst (hAddValue h (qkv st) queueConfigBucket (str_bytes (qID (cfgAt st' p))) (toQueue j (cfgAt st' p)))"
    "qID (cfgAt st' p) \<noteq> []" "length (cfgHeap st') = length (cfgHeap st)"
    "map_of (configs st') = (map_of (configs st))(qName (cfgAt st' p) \<mapsto> p)"
    "map_of (idConfigs st') = (map_of (idConfigs st))(qID (cfgAt st' p) \<mapsto> p)"
    "qLabels (cfgAt st' p) = qLabels (cfgAt st p)" "qName (cfgAt st p) \<noteq> [] \<Longrightarrow> qName (cfgAt st' p) = qName (cfgAt st p)"
proof -
  obtain cfg s where c: "nameAndID md5 (cfgAt st p) = Ret cfg"
    "hAddValue h (qkv st) queueConfigBucket (str_bytes (qID cfg)) (toQueue j (cfg\<lparr>qCreated := now\<rparr>)) = (s, None)"
    "st' = (addCfgToCache (setCfg st p (cfg\<lparr>qCreated := now\<rparr>)) p)\<lparr>qkv := s,
       notices := notices st @ map (\<lambda>f. (f, p)) (queueConfigListener st)\<rparr>"
    using RegisterConfig_cases [OF assms(1)] by metis
  have "cfgAt st' p = cfg\<lparr>qCreated := now\<rparr>" "length (cfgHeap st') = length (cfgHeap st)" using c(3) assms(2) by simp_all
  then show "qkv st' = fst (hAddValue h (qkv st) queueConfigBucket (str_bytes (qID (cfgAt st' p))) (toQueue j (cfgAt st' p)))"
    "qID (cfgAt st' p) \<noteq> []" "length (cfgHeap st') = length (cfgHeap st)"
    "map_of (configs st') = (map_of (configs st))(qName (cfgAt st' p) \<mapsto> p)"
    "map_of (idConfigs st') = (map_of (idConfigs st))(qID (cfgAt st' p) \<mapsto> p)"
    "qLabels (cfgAt st' p) = qLabels (cfgAt st p)" "qName (cfgAt st p) \<noteq> [] \<Longrightarrow> qName (cfgAt st' p) = qName (cfgAt st p)"
    using c nameAndID_ok [OF c(1) assms(3)] assms(2) by (simp_all add: addCfgToCache_maps)
qed

definition queue_json_exact :: "cfgJson \<Rightarrow> QueueConfig \<Rightarrow> bool" where
  "queue_json_exact j cfg \<longleftrightarrow> toQueue j cfg \<noteq> [] \<and> fromQueue j (toQueue j cfg) = Inr cfg"

context kv_store
begin

lemma stored_config_found:
  assumes "usable (qkv st)" "RegisterConfig h j md5 now st p = Ret (st', r)" "p < length (cfgHeap st)" "\<forall>s. md5 s \<noteq> []"
    and "queue_json_exact j (cfgAt st' p)" "qkv st1 = qkv st'" "map_of (idConfigs st1) (qID (cfgAt st' p)) = None"
  shows "\<exists>st2. GetConfigByUUID h j st1 (qID (cfgAt st' p)) = Ret (st2, Some (length (cfgHeap st1))) \<and>
    cfgAt st2 (length (cfgHeap st1)) = cfgAt st' p \<and> GetConfigByKey st2 (qName (cfgAt st' p)) = Some (length (cfgHeap st1))"
proof -
  let ?c = "cfgAt st' p"
  have "hGetValue h (qkv st1) queueConfigBucket (str_bytes (qID ?c)) = Inr (Some (toQueue j ?c))"
    using get_add_same [OF assms(1)] assms(6) registered(1) [OF assms(2-4)] by simp
  moreover have "FromJSONBytes (fromQueue j) (Some (toQueue j ?c)) emptyCfg = Inr ?c"
    using assms(5) by (simp add: queue_json_exact_def FromJSONBytes_def)
  ultimately have g: "GetConfigByUUID h j st1 (qID ?c) =
      Ret (addCfgToCache (fst (newCfg st1 ?c)) (snd (newCfg st1 ?c)), Some (snd (newCfg st1 ?c)))"
    using assms(7) registered(2) [OF assms(2-4)] by (simp add: GetConfigByUUID_def newCfg_def)
  have "snd (newCfg st1 ?c) = length (cfgHeap st1)" by (simp add: newCfg_def)
  with g cache_ok_new(3) [of st1 ?c] show ?thesis
    by (auto simp: GetConfigByKey_def addCfgToCache_maps)
qed

end

text \<open>C21: the configuration of a queue survives a restart. In a process that finds nothing but the
  key-value store, \<open>GetConfigByUUID\<close> returns a configuration equal to the one that was registered,
  and from then on it is found by its name as well.\<close>

theorem config_survives_restart:
  assumes "\<not> closed (qkv st)" "RegisterConfig simple_kv j md5 now st p = Ret (st', r)" "p < length (cfgHeap st)"
    and "\<forall>s. md5 s \<noteq> []" "queue_json_exact j (cfgAt st' p)"
  shows "\<exists>st2 p2. GetConfigByUUID simple_kv j (restart st') (qID (cfgAt st' p)) = Ret (st2, Some p2) \<and>
    cfgAt st2 p2 = cfgAt st' p \<and> GetConfigByKey st2 (qName (cfgAt st' p)) = Some p2"
  using skv.stored_config_found [OF assms, of "restart st'"] by (auto simp: restart_def)

text \<open>removing a queue does not last. \<open>RemoveConfig\<close> clears the two caches and not the stored copy, so
  the next lookup by ID brings the removed configuration back, under its name too.\<close>

theorem removed_config_returns:
  assumes "\<not> closed (qkv st)" "RegisterConfig simple_kv j md5 now st p = Ret (st', r)" "p < length (cfgHeap st)"
    and "\<forall>s. md5 s \<noteq> []" "queue_json_exact j (cfgAt st' p)"
  shows "\<exists>st1 st2 p2. RemoveConfig st' p = (st1, True) \<and> GetConfigByKey st1 (qName (cfgAt st' p)) = None \<and>
    GetConfigByUUID simple_kv j st1 (qID (cfgAt st' p)) = Ret (st2, Some p2) \<and>
    cfgAt st2 p2 = cfgAt st' p \<and> GetConfigByKey st2 (qName (cfgAt st' p)) = Some p2"
proof -
  let ?st1 = "fst (RemoveConfig st' p)"
  have "RemoveConfig st' p = (?st1, True)" "GetConfigByKey ?st1 (qName (cfgAt st' p)) = None"
    by (simp_all add: RemoveConfig_def GetConfigByKey_def delete_conv')
  moreover have "qkv ?st1 = qkv st'" "map_of (idConfigs ?st1) (qID (cfgAt st' p)) = None"
    by (simp_all add: RemoveConfig_def delete_conv')
  ultimately show ?thesis using skv.stored_config_found [OF assms, of ?st1] by blast
qed

text \<open>looking a queue up by its ID with new labels renames it. The key, which is the ID, becomes its
  name, while the cache by name still has it under the old name: a lookup by the old name then returns a
  configuration with another name, because both caches point to the one object that was changed.\<close>

theorem lookup_by_id_renames:
  assumes "RegisterConfig h j md5 now st p = Ret (st1, r)" "p < length (cfgHeap st)" "\<forall>s. md5 s \<noteq> []"
    and "map_of (configs st1) (qID (cfgAt st1 p)) = None" "labelChanged labels (qLabels (cfgAt st1 p))"
    and "AdvancedGetOrInitConfig h j md5 now st1 t (qID (cfgAt st1 p)) labels = Ret (st2, p2)"
  shows "p2 = p \<and> GetConfigByKey st2 (qName (cfgAt st1 p)) = Some p \<and> qName (cfgAt st2 p) = qID (cfgAt st1 p) \<and>
    qName (cfgAt st2 p) \<noteq> qName (cfgAt st1 p)"
proof -
  note r = registered [OF assms(1-3)]
  let ?c = "cfgAt st1 p"
  let ?st = "setCfg st1 p (?c\<lparr>qName := qID ?c, qLabels := labels\<rparr>)"
  have "SmartGetConfig h j st1 (qID ?c) = Ret (st1, Some p)"
    using assms(4) r(5) by (simp add: SmartGetConfig_def GetConfigByKey_def GetConfigByUUID_def)
  with assms(5,6) obtain b where a: "p2 = p" "RegisterConfig h j md5 now ?st p = Ret (st2, b)"
    by (auto simp: AdvancedGetOrInitConfig_def go_bind_Ret_iff)
  have p: "p < length (cfgHeap ?st)" "p < length (cfgHeap st1)" using assms(2) r(3) by simp_all
  note r2 = registered [OF a(2) p(1) assms(3)]
  have "qName (cfgAt st2 p) = qID ?c" using r2(7) r(2) p(2) by simp
  moreover have "qID ?c \<noteq> qName ?c" using assms(4) r(4) by (auto split: if_splits)
  moreover have "GetConfigByKey st2 (qName ?c) = Some p" using r2(4) r(4) by (simp add: GetConfigByKey_def)
  ultimately show ?thesis using a(1) by simp
qed


definition diskCfg :: QueueConfig where
  "diskCfg = emptyCfg\<lparr>qID := ''i'', qName := ''n'', qType := ''disk'', qCreated := ''now''\<rparr>"

definition oneQueue :: "SimpleKV queues" where
  "oneQueue = emptyQueues\<lparr>cfgHeap := [diskCfg]\<rparr>"

lemma one_queue:
  "\<exists>st' r. RegisterConfig simple_kv (cfgJson0 diskCfg) (\<lambda>_. ''x'') ''now'' oneQueue 0 = Ret (st', r) \<and>
    cfgAt st' 0 = diskCfg \<and> map_of (configs st') ''i'' = None \<and> map_of (idConfigs st') ''i'' = Some 0 \<and>
    0 < length (cfgHeap st') \<and> \<not> closed (qkv st') \<and> walPlan (kvstore (qkv st')) = []"
  by (auto simp: queue_defs oneQueue_def diskCfg_def)

lemma one_queue_start:
  "\<not> closed (qkv oneQueue)" "0 < length (cfgHeap oneQueue)" "\<forall>s :: string. ''x'' \<noteq> []"
  "queue_json_exact (cfgJson0 diskCfg) diskCfg"
  by (simp_all add: queue_defs oneQueue_def queue_json_exact_def)

theorem config_survives_restart_witness:
  "\<exists>st' r st2 p2. RegisterConfig simple_kv (cfgJson0 diskCfg) (\<lambda>_. ''x'') ''now'' oneQueue 0 = Ret (st', r) \<and>
    GetConfigByUUID simple_kv (cfgJson0 diskCfg) (restart st') ''i'' = Ret (st2, Some p2) \<and> cfgAt st2 p2 = diskCfg"
proof -
  obtain st' r where st': "RegisterConfig simple_kv (cfgJson0 diskCfg) (\<lambda>_. ''x'') ''now'' oneQueue 0 = Ret (st', r)"
    "cfgAt st' 0 = diskCfg" using one_queue by blast
  have "queue_json_exact (cfgJson0 diskCfg) (cfgAt st' 0)" using one_queue_start(4) st'(2) by simp
  from config_survives_restart [OF one_queue_start(1) st'(1) one_queue_start(2,3) this] st' show ?thesis by (auto simp: diskCfg_def)
qed

theorem removed_config_returns_witness:
  "\<exists>st' r st1 st2 p2. RegisterConfig simple_kv (cfgJson0 diskCfg) (\<lambda>_. ''x'') ''now'' oneQueue 0 = Ret (st', r) \<and>
    RemoveConfig st' 0 = (st1, True) \<and> GetConfigByKey st1 ''n'' = None \<and>
    GetConfigByUUID simple_kv (cfgJson0 diskCfg) st1 ''i'' = Ret (st2, Some p2) \<and> GetConfigByKey st2 ''n'' = Some p2"
proof -
  obtain st' r where st': "RegisterConfig simple_kv (cfgJson0 diskCfg) (\<lambda>_. ''x'') ''now'' oneQueue 0 = Ret (st', r)"
    "cfgAt st' 0 = diskCfg" using one_queue by blast
  have "queue_json_exact (cfgJson0 diskCfg) (cfgAt st' 0)" using one_queue_start(4) st'(2) by simp
  from removed_config_returns [OF one_queue_start(1) st'(1) one_queue_start(2,3) this] st' show ?thesis by (auto simp: diskCfg_def)
qed

theorem lookup_by_id_renames_witness:
  "\<exists>st1 r st2. RegisterConfig simple_kv (cfgJson0 diskCfg) (\<lambda>_. ''x'') ''now'' oneQueue 0 = Ret (st1, r) \<and>
    AdvancedGetOrInitConfig simple_kv (cfgJson0 diskCfg) (\<lambda>_. ''x'') ''now'' st1 ''disk'' ''i'' (Some [(''a'', LStr ''b'')]) = Ret (st2, 0) \<and>
    GetConfigByKey st2 ''n'' = Some 0 \<and> qName (cfgAt st2 0) = ''i''"
proof -
  obtain st1 r where st1: "RegisterConfig simple_kv (cfgJson0 diskCfg) (\<lambda>_. ''x'') ''now'' oneQueue 0 = Ret (st1, r)"
    "cfgAt st1 0 = diskCfg" "map_of (configs st1) ''i'' = None" "map_of (idConfigs st1) ''i'' = Some 0" "0 < length (cfgHeap st1)"
    "\<not> closed (qkv st1)" "walPlan (kvstore (qkv st1)) = []" using one_queue by blast
  have i: "qID (cfgAt st1 0) = ''i''" "qName (cfgAt st1 0) = ''n''" using st1(2) by (simp_all add: diskCfg_def)
  have lc: "labelChanged (Some [(''a'', LStr ''b'')]) (qLabels (cfgAt st1 0))"
    using st1(2) by (simp add: labelChanged_def diskCfg_def emptyCfg_def)
  let ?c = "cfgAt st1 0\<lparr>qName := ''i'', qLabels := Some [(''a'', LStr ''b'')], qCreated := ''now''\<rparr>"
  obtain s where add: "hAddValue simple_kv (qkv st1) queueConfigBucket (str_bytes ''i'') (toQueue (cfgJson0 diskCfg) ?c) = (s, None)"
    using writes_succeed(1) [OF st1(6,7)] by (metis KVHandler.select_convs(2) prod.collapse simple_kv_def)
  obtain st2 where st2: "AdvancedGetOrInitConfig simple_kv (cfgJson0 diskCfg) (\<lambda>_. ''x'') ''now'' st1 ''disk'' ''i''
      (Some [(''a'', LStr ''b'')]) = Ret (st2, 0)"
    using st1(3-5) lc i add
    by (auto simp: AdvancedGetOrInitConfig_def SmartGetConfig_def GetConfigByKey_def GetConfigByUUID_def RegisterConfig_def
        nameAndID_def Let_def go_bind_Ret_iff split: prod.splits option.splits)
  have n: "map_of (configs st1) (qID (cfgAt st1 0)) = None" using st1(3) i by simp
  from lookup_by_id_renames [OF st1(1) one_queue_start(2,3) n lc] st1(1) st2 i show ?thesis by auto
qed

end
