(* ===== verification/QueueApi.thy ===== *)
theory QueueApi
  imports QueueRegistry
begin

section \<open>The queue interface: handlers, selectors and the owner of a consumer\<close>

text \<open>
  \<open>core/queue/api.go\<close> and \<open>simple_queue.go\<close>: the functions the rest of the system calls. They pick
  the handler of a queue by its type, select queue configurations by ID, name or label, and keep the
  list of the clients that hold a consumer (\<open>consumersInFighting\<close>).

  \<^item> \<open>QueueAPI\<close> is the Go interface of a handler. \<open>isSimple\<close> and \<open>isAdvanced\<close> tell which of the two
    wider interfaces the value implements. \<open>'s\<close> is the state of all handlers, \<open>'c\<close> a consumer instance.
    A \<open>Pop\<close> that blocks for ever is \<open>None\<close>.
  \<^item> \<open>lastActive\<close> has the time stamps of \<open>KeepActive\<close> by consumer ID, in nanoseconds.
  \<^item> The counters of the \<open>stats\<close> package are left out; no decision depends on them.
\<close>

record ('s, 'c) QueueAPI =
  isSimple :: bool
  isAdvanced :: bool
  aInit :: "'s \<Rightarrow> string \<Rightarrow> 's \<times> string option"
  aClose :: "'s \<Rightarrow> string \<Rightarrow> 's \<times> string option"
  aDestroy :: "'s \<Rightarrow> string \<Rightarrow> 's \<times> string option"
  aGetQueues :: "'s \<Rightarrow> string list"
  aPush :: "'s \<Rightarrow> string \<Rightarrow> bytes \<Rightarrow> 's \<times> string option"
  aPop :: "'s \<Rightarrow> string \<Rightarrow> int \<Rightarrow> ('s \<times> bytes \<times> bool) option"
  aDepth :: "'s \<Rightarrow> string \<Rightarrow> int"
  aAcquireConsumer :: "'s \<Rightarrow> QueueConfig \<Rightarrow> ConsumerConfig \<Rightarrow> ('s \<times> (string + 'c)) go"
  aReleaseConsumer :: "'s \<Rightarrow> QueueConfig \<Rightarrow> ConsumerConfig \<Rightarrow> 'c option \<Rightarrow> 's \<times> string option"

record ('s, 'c) api =
  adapters :: "(string \<times> ('s, 'c) QueueAPI option) list"
  defaultHandler :: "('s, 'c) QueueAPI option"
  consumersInFighting :: "(string \<times> string) list"
  lastActive :: "(string \<times> int) list"
  handlers :: 's

subsection \<open>Handlers\<close>

definition apiRegister :: "('s, 'c) api \<Rightarrow> string \<Rightarrow> ('s, 'c) QueueAPI option \<Rightarrow> ('s, 'c) api go" where
  "apiRegister a name h =
     (case map_of (adapters a) name of
        Some _ \<Rightarrow> Panic (''queue adapter with same name: '' @ name @ '' already exists'')
      | None \<Rightarrow> Ret (a\<lparr>adapters := AList.update name h (adapters a)\<rparr>))"

definition RegisterDefaultHandler :: "('s, 'c) api \<Rightarrow> ('s, 'c) QueueAPI \<Rightarrow> ('s, 'c) api" where
  "RegisterDefaultHandler a h = a\<lparr>defaultHandler := Some h\<rparr>"

definition GetHandlerByType :: "('s, 'c) api \<Rightarrow> string \<Rightarrow> ('s, 'c) QueueAPI go" where
  "GetHandlerByType a t =
     (case map_of (adapters a) t of
        Some (Some handler) \<Rightarrow> Ret handler
      | _ \<Rightarrow> (case defaultHandler a of None \<Rightarrow> Panic ''no queue handler was found'' | Some d \<Rightarrow> Ret d))"

definition getHandler :: "('s, 'c) api \<Rightarrow> QueueConfig \<Rightarrow> ('s, 'c) QueueAPI go" where
  "getHandler a k = GetHandlerByType a (qType k)"

definition noHandler :: "QueueConfig \<Rightarrow> string" where
  "noHandler k = ''no handler registered for queue ['' @ qName k @ ''][''  @ qType k @ '']''"

definition getSimpleHandler :: "('s, 'c) api \<Rightarrow> QueueConfig \<Rightarrow> ('s, 'c) QueueAPI go" where
  "getSimpleHandler a k = go_bind (getHandler a k) (\<lambda>h. if isSimple h then Ret h else Panic (noHandler k))"

definition getAdvancedHandler :: "('s, 'c) api \<Rightarrow> QueueConfig \<Rightarrow> ('s, 'c) QueueAPI go" where
  "getAdvancedHandler a k = go_bind (getHandler a k) (\<lambda>h. if isAdvanced h then Ret h else Panic (noHandler k))"

definition withID :: "QueueConfig option \<Rightarrow> (QueueConfig \<Rightarrow> 'a go) \<Rightarrow> 'a go" where
  "withID k f = (case k of None \<Rightarrow> Panic ''queue name can't be nil''
                 | Some k \<Rightarrow> if qID k = [] then Panic ''queue name can't be nil'' else f k)"

definition IniQueue :: "('s, 'c) api \<Rightarrow> QueueConfig option \<Rightarrow> ('s, 'c) api go" where
  "IniQueue a k = withID k (\<lambda>k. go_bind (getHandler a k) (\<lambda>h.
     case aInit h (handlers a) (qID k) of
       (s, Some err) \<Rightarrow> Panic err
     | (s, None) \<Rightarrow> Ret (a\<lparr>handlers := s\<rparr>)))"

definition apiClose :: "('s, 'c) api \<Rightarrow> QueueConfig option \<Rightarrow> (('s, 'c) api \<times> string option) go" where
  "apiClose a k = withID k (\<lambda>k. go_bind (getHandler a k) (\<lambda>h.
     let (s, err) = aClose h (handlers a) (qID k) in Ret (a\<lparr>handlers := s\<rparr>, err)))"

definition apiDestroy :: "('s, 'c) api \<Rightarrow> QueueConfig option \<Rightarrow> (('s, 'c) api \<times> string option) go" where
  "apiDestroy a k = withID k (\<lambda>k. go_bind (getHandler a k) (\<lambda>h.
     let (s, err) = aDestroy h (handlers a) (qID k) in Ret (a\<lparr>handlers := s\<rparr>, err)))"

definition apiGetQueues :: "('s, 'c) api \<Rightarrow> (string \<times> string list) list" where
  "apiGetQueues a =
     List.map_filter (\<lambda>(q, h). case h of None \<Rightarrow> None | Some h \<Rightarrow> Some (q, aGetQueues h (handlers a))) (adapters a)"

subsection \<open>Push and pop\<close>

definition apiPush :: "('s, 'c) api \<Rightarrow> QueueConfig option \<Rightarrow> bytes \<Rightarrow> (('s, 'c) api \<times> string option) go" where
  "apiPush a k v = withID k (\<lambda>k. go_bind (getHandler a k) (\<lambda>h.
     let (s, err) = aPush h (handlers a) (qID k) v in Ret (a\<lparr>handlers := s\<rparr>, err)))"

definition apiPop :: "('s, 'c) api \<Rightarrow> QueueConfig option \<Rightarrow> (('s, 'c) api \<times> bytes \<times> string option) option go" where
  "apiPop a k = withID k (\<lambda>k. go_bind (getSimpleHandler a k) (\<lambda>h.
     Ret (map_option (\<lambda>(s, data, timeout).
            (a\<lparr>handlers := s\<rparr>, data, if timeout then Some ''timeout'' else None)) (aPop h (handlers a) (qID k) (-1)))))"

definition PopTimeout ::
  "('s, 'c) api \<Rightarrow> QueueConfig option \<Rightarrow> int \<Rightarrow> (('s, 'c) api \<times> bytes \<times> bool \<times> string option) option go" where
  "PopTimeout a k timeoutInSeconds = withID k (\<lambda>k.
     let timeoutInSeconds = (if timeoutInSeconds < 1 then 5 else timeoutInSeconds)
     in go_bind (getSimpleHandler a k) (\<lambda>h.
          Ret (map_option (\<lambda>(s, data, timeout). (a\<lparr>handlers := s\<rparr>, data, timeout, None))
                 (aPop h (handlers a) (qID k) timeoutInSeconds))))"

definition apiDepth :: "('s, 'c) api \<Rightarrow> QueueConfig option \<Rightarrow> int go" where
  "apiDepth a k = withID k (\<lambda>k. go_bind (getSimpleHandler a k) (\<lambda>h. Ret (aDepth h (handlers a) (qID k))))"


subsection \<open>Selecting queues\<close>

record QueueSelector =
  sLabels :: labels
  sIds :: "string list"
  sKeys :: "string list"

text \<open>The inner loop of \<open>GetConfigByLabels\<close>: it leaves a configuration out at the first label with
  another value.\<close>

fun matchLabels :: "labels option \<Rightarrow> labels \<Rightarrow> bool \<Rightarrow> bool" where
  "matchLabels have [] matched = matched"
| "matchLabels have ((x, y) # labels) matched =
     (case have of
        None \<Rightarrow> matchLabels have labels matched
      | Some ls \<Rightarrow>
          (case map_of ls x of
             None \<Rightarrow> matchLabels have labels matched
           | Some z \<Rightarrow> if ToString z = ToString y then matchLabels have labels True else False))"

definition GetConfigByLabels :: "'s queues \<Rightarrow> labels \<Rightarrow> nat list" where
  "GetConfigByLabels st labels =
     filter (\<lambda>p. matchLabels (qLabels (cfgAt st p)) labels False) (map snd (configs st))"

fun selectIds :: "'s KVHandler \<Rightarrow> cfgJson \<Rightarrow> 's queues \<Rightarrow> string list \<Rightarrow> ('s queues \<times> nat list) go" where
  "selectIds h j st [] = Ret (st, [])"
| "selectIds h j st (i # is) =
     go_bind (GetConfigByUUID h j st i) (\<lambda>(st, found).
       go_bind (selectIds h j st is) (\<lambda>(st, ps).
         Ret (st, (case found of Some p \<Rightarrow> p # ps | None \<Rightarrow> ps))))"

definition GetConfigBySelector ::
  "'s KVHandler \<Rightarrow> cfgJson \<Rightarrow> 's queues \<Rightarrow> QueueSelector option \<Rightarrow> ('s queues \<times> nat list) go" where
  "GetConfigBySelector h j st selector =
     (case selector of
        None \<Rightarrow> Ret (st, [])
      | Some sel \<Rightarrow>
          go_bind (selectIds h j st (sIds sel)) (\<lambda>(st, byId).
            Ret (st, byId @ List.map_filter (GetConfigByKey st) (sKeys sel) @
                     (if sLabels sel = [] then [] else GetConfigByLabels st (sLabels sel)))))"

subsection \<open>Who holds a consumer\<close>

definition topicKey :: "QueueConfig \<Rightarrow> ConsumerConfig \<Rightarrow> string" where
  "topicKey k consumer = qID k @ Key consumer"


definition GetLastActiveTime :: "('s, 'c) api \<Rightarrow> ConsumerConfig \<Rightarrow> int option" where
  "GetLastActiveTime a cfg = map_of (lastActive a) (cID cfg)"

definition idleTooLong :: "int \<Rightarrow> ('s, 'c) api \<Rightarrow> ConsumerConfig \<Rightarrow> bool" where
  "idleTooLong now a consumer \<longleftrightarrow> ConsumeTimeoutInSeconds consumer > 0 \<and>
     (case GetLastActiveTime a consumer of
        None \<Rightarrow> False
      | Some t \<Rightarrow> (now - t) div 1000000000 > ConsumeTimeoutInSeconds consumer)"

definition grantConsumer ::
  "('s, 'c) api \<Rightarrow> QueueConfig \<Rightarrow> ConsumerConfig \<Rightarrow> string \<Rightarrow> (('s, 'c) api \<times> (string + 'c)) go" where
  "grantConsumer a k consumer clientID =
     go_bind (getAdvancedHandler a k) (\<lambda>h.
       go_bind (aAcquireConsumer h (handlers a) k consumer) (\<lambda>(s, r).
         case r of
           Inl err \<Rightarrow> Ret (a\<lparr>handlers := s\<rparr>, Inl err)
         | Inr v1 \<Rightarrow>
             Ret (a\<lparr>handlers := s,
                    consumersInFighting := AList.update (topicKey k consumer) clientID (consumersInFighting a)\<rparr>,
                  Inr v1)))"

definition apiAcquireConsumer ::
  "int \<Rightarrow> ('s, 'c) api \<Rightarrow> QueueConfig option \<Rightarrow> ConsumerConfig option \<Rightarrow> string \<Rightarrow> (('s, 'c) api \<times> (string + 'c)) go" where
  "apiAcquireConsumer now a k consumer clientID = withID k (\<lambda>k.
     case consumer of
       None \<Rightarrow> Panic ''consumer can't be nil''
     | Some consumer \<Rightarrow>
         if clientID = [] then Panic ''clientID can't be nil''
         else
           (case map_of (consumersInFighting a) (topicKey k consumer) of
              None \<Rightarrow> grantConsumer a k consumer clientID
            | Some v \<Rightarrow>
                if v \<noteq> clientID then
                  (if idleTooLong now a consumer
                   then Ret (a\<lparr>consumersInFighting := AList.delete (topicKey k consumer) (consumersInFighting a)\<rparr>,
                             Inl (''consumer:'' @ Key consumer @ '' is already in fighting list, but expired''))
                   else Ret (a, Inl ''the consumer is in fighting list''))
                else grantConsumer a k consumer clientID))"

definition apiReleaseConsumer ::
  "('s, 'c) api \<Rightarrow> QueueConfig option \<Rightarrow> ConsumerConfig \<Rightarrow> 'c option \<Rightarrow> (('s, 'c) api \<times> string option) go" where
  "apiReleaseConsumer a k c consumer = withID k (\<lambda>k.
     let a = a\<lparr>consumersInFighting := AList.delete (topicKey k c) (consumersInFighting a)\<rparr>
     in go_bind (getAdvancedHandler a k) (\<lambda>h.
          let (s, err) = aReleaseConsumer h (handlers a) k c consumer in Ret (a\<lparr>handlers := s\<rparr>, err)))"

text \<open>How the workers of \<open>plugins/queue/consumer\<close> start: the release is deferred before the error of
  the acquisition is looked at, so it runs for a refused worker as well.\<close>

definition workerAcquire ::
  "int \<Rightarrow> ('s, 'c) api \<Rightarrow> QueueConfig \<Rightarrow> ConsumerConfig \<Rightarrow> string \<Rightarrow> (('s, 'c) api \<times> (string + 'c)) go" where
  "workerAcquire now a qConfig consumerConfig workerID =
     go_bind (apiAcquireConsumer now a (Some qConfig) (Some consumerConfig) workerID) (\<lambda>(a, r).
       case r of
         Inr v \<Rightarrow> Ret (a, Inr v)
       | Inl err \<Rightarrow> go_bind (apiReleaseConsumer a (Some qConfig) consumerConfig None) (\<lambda>(a, _). Ret (a, Inl err)))"

subsection \<open>What a selector finds\<close>

lemma matchLabels_nil [simp]: "matchLabels None labels m = m"
  by (induction labels) auto

lemma matchLabels_iff:
  "matchLabels (Some have) labels m \<longleftrightarrow>
     (m \<or> (\<exists>l \<in> set labels. map_of have (fst l) \<noteq> None)) \<and>
     (\<forall>l \<in> set labels. \<forall>z. map_of have (fst l) = Some z \<longrightarrow> ToString z = ToString (snd l))"
proof (induction labels arbitrary: m)
  case (Cons l labels)
  obtain x y where l: "l = (x, y)" by fastforce
  show ?case
  proof (cases "map_of have x")
    case None
    then show ?thesis using Cons.IH [of m] by (simp add: l)
  next
    case (Some z)
    then show ?thesis using Cons.IH [of True] by (simp add: l)
  qed
qed simp

text \<open>Selecting queues by labels. A cached queue is selected exactly if it carries at least one of
  the labels asked for and none of them with another value, values being compared as text. A label
  the queue does not have is no obstacle as long as another one matches.\<close>

lemma selected_by_labels:
  "p \<in> set (GetConfigByLabels st labels) \<longleftrightarrow>
     p \<in> snd ` set (configs st) \<and>
     (\<exists>have. qLabels (cfgAt st p) = Some have \<and>
        (\<exists>l \<in> set labels. \<exists>z. map_of have (fst l) = Some z \<and> ToString z = ToString (snd l)) \<and>
        \<not> (\<exists>l \<in> set labels. \<exists>z. map_of have (fst l) = Some z \<and> ToString z \<noteq> ToString (snd l)))"
proof (cases "qLabels (cfgAt st p)")
  case None
  then show ?thesis by (simp add: GetConfigByLabels_def)
next
  case (Some ls)
  then show ?thesis by (auto simp: GetConfigByLabels_def matchLabels_iff)
qed


subsection \<open>One owner at a time\<close>


lemma getAdvancedHandler_frame [simp]:
  "getAdvancedHandler (a\<lparr>consumersInFighting := f\<rparr>) k = getAdvancedHandler a k"
  "getAdvancedHandler (a\<lparr>handlers := s\<rparr>) k = getAdvancedHandler a k"
  unfolding getAdvancedHandler_def getHandler_def GetHandlerByType_def by (simp_all cong: option.case_cong)






text \<open>A handler whose acquisitions always succeed, and one topic of it.\<close>

definition openHandler :: "(unit, unit) QueueAPI" where
  "openHandler = \<lparr>isSimple = True, isAdvanced = True, aInit = \<lambda>s _. (s, None), aClose = \<lambda>s _. (s, None),
     aDestroy = \<lambda>s _. (s, None), aGetQueues = \<lambda>_. [], aPush = \<lambda>s _ _. (s, None), aPop = \<lambda>_ _ _. None,
     aDepth = \<lambda>_ _. 0, aAcquireConsumer = \<lambda>s _ _. Ret (s, Inr ()), aReleaseConsumer = \<lambda>s _ _ _. (s, None)\<rparr>"

definition openApi :: "(unit, unit) api" where
  "openApi = \<lparr>adapters = [], defaultHandler = Some openHandler, consumersInFighting = [], lastActive = [], handlers = ()\<rparr>"

definition topicQueue :: QueueConfig where
  "topicQueue = emptyCfg\<lparr>qID := ''q'', qName := ''q''\<rparr>"

definition topicConsumer :: ConsumerConfig where
  "topicConsumer = NewConsumerConfig (\<lambda>s. s) ''q'' ''g'' ''n''"

lemmas topic_defs = openApi_def openHandler_def topicQueue_def topicConsumer_def emptyCfg_def NewConsumerConfig_def
  apiAcquireConsumer_def grantConsumer_def withID_def getAdvancedHandler_def getHandler_def GetHandlerByType_def
  topicKey_def Key_def getConsumerKey_def idleTooLong_def GetLastActiveTime_def



text \<open>A refused worker evicts the owner. The workers defer the release of the consumer before they
  look at the error of acquiring it. A worker that is refused because another one holds the topic
  therefore removes the holder from the list, and its next attempt succeeds while the holder is still
  at work.\<close>

theorem refused_worker_evicts_owner:
  assumes "qID k \<noteq> []" "w2 \<noteq> []" "w2 \<noteq> w1"
    and "map_of (consumersInFighting a) (topicKey k c) = Some w1" "\<not> idleTooLong now a c"
    and "getAdvancedHandler a k = Ret h" "\<forall>s. \<exists>s' v. aAcquireConsumer h s k c = Ret (s', Inr v)"
  shows "\<exists>a'. workerAcquire now a k c w2 = Ret (a', Inl ''the consumer is in fighting list'') \<and>
    map_of (consumersInFighting a') (topicKey k c) = None \<and>
    (\<exists>a'' v. workerAcquire now a' k c w2 = Ret (a'', Inr v) \<and> map_of (consumersInFighting a'') (topicKey k c) = Some w2)"
proof -
  obtain s err where r: "aReleaseConsumer h (handlers a) k c None = (s, err)" by fastforce
  define a' where "a' = a\<lparr>consumersInFighting := AList.delete (topicKey k c) (consumersInFighting a), handlers := s\<rparr>"
  have h: "getAdvancedHandler a' k = Ret h" using assms(6) by (simp add: a'_def)
  have refused: "workerAcquire now a k c w2 = Ret (a', Inl ''the consumer is in fighting list'')"
    using assms(1-6) r
    by (simp add: workerAcquire_def apiAcquireConsumer_def apiReleaseConsumer_def withID_def Let_def a'_def)
  have free: "map_of (consumersInFighting a') (topicKey k c) = None" by (simp add: a'_def delete_conv')
  obtain s' v where "aAcquireConsumer h (handlers a') k c = Ret (s', Inr v)" using assms(7) by blast
  with assms(1,2) h free have "\<exists>a'' v. workerAcquire now a' k c w2 = Ret (a'', Inr v) \<and>
      map_of (consumersInFighting a'') (topicKey k c) = Some w2"
    by (simp add: workerAcquire_def apiAcquireConsumer_def grantConsumer_def withID_def update_conv')
  with refused free show ?thesis by blast
qed

theorem refused_worker_evicts_owner_witness:
  "\<exists>a'. workerAcquire 0 (openApi\<lparr>consumersInFighting := [(''qg-n'', ''w1'')]\<rparr>) topicQueue topicConsumer ''w2'' =
      Ret (a', Inl ''the consumer is in fighting list'') \<and>
    map_of (consumersInFighting a') (topicKey topicQueue topicConsumer) = None \<and>
    (\<exists>a'' v. workerAcquire 0 a' topicQueue topicConsumer ''w2'' = Ret (a'', Inr v) \<and>
       map_of (consumersInFighting a'') (topicKey topicQueue topicConsumer) = Some ''w2'')"
  by (rule refused_worker_evicts_owner [where ?w1.0 = "''w1''" and h = openHandler]) (simp_all add: topic_defs)

end
