(* ===== verification/QueueOffsets.thy ===== *)
theory QueueOffsets
  imports QueueRegistry DiskQueue
begin

section \<open>Where the consumers of a queue stand\<close>

text \<open>
  The earliest and the latest offset over all consumers of a queue, as \<open>core/queue/api.go\<close> computes
  them from the committed offsets and \<open>modules/queue/disk_queue/cleanup.go\<close> corrects them by the
  consumers that are reading right now, and the questions that are answered with them: is there
  anything left to consume? The handler behind \<open>GetOffset\<close> and \<open>LatestOffset\<close> is the disk queue.
\<close>

text \<open>\<open>GetConsumerConfigsByQueueID\<close> reads the key-value store only.\<close>

definition consumersView :: "'s queues \<Rightarrow> 's registry" where
  "consumersView st = \<lparr>rkv = qkv st, consumerConfigListener = [], announced = []\<rparr>"

definition resolveQueue ::
  "'s KVHandler \<Rightarrow> cfgJson \<Rightarrow> 's queues \<Rightarrow> string \<Rightarrow> ('s queues \<times> nat \<times> string) go" where
  "resolveQueue h cj st queueID =
     go_bind (GetConfigByUUID h cj st queueID) (\<lambda>(st, found).
       case found of
         Some q \<Rightarrow> Ret (st, q, queueID)
       | None \<Rightarrow>
           (case GetConfigByKey st queueID of
              Some q \<Rightarrow> Ret (st, q, qID (cfgAt st q))
            | None \<Rightarrow> Panic (''queue ['' @ queueID @ ''] was not found'')))"

definition GetOffset :: "'s KVHandler \<Rightarrow> 's \<Rightarrow> QueueConfig \<Rightarrow> ConsumerConfig \<Rightarrow> Offset go" where
  "GetOffset h s k consumer =
     (if qID k = [] then Panic ''queue name can't be nil'' else loadOffset h s k consumer)"

text \<open>The variables \<open>init\<close>, \<open>iPart\<close>, \<open>iPos\<close> and \<open>iver\<close> of the loop, before and after one consumer.\<close>

fun earlierStep :: "Offset \<Rightarrow> bool \<times> int \<times> int \<times> int \<Rightarrow> bool \<times> int \<times> int \<times> int" where
  "earlierStep offset (init, iPart, iPos, iver) =
     (if init then (False, Segment offset, Position offset, Version offset)
      else if Segment offset < iPart then (init, Segment offset, Position offset, Version offset)
      else if Segment offset = iPart \<and> Position offset < iPos then (init, iPart, Position offset, Version offset)
      else (init, iPart, iPos, iver))"

fun laterStep :: "Offset \<Rightarrow> int \<times> int \<Rightarrow> int \<times> int" where
  "laterStep offset (iSeg, iPos) =
     (let iPos = (if Segment offset = iSeg \<and> Position offset > iPos then Position offset else iPos)
      in if Segment offset > iSeg then (Segment offset, Position offset) else (iSeg, iPos))"

text \<open>The loop over the consumers; an offset that does not decode panics.\<close>

fun overOffsets :: "'s KVHandler \<Rightarrow> 's \<Rightarrow> QueueConfig \<Rightarrow> (Offset \<Rightarrow> 'a \<Rightarrow> 'a) \<Rightarrow> ConsumerConfig list \<Rightarrow> 'a \<Rightarrow> 'a go" where
  "overOffsets h s q f [] acc = Ret acc"
| "overOffsets h s q f (v # vs) acc =
     go_bind (GetOffset h s q v) (\<lambda>offset. overOffsets h s q f vs (f offset acc))"

definition GetEarlierOffsetByQueueID ::
  "'s KVHandler \<Rightarrow> cfgJson \<Rightarrow> json \<Rightarrow> 's queues \<Rightarrow> string \<Rightarrow> ('s queues \<times> int \<times> int \<times> int \<times> int) go" where
  "GetEarlierOffsetByQueueID h cj j st queueID =
     go_bind (resolveQueue h cj st queueID) (\<lambda>(st, q, queueID).
       go_bind (GetConsumerConfigsByQueueID h j (consumersView st) queueID) (\<lambda>(consumers, ok).
         if \<not> ok then Ret (st, 0, 0, 0, 0)
         else go_bind (overOffsets h (qkv st) (cfgAt st q) earlierStep (map snd consumers) (True, 0, 0, 0))
                (\<lambda>(_, iPart, iPos, iver). Ret (st, int (length consumers), iPart, iPos, iver))))"

definition GetLatestOffsetByQueueID ::
  "'s KVHandler \<Rightarrow> cfgJson \<Rightarrow> json \<Rightarrow> 's queues \<Rightarrow> string \<Rightarrow> ('s queues \<times> int \<times> int \<times> int) go" where
  "GetLatestOffsetByQueueID h cj j st queueID =
     go_bind (resolveQueue h cj st queueID) (\<lambda>(st, q, queueID).
       go_bind (GetConsumerConfigsByQueueID h j (consumersView st) queueID) (\<lambda>(consumers, ok).
         if \<not> ok then Ret (st, 0, 0, 0)
         else go_bind (overOffsets h (qkv st) (cfgAt st q) laterStep (map snd consumers) (0, 0))
                (\<lambda>(iSeg, iPos). Ret (st, int (length consumers), iSeg, iPos))))"

definition GetEarlierOffsetStrByQueueID ::
  "'s KVHandler \<Rightarrow> cfgJson \<Rightarrow> json \<Rightarrow> 's queues \<Rightarrow> string \<Rightarrow> ('s queues \<times> Offset) go" where
  "GetEarlierOffsetStrByQueueID h cj j st queueID =
     go_bind (GetEarlierOffsetByQueueID h cj j st queueID) (\<lambda>(st, _, seg, pos, ver).
       Ret (st, NewOffsetWithVersion seg pos ver))"

subsection \<open>Lag\<close>

definition LatestOffset :: "(string \<Rightarrow> DiskBasedQueue) \<Rightarrow> QueueConfig \<Rightarrow> Offset go" where
  "LatestOffset queueOf k = (if qID k = [] then Panic ''queue name can't be nil'' else Ret (dqLatestOffset (queueOf (qID k))))"

definition HasLag ::
  "'s KVHandler \<Rightarrow> cfgJson \<Rightarrow> json \<Rightarrow> (string \<Rightarrow> DiskBasedQueue) \<Rightarrow> 's queues \<Rightarrow> QueueConfig \<Rightarrow> ('s queues \<times> bool) go" where
  "HasLag h cj j queueOf st k =
     go_bind (LatestOffset queueOf k) (\<lambda>latestProduceOffset.
       go_bind (GetEarlierOffsetStrByQueueID h cj j st (qID k)) (\<lambda>(st, offset).
         Ret (st, \<not> Equals latestProduceOffset offset)))"

definition ConsumerHasLag ::
  "'s KVHandler \<Rightarrow> (string \<Rightarrow> DiskBasedQueue) \<Rightarrow> 's queues \<Rightarrow> QueueConfig \<Rightarrow> ConsumerConfig \<Rightarrow> bool go" where
  "ConsumerHasLag h queueOf st k c =
     go_bind (LatestOffset queueOf k) (\<lambda>latestProduceOffset.
       go_bind (GetOffset h (qkv st) k c) (\<lambda>offset. Ret (latestProduceOffset \<noteq> offset)))"

subsection \<open>With the consumers that are reading\<close>

text \<open>\<open>consumersInReading\<close> maps every open consumer instance to the segment it reads.\<close>

definition moduleEarlierOffset ::
  "'s KVHandler \<Rightarrow> cfgJson \<Rightarrow> json \<Rightarrow> 's queues \<Rightarrow> DiskBasedQueue option \<Rightarrow> string \<Rightarrow> ('s queues \<times> int \<times> int) go" where
  "moduleEarlierOffset h cj j st loaded queueID =
     go_bind (GetEarlierOffsetByQueueID h cj j st queueID) (\<lambda>(st, consumers, eSegmentNum, _, _).
       case loaded of
         None \<Rightarrow> Ret (st, consumers, eSegmentNum)
       | Some q \<Rightarrow>
           let (c, eSegmentNum) = fold (\<lambda>(_, seg) (c, e). (c + 1, if seg < e then seg else e)) (consumersInReading q) (0, eSegmentNum)
           in Ret (st, if c > consumers then c else consumers, eSegmentNum))"

definition moduleLatestOffset ::
  "'s KVHandler \<Rightarrow> cfgJson \<Rightarrow> json \<Rightarrow> 's queues \<Rightarrow> DiskBasedQueue option \<Rightarrow> string \<Rightarrow> ('s queues \<times> int \<times> int) go" where
  "moduleLatestOffset h cj j st loaded queueID =
     go_bind (GetLatestOffsetByQueueID h cj j st queueID) (\<lambda>(st, consumers, eSegmentNum, _).
       case loaded of
         None \<Rightarrow> Ret (st, consumers, eSegmentNum)
       | Some q \<Rightarrow>
           let (c, eSegmentNum) = fold (\<lambda>(_, seg) (c, e). (c + 1, if seg > e then seg else e)) (consumersInReading q) (0, eSegmentNum)
           in Ret (st, if c > consumers then c else consumers, eSegmentNum))"


subsection \<open>Earliest and latest\<close>

definition before :: "int \<times> int \<Rightarrow> int \<times> int \<Rightarrow> bool" where
  "before a b \<longleftrightarrow> fst a < fst b \<or> (fst a = fst b \<and> snd a \<le> snd b)"

definition place :: "Offset \<Rightarrow> int \<times> int" where
  "place off = (Segment off, Position off)"

lemma before_refl [simp]: "before a a"
  and before_trans: "before a b \<Longrightarrow> before b c \<Longrightarrow> before a c"
  and before_antisym: "before a b \<Longrightarrow> before b a \<Longrightarrow> a = b"
  and before_total: "before a b \<or> before b a"
  by (auto simp: before_def prod_eq_iff)

lemma overOffsets_fold:
  "\<forall>c \<in> set vs. GetOffset h s q c = Ret (off c) \<Longrightarrow> overOffsets h s q f vs acc = Ret (fold f (map off vs) acc)"
  by (induction vs arbitrary: acc) auto

lemma earlier_fold:
  "\<exists>seg pos ver. fold earlierStep os (False, Segment b, Position b, Version b) = (False, seg, pos, ver) \<and>
    NewOffsetWithVersion seg pos ver \<in> insert b (set os) \<and> (\<forall>o' \<in> insert b (set os). before (seg, pos) (place o'))"
proof (induction os arbitrary: b)
  case Nil
  then show ?case by (auto simp: place_def NewOffsetWithVersion_def)
next
  case (Cons x os)
  let ?later = "before (place b) (place x) \<and> \<not> (Segment x = Segment b \<and> Position x < Position b)"
  have step: "earlierStep x (False, Segment b, Position b, Version b) =
      (if ?later then (False, Segment b, Position b, Version b) else (False, Segment x, Position x, Version x))"
    by (auto simp: before_def place_def)
  have ord: "?later \<Longrightarrow> before (place b) (place x)" "\<not> ?later \<Longrightarrow> before (place x) (place b)"
    by (auto simp: before_def place_def)
  show ?case
  proof (cases ?later)
    case True
    from Cons [of b] obtain seg pos ver where r: "fold earlierStep os (False, Segment b, Position b, Version b) = (False, seg, pos, ver)"
      "NewOffsetWithVersion seg pos ver \<in> insert b (set os)" "\<forall>o' \<in> insert b (set os). before (seg, pos) (place o')" by blast
    moreover have "before (seg, pos) (place x)" using r(3) before_trans ord(1) [OF True] by blast
    ultimately show ?thesis using step True by (intro exI [of _ seg] exI [of _ pos] exI [of _ ver]) auto
  next
    case False
    from Cons [of x] obtain seg pos ver where r: "fold earlierStep os (False, Segment x, Position x, Version x) = (False, seg, pos, ver)"
      "NewOffsetWithVersion seg pos ver \<in> insert x (set os)" "\<forall>o' \<in> insert x (set os). before (seg, pos) (place o')" by blast
    moreover have "before (seg, pos) (place b)" using r(3) before_trans ord(2) [OF False] by blast
    ultimately show ?thesis using step False by (intro exI [of _ seg] exI [of _ pos] exI [of _ ver]) auto
  qed
qed

lemma later_fold:
  "\<exists>seg pos. fold laterStep os b = (seg, pos) \<and> (seg, pos) \<in> insert b (place ` set os) \<and>
    before b (seg, pos) \<and> (\<forall>o' \<in> set os. before (place o') (seg, pos))"
proof (induction os arbitrary: b)
  case Nil
  then show ?case by (cases b) simp
next
  case (Cons x os)
  obtain s p where b: "b = (s, p)" by (cases b)
  let ?b = "laterStep x b"
  have step: "before b ?b" "before (place x) ?b" "?b = b \<or> ?b = place x"
    by (auto simp: b before_def place_def Let_def)
  from Cons [of ?b] obtain seg pos where r: "fold laterStep os ?b = (seg, pos)" "(seg, pos) \<in> insert ?b (place ` set os)"
    "before ?b (seg, pos)" "\<forall>o' \<in> set os. before (place o') (seg, pos)" by blast
  have "before b (seg, pos)" "before (place x) (seg, pos)" using before_trans step(1,2) r(3) by blast+
  moreover have "(seg, pos) \<in> insert b (place ` set (x # os))" using r(2) step(3) by auto
  ultimately show ?case using r(1,4) by (intro exI [of _ seg] exI [of _ pos]) simp
qed

text \<open>A queue that is known, with its consumers and their offsets.\<close>

definition known :: "'s KVHandler \<Rightarrow> cfgJson \<Rightarrow> json \<Rightarrow> 's queues \<Rightarrow> string \<Rightarrow> 's queues \<Rightarrow> nat \<Rightarrow> consumers \<Rightarrow> (ConsumerConfig \<Rightarrow> Offset) \<Rightarrow> bool" where
  "known h cj j st queueID st1 q cfgs off \<longleftrightarrow>
     (\<exists>i. resolveQueue h cj st queueID = Ret (st1, q, i) \<and> consumersOf h j (consumersView st1) i cfgs) \<and>
     qID (cfgAt st1 q) \<noteq> [] \<and> (\<forall>c \<in> set (map snd cfgs). loadOffset h (qkv st1) (cfgAt st1 q) c = Ret (off c))"

lemma knownE:
  assumes "known h cj j st queueID st1 q cfgs off"
  obtains i where "resolveQueue h cj st queueID = Ret (st1, q, i)"
    "GetConsumerConfigsByQueueID h j (consumersView st1) i = Ret (cfgs, cfgs \<noteq> [])"
  using assms by (auto simp: known_def intro: that GetConsumerConfigsByQueueID_eq)

lemma known_fold:
  "known h cj j st queueID st1 q cfgs off \<Longrightarrow>
    overOffsets h (qkv st1) (cfgAt st1 q) f (map snd cfgs) acc = Ret (fold f (map off (map snd cfgs)) acc)"
  by (rule overOffsets_fold) (simp add: known_def GetOffset_def)

lemma earliest_spec:
  assumes "known h cj j st queueID st1 q cfgs off" "cfgs \<noteq> []"
  shows "\<exists>seg pos ver. GetEarlierOffsetByQueueID h cj j st queueID = Ret (st1, int (length cfgs), seg, pos, ver) \<and>
    NewOffsetWithVersion seg pos ver \<in> off ` snd ` set cfgs \<and> (\<forall>c \<in> snd ` set cfgs. before (seg, pos) (place (off c)))"
proof -
  obtain i where k: "resolveQueue h cj st queueID = Ret (st1, q, i)"
    "GetConsumerConfigsByQueueID h j (consumersView st1) i = Ret (cfgs, cfgs \<noteq> [])"
    by (rule knownE [OF assms(1)])
  obtain x xs where x: "map off (map snd cfgs) = x # xs" using assms(2) by (cases cfgs) auto
  have set: "insert x (set xs) = off ` snd ` set cfgs" using arg_cong [OF x, of set] by (simp add: image_comp)
  from earlier_fold [of xs x] obtain seg pos ver where
    f: "fold earlierStep xs (False, Segment x, Position x, Version x) = (False, seg, pos, ver)"
    "NewOffsetWithVersion seg pos ver \<in> insert x (set xs)" "\<forall>o' \<in> insert x (set xs). before (seg, pos) (place o')" by blast
  have "GetEarlierOffsetByQueueID h cj j st queueID = Ret (st1, int (length cfgs), seg, pos, ver)"
    using k assms(2) known_fold [OF assms(1), of earlierStep "(True, 0, 0, 0)"] x f(1) by (simp add: GetEarlierOffsetByQueueID_def)
  then show ?thesis using f(2,3) unfolding set by blast
qed

lemma latest_spec:
  assumes "known h cj j st queueID st1 q cfgs off" "cfgs \<noteq> []"
  shows "\<exists>seg pos. GetLatestOffsetByQueueID h cj j st queueID = Ret (st1, int (length cfgs), seg, pos) \<and>
    (seg, pos) \<in> insert (0, 0) (place ` off ` snd ` set cfgs) \<and> (\<forall>c \<in> snd ` set cfgs. before (place (off c)) (seg, pos))"
proof -
  obtain i where k: "resolveQueue h cj st queueID = Ret (st1, q, i)"
    "GetConsumerConfigsByQueueID h j (consumersView st1) i = Ret (cfgs, cfgs \<noteq> [])"
    by (rule knownE [OF assms(1)])
  from later_fold [of "map off (map snd cfgs)" "(0, 0)"] obtain seg pos where
    f: "fold laterStep (map off (map snd cfgs)) (0, 0) = (seg, pos)"
    "(seg, pos) \<in> insert (0, 0) (place ` set (map off (map snd cfgs)))"
    "\<forall>o' \<in> set (map off (map snd cfgs)). before (place o') (seg, pos)" by blast
  have "GetLatestOffsetByQueueID h cj j st queueID = Ret (st1, int (length cfgs), seg, pos)"
    using k assms(2) known_fold [OF assms(1), of laterStep "(0, 0)"] f(1) by (simp add: GetLatestOffsetByQueueID_def)
  then show ?thesis using f(2,3) by (auto simp: image_comp)
qed


subsection \<open>The properties\<close>

text \<open>C16: the earliest offset of a queue is the least of its consumers' offsets. \<open>GetEarlierOffsetByQueueID\<close>
  returns the number of consumers and, with its version, the offset of one of them, and no consumer stands
  before it, by segment and then by position.\<close>

theorem earliest_offset_is_least:
  assumes "known h cj j st queueID st1 q cfgs off" "cfgs \<noteq> []"
  shows "\<exists>seg pos ver. GetEarlierOffsetByQueueID h cj j st queueID = Ret (st1, int (length cfgs), seg, pos, ver) \<and>
    NewOffsetWithVersion seg pos ver \<in> off ` snd ` set cfgs \<and> (\<forall>c \<in> snd ` set cfgs. before (seg, pos) (place (off c)))"
  by (rule earliest_spec [OF assms])

text \<open>A queue with one consumer that has committed nothing.\<close>

definition oneConsumer :: "SimpleKV queues" where
  "oneConsumer =
     \<lparr>qkv = \<lparr>closed = False, kvstore = \<lparr>kvData = [joinKey ConsumerBucket (str_bytes ''i'') \<mapsto> [1]], walFile = [],
        lastState = NoSnapshot, walPlan = []\<rparr>\<rparr>,
      cfgHeap = [diskCfg], configs = [(''n'', 0)], idConfigs = [(''i'', 0)], queueConfigListener = [], notices = []\<rparr>"

lemma one_consumer_load: "loadOffset simple_kv (qkv oneConsumer) k c = Ret (NewOffset 0 0)"
  by (simp add: oneConsumer_def loadOffset_def simple_kv_def GetValue_def kvGet_def joinKey_inj bucket_names(3) [symmetric])

lemma one_consumer:
  "known simple_kv (cfgJson0 diskCfg) (oneJson sample_consumer) oneConsumer ''i'' oneConsumer 0
     [(Key sample_consumer, sample_consumer)] (\<lambda>_. NewOffset 0 0)"
proof -
  have "resolveQueue simple_kv (cfgJson0 diskCfg) oneConsumer ''i'' = Ret (oneConsumer, 0, ''i'')"
    by (simp add: resolveQueue_def GetConfigByUUID_def oneConsumer_def)
  moreover have "consumersOf simple_kv (oneJson sample_consumer) (consumersView oneConsumer) ''i'' [(Key sample_consumer, sample_consumer)]"
    by (simp add: consumersOf_def consumersView_def oneConsumer_def simple_kv_def GetValue_def kvGet_def FromJSONBytes_def oneJson_def)
  moreover have "qID (cfgAt oneConsumer 0) \<noteq> []" by (simp add: cfgAt_def oneConsumer_def diskCfg_def)
  ultimately show ?thesis using one_consumer_load by (auto simp: known_def)
qed

theorem earliest_offset_is_least_witness:
  "\<exists>seg pos ver. GetEarlierOffsetByQueueID simple_kv (cfgJson0 diskCfg) (oneJson sample_consumer) oneConsumer ''i'' =
    Ret (oneConsumer, 1, seg, pos, ver) \<and> NewOffsetWithVersion seg pos ver = NewOffset 0 0"
  using earliest_offset_is_least [OF one_consumer] by auto

lemma Equals_place: "Position a \<ge> 0 \<Longrightarrow> Position b \<ge> 0 \<Longrightarrow> Equals a b \<longleftrightarrow> place a = place b"
  by (auto simp: Equals_def place_def)

text \<open>C17: a queue has lag exactly if one of its consumers has something left. As long as no consumer
  stands behind the end of the queue, \<open>HasLag\<close> answers \<open>False\<close> if and only if every consumer has committed
  the position where the next message will be written.\<close>

theorem has_lag_iff_consumer_behind:
  assumes "known h cj j st (qID k) st1 q cfgs off" "cfgs \<noteq> []" "qID k \<noteq> []" "writePos (queueOf (qID k)) \<ge> 0"
    and "\<forall>c \<in> snd ` set cfgs. Position (off c) \<ge> 0 \<and> before (place (off c)) (place (dqLatestOffset (queueOf (qID k))))"
  shows "HasLag h cj j queueOf st k =
    Ret (st1, \<exists>c \<in> snd ` set cfgs. place (off c) \<noteq> place (dqLatestOffset (queueOf (qID k))))"
proof -
  let ?l = "dqLatestOffset (queueOf (qID k))"
  from earliest_spec [OF assms(1,2)] obtain seg pos ver where
    e: "GetEarlierOffsetByQueueID h cj j st (qID k) = Ret (st1, int (length cfgs), seg, pos, ver)"
    "NewOffsetWithVersion seg pos ver \<in> off ` snd ` set cfgs" "\<forall>c \<in> snd ` set cfgs. before (seg, pos) (place (off c))"
    by blast
  let ?e = "NewOffsetWithVersion seg pos ver"
  have p: "place ?e = (seg, pos)" "Position ?e = pos" by (simp_all add: place_def NewOffsetWithVersion_def)
  obtain c where c: "c \<in> snd ` set cfgs" "off c = ?e" using e(2) by (metis imageE)
  have pos: "Position ?e \<ge> 0" "Position ?l \<ge> 0"
    using assms(4,5) c by (auto simp: dqLatestOffset_def NewOffset_def NewOffsetWithVersion_def p(2))
  have "Equals ?l ?e \<longleftrightarrow> place ?l = place ?e" by (rule Equals_place [OF pos(2,1)])
  moreover have "place ?l = place ?e \<longleftrightarrow> (\<forall>c \<in> snd ` set cfgs. place (off c) = place ?l)"
    using c e(3) assms(5) p(1) before_antisym by metis
  ultimately show ?thesis using e(1) assms(3)
    by (simp add: HasLag_def LatestOffset_def GetEarlierOffsetStrByQueueID_def)
qed

theorem has_lag_iff_consumer_behind_witness:
  "HasLag simple_kv (cfgJson0 diskCfg) (oneJson sample_consumer) (\<lambda>_. blankQueue emptyDisk) oneConsumer diskCfg = Ret (oneConsumer, False)"
proof -
  have i: "qID diskCfg = ''i''" by (simp add: diskCfg_def)
  have "place (dqLatestOffset (blankQueue emptyDisk)) = (0, 0)" by (simp add: dqLatestOffset_def blankQueue_def place_def NewOffset_def)
  with has_lag_iff_consumer_behind [of simple_kv "cfgJson0 diskCfg" "oneJson sample_consumer" oneConsumer diskCfg oneConsumer 0
      "[(Key sample_consumer, sample_consumer)]" "\<lambda>_. NewOffset 0 0" "\<lambda>_. blankQueue emptyDisk"] one_consumer i
  show ?thesis by (simp add: blankQueue_def place_def NewOffset_def)
qed

text \<open>after its offset was reset once, a consumer has lag for ever. \<open>ConsumerHasLag\<close> compares the
  versions too, and the end of a queue always has version 0; so for a committed offset of a later version it
  answers \<open>True\<close> whatever the consumer has consumed, also when \<open>HasLag\<close> finds nothing left.\<close>

theorem consumer_lag_after_reset:
  assumes "loadOffset h (qkv st) k c = Ret off" "Version off \<noteq> 0" "qID k \<noteq> []"
  shows "ConsumerHasLag h queueOf st k c = Ret True \<and>
    Equals (dqLatestOffset ((queueOf (qID k))\<lparr>writeSegmentNum := Segment off, writePos := Position off\<rparr>)) off"
  using assms
  by (auto simp: ConsumerHasLag_def LatestOffset_def GetOffset_def dqLatestOffset_def NewOffset_def Equals_def)

theorem consumer_lag_after_reset_witness:
  "\<exists>f'. deleteOffset simple_kv sample_store sample_queue sample_consumer = Ret (f', None) \<and>
    ConsumerHasLag simple_kv (\<lambda>_. blankQueue emptyDisk) (emptyQueues\<lparr>qkv := f'\<rparr>) sample_queue sample_consumer = Ret True"
proof -
  obtain f' where f': "deleteOffset simple_kv sample_store sample_queue sample_consumer = Ret (f', None)"
    using sample_exists sample_load by (simp add: deleteOffset_def NewOffset_def Let_def)
      (simp add: simple_kv_def AddValue_def sample_store_def kvSet_def writeEntry_def)
  have "loadOffset simple_kv f' sample_queue sample_consumer = Ret (NewOffsetWithVersion 0 0 1)"
    using skv.delete_resets [OF sample_open sample_load sample_exists] f' by (auto simp: to_int64_def NewOffset_def)
  with consumer_lag_after_reset [of simple_kv "emptyQueues\<lparr>qkv := f'\<rparr>" sample_queue sample_consumer "NewOffsetWithVersion 0 0 1"
      "\<lambda>_. blankQueue emptyDisk"] f'
  show ?thesis by (simp add: NewOffsetWithVersion_def sample_queue_def)
qed

end
