(* ===== verification/Locker.thy ===== *)
theory Locker
  imports OffsetStore
begin

section \<open>Locks in the key-value store\<close>

text \<open>
  \<open>core/locker/locker.go\<close>: a lock is a key of the key-value store whose value names the client that holds it and
  the second in which it took or renewed it. Who finds a lock that is older than its timeout takes it over.

  The time is an argument, in nanoseconds: \<open>lowTime\<close> is the clock that \<open>util.GetLowPrecisionCurrentTime\<close> refreshes in
  the background, \<open>nowTime\<close> is \<open>time.Now\<close>. A difference of two times saturates at the limits of \<open>int64\<close>.
  Log output is left out.
\<close>

record clock =
  lowTime :: int
  nowTime :: int

record AllocateInfo =
  aClientID :: string
  aBucket :: string
  aName :: string
  aTimestamp :: int

definition parentBucket :: string where "parentBucket = ''dis_locker''"

definition second :: int where "second = 1000000000"

definition lockKey :: "string \<Rightarrow> string \<Rightarrow> bytes" where
  "lockKey bucket name = str_bytes (bucket @ '':'' @ name)"

definition Unix :: "int \<Rightarrow> int" where
  "Unix t = t div second"

definition FromUnixTimestamp :: "int \<Rightarrow> int" where
  "FromUnixTimestamp unix = unix * second"

definition Since :: "clock \<Rightarrow> int \<Rightarrow> int" where
  "Since ck t = max (- (2 ^ 63)) (min (2 ^ 63 - 1) (nowTime ck - t))"

definition lockValue :: "string \<Rightarrow> int \<Rightarrow> string" where
  "lockValue clientID unix = clientID @ ''/'' @ FormatInt unix"

definition placeLock ::
  "'s KVHandler \<Rightarrow> clock \<Rightarrow> string \<Rightarrow> string \<Rightarrow> string \<Rightarrow> 's \<Rightarrow> 's \<times> bool \<times> string option" where
  "placeLock h ck bucket name clientID s =
     (let v = lockValue clientID (Unix (lowTime ck));
          (s, err) = hAddValue h s parentBucket (lockKey bucket name) (str_bytes v)
      in (s, True, err))"

definition numError :: "num_error \<Rightarrow> string" where
  "numError e = (case e of ErrSyntax \<Rightarrow> ''invalid syntax'' | ErrRange \<Rightarrow> ''value out of range'')"

definition GetAllocateInfo ::
  "'s KVHandler \<Rightarrow> 's \<Rightarrow> string \<Rightarrow> string \<Rightarrow> (bool \<times> AllocateInfo option \<times> string option) go" where
  "GetAllocateInfo h s bucket name =
     (case hGetValue h s parentBucket (lockKey bucket name) of
        Inl err \<Rightarrow> Panic err
      | Inr None \<Rightarrow> Ret (False, None, None)
      | Inr (Some v1) \<Rightarrow>
          let arr = split_on (CHR ''/'') (bytes_str v1)
          in if length arr \<noteq> 2 then Ret (False, None, Some (''invalid locker info: '' @ bytes_str v1))
             else (case ToInt64 (arr ! 1) of
                     (_, Some err) \<Rightarrow> Ret (False, None, Some (numError err))
                   | (unix, None) \<Rightarrow>
                       Ret (True, Some \<lparr>aClientID = arr ! 0, aBucket = bucket, aName = name,
                                       aTimestamp = FromUnixTimestamp unix\<rparr>, None)))"

definition leaseTime :: "int \<Rightarrow> int" where
  "leaseTime expireTimeout = (if expireTimeout \<le> 0 then 30 * second else expireTimeout)"

definition Hold ::
  "'s KVHandler \<Rightarrow> clock \<Rightarrow> string \<Rightarrow> string \<Rightarrow> string \<Rightarrow> int \<Rightarrow> bool \<Rightarrow> 's \<Rightarrow> ('s \<times> bool \<times> string option) go" where
  "Hold h ck bucket name clientID expireTimeout allocateIfNot s =
     go_bind (GetAllocateInfo h s bucket name) (\<lambda>(ok, info, err).
       case err of
         Some e \<Rightarrow> Panic e
       | None \<Rightarrow>
           if ok then
             (case info of
                None \<Rightarrow> Panic ''allocate info can't be nil''
              | Some info \<Rightarrow>
                  if aClientID info \<noteq> clientID then
                    (if Since ck (aTimestamp info) > leaseTime expireTimeout then
                       (if allocateIfNot then Ret (placeLock h ck bucket name clientID s) else Ret (s, False, None))
                     else Ret (s, False, None))
                  else Ret (placeLock h ck bucket name clientID s))
           else Ret (placeLock h ck bucket name clientID s))"

definition lockRelease ::
  "'s KVHandler \<Rightarrow> string \<Rightarrow> string \<Rightarrow> string \<Rightarrow> 's \<Rightarrow> ('s \<times> string option) go" where
  "lockRelease h bucket name clientID s =
     go_bind (GetAllocateInfo h s bucket name) (\<lambda>(ok, info, err).
       case err of
         Some e \<Rightarrow> Ret (s, Some e)
       | None \<Rightarrow>
           if ok then
             (if aClientID (the info) \<noteq> clientID
              then Ret (s, Some (''not your business anymore, client_id: '' @ aClientID (the info) @ '', local_id:'' @ clientID))
              else Ret (hDeleteKey h s parentBucket (lockKey bucket name)))
           else Ret (s, None))"

subsection \<open>Runs\<close>

text \<open>The calls of all clients, one after the other. A call that panics leaves the store as it is.\<close>

datatype lockEvent =
  HoldBy clock string string string int bool
| ReleaseBy string string string

datatype answer = Held bool "string option" | Released "string option" | Crashed string

fun lockStep :: "'s KVHandler \<Rightarrow> lockEvent \<Rightarrow> 's \<Rightarrow> 's \<times> answer" where
  "lockStep h (HoldBy ck bucket name clientID e alloc) s =
     (case Hold h ck bucket name clientID e alloc s of Ret (s, ok, err) \<Rightarrow> (s, Held ok err) | Panic m \<Rightarrow> (s, Crashed m))"
| "lockStep h (ReleaseBy bucket name clientID) s =
     (case lockRelease h bucket name clientID s of Ret (s, err) \<Rightarrow> (s, Released err) | Panic m \<Rightarrow> (s, Crashed m))"

fun lockRun :: "'s KVHandler \<Rightarrow> lockEvent list \<Rightarrow> 's \<Rightarrow> 's \<times> answer list" where
  "lockRun h [] s = (s, [])"
| "lockRun h (e # es) s = (let (s, a) = lockStep h e s; (s, as) = lockRun h es s in (s, a # as))"

text \<open>\<open>asks\<close>: the call is about this lock. \<open>rival\<close>: if so, it comes from another client, and a \<open>Hold\<close> comes before its
  timeout has passed since \<open>start\<close>. \<open>refused\<close>: the answer gives nothing away.\<close>

fun asks :: "bytes \<Rightarrow> lockEvent \<Rightarrow> bool" where
  "asks key (HoldBy ck bucket name clientID e alloc) \<longleftrightarrow> lockKey bucket name = key"
| "asks key (ReleaseBy bucket name clientID) \<longleftrightarrow> lockKey bucket name = key"

fun rival :: "string \<Rightarrow> int \<Rightarrow> lockEvent \<Rightarrow> bool" where
  "rival c start (HoldBy ck bucket name clientID e alloc) \<longleftrightarrow> clientID \<noteq> c \<and> nowTime ck \<le> start + leaseTime e"
| "rival c start (ReleaseBy bucket name clientID) \<longleftrightarrow> clientID \<noteq> c"

fun refused :: "answer \<Rightarrow> bool" where
  "refused (Held ok err) \<longleftrightarrow> \<not> ok \<and> err = None"
| "refused (Released err) \<longleftrightarrow> err \<noteq> None"
| "refused (Crashed m) \<longleftrightarrow> False"

lemma split_lockValue:
  assumes "CHR ''/'' \<notin> set c"
  shows "split_on (CHR ''/'') (lockValue c n) = [c, FormatInt n]"
proof -
  have "CHR ''/'' \<notin> set (FormatInt n)" by (rule FormatInt_no_sep) (simp_all add: is_digit_def)
  then show ?thesis using split_on_append [OF assms] by (simp add: lockValue_def split_on_single)
qed

text \<open>The value of a key tells who holds the lock.\<close>

definition heldBy :: "'s KVHandler \<Rightarrow> 's \<Rightarrow> bytes \<Rightarrow> string \<Rightarrow> int \<Rightarrow> bool" where
  "heldBy h s key c unix \<longleftrightarrow> hGetValue h s parentBucket key = Inr (Some (str_bytes (lockValue c unix)))"

lemma info_of_held:
  assumes "heldBy h s (lockKey bucket name) c unix" "CHR ''/'' \<notin> set c" "fits_int64 unix"
  shows "GetAllocateInfo h s bucket name =
    Ret (True, Some \<lparr>aClientID = c, aBucket = bucket, aName = name, aTimestamp = unix * second\<rparr>, None)"
  using assms by (simp add: GetAllocateInfo_def heldBy_def split_lockValue ToInt64_FormatInt FromUnixTimestamp_def)

lemma Hold_cases:
  assumes "Hold h ck bucket name c e alloc s = Ret (s', ok, err)"
  shows "if ok then s' = fst (placeLock h ck bucket name c s) else s' = s \<and> err = None"
  using assms by (auto simp: Hold_def placeLock_def go_bind_Ret_iff Let_def split: option.splits if_splits prod.splits)

lemma Release_cases:
  assumes "lockRelease h bucket name c s = Ret (s', err)"
  shows "s' = s \<or> s' = fst (hDeleteKey h s parentBucket (lockKey bucket name))"
  using assms by (auto simp: lockRelease_def go_bind_Ret_iff split: option.splits if_splits prod.splits)

lemma Since_le: "0 < d \<Longrightarrow> nowTime ck \<le> t + d \<Longrightarrow> Since ck t \<le> d"
  by (auto simp: Since_def)

lemma leaseTime_pos: "0 < leaseTime e"
  by (simp add: leaseTime_def second_def)

lemma rival_refused:
  assumes "heldBy h s key c unix" "CHR ''/'' \<notin> set c" "fits_int64 unix" "asks key ev" "rival c (unix * second) ev"
  shows "fst (lockStep h ev s) = s" "refused (snd (lockStep h ev s))"
proof -
  have "fst (lockStep h ev s) = s \<and> refused (snd (lockStep h ev s))"
  proof (cases ev)
    case (HoldBy ck bucket name c' e alloc)
    with assms have "heldBy h s (lockKey bucket name) c unix" "c \<noteq> c'" "Since ck (unix * second) \<le> leaseTime e"
      using Since_le [OF leaseTime_pos] by auto
    with HoldBy info_of_held [OF this(1) assms(2,3)] show ?thesis by (simp add: Hold_def)
  next
    case (ReleaseBy bucket name c')
    with assms have "heldBy h s (lockKey bucket name) c unix" "c \<noteq> c'" by auto
    with ReleaseBy info_of_held [OF this(1) assms(2,3)] show ?thesis by (simp add: lockRelease_def)
  qed
  then show "fst (lockStep h ev s) = s" "refused (snd (lockStep h ev s))" by simp_all
qed

context kv_store
begin

lemma placeLock_holds:
  assumes "usable s"
  shows "heldBy h (fst (placeLock h ck bucket name c s)) (lockKey bucket name) c (Unix (lowTime ck))"
    "usable (fst (placeLock h ck bucket name c s))"
  using assms usable_add get_add_same [OF assms] by (simp_all add: placeLock_def heldBy_def Let_def case_prod_beta)

lemma usable_step: "usable s \<Longrightarrow> usable (fst (lockStep h ev s))"
  using usable_delete [of s]
  by (cases ev) (auto split: go.splits dest!: Hold_cases Release_cases simp: placeLock_holds split: if_splits)

text \<open>Calls about other locks leave this one alone.\<close>

lemma held_step_other:
  assumes "usable s" "bucket_ok parentBucket" "heldBy h s key c unix" "\<not> asks key ev"
  shows "heldBy h (fst (lockStep h ev s)) key c unix"
proof (cases ev)
  case (HoldBy ck bucket name c' e alloc)
  with assms(4) have ne: "lockKey bucket name \<noteq> key" by simp
  have "hGetValue h (fst (placeLock h ck bucket name c' s)) parentBucket key = hGetValue h s parentBucket key"
    using get_add_other [OF assms(1,2,2)] ne by (simp add: placeLock_def Let_def case_prod_beta)
  with HoldBy assms(3) show ?thesis by (auto simp: heldBy_def split: go.splits dest!: Hold_cases split: if_splits)
next
  case (ReleaseBy bucket name c')
  with assms(4) have "lockKey bucket name \<noteq> key" by simp
  then have "hGetValue h (fst (hDeleteKey h s parentBucket (lockKey bucket name))) parentBucket key = hGetValue h s parentBucket key"
    using get_delete_other [OF assms(1,2,2)] by simp
  with ReleaseBy assms(3) show ?thesis by (auto simp: heldBy_def split: go.splits dest!: Release_cases)
qed

lemma held_through_rivals:
  assumes "usable s" "bucket_ok parentBucket" "heldBy h s key c unix" "CHR ''/'' \<notin> set c" "fits_int64 unix"
    and "\<forall>ev \<in> set evs. asks key ev \<longrightarrow> rival c (unix * second) ev" "lockRun h evs s = (s', as)"
  shows "usable s' \<and> heldBy h s' key c unix \<and> list_all2 (\<lambda>ev a. asks key ev \<longrightarrow> refused a) evs as"
  using assms(1,3,6,7)
proof (induction evs arbitrary: s as)
  case (Cons ev evs)
  obtain s1 a where s1: "lockStep h ev s = (s1, a)" by (cases "lockStep h ev s") auto
  obtain bs where bs: "lockRun h evs s1 = (s', bs)" "as = a # bs"
    using Cons.prems(4) s1 by (auto simp: Let_def split: prod.splits)
  have "heldBy h s1 key c unix \<and> (asks key ev \<longrightarrow> refused a)"
  proof (cases "asks key ev")
    case True
    with rival_refused [OF Cons.prems(2) assms(4,5) True] Cons.prems(2,3) s1 show ?thesis by simp
  next
    case False
    with held_step_other [OF Cons.prems(1) assms(2) Cons.prems(2) False] s1 show ?thesis by simp
  qed
  moreover have "usable s1" using usable_step [OF Cons.prems(1), of ev] s1 by simp
  ultimately show ?case using Cons.IH [of s1 bs] Cons.prems(3) bs by simp
qed simp

lemma holder_renews:
  assumes "heldBy h s (lockKey bucket name) c unix" "CHR ''/'' \<notin> set c" "fits_int64 unix"
  shows "Hold h ck bucket name c e alloc s = Ret (placeLock h ck bucket name c s)"
  using info_of_held [OF assms] by (simp add: Hold_def)

text \<open>A holder that is silent for longer than the timeout loses the lock to the first who asks with \<open>allocateIfNot\<close>.\<close>

lemma silent_holder_is_replaced:
  assumes "heldBy h s (lockKey bucket name) c unix" "CHR ''/'' \<notin> set c" "fits_int64 unix"
    and "nowTime ck > unix * second + leaseTime e" "leaseTime e < 2 ^ 63 - 1"
  shows "Hold h ck bucket name c' e True s = Ret (placeLock h ck bucket name c' s)"
proof -
  have "Since ck (unix * second) > leaseTime e" using assms(4,5) by (auto simp: Since_def)
  with info_of_held [OF assms(1-3)] show ?thesis by (simp add: Hold_def)
qed

text \<open>\<open>Hold\<close> reads and writes in two steps. Two clients that both read a free lock before one of them
  writes are both told that they hold it, and only the later one does.\<close>

lemma both_hold_after_race:
  assumes "usable s" "GetAllocateInfo h s bucket name = Ret (False, None, None)"
    and "placeLock h ck1 bucket name c1 s = (s1, ok1, err1)" "placeLock h ck2 bucket name c2 s1 = (s2, ok2, err2)"
  shows "Hold h ck1 bucket name c1 e alloc s = Ret (s1, True, err1)" "ok2"
    "heldBy h s2 (lockKey bucket name) c2 (Unix (lowTime ck2))"
proof -
  show "ok2" using assms(4) by (simp add: placeLock_def Let_def split: prod.splits)
  have "ok1" using assms(3) by (simp add: placeLock_def Let_def split: prod.splits)
  then show "Hold h ck1 bucket name c1 e alloc s = Ret (s1, True, err1)" using assms(2,3) by (simp add: Hold_def)
  have "usable s1" using placeLock_holds(2) [OF assms(1), of ck1 bucket name c1] assms(3) by simp
  then show "heldBy h s2 (lockKey bucket name) c2 (Unix (lowTime ck2))"
    using placeLock_holds(1) [of s1 ck2 bucket name c2] assms(4) by simp
qed

end

text \<open>C31: A lock excludes. When \<open>Hold\<close> has told a client that it has the lock, then through any sequence of calls
  of other clients, on this and on other locks, that ask before their timeout has passed since the second that
  was stored, every one of them that asks for this lock is refused, no other client can release it, and
  the holder can renew it. The client ID must not contain the slash that separates it from the time.\<close>

theorem lock_is_exclusive:
  assumes "\<not> closed s" "CHR ''/'' \<notin> set c" "fits_int64 (Unix (lowTime ck))"
    and "Hold simple_kv ck bucket name c e alloc s = Ret (s1, True, err)"
    and "\<forall>ev \<in> set evs. asks (lockKey bucket name) ev \<longrightarrow> rival c (Unix (lowTime ck) * second) ev"
    and "lockRun simple_kv evs s1 = (s2, as)"
  shows "list_all2 (\<lambda>ev a. asks (lockKey bucket name) ev \<longrightarrow> refused a) evs as \<and>
    (\<exists>s3 err'. Hold simple_kv ck' bucket name c e' alloc' s2 = Ret (s3, True, err'))"
proof -
  have s1: "s1 = fst (placeLock simple_kv ck bucket name c s)" using Hold_cases [OF assms(4)] by simp
  have "heldBy simple_kv s1 (lockKey bucket name) c (Unix (lowTime ck))" "\<not> closed s1"
    unfolding s1 by (rule skv.placeLock_holds [OF assms(1)])+
  from skv.held_through_rivals [OF this(2) _ this(1) assms(2,3,5,6)]
  have run: "list_all2 (\<lambda>ev a. asks (lockKey bucket name) ev \<longrightarrow> refused a) evs as"
    "heldBy simple_kv s2 (lockKey bucket name) c (Unix (lowTime ck))" by (simp_all add: parentBucket_def)
  from skv.holder_renews [OF run(2) assms(2,3), of ck' e' alloc'] run(1) show ?thesis
    by (simp add: placeLock_def Let_def split: prod.splits)
qed

theorem lock_is_exclusive_witness:
  "\<exists>s1 s2 as err. Hold simple_kv \<lparr>lowTime = 0, nowTime = 0\<rparr> ''b'' ''n'' ''node1'' 0 True sample_store = Ret (s1, True, err) \<and>
    lockRun simple_kv [HoldBy \<lparr>lowTime = 20 * second, nowTime = 20 * second\<rparr> ''b'' ''n'' ''node2'' 0 True,
      HoldBy \<lparr>lowTime = 20 * second, nowTime = 20 * second\<rparr> ''b'' ''m'' ''node2'' 0 True, ReleaseBy ''b'' ''n'' ''node2''] s1 = (s2, as) \<and>
    refused (as ! 0) \<and> refused (as ! 2)"
proof -
  let ?ck = "\<lparr>lowTime = 0, nowTime = 0\<rparr>" let ?ck' = "\<lparr>lowTime = 20 * second, nowTime = 20 * second\<rparr>"
  let ?evs = "[HoldBy ?ck' ''b'' ''n'' ''node2'' 0 True, HoldBy ?ck' ''b'' ''m'' ''node2'' 0 True, ReleaseBy ''b'' ''n'' ''node2'']"
  have "GetAllocateInfo simple_kv sample_store ''b'' ''n'' = Ret (False, None, None)"
    by (simp add: GetAllocateInfo_def simple_kv_def GetValue_def kvGet_def sample_store_def parentBucket_def joinKey_inj ConsumerBucket_def)
  then obtain s1 err where s1: "Hold simple_kv ?ck ''b'' ''n'' ''node1'' 0 True sample_store = Ret (s1, True, err)"
    by (simp add: Hold_def placeLock_def Let_def case_prod_beta)
  obtain s2 as where s2: "lockRun simple_kv ?evs s1 = (s2, as)" by (cases "lockRun simple_kv ?evs s1") auto
  have "\<forall>ev \<in> set ?evs. asks (lockKey ''b'' ''n'') ev \<longrightarrow> rival ''node1'' (Unix (lowTime ?ck) * second) ev"
    by (auto simp: Unix_def leaseTime_def second_def)
  from lock_is_exclusive [OF sample_open _ _ s1 this s2, of ?ck 0 True]
  have "list_all2 (\<lambda>ev a. asks (lockKey ''b'' ''n'') ev \<longrightarrow> refused a) ?evs as" by (simp add: Unix_def fits_int64_def)
  then have "refused (as ! 0) \<and> refused (as ! 2)"
    by (auto simp: list_all2_Cons1 numeral_2_eq_2)
  with s1 s2 show ?thesis by blast
qed

end
