(* ===== verification/QueueWorker.thy ===== *)
theory QueueWorker
  imports QueueApi QueueOffsets Locker
begin

section \<open>The workers that consume a queue\<close>

text \<open>
  \<open>plugins/queue/consumer/consumer.go\<close>: a processor starts one worker per slice of a queue; a worker
  fetches batches, keeps the messages of its slice, hands them to the configured processors and commits the
  offset behind the last batch.

  \<^item> \<open>Config\<close> has the settings, \<open>workerDefaults\<close> and \<open>newConfig\<close> what \<open>New\<close> makes of them;
    \<open>HandleQueueConfig\<close> picks the slices a worker is started for.
  \<^item> \<open>NewSlicedWorker\<close> runs a worker. One pass of its loop meets the outside in the fields of a \<open>pass\<close>:
    what \<open>FetchMessages\<close> returned, whether the processors failed, whether the idle time is over, whether a
    shutdown was asked for. The committed offset is the one of the disk queue, through the
    key-value handler \<open>h\<close>.
  \<^item> A panic of a pass ends the loop and is recovered by the deferred function \<open>workerExit\<close>, as without the
    debug flag. The values put into the pipeline context are part of processing.
\<close>

record Config =
  NumOfSlices :: int
  Slices :: "int list"
  enabledSlice :: "(int \<times> int) list"
  IdleTimeoutInSecond :: int
  QueueLabels :: labels
  Selector :: QueueSelector
  wConsumer :: ConsumerConfig
  MaxWorkers :: int
  DetectActiveQueue :: bool
  SkipEmptyQueue :: bool
  QuitOnEOFQueue :: bool
  QuitNeedTag :: bool
  QuitNeedTagName :: string
  wAutoCommitOffset :: bool

subsection \<open>Settings\<close>

definition workerDefaults :: Config where
  "workerDefaults =
     \<lparr>NumOfSlices = 1, Slices = [], enabledSlice = [], IdleTimeoutInSecond = 5, QueueLabels = [],
      Selector = \<lparr>sLabels = [], sIds = [], sKeys = []\<rparr>,
      wConsumer =
        \<lparr>cID = [], cSource = [], cGroup = ''group-001'', cName = ''consumer-001'', AutoResetOffset = [],
         AutoCommitOffset = False, SimpleSlicedGroup = False, FetchMinBytes = 1, FetchMaxBytes = 20 * 1024 * 1024,
         FetchMaxMessages = 500, FetchMaxWaitMs = 10000, ConsumeTimeoutInSeconds = 60, EOFMaxRetryTimes = 10,
         EOFRetryDelayInMs = 500, ClientExpiredInSeconds = 60\<rparr>,
      MaxWorkers = 10, DetectActiveQueue = True, SkipEmptyQueue = False, QuitOnEOFQueue = True,
      QuitNeedTag = False, QuitNeedTagName = [], wAutoCommitOffset = True\<rparr>"

definition newConfig :: "Config \<Rightarrow> Config" where
  "newConfig cfg =
     (let cfg = cfg\<lparr>Selector := (Selector cfg)\<lparr>sLabels :=
            fold (\<lambda>(k, v) ls. AList.update k v ls) (QueueLabels cfg) (sLabels (Selector cfg))\<rparr>\<rparr>;
          cfg = (if NumOfSlices cfg \<le> 0 then cfg\<lparr>NumOfSlices := 1\<rparr> else cfg);
          cfg = (if Slices cfg \<noteq> []
                 then cfg\<lparr>enabledSlice := fold (\<lambda>v es. AList.update v v es) (Slices cfg) []\<rparr> else cfg)
      in if MaxWorkers cfg < 0 then cfg\<lparr>MaxWorkers := 1\<rparr> else cfg)"

definition groupName :: "Config \<Rightarrow> QueueConfig \<Rightarrow> int \<Rightarrow> int \<Rightarrow> string" where
  "groupName cfg qConfig maxSlices sliceID =
     (if maxSlices > 1 then
        (if SimpleSlicedGroup (wConsumer cfg) then cGroup (wConsumer cfg) @ ''-'' @ FormatInt sliceID
         else cGroup (wConsumer cfg) @ ''-'' @ qID qConfig @ ''-'' @ FormatInt sliceID)
      else cGroup (wConsumer cfg))"

definition overrideConsumer :: "Config \<Rightarrow> ConsumerConfig \<Rightarrow> ConsumerConfig" where
  "overrideConsumer cfg c =
     (let o' = wConsumer cfg;
          c = (if EOFRetryDelayInMs o' > 0 then c\<lparr>EOFRetryDelayInMs := EOFRetryDelayInMs o'\<rparr> else c);
          c = (if FetchMaxMessages o' > 0 then c\<lparr>FetchMaxMessages := FetchMaxMessages o'\<rparr> else c);
          c = (if FetchMaxWaitMs o' > 0 then c\<lparr>FetchMaxWaitMs := FetchMaxWaitMs o'\<rparr> else c);
          c = (if ConsumeTimeoutInSeconds o' > 0 then c\<lparr>ConsumeTimeoutInSeconds := ConsumeTimeoutInSeconds o'\<rparr> else c);
          c = (if FetchMinBytes o' > 0 then c\<lparr>FetchMinBytes := FetchMinBytes o'\<rparr> else c)
      in if FetchMaxBytes o' > 0 then c\<lparr>FetchMaxBytes := FetchMaxBytes o'\<rparr> else c)"

subsection \<open>Slices\<close>

definition sliceKey :: "QueueConfig \<Rightarrow> int \<Rightarrow> string" where
  "sliceKey qConfig sliceID = qID qConfig @ ''-'' @ FormatInt sliceID"

text \<open>The loop of \<open>HandleQueueConfig\<close> yields the slices for which a task is submitted. The workers enter and leave
  the table of keys in flight while it runs: \<open>inFlight i\<close> has the keys when slice \<open>i\<close> is checked.\<close>

fun checkSlices :: "Config \<Rightarrow> QueueConfig \<Rightarrow> (int \<Rightarrow> string list) \<Rightarrow> int list \<Rightarrow> int list" where
  "checkSlices cfg qConfig inFlight [] = []"
| "checkSlices cfg qConfig inFlight (sliceID # rest) =
     (if enabledSlice cfg \<noteq> [] \<and> map_of (enabledSlice cfg) sliceID = None then checkSlices cfg qConfig inFlight rest
      else if MaxWorkers cfg > 0 \<and> int (length (inFlight sliceID)) > MaxWorkers cfg then []
      else if sliceKey qConfig sliceID \<in> set (inFlight sliceID) then checkSlices cfg qConfig inFlight rest
      else sliceID # checkSlices cfg qConfig inFlight rest)"

definition queueConsumerHandleSingleton :: string where
  "queueConsumerHandleSingleton = ''queue_consumer_handler_singleton''"

definition HandleQueueConfig ::
  "'s KVHandler \<Rightarrow> clock \<Rightarrow> string \<Rightarrow> Config \<Rightarrow> QueueConfig \<Rightarrow> int \<Rightarrow> (int \<Rightarrow> string list) \<Rightarrow> 's \<Rightarrow>
   ('s \<times> int list \<times> string option) go" where
  "HandleQueueConfig h ck nodeID cfg qConfig failedSlices inFlight s =
     go_bind (Hold h ck queueConsumerHandleSingleton (qID qConfig) nodeID (60 * second) True s) (\<lambda>(s, ok, _).
       if \<not> ok then Ret (s, [], None)
       else if failedSlices \<ge> NumOfSlices cfg
       then Ret (s, [], Some (''all slices failed for queue ['' @ qName qConfig @ ''], skip''))
       else Ret (s, checkSlices cfg qConfig inFlight [0..NumOfSlices cfg - 1], None))"

text \<open>The remainder has the sign of the dividend.\<close>

definition go_rem :: "int \<Rightarrow> int \<Rightarrow> int" where
  "go_rem a b = sgn a * (\<bar>a\<bar> mod \<bar>b\<bar>)"

definition sliceMessages :: "Config \<Rightarrow> int \<Rightarrow> int \<Rightarrow> Message list \<Rightarrow> Message list" where
  "sliceMessages cfg maxSlices sliceID messages =
     (if NumOfSlices cfg > 1 then
        (let newMessages = filter (\<lambda>m. go_rem (Position (msgOffset m)) maxSlices = sliceID) messages
         in if length newMessages > 0 then newMessages else messages)
      else messages)"

subsection \<open>The worker\<close>

record 's worker =
  wkv :: 's
  wOffset :: Offset
  wInit :: Offset
  handled :: "Message list list"

record pass =
  pStop :: bool
  pLag :: bool
  pFetch :: "(Message list \<times> Offset \<times> string option) go"
  pProcess :: "string option"
  pIdle :: bool
  pCleanup :: "bool option"
  pShutdown :: bool
  pTag :: bool
  pCanceled :: bool

datatype control = Again | Leave | Crash string

definition apiCommitOffset ::
  "'s KVHandler \<Rightarrow> 's \<Rightarrow> QueueConfig \<Rightarrow> ConsumerConfig \<Rightarrow> Offset \<Rightarrow> ('s \<times> bool \<times> string option) go" where
  "apiCommitOffset h s k consumer offset =
     (if qID k = [] then Panic ''queue name can't be nil''
      else if \<not> hExistsKey h s ConsumerBucket (str_bytes (qID k))
      then Ret (s, False, Some (''consumer '' @ Key consumer @ '' for queue '' @ qID k @ '' was not found''))
      else saveOffset h s k consumer offset)"

text \<open>Both places that commit: an error or a refused commit is a panic.\<close>

definition commitWorker ::
  "'s KVHandler \<Rightarrow> QueueConfig \<Rightarrow> ConsumerConfig \<Rightarrow> Config \<Rightarrow> 's worker \<Rightarrow> 's worker \<times> string option" where
  "commitWorker h k c cfg w =
     (if wAutoCommitOffset cfg \<and> \<not> Equals (wOffset w) (wInit w) then
        (case apiCommitOffset h (wkv w) k c (wOffset w) of
           Panic m \<Rightarrow> (w, Some m)
         | Ret (s, ok, err) \<Rightarrow>
             if \<not> ok \<or> err \<noteq> None then (w\<lparr>wkv := s\<rparr>, Some (case err of None \<Rightarrow> ''nil'' | Some m \<Rightarrow> m))
             else (w\<lparr>wkv := s, wInit := wOffset w\<rparr>, None))
      else (w, None))"

definition cleanBuffer ::
  "'s KVHandler \<Rightarrow> QueueConfig \<Rightarrow> ConsumerConfig \<Rightarrow> Config \<Rightarrow> pass \<Rightarrow> bool \<Rightarrow> 's worker \<Rightarrow> 's worker \<times> control" where
  "cleanBuffer h k c cfg p EOF w =
     (if pCleanup p = Some False then (w, Leave)
      else
        (let (w, err) = commitWorker h k c cfg w
         in (w, case err of
                  Some m \<Rightarrow> Crash m
                | None \<Rightarrow>
                    if pShutdown p then Leave
                    else if QuitOnEOFQueue cfg \<and> EOF then
                      (if QuitNeedTag cfg \<and> QuitNeedTagName cfg \<noteq> [] \<and> \<not> pTag p then Again else Leave)
                    else if pCanceled p then Leave else Again)))"

definition handleMessage ::
  "'s KVHandler \<Rightarrow> QueueConfig \<Rightarrow> ConsumerConfig \<Rightarrow> Config \<Rightarrow> int \<Rightarrow> int \<Rightarrow> pass \<Rightarrow> Message list \<Rightarrow> Offset \<Rightarrow>
   's worker \<Rightarrow> 's worker \<times> control" where
  "handleMessage h k c cfg maxSlices sliceID p messages nextOffset w =
     (let messages = sliceMessages cfg maxSlices sliceID messages
      in if length messages > 0 then
           (case pProcess p of
              Some err \<Rightarrow> (w, Crash err)
            | None \<Rightarrow>
                let w = w\<lparr>wOffset := nextOffset, handled := handled w @ [messages]\<rparr>
                in if pIdle p then cleanBuffer h k c cfg p False w else (w, Again))
         else cleanBuffer h k c cfg p True w)"

definition workerPass ::
  "'s KVHandler \<Rightarrow> QueueConfig \<Rightarrow> ConsumerConfig \<Rightarrow> Config \<Rightarrow> int \<Rightarrow> int \<Rightarrow> 's worker \<Rightarrow> pass \<Rightarrow> 's worker \<times> control" where
  "workerPass h k c cfg maxSlices sliceID w p =
     (if pStop p then cleanBuffer h k c cfg p False w
      else if pLag p then (w, Again)
      else (case pFetch p of
              Panic m \<Rightarrow> (w, Crash m)
            | Ret (messages, nextOffset, err) \<Rightarrow>
                (case err of
                   None \<Rightarrow> handleMessage h k c cfg maxSlices sliceID p messages nextOffset w
                 | Some e \<Rightarrow>
                     if e = ''EOF'' \<or> e = ''unexpected EOF'' then
                       (if length messages > 0 then handleMessage h k c cfg maxSlices sliceID p messages nextOffset w
                        else cleanBuffer h k c cfg p False w)
                     else (w, Crash e))))"

fun workerLoop ::
  "'s KVHandler \<Rightarrow> QueueConfig \<Rightarrow> ConsumerConfig \<Rightarrow> Config \<Rightarrow> int \<Rightarrow> int \<Rightarrow> 's worker \<Rightarrow> pass list \<Rightarrow> 's worker \<times> control" where
  "workerLoop h k c cfg maxSlices sliceID w [] = (w, Again)"
| "workerLoop h k c cfg maxSlices sliceID w (p # ps) =
     (case workerPass h k c cfg maxSlices sliceID w p of
        (w, Again) \<Rightarrow> workerLoop h k c cfg maxSlices sliceID w ps
      | r \<Rightarrow> r)"

text \<open>The deferred function: \<open>ctxFailed\<close> tells whether the context or its parent has failed before, \<open>cleanup\<close> is
  the answer of \<open>onCleanup\<close>.\<close>

definition workerExit ::
  "'s KVHandler \<Rightarrow> QueueConfig \<Rightarrow> ConsumerConfig \<Rightarrow> Config \<Rightarrow> bool \<Rightarrow> bool option \<Rightarrow> control \<Rightarrow> 's worker \<Rightarrow> 's worker" where
  "workerExit h k c cfg ctxFailed cleanup r w =
     (let isFailed = (ctxFailed \<or> (case r of Crash m \<Rightarrow> m \<noteq> ''empty queue'' | _ \<Rightarrow> False))
      in if isFailed then w
         else if cleanup = Some False then w
         else fst (commitWorker h k c cfg w))"

text \<open>A worker from its start; \<open>acquired\<close> is the error of acquiring the consumer.\<close>

definition NewSlicedWorker ::
  "'s KVHandler \<Rightarrow> QueueConfig \<Rightarrow> ConsumerConfig \<Rightarrow> Config \<Rightarrow> int \<Rightarrow> int \<Rightarrow> bool \<Rightarrow> string option \<Rightarrow> pass list \<Rightarrow>
   bool \<Rightarrow> bool option \<Rightarrow> 's \<Rightarrow> 's \<times> Message list list" where
  "NewSlicedWorker h k c cfg maxSlices sliceID hasLag acquired ps ctxFailed cleanup s =
     (if SkipEmptyQueue cfg \<and> \<not> hasLag then (s, [])
      else (case loadOffset h s k c of
              Panic _ \<Rightarrow> (s, [])
            | Ret initOffset \<Rightarrow>
                let w = \<lparr>wkv = s, wOffset = initOffset, wInit = initOffset, handled = []\<rparr>;
                    (w, r) =
                      (case acquired of
                         Some err \<Rightarrow> (w, if ContainStr err ''already owning this topic'' then Leave else Crash err)
                       | None \<Rightarrow> workerLoop h k c cfg maxSlices sliceID w ps);
                    w = workerExit h k c cfg ctxFailed cleanup r w
                in (wkv w, handled w)))"


subsection \<open>What a committed offset stands for\<close>

text \<open>\<open>batchOf\<close> is the batch a pass fetched, with the offset behind it. \<open>belongs\<close>: the message is one of the
  slice. \<open>covers\<close>: all messages of the slice in these passes went through the processors. \<open>reached\<close>: the
  offset is the first one or lies behind a batch of these passes.\<close>

definition batchOf :: "pass \<Rightarrow> (Message list \<times> Offset) option" where
  "batchOf p = (if pStop p \<or> pLag p then None
                else (case pFetch p of Panic _ \<Rightarrow> None | Ret (ms, nextOffset, _) \<Rightarrow> Some (ms, nextOffset)))"

definition belongs :: "Config \<Rightarrow> int \<Rightarrow> int \<Rightarrow> Message \<Rightarrow> bool" where
  "belongs cfg maxSlices sliceID m \<longleftrightarrow> NumOfSlices cfg \<le> 1 \<or> go_rem (Position (msgOffset m)) maxSlices = sliceID"

definition covers :: "Config \<Rightarrow> int \<Rightarrow> int \<Rightarrow> pass list \<Rightarrow> Message list list \<Rightarrow> bool" where
  "covers cfg maxSlices sliceID ps batches \<longleftrightarrow>
     (\<forall>p \<in> set ps. \<forall>ms nextOffset. batchOf p = Some (ms, nextOffset) \<longrightarrow>
        (\<forall>m \<in> set ms. belongs cfg maxSlices sliceID m \<longrightarrow> m \<in> set (concat batches)))"

definition reached :: "Offset \<Rightarrow> pass list \<Rightarrow> Offset \<Rightarrow> bool" where
  "reached initOffset ps offset \<longleftrightarrow> offset = initOffset \<or> (\<exists>p \<in> set ps. \<exists>ms. batchOf p = Some (ms, offset))"

definition offsets_fit :: "pass list \<Rightarrow> bool" where
  "offsets_fit ps \<longleftrightarrow> (\<forall>p \<in> set ps. \<forall>ms nextOffset. batchOf p = Some (ms, nextOffset) \<longrightarrow> fits_offset nextOffset)"

lemma sliceMessages_belongs:
  assumes "m \<in> set ms" "belongs cfg n i m"
  shows "m \<in> set (sliceMessages cfg n i ms)"
  using assms by (auto simp: sliceMessages_def belongs_def Let_def)

lemma sliceMessages_nil [simp]: "sliceMessages cfg n i ms = [] \<longleftrightarrow> ms = []"
  by (auto simp: sliceMessages_def Let_def)

lemma covers_Nil [simp]: "covers cfg n i [] bs"
  by (simp add: covers_def)

lemma covers_snoc:
  "covers cfg n i (ps @ [p]) bs \<longleftrightarrow> covers cfg n i ps bs \<and>
     (\<forall>ms nextOffset. batchOf p = Some (ms, nextOffset) \<longrightarrow>
        (\<forall>m \<in> set ms. belongs cfg n i m \<longrightarrow> m \<in> set (concat bs)))"
  by (auto simp: covers_def)

lemma covers_more: "covers cfg n i ps bs \<Longrightarrow> covers cfg n i ps (bs @ [b])"
  by (auto simp: covers_def)

lemma reached_more: "reached o0 ps offset \<Longrightarrow> reached o0 (ps @ [p]) offset"
  by (auto simp: reached_def)

lemma reached_self: "batchOf p = Some (ms, offset) \<Longrightarrow> reached o0 (ps @ [p]) offset"
  by (auto simp: reached_def)

context kv_store
begin

definition winv :: "QueueConfig \<Rightarrow> ConsumerConfig \<Rightarrow> Config \<Rightarrow> int \<Rightarrow> int \<Rightarrow> Offset \<Rightarrow> pass list \<Rightarrow> 's worker \<Rightarrow> bool" where
  "winv k c cfg n i o0 ps w \<longleftrightarrow> usable (wkv w) \<and> fits_offset (wOffset w) \<and>
     (\<exists>o'. loadOffset h (wkv w) k c = Ret o' \<and> reached o0 ps o') \<and> reached o0 ps (wOffset w) \<and>
     covers cfg n i ps (handled w)"

lemma winv_snoc:
  assumes "winv k c cfg n i o0 ps w" "batchOf p = None \<or> (\<exists>offset. batchOf p = Some ([], offset))"
  shows "winv k c cfg n i o0 (ps @ [p]) w"
  using assms reached_more [of o0 ps _ p] by (auto simp: winv_def covers_snoc)

lemma saveOffset_keeps_load:
  assumes "usable s" "fits_offset offset" "loadOffset h s k c = Ret cur" "saveOffset h s k c offset = Ret (s', ok, err)"
  shows "usable s'" "loadOffset h s' k c \<in> {Ret cur, Ret offset}"
  using save_cases [OF assms(4)] load_after_add [OF assms(1,2)] usable_add [OF assms(1)] assms(1,3) by auto

lemma winv_commit:
  assumes "winv k c cfg n i o0 ps w"
  shows "winv k c cfg n i o0 ps (fst (commitWorker h k c cfg w))"
proof (cases "wAutoCommitOffset cfg \<and> \<not> Equals (wOffset w) (wInit w)")
  case True
  show ?thesis
  proof (cases "apiCommitOffset h (wkv w) k c (wOffset w)")
    case (Panic m)
    with True assms show ?thesis by (simp add: commitWorker_def)
  next
    case (Ret r)
    obtain s ok err where r: "r = (s, ok, err)" by (cases r) auto
    obtain o' where o': "loadOffset h (wkv w) k c = Ret o'" "reached o0 ps o'" using assms by (auto simp: winv_def)
    have "usable s \<and> loadOffset h s k c \<in> {Ret o', Ret (wOffset w)}"
      using Ret r assms o'(1) saveOffset_keeps_load [of "wkv w" "wOffset w" k c o' s ok err]
      by (auto simp: apiCommitOffset_def winv_def split: if_splits)
    then have s: "usable s" "\<exists>o'. loadOffset h s k c = Ret o' \<and> reached o0 ps o'" using o'(2) assms by (auto simp: winv_def)
    show ?thesis using True Ret r s assms by (auto simp: commitWorker_def winv_def)
  qed
qed (use assms in \<open>auto simp: commitWorker_def\<close>)

lemma winv_clean: "winv k c cfg n i o0 ps w \<Longrightarrow> winv k c cfg n i o0 ps (fst (cleanBuffer h k c cfg p eof w))"
  using winv_commit [of k c cfg n i o0 ps w] by (simp add: cleanBuffer_def case_prod_beta)

lemma winv_handle:
  assumes "winv k c cfg n i o0 ps w" "batchOf p = Some (ms, offset)" "fits_offset offset"
  shows "\<exists>ps' \<in> {ps, ps @ [p]}. winv k c cfg n i o0 ps' (fst (handleMessage h k c cfg n i p ms offset w)) \<and>
    (ps' = ps \<longrightarrow> snd (handleMessage h k c cfg n i p ms offset w) \<noteq> Again)"
proof (cases "ms = []")
  case True
  then show ?thesis
    using winv_clean [OF winv_snoc [OF assms(1), of p]] assms(2) by (auto simp: handleMessage_def)
next
  case False
  let ?w = "w\<lparr>wOffset := offset, handled := handled w @ [sliceMessages cfg n i ms]\<rparr>"
  have w: "winv k c cfg n i o0 (ps @ [p]) ?w"
    using assms reached_more [of o0 ps _ p] reached_self [OF assms(2), of o0 ps] sliceMessages_belongs [of _ ms cfg n i]
      covers_more [of cfg n i ps "handled w"]
    by (auto simp: winv_def covers_snoc)
  show ?thesis
  proof (cases "pProcess p")
    case None
    with False w winv_clean [OF w, of p False] show ?thesis by (auto simp: handleMessage_def Let_def)
  next
    case (Some e)
    with False assms(1) show ?thesis by (auto simp: handleMessage_def)
  qed
qed

lemma winv_pass:
  assumes "winv k c cfg n i o0 ps w" "offsets_fit [p]"
  shows "\<exists>ps' \<in> {ps, ps @ [p]}. winv k c cfg n i o0 ps' (fst (workerPass h k c cfg n i w p)) \<and>
    (ps' = ps \<longrightarrow> snd (workerPass h k c cfg n i w p) \<noteq> Again)"
proof (cases "batchOf p")
  case None
  then have "workerPass h k c cfg n i w p \<in> {cleanBuffer h k c cfg p False w, (w, Again)} \<or>
      (\<exists>m. workerPass h k c cfg n i w p = (w, Crash m))"
    by (auto simp: batchOf_def workerPass_def split: go.splits)
  with winv_clean [OF winv_snoc [OF assms(1), of p], of p False] winv_snoc [OF assms(1), of p] None assms(1)
  show ?thesis by fastforce
next
  case (Some b)
  obtain ms offset where b: "batchOf p = Some (ms, offset)" using Some by (cases b) auto
  then obtain err where p: "\<not> pStop p" "\<not> pLag p" "pFetch p = Ret (ms, offset, err)"
    by (auto simp: batchOf_def split: if_splits go.splits)
  have fit: "fits_offset offset" using assms(2) b by (auto simp: offsets_fit_def)
  consider "workerPass h k c cfg n i w p = handleMessage h k c cfg n i p ms offset w"
    | "ms = []" "workerPass h k c cfg n i w p = cleanBuffer h k c cfg p False w"
    | m where "workerPass h k c cfg n i w p = (w, Crash m)"
    using p by (cases err; cases "err = Some ''EOF'' \<or> err = Some ''unexpected EOF''"; cases "ms = []")
      (simp_all add: workerPass_def)
  then show ?thesis
  proof cases
    case 1
    then show ?thesis using winv_handle [OF assms(1) b fit] by simp
  next
    case 2
    then show ?thesis using winv_clean [OF winv_snoc [OF assms(1), of p], of p False] b by fastforce
  qed (use assms(1) in auto)
qed

lemma winv_loop:
  assumes "winv k c cfg n i o0 ps w" "offsets_fit qs"
  shows "\<exists>m. winv k c cfg n i o0 (ps @ take m qs) (fst (workerLoop h k c cfg n i w qs))"
  using assms
proof (induction qs arbitrary: ps w)
  case (Cons p qs)
  have fit: "offsets_fit [p]" "offsets_fit qs" using Cons.prems(2) by (auto simp: offsets_fit_def)
  obtain w' r where pass: "workerPass h k c cfg n i w p = (w', r)" by fastforce
  obtain ps' where ps': "ps' \<in> {ps, ps @ [p]}" "winv k c cfg n i o0 ps' w'" "ps' = ps \<longrightarrow> r \<noteq> Again"
    using winv_pass [OF Cons.prems(1) fit(1)] pass by auto
  show ?case
  proof (cases "r = Again")
    case True
    with ps' have "winv k c cfg n i o0 (ps @ [p]) w'" by auto
    from Cons.IH [OF this fit(2)] obtain m where "winv k c cfg n i o0 ((ps @ [p]) @ take m qs) (fst (workerLoop h k c cfg n i w' qs))"
      by blast
    with True pass show ?thesis by (intro exI [of _ "Suc m"]) simp
  next
    case False
    then have "workerLoop h k c cfg n i w (p # qs) = (w', r)" using pass by (cases r) auto
    with ps'(1,2) show ?thesis by (elim insertE) (auto intro: exI [of _ 0] exI [of _ 1])
  qed
qed auto

lemma winv_exit: "winv k c cfg n i o0 ps w \<Longrightarrow> winv k c cfg n i o0 ps (workerExit h k c cfg ctxFailed cleanup r w)"
  using winv_commit [of k c cfg n i o0 ps w] by (simp add: workerExit_def Let_def)

lemma worker_commits:
  assumes "usable s" "loadOffset h s k c = Ret o0" "fits_offset o0" "offsets_fit ps"
    and "NewSlicedWorker h k c cfg n i hasLag acquired ps ctxFailed cleanup s = (s', batches)"
  shows "\<exists>m o'. loadOffset h s' k c = Ret o' \<and> reached o0 (take m ps) o' \<and> covers cfg n i (take m ps) batches"
proof -
  let ?w = "\<lparr>wkv = s, wOffset = o0, wInit = o0, handled = []\<rparr>"
  have start: "winv k c cfg n i o0 [] ?w" using assms(1-3) by (simp add: winv_def reached_def)
  obtain w r where loop: "(case acquired of
      Some err \<Rightarrow> (?w, if ContainStr err ''already owning this topic'' then Leave else Crash err)
    | None \<Rightarrow> workerLoop h k c cfg n i ?w ps) = (w, r)" by fastforce
  have "\<exists>m. winv k c cfg n i o0 (take m ps) w"
  proof (cases acquired)
    case None
    with loop winv_loop [OF start assms(4)] show ?thesis by simp
  next
    case (Some err)
    with loop start show ?thesis by (auto intro: exI [of _ 0])
  qed
  then obtain m where "winv k c cfg n i o0 (take m ps) (workerExit h k c cfg ctxFailed cleanup r w)"
    using winv_exit by blast
  moreover have "(s', batches) = (s, []) \<or>
      s' = wkv (workerExit h k c cfg ctxFailed cleanup r w) \<and> batches = handled (workerExit h k c cfg ctxFailed cleanup r w)"
    using assms(2,5) loop by (auto simp: NewSlicedWorker_def Let_def split: if_splits)
  ultimately show ?thesis using assms(2) by (auto simp: winv_def reached_def intro: exI [of _ 0])
qed

end

text \<open>C23: At least once. When a worker has ended, in whatever way, the committed offset is the one it
  started from or the offset behind a batch it fetched; and every message of its slice, in every
  batch up to that one, went through the processors successfully.\<close>

theorem committed_means_processed:
  assumes "\<not> closed s" "loadOffset simple_kv s k c = Ret o0" "fits_offset o0" "offsets_fit ps"
    and "NewSlicedWorker simple_kv k c cfg maxSlices sliceID hasLag acquired ps ctxFailed cleanup s = (s', batches)"
  shows "\<exists>m o'. loadOffset simple_kv s' k c = Ret o' \<and> reached o0 (take m ps) o' \<and>
    covers cfg maxSlices sliceID (take m ps) batches"
  using assms by (rule skv.worker_commits)

definition oneMessage :: Message where
  "oneMessage = \<lparr>msgTimestamp = 0, msgOffset = NewOffset 0 0, msgNextOffset = NewOffset 0 5, msgSize = 1, msgData = [1]\<rparr>"

definition onePass :: pass where
  "onePass = \<lparr>pStop = False, pLag = False, pFetch = Ret ([oneMessage], NewOffset 0 5, None), pProcess = None,
     pIdle = False, pCleanup = None, pShutdown = False, pTag = False, pCanceled = False\<rparr>"

lemma commitWorker_handled [simp]: "handled (fst (commitWorker h k c cfg w)) = handled w"
  by (simp add: commitWorker_def split: go.splits prod.splits)

lemma workerExit_handled [simp]: "handled (workerExit h k c cfg f cl r w) = handled w"
  by (simp add: workerExit_def Let_def)

lemma one_pass_worker:
  assumes "loadOffset h s k c = Ret o0"
  shows "\<exists>s'. NewSlicedWorker h k c workerDefaults 1 0 True None [onePass] False None s = (s', [[oneMessage]])"
  using assms
  by (simp add: NewSlicedWorker_def workerDefaults_def workerPass_def onePass_def handleMessage_def sliceMessages_def Let_def)

theorem committed_means_processed_witness:
  "\<exists>s' m o'. NewSlicedWorker simple_kv sample_queue sample_consumer workerDefaults 1 0 True None [onePass] False None sample_store =
      (s', [[oneMessage]]) \<and>
    loadOffset simple_kv s' sample_queue sample_consumer = Ret o' \<and> reached (NewOffset 0 0) (take m [onePass]) o'"
proof -
  obtain s' where s': "NewSlicedWorker simple_kv sample_queue sample_consumer workerDefaults 1 0 True None [onePass] False None
      sample_store = (s', [[oneMessage]])" using one_pass_worker [OF sample_load] by blast
  have fit: "offsets_fit [onePass]" "fits_offset (NewOffset 0 0)"
    by (simp_all add: offsets_fit_def batchOf_def onePass_def fits_offset_def fits_int64_def NewOffset_def NewOffsetWithVersion_def)
  from committed_means_processed [OF sample_open sample_load fit(2,1) s'] s' show ?thesis by blast
qed

text \<open>No message without a slice. When the tasks of a queue are started for all slices, every message
  of a batch is kept by the worker of one of them.\<close>

lemma every_message_has_a_slice:
  assumes "1 < NumOfSlices cfg" "enabledSlice cfg = []" "failedSlices < NumOfSlices cfg"
    and "m \<in> set ms" "0 \<le> Position (msgOffset m)"
    and "Hold h ck queueConsumerHandleSingleton (qID k) node (60 * second) True s = Ret (s', True, err)"
  shows "\<exists>is. HandleQueueConfig h ck node cfg k failedSlices (\<lambda>_. []) s = Ret (s', is, None) \<and>
    (\<exists>i \<in> set is. m \<in> set (sliceMessages cfg (NumOfSlices cfg) i ms))"
proof -
  let ?i = "go_rem (Position (msgOffset m)) (NumOfSlices cfg)" let ?is = "[0..NumOfSlices cfg - 1]"
  have "checkSlices cfg k (\<lambda>_. []) is = is" for "is" using assms(2) by (induction "is") auto
  then have "HandleQueueConfig h ck node cfg k failedSlices (\<lambda>_. []) s = Ret (s', ?is, None)"
    using assms(3,6) by (simp add: HandleQueueConfig_def)
  moreover have "?i \<in> set ?is" using assms(1,5) by (auto simp: go_rem_def sgn_if)
  moreover have "m \<in> set (sliceMessages cfg (NumOfSlices cfg) ?i ms)"
    by (rule sliceMessages_belongs [OF assms(4)]) (simp add: belongs_def)
  ultimately show ?thesis by blast
qed

text \<open>The lock keeps the nodes apart: when one node has started workers for a queue, another one that looks at
  the queue within the minute starts none.\<close>

lemma other_node_starts_nothing:
  assumes "\<not> closed s" "CHR ''/'' \<notin> set node" "fits_int64 (Unix (lowTime ck))"
    and "HandleQueueConfig simple_kv ck node cfg k failedSlices inFlight s = Ret (s1, started, err)" "started \<noteq> []"
    and "node' \<noteq> node" "nowTime ck' \<le> Unix (lowTime ck) * second + 60 * second"
  shows "HandleQueueConfig simple_kv ck' node' cfg' k failedSlices' inFlight' s1 = Ret (s1, [], None)"
proof -
  let ?key = "lockKey queueConsumerHandleSingleton (qID k)"
  let ?ev = "HoldBy ck' queueConsumerHandleSingleton (qID k) node' (60 * second) True"
  from assms(4,5) obtain e where "Hold simple_kv ck queueConsumerHandleSingleton (qID k) node (60 * second) True s = Ret (s1, True, e)"
    by (auto simp: HandleQueueConfig_def go_bind_Ret_iff split: if_splits)
  from Hold_cases [OF this] have held: "heldBy simple_kv s1 ?key node (Unix (lowTime ck))"
    using skv.placeLock_holds(1) [OF assms(1)] by simp
  have "rival node (Unix (lowTime ck) * second) ?ev" using assms(6,7) by (simp add: leaseTime_def second_def)
  from rival_refused [OF held assms(2,3) _ this] show ?thesis
    by (auto simp: HandleQueueConfig_def split: go.splits)
qed

text \<open>Slices share messages. A worker that finds no message of its slice in a batch processes the whole
  batch instead of none of it: a batch of messages of slice \<open>j\<close> goes through the processors of slice \<open>j\<close>
  and of every other slice that fetches it.\<close>

theorem foreign_batch_is_processed:
  assumes "1 < NumOfSlices cfg" "ms \<noteq> []" "\<forall>m \<in> set ms. go_rem (Position (msgOffset m)) maxSlices = j"
    and "batchOf p = Some (ms, nextOffset)" "pFetch p = Ret (ms, nextOffset, None)" "pProcess p = None" "\<not> pIdle p"
  shows "workerPass h k c cfg maxSlices i w p = (w\<lparr>wOffset := nextOffset, handled := handled w @ [ms]\<rparr>, Again)"
proof -
  have "sliceMessages cfg maxSlices i ms = ms" using assms(1,3) by (cases "i = j") (auto simp: sliceMessages_def Let_def)
  with assms show ?thesis by (auto simp: workerPass_def batchOf_def handleMessage_def split: if_splits)
qed

theorem foreign_batch_is_processed_witness:
  "handled (fst (workerPass simple_kv sample_queue sample_consumer (workerDefaults\<lparr>NumOfSlices := 3\<rparr>) 3 2
      \<lparr>wkv = sample_store, wOffset = NewOffset 0 0, wInit = NewOffset 0 0, handled = []\<rparr> onePass)) = [[oneMessage]] \<and>
   go_rem (Position (msgOffset oneMessage)) 3 = 0"
proof -
  let ?w = "\<lparr>wkv = sample_store, wOffset = NewOffset 0 0, wInit = NewOffset 0 0, handled = []\<rparr>"
  have "workerPass simple_kv sample_queue sample_consumer (workerDefaults\<lparr>NumOfSlices := 3\<rparr>) 3 2 ?w onePass =
      (?w\<lparr>wOffset := NewOffset 0 5, handled := handled ?w @ [[oneMessage]]\<rparr>, Again)"
    by (rule foreign_batch_is_processed [where j = 0])
      (simp_all add: onePass_def batchOf_def go_rem_def workerDefaults_def oneMessage_def NewOffset_def)
  then show ?thesis by (simp add: oneMessage_def go_rem_def NewOffset_def)
qed

end
