(* ===== verification/DiskSessions.thy ===== *)
theory DiskSessions
  imports DiskFetchBounds QueueWorker
begin

section \<open>Workers on a disk queue\<close>

text \<open>
  The composition of the key-value store, the committed offsets, the consumers of the disk queue and the
  workers. A session is what a worker of \<open>plugins/queue/consumer\<close> does with one batch: it loads the committed
  offset, acquires a consumer of the queue there, fetches, hands the batch to the processors, and commits
  the offset behind it when it ends. The queue is at rest: nobody writes during a session and no file
  operation fails.
\<close>

subsection \<open>Order of offsets\<close>

lemma restAt_length:
  "length (restAt log w s k) = (length (log s) - k) + length (concat (map log [s + 1..w]))"
  by (simp add: restAt_def)

lemma restAt_antimono:
  assumes "s < s'" "s' \<le> w"
  shows "length (restAt log w s' k') \<le> length (restAt log w s k)"
proof -
  have "[s + 1..w] = [s + 1..s' - 1] @ s' # [s' + 1..w]" using assms by (simp add: upto_split3)
  then show ?thesis by (simp add: restAt_length)
qed

lemma posOf_mono:
  assumes "k \<le> k'" "k' \<le> length (log s)"
  shows "posOf cfg zc log s k + 4 * int (k' - k) \<le> posOf cfg zc log s k'"
  using assms
proof (induction k' rule: dec_induct)
  case (step n)
  then show ?case using posOf_Suc [of n log s cfg zc] by (simp add: Suc_diff_le)
qed simp

lemma posOf_inj:
  assumes "k \<le> length (log s)" "k' \<le> length (log s)" "posOf cfg zc log s k = posOf cfg zc log s k'"
  shows "k = k'"
  using posOf_mono [of k k' log s cfg zc] posOf_mono [of k' k log s cfg zc] assms by (cases k k' rule: linorder_cases) auto

lemma denotes_unique:
  assumes "denotes cfg zc lo q log off xs" "denotes cfg zc lo q log off' ys"
    and "Segment off = Segment off'" "Position off = Position off'"
  shows "xs = ys"
  using assms posOf_inj [of _ log "Segment off'" _ cfg zc] unfolding denotes_def by metis

lemma denotes_order:
  assumes "denotes cfg zc lo q log off xs" "denotes cfg zc lo q log off' ys" "length ys < length xs" "Version off = Version off'"
  shows "\<not> LatestThan off off'" "\<not> Equals off' off"
proof -
  from assms(1) obtain k where k: "Segment off \<le> writeSegmentNum q" "k \<le> length (log (Segment off))"
    "Position off = posOf cfg zc log (Segment off) k" "xs = restAt log (writeSegmentNum q) (Segment off) k"
    by (auto simp: denotes_def)
  from assms(2) obtain k' where k': "k' \<le> length (log (Segment off'))"
    "Position off' = posOf cfg zc log (Segment off') k'" "ys = restAt log (writeSegmentNum q) (Segment off') k'"
    by (auto simp: denotes_def)
  have seg: "\<not> Segment off' < Segment off"
    using restAt_antimono [OF _ k(1), of "Segment off'" log k k'] assms(3) k(4) k'(3) by auto
  have pos: "k < k'" if "Segment off = Segment off'"
    using assms(3) k k' that by (simp add: restAt_length)
  have less: "Position off < Position off'" if eq: "Segment off = Segment off'"
    using posOf_mono [of k k' log "Segment off" cfg zc] pos [OF eq] k k' eq by simp
  show "\<not> LatestThan off off'" using seg less assms(4) by (auto simp: LatestThan_def)
  have "0 \<le> Position off" using k(3) by simp
  with less show "\<not> Equals off' off" by (auto simp: Equals_def split: if_splits)
qed

subsection \<open>A fetch from a queue at rest\<close>

definition at_rest :: "fetchEnv \<Rightarrow> bool" where
  "at_rest e \<longleftrightarrow> others e = (\<lambda>q. q) \<and> \<not> openFails e \<and> \<not> failing e"

lemma encLog_Nil: "encLog cfg zc ms = [] \<longleftrightarrow> ms = []"
proof (cases ms)
  case (Cons m ms')
  then show ?thesis using posOf_Suc [of 0 "\<lambda>_. ms" 0 cfg zc] posOf_le [of 1 "\<lambda>_. ms" 0 cfg zc] by auto
qed simp

lemma no_extra:
  assumes "log_ok cfg zc lo q log" "log_ok cfg zc lo q' log'" "log_le (writeSegmentNum q) log (writeSegmentNum q') log'"
    and "files q' = files q" "writeSegmentNum q' = writeSegmentNum q"
  shows "extra (writeSegmentNum q) log (writeSegmentNum q') log' = []"
proof -
  let ?w = "writeSegmentNum q"
  have "encLog cfg zc (log' ?w) = encLog cfg zc (log ?w)"
    using log_okD(2,4) [OF assms(1)] log_okD(2,4) [OF assms(2)] assms(4,5) by (metis order_refl)
  moreover have "log' ?w = log ?w @ drop (length (log ?w)) (log' ?w)" using log_le_last [OF assms(3)] .
  ultimately have "drop (length (log ?w)) (log' ?w) = []"
    by (metis append_self_conv encLog_Nil encLog_simps(3))
  with assms(5) show ?thesis by (simp add: extra_def)
qed

lemma fetch_at_rest:
  assumes snd: "sound cfg zc zd" and log: "log_ok cfg zc lo q log" and nv: "nonvoid q"
    and off: "denotes cfg zc lo q log off xs" and xs: "xs \<noteq> []"
    and es: "\<forall>e \<in> set es. at_rest e" "length es \<ge> nat (FetchMaxMessages ccfg) + 2"
  shows "\<exists>q' c st log' rest. AcquireConsumer cfg rm False ident q off = Ret ((q', c), None) \<and>
    FetchMessages cfg rm zd ccfg n es q' c ctx = Some (Ret (st, False, None)) \<and>
    log_ok cfg zc lo (fq st) log' \<and> nonvoid (fq st) \<and> files (fq st) = files q \<and> writeSegmentNum (fq st) = writeSegmentNum q \<and>
    fmsgs st \<noteq> [] \<and> xs = map msgData (fmsgs st) @ rest \<and>
    denotes cfg zc lo (fq st) log' (NextOffset (fctx st)) rest \<and> Version (NextOffset (fctx st)) = Version off \<and>
    \<not> LatestThan off (NextOffset (fctx st)) \<and> \<not> Equals (NextOffset (fctx st)) off"
proof -
  let ?B = "\<lparr>bEnd = writeSegmentNum q, bLog = log, bOffset = off, bFiles = Some (files q)\<rparr>"
  have B: "bEnd ?B = writeSegmentNum q" "bLog ?B = log" "bOffset ?B = off" "bFiles ?B = None \<or> bFiles ?B = Some (files q)"
    by simp_all
  have f: "FileExists q (Segment off)" by (rule denotes_nonempty_file [OF log off xs])
  have fine: "\<forall>e \<in> set es. env_fine cfg zc lo ?B e" using es(1) by (auto simp: env_fine_def at_rest_def)
  have nofail: "\<not> (\<exists>e \<in> set es. failing e)" using es(1) by (auto simp: at_rest_def)
  from acquire_fetch [OF snd log nv B off f fine es(2), of rm ident n ctx] nofail xs obtain q' c st err log' rest where
    a: "AcquireConsumer cfg rm False ident q off = Ret ((q', c), None)"
      "FetchMessages cfg rm zd ccfg n es q' c ctx = Some (Ret (st, False, err))" "fmsgs st \<noteq> []" "conVersion c = Version off"
    and g: "fetched cfg zc lo ?B log' st rest" and err: "err = None" by metis
  note F = fetchedD [OF g, simplified]
  have same: "files (fq st) = files q" "writeSegmentNum (fq st) = writeSegmentNum q" using F(8) by (simp_all add: unchanged_def)
  note none = no_extra [OF log F(1) _ same] 
  have "denotes cfg zc lo (fq st) log' off (xs @ [])" using denotes_grow [OF off F(6)] none [OF F(6)] by simp
  moreover have init: "denotes cfg zc lo (fq st) log' off (map msgData (fmsgs st) @ rest)" using F(2,7) by simp
  ultimately have eq: "xs = map msgData (fmsgs st) @ rest" using denotes_unique by fastforce
  have nv': "nonvoid (fq st)" by (rule nonvoid_grow [OF nv log F(1,6)])
  have "Version (NextOffset (fctx (startFetch q' c ctx))) = Version off"
    using a(4) by (simp add: startFetch_def UpdateInitOffset_def Let_def)
  then have ver: "Version (NextOffset (fctx st)) = Version off" using fetch_bounded [OF a(2)] by (simp add: batch_def)
  have "length rest < length (map msgData (fmsgs st) @ rest)" using a(3) by simp
  from denotes_order [OF init F(3) this ver [symmetric]] a err F(1,3) same eq nv' ver show ?thesis by blast
qed

lemma denotes_fits:
  assumes "log_ok cfg zc lo q log" "denotes cfg zc lo q log off xs"
    and "fits_int64 (writeSegmentNum q)" "\<forall>i. fits_int64 (int (length (segBytes (files q) i)))"
  shows "fits_int64 (Segment off) \<and> fits_int64 (Position off)"
proof -
  from assms(2) obtain k where k: "lo \<le> Segment off" "Segment off \<le> writeSegmentNum q" "k \<le> length (log (Segment off))"
    "Position off = posOf cfg zc log (Segment off) k" by (auto simp: denotes_def)
  have "Position off \<le> int (length (segBytes (files q) (Segment off)))" "0 \<le> Position off"
    using posOf_le [of k log "Segment off" cfg zc] k(3,4) log_okD(4) [OF assms(1) k(1,2)] by simp_all
  moreover have "0 \<le> Segment off" using log_okD(1) [OF assms(1)] k(1) by simp
  moreover have "int (length (segBytes (files q) (Segment off))) < 2 ^ 63" using assms(4) unfolding fits_int64_def by blast
  ultimately show ?thesis using k(2) assms(3) unfolding fits_int64_def by linarith
qed

subsection \<open>A session\<close>

text \<open>The pass in which the worker takes a batch and the processors succeed.\<close>

definition sessionPass :: "Message list \<Rightarrow> Offset \<Rightarrow> string option \<Rightarrow> pass" where
  "sessionPass ms nextOffset err = \<lparr>pStop = False, pLag = False, pFetch = Ret (ms, nextOffset, err), pProcess = None,
     pIdle = False, pCleanup = None, pShutdown = False, pTag = False, pCanceled = False\<rparr>"

record 's site_of =
  store :: 's
  queue :: DiskBasedQueue

definition session ::
  "'s KVHandler \<Rightarrow> DiskQueueConfig \<Rightarrow> remote \<Rightarrow> (bytes \<Rightarrow> string + bytes) \<Rightarrow> Config \<Rightarrow> QueueConfig \<Rightarrow> ConsumerConfig \<Rightarrow>
   string \<Rightarrow> int \<Rightarrow> fetchEnv list \<Rightarrow> 's site_of \<Rightarrow> ('s site_of \<times> Message list list) option" where
  "session h cfg rm zd wcfg k c ident n es st =
     (case loadOffset h (store st) k c of
        Panic _ \<Rightarrow> None
      | Ret off \<Rightarrow>
          (case AcquireConsumer cfg rm False ident (queue st) off of
             Ret ((q, con), None) \<Rightarrow>
               (case FetchMessages cfg rm zd c n es q con noContext of
                  Some (Ret (f, _, err)) \<Rightarrow>
                    (let (s', batches) = NewSlicedWorker h k c wcfg 1 0 True None
                           [sessionPass (fmsgs f) (NextOffset (fctx f)) err] False None (store st)
                     in Some (\<lparr>store = s', queue = fq f\<rparr>, batches))
                | _ \<Rightarrow> None)
           | _ \<Rightarrow> None))"

fun sessions ::
  "'s KVHandler \<Rightarrow> DiskQueueConfig \<Rightarrow> remote \<Rightarrow> (bytes \<Rightarrow> string + bytes) \<Rightarrow> Config \<Rightarrow> QueueConfig \<Rightarrow> ConsumerConfig \<Rightarrow>
   string \<Rightarrow> int \<Rightarrow> fetchEnv list \<Rightarrow> nat \<Rightarrow> 's site_of \<Rightarrow> ('s site_of \<times> bytes list) option" where
  "sessions h cfg rm zd wcfg k c ident n es 0 st = Some (st, [])"
| "sessions h cfg rm zd wcfg k c ident n es (Suc j) st =
     (case session h cfg rm zd wcfg k c ident n es st of
        None \<Rightarrow> None
      | Some (st', batches) \<Rightarrow>
          (case sessions h cfg rm zd wcfg k c ident n es j st' of
             None \<Rightarrow> None
           | Some (st'', out) \<Rightarrow> Some (st'', map msgData (concat batches) @ out)))"

context kv_store
begin

lemma worker_session:
  assumes "usable s" "loadOffset h s k c = Ret off" "hExistsKey h s ConsumerBucket (str_bytes (qID k))" "qID k \<noteq> []"
    and "bucket_ok ConsumerBucket" "bucket_ok ConsumerOffsetBucket"
    and "wAutoCommitOffset wcfg" "NumOfSlices wcfg \<le> 1" "ms \<noteq> []"
    and "fits_offset nextOff" "\<not> LatestThan off nextOff" "\<not> Equals nextOff off"
  shows "\<exists>s'. NewSlicedWorker h k c wcfg 1 0 True None [sessionPass ms nextOff None] False None s = (s', [ms]) \<and>
    usable s' \<and> loadOffset h s' k c = Ret nextOff \<and> hExistsKey h s' ConsumerBucket (str_bytes (qID k))"
proof -
  let ?s = "fst (hAddValue h s ConsumerOffsetBucket (commitBytes k c) (str_bytes (EncodeToString nextOff)))"
  let ?w = "\<lparr>wkv = s, wOffset = nextOff, wInit = off, handled = [ms]\<rparr>"
  have "wkv (fst (commitWorker h k c wcfg ?w)) = ?s"
    using assms(2-4,7,11,12)
    by (auto simp: commitWorker_def apiCommitOffset_def saveOffset_def split: prod.split option.split)
  moreover have "NewSlicedWorker h k c wcfg 1 0 True None [sessionPass ms nextOff None] False None s =
      (wkv (fst (commitWorker h k c wcfg ?w)), [ms])"
    using assms(2,8,9)
    by (simp add: NewSlicedWorker_def workerPass_def sessionPass_def handleMessage_def sliceMessages_def workerExit_def Let_def)
  moreover have "usable ?s" "loadOffset h ?s k c = Ret nextOff" by (rule usable_add [OF assms(1)], rule load_after_add [OF assms(1,10)])
  moreover have "hExistsKey h ?s ConsumerBucket (str_bytes (qID k))"
    using exists_add_other [OF assms(1,6,5)] assms(3) by simp
  ultimately show ?thesis by auto
qed

lemma session_step:
  assumes snd: "sound cfg zc zd" and log: "log_ok cfg zc lo q log" and nv: "nonvoid q"
    and off: "denotes cfg zc lo q log off xs" and xs: "xs \<noteq> []"
    and es: "\<forall>e \<in> set es. at_rest e" "length es \<ge> nat (FetchMaxMessages c) + 2"
    and fit: "fits_int64 (writeSegmentNum q)" "\<forall>i. fits_int64 (int (length (segBytes (files q) i)))" "fits_offset off"
    and kv: "usable s" "loadOffset h s k c = Ret off" "hExistsKey h s ConsumerBucket (str_bytes (qID k))" "qID k \<noteq> []"
    and ok: "bucket_ok ConsumerBucket" "bucket_ok ConsumerOffsetBucket"
    and w: "wAutoCommitOffset wcfg" "NumOfSlices wcfg \<le> 1"
  shows "\<exists>s' q' log' off' ms rest. session h cfg rm zd wcfg k c ident n es \<lparr>store = s, queue = q\<rparr> = Some (\<lparr>store = s', queue = q'\<rparr>, [ms]) \<and>
    ms \<noteq> [] \<and> xs = map msgData ms @ rest \<and>
    log_ok cfg zc lo q' log' \<and> nonvoid q' \<and> files q' = files q \<and> writeSegmentNum q' = writeSegmentNum q \<and>
    denotes cfg zc lo q' log' off' rest \<and> fits_offset off' \<and>
    usable s' \<and> loadOffset h s' k c = Ret off' \<and> hExistsKey h s' ConsumerBucket (str_bytes (qID k))"
proof -
  from fetch_at_rest [OF snd log nv off xs es, of rm ident n noContext] obtain q1 con st log' rest where
    a: "AcquireConsumer cfg rm False ident q off = Ret ((q1, con), None)"
      "FetchMessages cfg rm zd c n es q1 con noContext = Some (Ret (st, False, None))"
    and l: "log_ok cfg zc lo (fq st) log'" "nonvoid (fq st)" "files (fq st) = files q" "writeSegmentNum (fq st) = writeSegmentNum q"
    and m: "fmsgs st \<noteq> []" "xs = map msgData (fmsgs st) @ rest"
    and d: "denotes cfg zc lo (fq st) log' (NextOffset (fctx st)) rest" "Version (NextOffset (fctx st)) = Version off"
      "\<not> LatestThan off (NextOffset (fctx st))" "\<not> Equals (NextOffset (fctx st)) off" by blast
  have "fits_offset (NextOffset (fctx st))" using denotes_fits [OF l(1) d(1)] l(3,4) fit d(2) by (simp add: fits_offset_def)
  from worker_session [OF kv ok w m(1) this d(3,4)] obtain s' where
    s': "NewSlicedWorker h k c wcfg 1 0 True None [sessionPass (fmsgs st) (NextOffset (fctx st)) None] False None s = (s', [fmsgs st])"
      "usable s'" "loadOffset h s' k c = Ret (NextOffset (fctx st))" "hExistsKey h s' ConsumerBucket (str_bytes (qID k))" by blast
  have "session h cfg rm zd wcfg k c ident n es \<lparr>store = s, queue = q\<rparr> = Some (\<lparr>store = s', queue = fq st\<rparr>, [fmsgs st])"
    using kv(2) a s'(1) by (simp add: session_def)
  with m l d(1) s'(2-4) \<open>fits_offset (NextOffset (fctx st))\<close> show ?thesis by blast
qed

lemma sessions_drain:
  assumes "sound cfg zc zd" "log_ok cfg zc lo q log" "nonvoid q" "denotes cfg zc lo q log off xs"
    and "\<forall>e \<in> set es. at_rest e" "length es \<ge> nat (FetchMaxMessages c) + 2"
    and "fits_int64 (writeSegmentNum q)" "\<forall>i. fits_int64 (int (length (segBytes (files q) i)))" "fits_offset off"
    and "usable s" "loadOffset h s k c = Ret off" "hExistsKey h s ConsumerBucket (str_bytes (qID k))" "qID k \<noteq> []"
    and "bucket_ok ConsumerBucket" "bucket_ok ConsumerOffsetBucket" "wAutoCommitOffset wcfg" "NumOfSlices wcfg \<le> 1"
  shows "\<exists>j s' q' log' off'. j \<le> length xs \<and>
    sessions h cfg rm zd wcfg k c ident n es j \<lparr>store = s, queue = q\<rparr> = Some (\<lparr>store = s', queue = q'\<rparr>, xs) \<and>
    loadOffset h s' k c = Ret off' \<and> log_ok cfg zc lo q' log' \<and> denotes cfg zc lo q' log' off' [] \<and> files q' = files q"
  using assms
proof (induction "length xs" arbitrary: xs q log off s rule: less_induct)
  case less
  show ?case
  proof (cases "xs = []")
    case True
    with less.prems show ?thesis by (intro exI [of _ 0]) auto
  next
    case False
    from session_step [OF less.prems(1-4) False less.prems(5-17), of rm ident n] obtain s' q' log' off' ms rest where
      st: "session h cfg rm zd wcfg k c ident n es \<lparr>store = s, queue = q\<rparr> = Some (\<lparr>store = s', queue = q'\<rparr>, [ms])"
        "ms \<noteq> []" "xs = map msgData ms @ rest" "log_ok cfg zc lo q' log'" "nonvoid q'" "files q' = files q"
        "writeSegmentNum q' = writeSegmentNum q" "denotes cfg zc lo q' log' off' rest" "fits_offset off'"
        "usable s'" "loadOffset h s' k c = Ret off'" "hExistsKey h s' ConsumerBucket (str_bytes (qID k))" by blast
    have "length rest < length xs" using st(2,3) by simp
    from less.hyps [OF this less.prems(1) st(4,5,8) less.prems(5,6) _ _ st(9-12) less.prems(13-17)] less.prems(7,8) st(6,7)
    obtain j s'' q'' log'' off'' where "j \<le> length rest"
      "sessions h cfg rm zd wcfg k c ident n es j \<lparr>store = s', queue = q'\<rparr> = Some (\<lparr>store = s'', queue = q''\<rparr>, rest)"
      "loadOffset h s'' k c = Ret off''" "log_ok cfg zc lo q'' log''" "denotes cfg zc lo q'' log'' off'' []" "files q'' = files q'"
      by auto
    moreover have "Suc (length rest) \<le> length xs" using st(2,3) by (cases ms) auto
    ultimately show ?thesis using st(1,3,6) by (intro exI [of _ "Suc j"]) auto
  qed
qed

end

end
