(* ===== verification/Retention.thy ===== *)
theory Retention
  imports QueueOffsets DiskConsumer
begin

section \<open>Compressing, uploading and deleting segments\<close>

text \<open>
  \<open>modules/queue/disk_queue/compress.go\<close>, \<open>upload.go\<close> and \<open>cleanup.go\<close>, and the two handlers of
  \<open>module.go\<close> that run them when a segment has been written or read to its end.

  \<^item> \<open>'s site\<close> is what they work on: the configuration (\<open>compressFiles\<close> corrects a threshold in it),
    the registries with the key-value store, one loaded queue with its files, the objects in S3, and the
    flag that stops writes when the disk is full.
  \<^item> \<open>siteEnv\<close> is the outside of one event: the result of compressing a segment, which removals and
    uploads fail, and the state of the disk.
  \<^item> A handler catches panics. Each operation therefore returns the site together with the message of
    the panic that ended it, if one did. What a lookup had unpacked before it panicked is not kept.
\<close>

record 's site =
  scfg :: DiskQueueConfig
  sreg :: "'s queues"
  sdq :: DiskBasedQueue
  s3 :: "int \<rightharpoonup> bytes"
  preventRead :: bool

record siteEnv =
  compressor :: "int \<Rightarrow> bytes \<Rightarrow> string + bytes"
  unlinkErr :: "int \<Rightarrow> bool"
  unlinkZErr :: "int \<Rightarrow> bool"
  s3Upload :: "int \<Rightarrow> bool"
  checkAllowed :: bool
  dirSize :: "nat option"
  diskFree :: nat

type_synonym 's outcome = "'s site \<times> string option"

definition orPanic :: "'a go \<Rightarrow> 's site \<Rightarrow> ('a \<Rightarrow> 's outcome) \<Rightarrow> 's outcome" where
  "orPanic m st f = (case m of Panic e \<Rightarrow> (st, Some e) | Ret x \<Rightarrow> f x)"

definition andThen :: "'s outcome \<Rightarrow> ('s site \<Rightarrow> 's outcome) \<Rightarrow> 's outcome" where
  "andThen r f = (case r of (st, None) \<Rightarrow> f st | (st, Some e) \<Rightarrow> (st, Some e))"

definition setDat :: "'s site \<Rightarrow> int \<Rightarrow> bytes option \<Rightarrow> 's site" where
  "setDat st x f = st\<lparr>sdq := (sdq st)\<lparr>files := (files (sdq st))\<lparr>dDat := (dDat (files (sdq st)))(x := f)\<rparr>\<rparr>\<rparr>"

definition setZst :: "'s site \<Rightarrow> int \<Rightarrow> bytes option \<Rightarrow> 's site" where
  "setZst st x f = st\<lparr>sdq := (sdq st)\<lparr>files := (files (sdq st))\<lparr>dZst := (dZst (files (sdq st)))(x := f)\<rparr>\<rparr>\<rparr>"

definition fileAt :: "'s site \<Rightarrow> int \<Rightarrow> bytes option" where
  "fileAt st x = dDat (files (sdq st)) x"

definition zstAt :: "'s site \<Rightarrow> int \<Rightarrow> bytes option" where
  "zstAt st x = dZst (files (sdq st)) x"

subsection \<open>Marks\<close>

definition queueCompressLastFileNum :: string where
  "queueCompressLastFileNum = ''last_compress_file_for_queue''"

definition queueS3LastFileNum :: string where
  "queueS3LastFileNum = ''last_success_file_for_queue''"

definition lastFileNum :: "'s KVHandler \<Rightarrow> 's \<Rightarrow> string \<Rightarrow> string \<Rightarrow> int go" where
  "lastFileNum h s bucket queueID =
     (case hGetValue h s bucket (str_bytes queueID) of
        Inl err \<Rightarrow> Panic err
      | Inr None \<Rightarrow> Ret (- 1)
      | Inr (Some b) \<Rightarrow> if length b = 0 then Ret (- 1) else BytesToInt64 b)"

definition GetLastCompressFileNum :: "'s KVHandler \<Rightarrow> 's \<Rightarrow> string \<Rightarrow> int go" where
  "GetLastCompressFileNum h s queueID = lastFileNum h s queueCompressLastFileNum queueID"

definition GetLastS3UploadFileNum :: "'s KVHandler \<Rightarrow> 's \<Rightarrow> string \<Rightarrow> int go" where
  "GetLastS3UploadFileNum h s queueID = lastFileNum h s queueS3LastFileNum queueID"

definition addMark :: "'s KVHandler \<Rightarrow> string \<Rightarrow> string \<Rightarrow> int \<Rightarrow> 's site \<Rightarrow> 's outcome" where
  "addMark h bucket queueID x st =
     (case hAddValue h (qkv (sreg st)) bucket (str_bytes queueID) (Int64ToBytes x) of
        (s, err) \<Rightarrow> (st\<lparr>sreg := (sreg st)\<lparr>qkv := s\<rparr>\<rparr>, err))"

definition earliest ::
  "'s KVHandler \<Rightarrow> cfgJson \<Rightarrow> json \<Rightarrow> string \<Rightarrow> 's site \<Rightarrow> (int \<times> int \<Rightarrow> 's site \<Rightarrow> 's outcome) \<Rightarrow> 's outcome" where
  "earliest h cj j queueID st k =
     orPanic (moduleEarlierOffset h cj j (sreg st) (Some (sdq st)) queueID) st
       (\<lambda>(reg, consumers, seg). k (consumers, seg) (st\<lparr>sreg := reg\<rparr>))"

definition latest ::
  "'s KVHandler \<Rightarrow> cfgJson \<Rightarrow> json \<Rightarrow> string \<Rightarrow> 's site \<Rightarrow> (int \<times> int \<Rightarrow> 's site \<Rightarrow> 's outcome) \<Rightarrow> 's outcome" where
  "latest h cj j queueID st k =
     orPanic (moduleLatestOffset h cj j (sreg st) (Some (sdq st)) queueID) st
       (\<lambda>(reg, consumers, seg). k (consumers, seg) (st\<lparr>sreg := reg\<rparr>))"

subsection \<open>Compressing\<close>

text \<open>\<open>zstd.CompressFile\<close>: the target is written under another name and renamed.\<close>

definition CompressFile :: "siteEnv \<Rightarrow> int \<Rightarrow> 's site \<Rightarrow> 's site \<times> string option" where
  "CompressFile e x st =
     (if zstAt st x \<noteq> None then (st, Some ''target file exits, skip'')
      else case fileAt st x of
        None \<Rightarrow> (st, Some ''no such file'')
      | Some f \<Rightarrow>
          (case compressor e x f of Inl err \<Rightarrow> (st, Some err) | Inr z \<Rightarrow> (setZst st x (Some z), None)))"

text \<open>Removing the original of a compressed segment, away from where consumers read; \<open>None\<close> ends the loop.\<close>

definition removeOriginal ::
  "'s KVHandler \<Rightarrow> cfgJson \<Rightarrow> json \<Rightarrow> siteEnv \<Rightarrow> string \<Rightarrow> int \<Rightarrow> 's site \<Rightarrow> ('s site \<Rightarrow> 's outcome) \<Rightarrow> 's outcome" where
  "removeOriginal h cj j e queueID x st continue =
     earliest h cj j queueID st (\<lambda>(_, earliestSeg) st.
       latest h cj j queueID st (\<lambda>(_, latestSeg) st.
         let left = earliestSeg - IdleThreshold (DiskCompression (scfg st));
             right = latestSeg + IdleThreshold (DiskCompression (scfg st))
         in if x < left \<or> x > right then
              (if unlinkErr e x then (st, None) else continue (setDat st x None))
            else continue st))"

function compressLoop ::
  "'s KVHandler \<Rightarrow> cfgJson \<Rightarrow> json \<Rightarrow> siteEnv \<Rightarrow> string \<Rightarrow> int \<Rightarrow> int \<Rightarrow> 's site \<Rightarrow> 's outcome" where
  "compressLoop h cj j e queueID end x st =
     (if x > end then (st, None)
      else if fileAt st x \<noteq> None \<and> fileAt st (x + 1) \<noteq> None then
        (case (if zstAt st x = None then CompressFile e x st else (st, None)) of
           (st, Some err) \<Rightarrow> compressLoop h cj j e queueID end (x + 1) st
         | (st, None) \<Rightarrow>
             andThen (addMark h queueCompressLastFileNum queueID x st) (\<lambda>st.
               if \<not> DeleteAfterCompress (DiskCompression (scfg st)) then compressLoop h cj j e queueID end (x + 1) st
               else removeOriginal h cj j e queueID x st (compressLoop h cj j e queueID end (x + 1))))
      else (st, None))"
  by pat_completeness auto
termination
  by (relation "measure (\<lambda>(h, cj, j, e, q, end, x, st). nat (end + 1 - x))") auto

declare compressLoop.simps [simp del]

definition compressFiles ::
  "'s KVHandler \<Rightarrow> cfgJson \<Rightarrow> json \<Rightarrow> siteEnv \<Rightarrow> string \<Rightarrow> int \<Rightarrow> 's site \<Rightarrow> 's outcome" where
  "compressFiles h cj j e queueID fileNum st =
     (if \<not> Enabled (CompressSegment (DiskCompression (scfg st))) then (st, None)
      else
        let st = (if IdleThreshold (DiskCompression (scfg st)) < 1
                  then st\<lparr>scfg := (scfg st)\<lparr>DiskCompression := (DiskCompression (scfg st))\<lparr>IdleThreshold := 5\<rparr>\<rparr>\<rparr> else st)
        in earliest h cj j queueID st (\<lambda>(consumers, _) st.
             let fileStartToCompress = fileNum - IdleThreshold (DiskCompression (scfg st))
             in orPanic (GetLastCompressFileNum h (qkv (sreg st)) queueID) st (\<lambda>last.
                  if fileStartToCompress \<le> 0 \<or> (SkipZeroConsumers (scfg st) \<and> consumers \<le> 0) \<or> fileStartToCompress \<le> last
                  then (st, None)
                  else compressLoop h cj j e queueID fileStartToCompress (last + 1) st)))"

subsection \<open>Uploading\<close>

function uploadLoop :: "'s KVHandler \<Rightarrow> siteEnv \<Rightarrow> string \<Rightarrow> int \<Rightarrow> int \<Rightarrow> 's site \<Rightarrow> 's outcome" where
  "uploadLoop h e queueID fileNum i st =
     (if i > fileNum then (st, None)
      else if Enabled (CompressSegment (DiskCompression (scfg st))) \<and> zstAt st i = None then
        uploadLoop h e queueID fileNum (i + 1) st
      else if s3Upload e i then
        andThen (addMark h queueS3LastFileNum queueID i
                   (st\<lparr>s3 := (s3 st)(i := if Enabled (CompressSegment (DiskCompression (scfg st))) then zstAt st i else fileAt st i)\<rparr>))
          (uploadLoop h e queueID fileNum (i + 1))
      else uploadLoop h e queueID fileNum (i + 1) st)"
  by pat_completeness auto
termination
  by (relation "measure (\<lambda>(h, e, q, fileNum, i, st). nat (fileNum + 1 - i))") auto

declare uploadLoop.simps [simp del]

definition uploadToS3 ::
  "'s KVHandler \<Rightarrow> cfgJson \<Rightarrow> json \<Rightarrow> siteEnv \<Rightarrow> string \<Rightarrow> int \<Rightarrow> 's site \<Rightarrow> 's outcome" where
  "uploadToS3 h cj j e queueID fileNum st =
     (if \<not> UploadToS3 (scfg st) then (st, None)
      else earliest h cj j queueID st (\<lambda>(consumers, _) st.
        if SkipZeroConsumers (scfg st) \<and> consumers = 0 then (st, None)
        else orPanic (GetLastS3UploadFileNum h (qkv (sreg st)) queueID) st (\<lambda>last.
          if fileNum \<le> last then (st, None)
          else if S3Configured (scfg st) then uploadLoop h e queueID fileNum (last + 1) st
          else (st, None))))"

subsection \<open>Deleting\<close>

function deleteLoop :: "siteEnv \<Rightarrow> int \<Rightarrow> int \<Rightarrow> 's site \<Rightarrow> 's site" where
  "deleteLoop e eSegmentNum x st =
     (if x < 0 then st
      else if x > eSegmentNum then deleteLoop e eSegmentNum (x - 1) st
      else if fileAt st x \<noteq> None \<and> unlinkErr e x then st
      else
        let st = (if fileAt st x \<noteq> None then setDat st x None else st)
        in if zstAt st x \<noteq> None \<and> unlinkZErr e x then st
           else deleteLoop e eSegmentNum (x - 1) (if zstAt st x \<noteq> None then setZst st x None else st))"
  by pat_completeness auto
termination
  by (relation "measure (\<lambda>(e, s, x, st). nat (x + 1))") auto

declare deleteLoop.simps [simp del]

definition deleteFrom :: "siteEnv \<Rightarrow> int \<Rightarrow> int \<Rightarrow> int \<Rightarrow> 's site \<Rightarrow> 's site" where
  "deleteFrom e consumers eSegmentNum fileStartToDelete st =
     (let fileStartToDelete = (if eSegmentNum > 0 \<and> fileStartToDelete > eSegmentNum
                               then eSegmentNum - MaxNumOfLocalFiles (Retention (scfg st)) else fileStartToDelete)
      in if consumers > 0 \<and> fileStartToDelete > 0 \<and> fileStartToDelete < eSegmentNum \<and> eSegmentNum > 0
         then deleteLoop e eSegmentNum fileStartToDelete st else st)"

definition deleteUnusedFiles ::
  "'s KVHandler \<Rightarrow> cfgJson \<Rightarrow> json \<Rightarrow> siteEnv \<Rightarrow> string \<Rightarrow> int \<Rightarrow> 's site \<Rightarrow> 's outcome" where
  "deleteUnusedFiles h cj j e queueID fileNum st =
     earliest h cj j queueID st (\<lambda>(consumers, eSegmentNum) st.
       let fileStartToDelete = fileNum - MaxNumOfLocalFiles (Retention (scfg st))
       in if fileStartToDelete \<le> 0 \<or> consumers \<le> 0 \<or> eSegmentNum < 0 then (st, None)
          else latest h cj j queueID st (\<lambda>_ st.
            if UploadToS3 (scfg st) then
              orPanic (GetLastS3UploadFileNum h (qkv (sreg st)) queueID) st (\<lambda>lastSaved.
                if lastSaved < 0 then (st, None)
                else (deleteFrom e consumers eSegmentNum
                        (if fileStartToDelete \<ge> lastSaved then lastSaved - IdleThreshold (DiskCompression (scfg st))
                         else fileStartToDelete) st, None))
            else (deleteFrom e consumers eSegmentNum fileStartToDelete st, None)))"

subsection \<open>Capacity\<close>

text \<open>\<open>checkAllowed\<close> is the answer of the rate limiter; an error of \<open>DirSize\<close> is caught and leaves no error.\<close>

definition checkCapacity :: "siteEnv \<Rightarrow> 's site \<Rightarrow> 's site \<times> string option" where
  "checkCapacity e st =
     (let cfg = scfg st
      in if \<not> checkAllowed e then (st, None)
         else if \<not> (WarningFreeBytes cfg > 0 \<or> MaxUsedBytes cfg > 0 \<or> ReservedFreeBytes cfg > 0) then (st, None)
         else case dirSize e of
           None \<Rightarrow> (st, None)
         | Some pathUsed \<Rightarrow>
             if MaxUsedBytes cfg > 0 \<and> pathUsed \<ge> MaxUsedBytes cfg then (st\<lparr>preventRead := True\<rparr>, Some ''disk usage'')
             else if ReservedFreeBytes cfg > 0 \<and> diskFree e \<le> ReservedFreeBytes cfg
             then (st\<lparr>preventRead := True\<rparr>, Some ''disk free space'')
             else (st\<lparr>preventRead := False\<rparr>, None))"

subsection \<open>The handlers\<close>

function prepareLoop ::
  "remote \<Rightarrow> int \<Rightarrow> int \<Rightarrow> 's site \<Rightarrow> 's site \<times> int go" where
  "prepareLoop rm fileNum i st =
     (if i > NumOfFilesDecompressAhead (DiskCompression (scfg st)) then (st, Ret (fileNum + i - 1))
      else case SmartGetFileName (scfg st) rm (sdq st) (fileNum + i) of
        Panic m \<Rightarrow> (st, Panic m)
      | Ret (q, ex, _) \<Rightarrow>
          if \<not> ex then (st\<lparr>sdq := q\<rparr>, Ret fileNum) else prepareLoop rm fileNum (i + 1) (st\<lparr>sdq := q\<rparr>))"
  by pat_completeness auto
termination
  by (relation "measure (\<lambda>(rm, n, i, st). nat (NumOfFilesDecompressAhead (DiskCompression (scfg st)) + 1 - i))") auto

declare prepareLoop.simps [simp del]

definition prepareFilesToRead :: "remote \<Rightarrow> int \<Rightarrow> 's site \<Rightarrow> 's site \<times> int go" where
  "prepareFilesToRead rm fileNum st =
     (if \<not> Enabled (CompressSegment (DiskCompression (scfg st))) then (st, Ret (- 1))
      else if NumOfFilesDecompressAhead (DiskCompression (scfg st)) < 1 then (st, Ret 0)
      else prepareLoop rm fileNum 1 st)"

definition onWriteComplete ::
  "'s KVHandler \<Rightarrow> cfgJson \<Rightarrow> json \<Rightarrow> siteEnv \<Rightarrow> string \<Rightarrow> int \<Rightarrow> 's site \<Rightarrow> 's site" where
  "onWriteComplete h cj j e queueID fileNum st =
     fst (andThen (compressFiles h cj j e queueID fileNum st) (\<lambda>st.
       andThen (uploadToS3 h cj j e queueID fileNum st) (\<lambda>st.
         deleteUnusedFiles h cj j e queueID fileNum (fst (checkCapacity e st)))))"

definition onReadComplete ::
  "'s KVHandler \<Rightarrow> cfgJson \<Rightarrow> json \<Rightarrow> remote \<Rightarrow> siteEnv \<Rightarrow> string \<Rightarrow> int \<Rightarrow> int \<Rightarrow> 's site \<Rightarrow> 's site \<times> int" where
  "onReadComplete h cj j rm e queueID fileNum lastFilePrepared st =
     (if PrepareFilesToRead (scfg st) \<and> lastFilePrepared > 0 \<and> fileNum \<le> lastFilePrepared then (st, - 1)
      else case (if PrepareFilesToRead (scfg st) then prepareFilesToRead rm fileNum st else (st, Ret 0)) of
        (st, Panic m) \<Rightarrow> (st, 0)
      | (st, Ret _) \<Rightarrow>
          (case deleteUnusedFiles h cj j e queueID fileNum st of
             (st, None) \<Rightarrow> (st, - 1)
           | (st, Some m) \<Rightarrow> (st, 0)))"


subsection \<open>What retention keeps\<close>

text \<open>What can still be read of a segment, from its file or from its compressed copy.\<close>

definition content :: "remote \<Rightarrow> 's site \<Rightarrow> int \<Rightarrow> bytes option" where
  "content rm st x =
     (case fileAt st x of Some f \<Rightarrow> Some f | None \<Rightarrow> map_option (\<lambda>z. fst (decode rm z)) (zstAt st x))"

definition zst_ok :: "remote \<Rightarrow> 's site \<Rightarrow> bool" where
  "zst_ok rm st \<longleftrightarrow>
     (\<forall>x z. zstAt st x = Some z \<longrightarrow> snd (decode rm z) = None \<and> (\<forall>f. fileAt st x = Some f \<longrightarrow> fst (decode rm z) = f))"

definition codec_ok :: "remote \<Rightarrow> siteEnv \<Rightarrow> bool" where
  "codec_ok rm e \<longleftrightarrow> (\<forall>x f z. compressor e x f = Inr z \<longrightarrow> decode rm z = (f, None))"

text \<open>A segment some consumer still has to read, from its committed offset or from where it reads now.\<close>

definition needed :: "consumers \<Rightarrow> (ConsumerConfig \<Rightarrow> Offset) \<Rightarrow> DiskBasedQueue \<Rightarrow> int \<Rightarrow> bool" where
  "needed cfgs off q x \<longleftrightarrow>
     (\<exists>c \<in> snd ` set cfgs. Segment (off c) \<le> x) \<or> (\<exists>s \<in> snd ` set (consumersInReading q). s \<le> x)"

lemma site_frame [simp]:
  "fileAt (setDat st x f) y = (if y = x then f else fileAt st y)" "zstAt (setDat st x f) y = zstAt st y"
  "fileAt (setZst st x f) y = fileAt st y" "zstAt (setZst st x f) y = (if y = x then f else zstAt st y)"
  "sreg (setDat st x f) = sreg st" "sreg (setZst st x f) = sreg st" "scfg (setDat st x f) = scfg st"
  "scfg (setZst st x f) = scfg st" "consumersInReading (sdq (setDat st x f)) = consumersInReading (sdq st)"
  "consumersInReading (sdq (setZst st x f)) = consumersInReading (sdq st)"
  by (simp_all add: setDat_def setZst_def fileAt_def zstAt_def)

lemma site_others [simp]:
  "fileAt (st\<lparr>sreg := r\<rparr>) y = fileAt st y" "zstAt (st\<lparr>sreg := r\<rparr>) y = zstAt st y"
  "fileAt (st\<lparr>s3 := o3\<rparr>) y = fileAt st y" "zstAt (st\<lparr>s3 := o3\<rparr>) y = zstAt st y"
  "fileAt (st\<lparr>scfg := c\<rparr>) y = fileAt st y" "zstAt (st\<lparr>scfg := c\<rparr>) y = zstAt st y"
  "fileAt (st\<lparr>preventRead := b\<rparr>) y = fileAt st y" "zstAt (st\<lparr>preventRead := b\<rparr>) y = zstAt st y"
  by (simp_all add: fileAt_def zstAt_def)

lemma zst_ok_drop_dat: "zst_ok rm st \<Longrightarrow> zst_ok rm (setDat st x None)"
  by (auto simp: zst_ok_def)

lemma zst_ok_drop_zst: "zst_ok rm st \<Longrightarrow> zst_ok rm (setZst st x None)"
  by (auto simp: zst_ok_def)

lemma content_drop_dat:
  "zst_ok rm st \<Longrightarrow> zstAt st x \<noteq> None \<Longrightarrow> content rm (setDat st x None) y = content rm st y"
  by (auto simp: content_def zst_ok_def split: option.splits)

lemma compress_one:
  assumes "codec_ok rm e" "zst_ok rm st" "CompressFile e x st = (st', err)"
  shows "zst_ok rm st'" "content rm st' y = content rm st y" "err = None \<Longrightarrow> zstAt st' x \<noteq> None"
    "sreg st' = sreg st" "scfg st' = scfg st" "consumersInReading (sdq st') = consumersInReading (sdq st)"
  using assms
  by (auto simp: CompressFile_def zst_ok_def codec_ok_def content_def split: if_splits option.splits sum.splits)

subsection \<open>The earliest consumer, again and again\<close>

text \<open>A registry in which the queue has been looked up before.\<close>

abbreviation settled :: "'s KVHandler \<Rightarrow> cfgJson \<Rightarrow> json \<Rightarrow> string \<Rightarrow> nat \<Rightarrow> consumers \<Rightarrow> (ConsumerConfig \<Rightarrow> Offset) \<Rightarrow> 's queues \<Rightarrow> bool" where
  "settled h cj j queueID q cfgs off reg \<equiv> known h cj j reg queueID reg q cfgs off"

lemma min_readers:
  "\<exists>n m. fold (\<lambda>(_, seg) (c, e). (c + 1, if seg < e then seg else e)) rs (c0 :: int, e0 :: int) = (n, m) \<and>
    m \<le> e0 \<and> (\<forall>s \<in> snd ` set rs. m \<le> s)"
proof (induction rs arbitrary: c0 e0)
  case (Cons r rs)
  obtain i s where r: "r = (i, s)" by (cases r)
  from Cons [of "c0 + 1" "min s e0"] r show ?case by (auto simp: min_def split: if_splits)
qed simp

lemma earliest_settled:
  assumes "settled h cj j queueID q cfgs off (sreg st)"
  shows "\<exists>n m. (\<forall>k. earliest h cj j queueID st k = k (n, m) st) \<and> (\<forall>x. needed cfgs off (sdq st) x \<longrightarrow> m \<le> x)"
proof -
  obtain i where i: "resolveQueue h cj (sreg st) queueID = Ret (sreg st, q, i)"
    "GetConsumerConfigsByQueueID h j (consumersView (sreg st)) i = Ret (cfgs, cfgs \<noteq> [])" by (rule knownE [OF assms])
  have "\<exists>n e p v. GetEarlierOffsetByQueueID h cj j (sreg st) queueID = Ret (sreg st, n, e, p, v) \<and>
      (\<forall>c \<in> snd ` set cfgs. e \<le> Segment (off c))"
  proof (cases "cfgs = []")
    case True
    then show ?thesis using i by (simp add: GetEarlierOffsetByQueueID_def)
  next
    case False
    from earliest_spec [OF assms this] show ?thesis by (fastforce simp: before_def place_def)
  qed
  then obtain n e p v where e: "GetEarlierOffsetByQueueID h cj j (sreg st) queueID = Ret (sreg st, n, e, p, v)"
    "\<forall>c \<in> snd ` set cfgs. e \<le> Segment (off c)" by blast
  obtain n' m where m: "fold (\<lambda>(_, seg) (c, e). (c + 1, if seg < e then seg else e)) (consumersInReading (sdq st)) (0 :: int, e) = (n', m)"
    "m \<le> e" "\<forall>s \<in> snd ` set (consumersInReading (sdq st)). m \<le> s" using min_readers by blast
  have "earliest h cj j queueID st k = k (if n' > n then n' else n, m) st" for k
    using e(1) m(1) by (simp add: earliest_def orPanic_def moduleEarlierOffset_def)
  moreover have "needed cfgs off (sdq st) x \<Longrightarrow> m \<le> x" for x
    using e(2) m(2,3) by (force simp: needed_def)
  ultimately show ?thesis by blast
qed

lemma latest_settled:
  assumes "settled h cj j queueID q cfgs off (sreg st)"
  shows "\<exists>n m. \<forall>k. latest h cj j queueID st k = k (n, m) st"
proof -
  obtain i where i: "resolveQueue h cj (sreg st) queueID = Ret (sreg st, q, i)"
    "GetConsumerConfigsByQueueID h j (consumersView (sreg st)) i = Ret (cfgs, cfgs \<noteq> [])" by (rule knownE [OF assms])
  have "\<exists>n e p. GetLatestOffsetByQueueID h cj j (sreg st) queueID = Ret (sreg st, n, e, p)"
    using i latest_spec [OF assms] by (cases "cfgs = []") (auto simp: GetLatestOffsetByQueueID_def)
  then obtain n e p where e: "GetLatestOffsetByQueueID h cj j (sreg st) queueID = Ret (sreg st, n, e, p)" by blast
  obtain n' m where m: "fold (\<lambda>(_, seg) (c, e). (c + 1, if seg > e then seg else e)) (consumersInReading (sdq st)) (0 :: int, e) = (n', m)"
    by fastforce
  have "latest h cj j queueID st k = k (if n' > n then n' else n, m) st" for k
    using e m by (simp add: latest_def orPanic_def moduleLatestOffset_def)
  then show ?thesis by blast
qed


lemma setkv_views [simp]:
  "configs (reg\<lparr>qkv := s\<rparr>) = configs reg" "cfgAt (reg\<lparr>qkv := s\<rparr>) = cfgAt reg"
  by (simp_all add: cfgAt_def fun_eq_iff)

lemma newCfg_other: "addCfgToCache (fst (newCfg reg cfg)) p \<noteq> reg"
proof
  assume "addCfgToCache (fst (newCfg reg cfg)) p = reg"
  from arg_cong [OF this, of "\<lambda>r. length (cfgHeap r)"] show False by (simp add: newCfg_def)
qed

context kv_store
begin

text \<open>A write to another bucket changes neither the queue nor its consumers nor their offsets.\<close>

lemma settled_kept:
  assumes "settled h cj j queueID q cfgs off reg" "usable (qkv reg)" "bucket_ok b"
    and "bucket_ok ConsumerBucket" "bucket_ok ConsumerOffsetBucket" "bucket_ok queueConfigBucket"
    and "b \<noteq> ConsumerBucket" "b \<noteq> ConsumerOffsetBucket" "b \<noteq> queueConfigBucket"
  shows "settled h cj j queueID q cfgs off (reg\<lparr>qkv := fst (hAddValue h (qkv reg) b k v)\<rparr>)"
proof -
  let ?reg = "reg\<lparr>qkv := fst (hAddValue h (qkv reg) b k v)\<rparr>"
  have get: "hGetValue h (qkv ?reg) b' k' = hGetValue h (qkv reg) b' k'"
    if "b' \<in> {ConsumerBucket, ConsumerOffsetBucket, queueConfigBucket}" for b' k'
    using get_add_other [OF assms(2,3), of b' k k' v] that assms(4-9) by auto
  obtain i where i: "resolveQueue h cj reg queueID = Ret (reg, q, i)" "consumersOf h j (consumersView reg) i cfgs"
    using assms(1) by (auto simp: known_def)
  have "resolveQueue h cj ?reg queueID = Ret (?reg, q, i)"
  proof -
    obtain reg1 found where g: "GetConfigByUUID h cj reg queueID = Ret (reg1, found)" using i(1)
      by (auto simp: resolveQueue_def go_bind_Ret_iff)
    with i(1) have "reg1 = reg" by (auto simp: resolveQueue_def split: option.splits)
    with g have "GetConfigByUUID h cj ?reg queueID = Ret (?reg, found)"
      using get [of queueConfigBucket] newCfg_other [of reg]
      by (cases "map_of (idConfigs reg) queueID")
        (auto simp: GetConfigByUUID_def newCfg_def split: option.splits sum.splits if_splits)
    with g i(1) show ?thesis by (auto simp: resolveQueue_def GetConfigByKey_def split: option.splits)
  qed
  moreover have "consumersOf h j (consumersView ?reg) i cfgs"
    using i(2) get [of ConsumerBucket] by (simp add: consumersOf_def consumersView_def)
  ultimately show ?thesis
    using assms(1) get [of ConsumerOffsetBucket] by (auto simp: known_def loadOffset_def)
qed

end


subsection \<open>Each operation keeps what is needed\<close>

definition kept :: "remote \<Rightarrow> (int \<Rightarrow> bool) \<Rightarrow> 's site \<Rightarrow> 's site \<Rightarrow> bool" where
  "kept rm need st st' \<longleftrightarrow> zst_ok rm st' \<and> consumersInReading (sdq st') = consumersInReading (sdq st) \<and>
     UploadToS3 (scfg st') = UploadToS3 (scfg st) \<and> AlwaysDownload (scfg st') = AlwaysDownload (scfg st) \<and>
     (\<forall>x. need x \<longrightarrow> content rm st' x = content rm st x)"

lemma kept_refl: "zst_ok rm st \<Longrightarrow> kept rm need st st"
  by (simp add: kept_def)

lemma kept_trans: "kept rm need a b \<Longrightarrow> kept rm need b c \<Longrightarrow> kept rm need a c"
  by (simp add: kept_def)

lemma kept_weaken: "kept rm (\<lambda>_. True) a b \<Longrightarrow> kept rm need a b"
  by (simp add: kept_def)

lemma kept_needed:
  "kept rm need a b \<Longrightarrow> needed cfgs off (sdq b) = needed cfgs off (sdq a)"
  by (simp add: kept_def needed_def fun_eq_iff)

lemma content_cong: "fileAt st' = fileAt st \<Longrightarrow> zstAt st' = zstAt st \<Longrightarrow> content rm st' = content rm st"
  by (rule ext) (simp add: content_def split: option.split)

lemma content_other:
  "y \<noteq> x \<Longrightarrow> content rm (setDat st x f) y = content rm st y" "y \<noteq> x \<Longrightarrow> content rm (setZst st x f) y = content rm st y"
  by (simp_all add: content_def split: option.split)

lemma kept_same_files:
  "zst_ok rm st \<Longrightarrow> fileAt st' = fileAt st \<Longrightarrow> zstAt st' = zstAt st \<Longrightarrow>
    consumersInReading (sdq st') = consumersInReading (sdq st) \<Longrightarrow> UploadToS3 (scfg st') = UploadToS3 (scfg st) \<Longrightarrow>
    AlwaysDownload (scfg st') = AlwaysDownload (scfg st) \<Longrightarrow> kept rm need st st'"
  using content_cong [of st' st rm] by (simp add: kept_def zst_ok_def)

lemma mark_buckets [simp]:
  "CHR '','' \<notin> set queueCompressLastFileNum" "CHR '','' \<notin> set queueS3LastFileNum" "CHR '','' \<notin> set queueConfigBucket"
  "queueCompressLastFileNum \<noteq> ConsumerBucket" "queueCompressLastFileNum \<noteq> ConsumerOffsetBucket"
  "queueCompressLastFileNum \<noteq> queueConfigBucket" "queueS3LastFileNum \<noteq> ConsumerBucket"
  "queueS3LastFileNum \<noteq> ConsumerOffsetBucket" "queueS3LastFileNum \<noteq> queueConfigBucket"
  by (simp_all add: queueCompressLastFileNum_def queueS3LastFileNum_def queueConfigBucket_def ConsumerBucket_def
      ConsumerOffsetBucket_def)

lemma deleteLoop_kept:
  "zst_ok rm st \<Longrightarrow> x < m \<Longrightarrow> kept rm (\<lambda>y. m \<le> y) st (deleteLoop e m x st)"
proof (induction "nat (x + 1)" arbitrary: x st rule: less_induct)
  case less
  define a where "a = (if fileAt st x \<noteq> None then setDat st x None else st)"
  define b where "b = (if zstAt a x \<noteq> None then setZst a x None else a)"
  have a: "kept rm (\<lambda>y. m \<le> y) st a"
    using less.prems zst_ok_drop_dat [of rm st x] by (auto simp: a_def kept_def content_other)
  have b: "kept rm (\<lambda>y. m \<le> y) a b"
    using less.prems a zst_ok_drop_zst [of rm a x] by (auto simp: b_def kept_def content_other)
  have eq: "deleteLoop e m x st =
    (if x < 0 then st else if fileAt st x \<noteq> None \<and> unlinkErr e x then st
     else if zstAt a x \<noteq> None \<and> unlinkZErr e x then a else deleteLoop e m (x - 1) b)"
    using less.prems(2) by (subst deleteLoop.simps) (simp add: Let_def a_def b_def)
  have r: "kept rm (\<lambda>y. m \<le> y) b (deleteLoop e m (x - 1) b)" if "\<not> x < 0"
    by (rule less.hyps) (use that less.prems(2) b in \<open>auto simp: kept_def\<close>)
  show ?case
    unfolding eq using kept_refl [OF less.prems(1)] a kept_trans [OF kept_trans [OF a b] r] by simp
qed

lemma deleteFrom_kept:
  assumes "zst_ok rm st" "\<And>x. need x \<Longrightarrow> m \<le> x"
  shows "kept rm need st (deleteFrom e n m f st)"
proof -
  have "kept rm (\<lambda>y. m \<le> y) st (deleteLoop e m x st)" if "x < m" for x by (rule deleteLoop_kept [OF assms(1) that])
  then show ?thesis using kept_refl [OF assms(1)] assms(2) by (auto simp: deleteFrom_def Let_def kept_def)
qed

lemma deleteLoop_frame: "sreg (deleteLoop e m x st) = sreg st"
proof (induction "nat (x + 1)" arbitrary: x st rule: less_induct)
  case less
  then show ?case by (subst deleteLoop.simps) (simp add: Let_def)
qed

lemma deleteFrom_frame: "sreg (deleteFrom e n m f st) = sreg st"
  by (simp add: deleteFrom_def Let_def deleteLoop_frame)


text \<open>A step that is safe keeps what is needed and can be followed by the next one.\<close>

definition safely ::
  "('s \<Rightarrow> bool) \<Rightarrow> ('s queues \<Rightarrow> bool) \<Rightarrow> remote \<Rightarrow> (int \<Rightarrow> bool) \<Rightarrow> 's site \<Rightarrow> 's site \<Rightarrow> bool" where
  "safely u stl rm need st st' \<longleftrightarrow> u (qkv (sreg st')) \<and> stl (sreg st') \<and> kept rm need st st'"

lemma safely_trans: "safely u stl rm need a b \<Longrightarrow> safely u stl rm need b c \<Longrightarrow> safely u stl rm need a c"
  using kept_trans by (auto simp: safely_def)

lemma safelyD:
  "safely u stl rm need st st' \<Longrightarrow> u (qkv (sreg st'))" "safely u stl rm need st st' \<Longrightarrow> stl (sreg st')"
  "safely u stl rm need st st' \<Longrightarrow> zst_ok rm st'" "safely u stl rm need st st' \<Longrightarrow> kept rm need st st'"
  by (simp_all add: safely_def kept_def)

lemma safely_weaken: "safely u stl rm (\<lambda>_. True) a b \<Longrightarrow> safely u stl rm need a b"
  by (auto simp: safely_def kept_weaken)

lemma andThen_safely:
  assumes "safely u stl rm need st (fst r)" "\<And>st'. safely u stl rm need st st' \<Longrightarrow> safely u stl rm need st (fst (f st'))"
  shows "safely u stl rm need st (fst (andThen r f))"
  using assms by (cases r) (auto simp: andThen_def split: option.splits)

context kv_store
begin

lemma addMark_safely:
  assumes "settled h cj j queueID q cfgs off (sreg st)" "usable (qkv (sreg st))" "zst_ok rm st" "bucket_ok b"
    and "bucket_ok ConsumerBucket" "bucket_ok ConsumerOffsetBucket" "bucket_ok queueConfigBucket"
    and "b \<noteq> ConsumerBucket" "b \<noteq> ConsumerOffsetBucket" "b \<noteq> queueConfigBucket"
  shows "safely usable (settled h cj j queueID q cfgs off) rm need st (fst (addMark h b queueID x st))"
proof -
  have "kept rm need st (fst (addMark h b queueID x st))"
    by (rule kept_same_files [OF assms(3)]) (simp_all add: addMark_def fun_eq_iff split: prod.split)
  then show ?thesis
    using settled_kept [OF assms(1,2,4-10), of "str_bytes queueID" "Int64ToBytes x"]
      usable_add [OF assms(2), of b "str_bytes queueID" "Int64ToBytes x"]
    by (simp add: safely_def addMark_def split: prod.splits)
qed

lemma deleteUnused_safely:
  assumes "settled h cj j queueID q cfgs off (sreg st)" "usable (qkv (sreg st))" "zst_ok rm st"
  shows "safely usable (settled h cj j queueID q cfgs off) rm (needed cfgs off (sdq st)) st
    (fst (deleteUnusedFiles h cj j e queueID fileNum st))"
proof -
  obtain n m where m: "\<And>k. earliest h cj j queueID st k = k (n, m) st" "\<And>x. needed cfgs off (sdq st) x \<Longrightarrow> m \<le> x"
    using earliest_settled [OF assms(1)] by blast
  obtain n' m' where l: "\<And>k. latest h cj j queueID st k = k (n', m') st"
    using latest_settled [OF assms(1)] by blast
  have "kept rm (needed cfgs off (sdq st)) st (deleteFrom e n m f st)" for f by (rule deleteFrom_kept [OF assms(3) m(2)])
  then have "safely usable (settled h cj j queueID q cfgs off) rm (needed cfgs off (sdq st)) st (deleteFrom e n m f st)" for f
    using deleteFrom_frame [of e n m f st] assms(1,2) by (simp add: safely_def)
  moreover have "safely usable (settled h cj j queueID q cfgs off) rm (needed cfgs off (sdq st)) st st"
    using assms by (simp add: safely_def kept_refl)
  ultimately show ?thesis
    by (simp add: deleteUnusedFiles_def m(1) l Let_def orPanic_def split: go.split)
qed

lemma compressLoop_safely:
  assumes "codec_ok rm e" "bucket_ok queueCompressLastFileNum"
    and "bucket_ok ConsumerBucket" "bucket_ok ConsumerOffsetBucket" "bucket_ok queueConfigBucket"
  shows "settled h cj j queueID q cfgs off (sreg st) \<Longrightarrow> usable (qkv (sreg st)) \<Longrightarrow> zst_ok rm st \<Longrightarrow>
    safely usable (settled h cj j queueID q cfgs off) rm (\<lambda>_. True) st (fst (compressLoop h cj j e queueID end x st))"
proof (induction "nat (end + 1 - x)" arbitrary: x st rule: less_induct)
  case less
  let ?S = "safely usable (settled h cj j queueID q cfgs off) rm (\<lambda>_. True)"
  have refl: "?S st st" using less.prems by (simp add: safely_def kept_refl)
  show ?case
  proof (cases "x > end \<or> fileAt st x = None \<or> fileAt st (x + 1) = None")
    case True
    then show ?thesis using refl by (subst compressLoop.simps) auto
  next
    case False
    have rec: "?S st (fst (compressLoop h cj j e queueID end (x + 1) st'))" if "?S st st'" for st'
    proof -
      have "?S st' (fst (compressLoop h cj j e queueID end (x + 1) st'))"
        by (rule less.hyps) (use False safelyD [OF that] in auto)
      then show ?thesis by (rule safely_trans [OF that])
    qed
    obtain st1 err where c: "(if zstAt st x = None then CompressFile e x st else (st, None)) = (st1, err)" by fastforce
    have s1: "?S st st1" "err = None \<Longrightarrow> zstAt st1 x \<noteq> None"
      using c refl compress_one [OF assms(1) less.prems(3)] less.prems
      by (auto simp: safely_def kept_def split: if_splits)
    have remove: "?S st (fst (removeOriginal h cj j e queueID x st2 (compressLoop h cj j e queueID end (x + 1))))"
      if s2: "?S st st2" "zstAt st2 x \<noteq> None" for st2
    proof -
      obtain n m where "\<And>k. earliest h cj j queueID st2 k = k (n, m) st2" using earliest_settled [OF safelyD(2) [OF s2(1)]] by blast
      moreover obtain n' m' where "\<And>k. latest h cj j queueID st2 k = k (n', m') st2" using latest_settled [OF safelyD(2) [OF s2(1)]] by blast
      moreover have "?S st2 (setDat st2 x None)"
        using safelyD [OF s2(1)] zst_ok_drop_dat content_drop_dat [OF safelyD(3) [OF s2(1)] s2(2)] by (auto simp: safely_def kept_def)
      ultimately show ?thesis using rec s2(1) safely_trans [OF s2(1)]
        by (simp add: removeOriginal_def Let_def)
    qed
    have mark: "?S st (fst (addMark h queueCompressLastFileNum queueID x st1))" "zstAt (fst (addMark h queueCompressLastFileNum queueID x st1)) x = zstAt st1 x"
      using safely_trans [OF s1(1) addMark_safely [OF safelyD(2,1,3) [OF s1(1)] assms(2-5)]]
      by (simp_all add: addMark_def split: prod.split)
    obtain st2 err2 where a: "addMark h queueCompressLastFileNum queueID x st1 = (st2, err2)" by fastforce
    have eq: "compressLoop h cj j e queueID end x st =
      (case err of Some _ \<Rightarrow> compressLoop h cj j e queueID end (x + 1) st1
       | None \<Rightarrow> (case err2 of Some m \<Rightarrow> (st2, Some m)
           | None \<Rightarrow> if \<not> DeleteAfterCompress (DiskCompression (scfg st2)) then compressLoop h cj j e queueID end (x + 1) st2
               else removeOriginal h cj j e queueID x st2 (compressLoop h cj j e queueID end (x + 1))))"
      using False c a by (subst compressLoop.simps) (auto simp: andThen_def split: option.split)
    show ?thesis
    proof (cases err)
      case None
      with s1(2) mark a have "?S st st2" "zstAt st2 x \<noteq> None" by simp_all
      then show ?thesis unfolding eq using None rec remove by (auto split: option.split)
    qed (use rec [OF s1(1)] eq in simp)
  qed
qed

end


lemma SmartGet_kept:
  assumes "zst_ok rm st" "\<not> UploadToS3 (scfg st)" "\<not> AlwaysDownload (scfg st)"
    and "SmartGetFileName (scfg st) rm (sdq st) x = Ret (q', b)"
  shows "kept rm (\<lambda>_. True) st (st\<lparr>sdq := q'\<rparr>)"
proof (cases "q' = sdq st")
  case True
  then show ?thesis using kept_refl [OF assms(1)] by simp
next
  case False
  from assms(2-4) False obtain z where z: "fileAt st x = None" "zstAt st x = Some z" "decompressOrPanic rm (sdq st) x = Ret q'"
    by (auto simp: SmartGetFileName_def Let_def FileExists_def fileAt_def zstAt_def go_bind_Ret_iff split: if_splits)
  obtain f where f: "decode rm z = (f, None)" using assms(1) z(2) by (metis zst_ok_def prod.collapse)
  have "st\<lparr>sdq := q'\<rparr> = setDat st x (Some f)"
    using z f by (simp add: decompressOrPanic_def DecompressFile_def FileExists_def fileAt_def zstAt_def setDat_def)
  moreover have "kept rm (\<lambda>_. True) st (setDat st x (Some f))"
    using assms(1) z f by (auto simp: kept_def zst_ok_def content_def split: option.split)
  ultimately show ?thesis by simp
qed

lemma prepareLoop_kept:
  "zst_ok rm st \<Longrightarrow> \<not> UploadToS3 (scfg st) \<Longrightarrow> \<not> AlwaysDownload (scfg st) \<Longrightarrow>
    kept rm (\<lambda>_. True) st (fst (prepareLoop rm fileNum i st)) \<and> sreg (fst (prepareLoop rm fileNum i st)) = sreg st"
proof (induction rm fileNum i st rule: prepareLoop.induct)
  case (1 rm fileNum i st)
  show ?case
  proof (cases "i > NumOfFilesDecompressAhead (DiskCompression (scfg st))")
    case True
    then show ?thesis using kept_refl [OF 1(2)] by (subst (1 2) prepareLoop.simps) simp
  next
    case False
    show ?thesis
    proof (cases "SmartGetFileName (scfg st) rm (sdq st) (fileNum + i)")
      case (Panic m)
      then show ?thesis using kept_refl [OF 1(2)] False by (subst (1 2) prepareLoop.simps) simp
    next
      case (Ret r)
      obtain q ex nx where r: "r = (q, ex, nx)" by (cases r)
      let ?st = "st\<lparr>sdq := q\<rparr>"
      have k: "kept rm (\<lambda>_. True) st ?st" by (rule SmartGet_kept [OF 1(2-4)]) (use Ret r in simp)
      show ?thesis
      proof (cases ex)
        case True
        have "kept rm (\<lambda>_. True) ?st (fst (prepareLoop rm fileNum (i + 1) ?st)) \<and> sreg (fst (prepareLoop rm fileNum (i + 1) ?st)) = sreg ?st"
          by (rule "1.IH" [OF False Ret r [symmetric] refl]) (use True k 1(3,4) in \<open>simp_all add: kept_def\<close>)
        then show ?thesis using kept_trans [OF k] False Ret r True by (subst (1 2) prepareLoop.simps) simp
      next
        case ex: False
        then show ?thesis using k False Ret r by (subst (1 2) prepareLoop.simps) simp
      qed
    qed
  qed
qed

lemma checkCapacity_frame:
  "sreg (fst (checkCapacity e st)) = sreg st" "sdq (fst (checkCapacity e st)) = sdq st"
  "scfg (fst (checkCapacity e st)) = scfg st"
  by (auto simp: checkCapacity_def Let_def split: option.split)

context kv_store
begin

lemma compressFiles_safely:
  assumes "codec_ok rm e" "bucket_ok queueCompressLastFileNum"
    and "bucket_ok ConsumerBucket" "bucket_ok ConsumerOffsetBucket" "bucket_ok queueConfigBucket"
    and "settled h cj j queueID q cfgs off (sreg st)" "usable (qkv (sreg st))" "zst_ok rm st"
  shows "safely usable (settled h cj j queueID q cfgs off) rm (\<lambda>_. True) st (fst (compressFiles h cj j e queueID fileNum st))"
proof -
  let ?S = "safely usable (settled h cj j queueID q cfgs off) rm (\<lambda>_. True)"
  define st1 where "st1 = (if IdleThreshold (DiskCompression (scfg st)) < 1
    then st\<lparr>scfg := (scfg st)\<lparr>DiskCompression := (DiskCompression (scfg st))\<lparr>IdleThreshold := 5\<rparr>\<rparr>\<rparr> else st)"
  have "kept rm (\<lambda>_. True) st st1" by (rule kept_same_files [OF assms(8)]) (auto simp: st1_def)
  then have s1: "?S st st1" using assms(6,7) by (simp add: safely_def st1_def)
  obtain n m where m: "\<And>k. earliest h cj j queueID st1 k = k (n, m) st1" using earliest_settled [OF safelyD(2) [OF s1]] by blast
  have "?S st (fst (compressLoop h cj j e queueID end x st1))" for "end" x
    by (rule safely_trans [OF s1 compressLoop_safely [OF assms(1-5) safelyD(2,1,3) [OF s1]]])
  moreover have "?S st st" using assms(6-8) by (simp add: safely_def kept_refl)
  ultimately show ?thesis using s1 m
    by (simp add: compressFiles_def Let_def st1_def [symmetric] orPanic_def split: go.split)
qed

lemma uploadLoop_safely:
  assumes "bucket_ok queueS3LastFileNum" "bucket_ok ConsumerBucket" "bucket_ok ConsumerOffsetBucket" "bucket_ok queueConfigBucket"
  shows "settled h cj j queueID q cfgs off (sreg st) \<Longrightarrow> usable (qkv (sreg st)) \<Longrightarrow> zst_ok rm st \<Longrightarrow>
    safely usable (settled h cj j queueID q cfgs off) rm (\<lambda>_. True) st (fst (uploadLoop h e queueID fileNum i st))"
proof (induction "nat (fileNum + 1 - i)" arbitrary: i st rule: less_induct)
  case less
  let ?S = "safely usable (settled h cj j queueID q cfgs off) rm (\<lambda>_. True)"
  have refl: "?S st st" using less.prems by (simp add: safely_def kept_refl)
  let ?up = "st\<lparr>s3 := (s3 st)(i := if Enabled (CompressSegment (DiskCompression (scfg st))) then zstAt st i else fileAt st i)\<rparr>"
  have "kept rm (\<lambda>_. True) st ?up" by (rule kept_same_files [OF less.prems(3)]) auto
  then have up: "?S st ?up" using less.prems by (simp add: safely_def)
  have mark: "?S st (fst (addMark h queueS3LastFileNum queueID i ?up))"
    by (rule safely_trans [OF up addMark_safely [OF safelyD(2,1,3) [OF up] assms]]) simp_all
  show ?case
  proof (cases "i > fileNum")
    case True
    then show ?thesis using refl by (subst uploadLoop.simps) simp
  next
    case False
    have rec: "?S st (fst (uploadLoop h e queueID fileNum (i + 1) st'))" if "?S st st'" for st'
      by (rule safely_trans [OF that less.hyps]) (use False safelyD [OF that] in auto)
    show ?thesis using False rec [OF refl] andThen_safely [OF mark rec]
      by (subst uploadLoop.simps) simp
  qed
qed

lemma uploadToS3_safely:
  assumes "bucket_ok queueS3LastFileNum" "bucket_ok ConsumerBucket" "bucket_ok ConsumerOffsetBucket" "bucket_ok queueConfigBucket"
    and "settled h cj j queueID q cfgs off (sreg st)" "usable (qkv (sreg st))" "zst_ok rm st"
  shows "safely usable (settled h cj j queueID q cfgs off) rm (\<lambda>_. True) st (fst (uploadToS3 h cj j e queueID fileNum st))"
proof -
  let ?S = "safely usable (settled h cj j queueID q cfgs off) rm (\<lambda>_. True)"
  obtain n m where m: "\<And>k. earliest h cj j queueID st k = k (n, m) st" using earliest_settled [OF assms(5)] by blast
  have "?S st st" using assms(5-7) by (simp add: safely_def kept_refl)
  moreover have "?S st (fst (uploadLoop h e queueID fileNum i st))" for i by (rule uploadLoop_safely [OF assms])
  ultimately show ?thesis using m by (simp add: uploadToS3_def orPanic_def split: go.split)
qed

lemma onWriteComplete_safely:
  assumes "codec_ok rm e" "bucket_ok queueCompressLastFileNum" "bucket_ok queueS3LastFileNum"
    and "bucket_ok ConsumerBucket" "bucket_ok ConsumerOffsetBucket" "bucket_ok queueConfigBucket"
    and "settled h cj j queueID q cfgs off (sreg st)" "usable (qkv (sreg st))" "zst_ok rm st"
  shows "safely usable (settled h cj j queueID q cfgs off) rm (needed cfgs off (sdq st)) st (onWriteComplete h cj j e queueID fileNum st)"
proof -
  let ?S = "safely usable (settled h cj j queueID q cfgs off) rm (needed cfgs off (sdq st))"
  have c: "?S st (fst (compressFiles h cj j e queueID fileNum st))"
    by (rule safely_weaken [OF compressFiles_safely [OF assms(1,2,4-9)]])
  have d: "?S st (fst (deleteUnusedFiles h cj j e queueID fileNum (fst (checkCapacity e st'))))" if s: "?S st st'" for st'
  proof -
    let ?st = "fst (checkCapacity e st')"
    have "kept rm (needed cfgs off (sdq st)) st' ?st"
      by (rule kept_same_files [OF safelyD(3) [OF s]]) (auto simp: fileAt_def zstAt_def checkCapacity_frame)
    then have s1: "?S st ?st" using kept_trans [OF safelyD(4) [OF s]] safelyD(1,2) [OF s] by (simp add: safely_def checkCapacity_frame)
    have "needed cfgs off (sdq ?st) = needed cfgs off (sdq st)" using kept_needed [OF safelyD(4) [OF s1]] .
    then show ?thesis using safely_trans [OF s1] deleteUnused_safely [OF safelyD(2,1,3) [OF s1], of e fileNum] by simp
  qed
  have u: "?S st (fst (uploadToS3 h cj j e queueID fileNum st'))" if s: "?S st st'" for st'
    by (rule safely_trans [OF s safely_weaken [OF uploadToS3_safely [OF assms(3-6) safelyD(2,1,3) [OF s]]]])
  show ?thesis unfolding onWriteComplete_def
    by (rule andThen_safely [OF c]) (rule andThen_safely [OF u d])
qed

lemma onReadComplete_safely:
  assumes "settled h cj j queueID q cfgs off (sreg st)" "usable (qkv (sreg st))" "zst_ok rm st"
    and "\<not> UploadToS3 (scfg st)" "\<not> AlwaysDownload (scfg st)"
  shows "safely usable (settled h cj j queueID q cfgs off) rm (needed cfgs off (sdq st)) st
    (fst (onReadComplete h cj j rm e queueID fileNum lastFilePrepared st))"
proof -
  let ?S = "safely usable (settled h cj j queueID q cfgs off) rm (needed cfgs off (sdq st))"
  have refl: "?S st st" using assms(1-3) by (simp add: safely_def kept_refl)
  obtain st1 r where p: "(if PrepareFilesToRead (scfg st) then prepareFilesToRead rm fileNum st else (st, Ret 0)) = (st1, r)" by fastforce
  have "kept rm (\<lambda>_. True) st st1 \<and> sreg st1 = sreg st"
    using p prepareLoop_kept [OF assms(3-5), of fileNum 1] kept_refl [OF assms(3)]
    by (auto simp: prepareFilesToRead_def split: if_splits)
  then have s1: "?S st st1" using assms(1,2) by (auto simp: safely_def kept_weaken)
  have "needed cfgs off (sdq st1) = needed cfgs off (sdq st)" using kept_needed [OF safelyD(4) [OF s1]] .
  then have d: "?S st (fst (deleteUnusedFiles h cj j e queueID fileNum st1))"
    using safely_trans [OF s1] deleteUnused_safely [OF safelyD(2,1,3) [OF s1], of e fileNum] by simp
  show ?thesis using refl s1 d p
    by (auto simp: onReadComplete_def split: go.split prod.split option.split)
qed

end


subsection \<open>The event loop\<close>

datatype siteEvent = Wrote int siteEnv | HasRead int int siteEnv

fun handleEvent :: "'s KVHandler \<Rightarrow> cfgJson \<Rightarrow> json \<Rightarrow> remote \<Rightarrow> string \<Rightarrow> siteEvent \<Rightarrow> 's site \<Rightarrow> 's site" where
  "handleEvent h cj j rm queueID (Wrote fileNum e) st = onWriteComplete h cj j e queueID fileNum st"
| "handleEvent h cj j rm queueID (HasRead fileNum lastFilePrepared e) st =
     fst (onReadComplete h cj j rm e queueID fileNum lastFilePrepared st)"

fun eventEnv :: "siteEvent \<Rightarrow> siteEnv" where
  "eventEnv (Wrote _ e) = e"
| "eventEnv (HasRead _ _ e) = e"

context kv_store
begin

lemma events_safely:
  assumes "bucket_ok queueCompressLastFileNum" "bucket_ok queueS3LastFileNum"
    and "bucket_ok ConsumerBucket" "bucket_ok ConsumerOffsetBucket" "bucket_ok queueConfigBucket"
  shows "settled h cj j queueID q cfgs off (sreg st) \<Longrightarrow> usable (qkv (sreg st)) \<Longrightarrow> zst_ok rm st \<Longrightarrow>
    \<not> UploadToS3 (scfg st) \<Longrightarrow> \<not> AlwaysDownload (scfg st) \<Longrightarrow> \<forall>ev \<in> set evs. codec_ok rm (eventEnv ev) \<Longrightarrow>
    safely usable (settled h cj j queueID q cfgs off) rm (needed cfgs off (sdq st)) st (fold (handleEvent h cj j rm queueID) evs st)"
proof (induction evs arbitrary: st)
  case Nil
  then show ?case by (simp add: safely_def kept_refl)
next
  case (Cons ev evs)
  let ?st = "handleEvent h cj j rm queueID ev st"
  have s: "safely usable (settled h cj j queueID q cfgs off) rm (needed cfgs off (sdq st)) st ?st"
  proof (cases ev)
    case (Wrote n e)
    then show ?thesis using onWriteComplete_safely [OF _ assms Cons.prems(1-3), of e] Cons.prems(6) by simp
  next
    case (HasRead n l e)
    then show ?thesis using onReadComplete_safely [OF Cons.prems(1-5)] by simp
  qed
  have c: "\<not> UploadToS3 (scfg ?st)" "\<not> AlwaysDownload (scfg ?st)" using safelyD(4) [OF s] Cons.prems(4,5) by (simp_all add: kept_def)
  have "needed cfgs off (sdq ?st) = needed cfgs off (sdq st)" by (rule kept_needed [OF safelyD(4) [OF s]])
  then show ?case using safely_trans [OF s] Cons.IH [OF safelyD(2,1,3) [OF s] c] Cons.prems(6) by simp
qed

end

text \<open>C15: with no S3 in play (neither \<open>UploadToS3\<close> nor \<open>AlwaysDownload\<close> is set), retention never takes a segment
  away from a consumer. The queue's consumers are known to the registry, the store behind it is open, and what
  the compressor writes decompresses to what it read. Over any sequence of events, with compression,
  capacity checks, removals that fail and panics that are caught, the content of every segment at or after the
  position of some consumer, be it a committed offset or an instance that is reading, can be read afterwards as
  before: from its file, or from the compressed copy.\<close>

theorem retention_keeps_unread:
  assumes "known simple_kv cj j (sreg st) queueID (sreg st) q cfgs off" "\<not> closed (qkv (sreg st))" "zst_ok rm st"
    and "\<not> UploadToS3 (scfg st)" "\<not> AlwaysDownload (scfg st)" "\<forall>ev \<in> set evs. codec_ok rm (eventEnv ev)"
    and "(\<exists>c \<in> snd ` set cfgs. Segment (off c) \<le> x) \<or> (\<exists>s \<in> snd ` set (consumersInReading (sdq st)). s \<le> x)"
  shows "content rm (fold (handleEvent simple_kv cj j rm queueID) evs st) x = content rm st x"
proof -
  have n: "needed cfgs off (sdq st) x" using assms(7) by (simp add: needed_def)
  from skv.events_safely [OF mark_buckets(1,2) buckets_ok(2,1) mark_buckets(3) assms(1-6)]
  have "kept rm (needed cfgs off (sdq st)) st (fold (handleEvent simple_kv cj j rm queueID) evs st)" by (rule safelyD(4))
  then show ?thesis using n by (simp add: kept_def)
qed

text \<open>A queue of two segments of which the first is compressed, with one consumer.\<close>

definition quietEnv :: siteEnv where
  "quietEnv = \<lparr>compressor = (\<lambda>_ f. Inr f), unlinkErr = (\<lambda>_. False), unlinkZErr = (\<lambda>_. False), s3Upload = (\<lambda>_. False),
     checkAllowed = True, dirSize = Some 1, diskFree = 1\<rparr>"

definition plainRemote :: remote where
  "plainRemote = \<lparr>decode = (\<lambda>b. (b, None)), lastUpload = - 1, download = (\<lambda>_. Inl ''no such bucket'')\<rparr>"

definition plainCfg :: DiskQueueConfig where
  "plainCfg = \<lparr>MinMsgSize = 1, MaxMsgSize = 100, MaxBytesPerFile = 100, SyncEveryRecords = 1000, WriteChanBuffer = 0,
     AutoSkipCorruptFile = True, UploadToS3 = False, AlwaysDownload = False, PrepareFilesToRead = True,
     CompressAndCleanupDuringInit = False, SkipZeroConsumers = False,
     DiskCompression = \<lparr>DeleteAfterCompress = True, CompressMessage = \<lparr>Enabled = False, Level = 3\<rparr>,
       CompressSegment = \<lparr>Enabled = True, Level = 11\<rparr>, IdleThreshold = 3, NumOfFilesDecompressAhead = 3\<rparr>,
     Retention = \<lparr>MaxNumOfLocalFiles = 5\<rparr>, S3Configured = False, S3Async = False, MaxUsedBytes = 0, WarningFreeBytes = 0,
     ReservedFreeBytes = 0\<rparr>"

definition twoSegments :: "SimpleKV site" where
  "twoSegments = \<lparr>scfg = plainCfg, sreg = oneConsumer,
     sdq = (blankQueue emptyDisk)\<lparr>files := emptyDisk\<lparr>dDat := [0 \<mapsto> [1], 1 \<mapsto> [2]], dZst := [0 \<mapsto> [1]]\<rparr>\<rparr>,
     s3 = Map.empty, preventRead = False\<rparr>"

theorem retention_keeps_unread_witness:
  "content plainRemote (fold (handleEvent simple_kv (cfgJson0 diskCfg) (oneJson sample_consumer) plainRemote ''i'')
     [Wrote 9 quietEnv, HasRead 1 0 quietEnv] twoSegments) 0 = Some [1]"
proof -
  have "zst_ok plainRemote twoSegments"
    by (auto simp: zst_ok_def zstAt_def fileAt_def twoSegments_def plainRemote_def emptyDisk_def split: if_splits)
  moreover have "\<forall>ev \<in> set [Wrote 9 quietEnv, HasRead 1 0 quietEnv]. codec_ok plainRemote (eventEnv ev)"
    by (simp add: codec_ok_def quietEnv_def plainRemote_def)
  ultimately show ?thesis
    using retention_keeps_unread [of "cfgJson0 diskCfg" "oneJson sample_consumer" twoSegments "''i''" 0
        "[(Key sample_consumer, sample_consumer)]" "\<lambda>_. NewOffset 0 0" plainRemote "[Wrote 9 quietEnv, HasRead 1 0 quietEnv]" 0] one_consumer
    by (simp add: twoSegments_def plainCfg_def oneConsumer_def NewOffset_def content_def fileAt_def emptyDisk_def)
qed


subsection \<open>The upload mark\<close>

lemma resolveQueue_kv: "resolveQueue h cj reg queueID = Ret (reg', q, i) \<Longrightarrow> qkv reg' = qkv reg"
  by (auto simp: resolveQueue_def go_bind_Ret_iff newCfg_def split: option.splits elim!: GetConfigByUUID_cases)

lemma GetEarlier_kv: "GetEarlierOffsetByQueueID h cj j reg queueID = Ret (reg', r) \<Longrightarrow> qkv reg' = qkv reg"
  by (auto simp: GetEarlierOffsetByQueueID_def go_bind_Ret_iff split: if_splits dest!: resolveQueue_kv)

lemma moduleEarlier_kv: "moduleEarlierOffset h cj j reg (Some q) queueID = Ret (reg', r) \<Longrightarrow> qkv reg' = qkv reg"
  by (auto simp: moduleEarlierOffset_def go_bind_Ret_iff case_prod_beta Let_def dest!: GetEarlier_kv)

lemma earliest_cases:
  "(\<exists>m. \<forall>k. earliest h cj j queueID st k = (st, Some m)) \<or>
   (\<exists>r reg. qkv reg = qkv (sreg st) \<and> (\<forall>k. earliest h cj j queueID st k = k r (st\<lparr>sreg := reg\<rparr>)))"
proof (cases "moduleEarlierOffset h cj j (sreg st) (Some (sdq st)) queueID")
  case (Ret r)
  obtain reg n m where r: "r = (reg, n, m)" by (cases r)
  have "qkv reg = qkv (sreg st)" using Ret r moduleEarlier_kv by blast
  then show ?thesis using Ret r by (auto simp: earliest_def orPanic_def)
qed (simp add: earliest_def orPanic_def)

lemma addMark_frame [simp]: "s3 (fst (addMark h b queueID x st)) = s3 st"
  by (simp add: addMark_def split: prod.split)

lemma uploadLoop_below: "i0 < i \<Longrightarrow> s3 (fst (uploadLoop h e queueID fileNum i st)) i0 = s3 st i0"
proof (induction "nat (fileNum + 1 - i)" arbitrary: i st rule: less_induct)
  case less
  have rec: "s3 (fst (uploadLoop h e queueID fileNum (i + 1) st')) i0 = s3 st' i0" if "\<not> fileNum < i" for st'
    by (rule less.hyps) (use that less.prems in auto)
  show ?case
  proof (cases "fileNum < i")
    case False
    let ?up = "st\<lparr>s3 := (s3 st)(i := if Enabled (CompressSegment (DiskCompression (scfg st))) then zstAt st i else fileAt st i)\<rparr>"
    have "s3 (fst (andThen (addMark h queueS3LastFileNum queueID i ?up) (uploadLoop h e queueID fileNum (i + 1)))) i0 = s3 st i0"
      using rec [OF False] less.prems addMark_frame [of h queueS3LastFileNum queueID i ?up]
      by (cases "addMark h queueS3LastFileNum queueID i ?up") (auto simp: andThen_def split: option.split)
    then show ?thesis using rec [OF False] by (subst uploadLoop.simps) simp
  qed (subst uploadLoop.simps, simp)
qed

context kv_store
begin

lemma mark_written:
  "usable (qkv (sreg st)) \<Longrightarrow> fits_int64 x \<Longrightarrow> lastFileNum h (qkv (sreg (fst (addMark h b queueID x st)))) b queueID = Ret x \<and>
    usable (qkv (sreg (fst (addMark h b queueID x st))))"
  using get_add_same [of "qkv (sreg st)" b "str_bytes queueID" "Int64ToBytes x"] usable_add [of "qkv (sreg st)" b "str_bytes queueID" "Int64ToBytes x"]
    BytesToInt64_Int64ToBytes [of x] length_Int64ToBytes [of x]
  by (auto simp: addMark_def lastFileNum_def split: prod.splits)

lemma uploadLoop_mark:
  "usable (qkv (sreg st)) \<Longrightarrow> lastFileNum h (qkv (sreg st)) queueS3LastFileNum queueID = Ret m \<Longrightarrow> - 1 \<le> m \<Longrightarrow> m < i \<Longrightarrow> fits_int64 fileNum \<Longrightarrow>
    \<exists>m' \<ge> m. lastFileNum h (qkv (sreg (fst (uploadLoop h e queueID fileNum i st)))) queueS3LastFileNum queueID = Ret m' \<and>
      usable (qkv (sreg (fst (uploadLoop h e queueID fileNum i st))))"
proof (induction "nat (fileNum + 1 - i)" arbitrary: i m st rule: less_induct)
  case less
  show ?case
  proof (cases "fileNum < i")
    case True
    then show ?thesis using less.prems by (subst (1 2) uploadLoop.simps) auto
  next
    case False
    let ?up = "st\<lparr>s3 := (s3 st)(i := if Enabled (CompressSegment (DiskCompression (scfg st))) then zstAt st i else fileAt st i)\<rparr>"
    obtain st1 err where a: "addMark h queueS3LastFileNum queueID i ?up = (st1, err)" by fastforce
    have "fits_int64 i" using less.prems False by (auto simp: fits_int64_def)
    then have s1: "lastFileNum h (qkv (sreg st1)) queueS3LastFileNum queueID = Ret i" "usable (qkv (sreg st1))"
      using mark_written [of ?up i queueS3LastFileNum queueID] a less.prems(1) by simp_all
    have skip: "\<exists>m' \<ge> m. lastFileNum h (qkv (sreg (fst (uploadLoop h e queueID fileNum (i + 1) st)))) queueS3LastFileNum queueID = Ret m' \<and>
      usable (qkv (sreg (fst (uploadLoop h e queueID fileNum (i + 1) st))))"
      by (rule less.hyps) (use False less.prems in auto)
    have "\<exists>m' \<ge> i. lastFileNum h (qkv (sreg (fst (uploadLoop h e queueID fileNum (i + 1) st1)))) queueS3LastFileNum queueID = Ret m' \<and>
      usable (qkv (sreg (fst (uploadLoop h e queueID fileNum (i + 1) st1))))"
      by (rule less.hyps) (use False less.prems s1 in auto)
    then have marked: "\<exists>m' \<ge> m. lastFileNum h (qkv (sreg (fst (andThen (st1, err) (uploadLoop h e queueID fileNum (i + 1)))))) queueS3LastFileNum queueID = Ret m' \<and>
      usable (qkv (sreg (fst (andThen (st1, err) (uploadLoop h e queueID fileNum (i + 1))))))"
      using s1 less.prems(4) by (cases err) (auto simp: andThen_def intro: order_trans)
    show ?thesis using False skip marked a by (subst (1 2) uploadLoop.simps) simp
  qed
qed

lemma upload_below_mark:
  assumes "usable (qkv (sreg st))" "GetLastS3UploadFileNum h (qkv (sreg st)) queueID = Ret m" "- 1 \<le> m" "i \<le> m" "fits_int64 fileNum"
  shows "s3 (fst (uploadToS3 h cj j e queueID fileNum st)) i = s3 st i \<and>
    (\<exists>m' \<ge> m. GetLastS3UploadFileNum h (qkv (sreg (fst (uploadToS3 h cj j e queueID fileNum st)))) queueID = Ret m') \<and>
    usable (qkv (sreg (fst (uploadToS3 h cj j e queueID fileNum st))))"
proof -
  consider err where "\<And>k. earliest h cj j queueID st k = (st, Some err)"
    | n x reg where "qkv reg = qkv (sreg st)" "\<And>k. earliest h cj j queueID st k = k (n, x) (st\<lparr>sreg := reg\<rparr>)"
    using earliest_cases [of h cj j queueID st] by fastforce
  then show ?thesis
  proof cases
    case 1
    then show ?thesis using assms by (simp add: uploadToS3_def)
  next
    case 2
    have "s3 (fst (uploadLoop h e queueID fileNum (m + 1) (st\<lparr>sreg := reg\<rparr>))) i = s3 st i"
      by (subst uploadLoop_below) (use assms(4) in simp_all)
    moreover have "\<exists>m' \<ge> m. lastFileNum h (qkv (sreg (fst (uploadLoop h e queueID fileNum (m + 1) (st\<lparr>sreg := reg\<rparr>))))) queueS3LastFileNum queueID = Ret m' \<and>
      usable (qkv (sreg (fst (uploadLoop h e queueID fileNum (m + 1) (st\<lparr>sreg := reg\<rparr>)))))"
      by (rule uploadLoop_mark) (use assms 2(1) in \<open>simp_all add: GetLastS3UploadFileNum_def\<close>)
    ultimately show ?thesis using assms 2
      by (auto simp: uploadToS3_def GetLastS3UploadFileNum_def orPanic_def)
  qed
qed

lemma uploads_below_mark:
  "usable (qkv (sreg st)) \<Longrightarrow> GetLastS3UploadFileNum h (qkv (sreg st)) queueID = Ret m \<Longrightarrow> - 1 \<le> m \<Longrightarrow> i \<le> m \<Longrightarrow>
    \<forall>(e, n) \<in> set us. fits_int64 n \<Longrightarrow>
    s3 (fold (\<lambda>(e, n) st. fst (uploadToS3 h cj j e queueID n st)) us st) i = s3 st i"
proof (induction us arbitrary: st m)
  case (Cons u us)
  obtain e n where u: "u = (e, n)" by (cases u)
  let ?st = "fst (uploadToS3 h cj j e queueID n st)"
  have "fits_int64 n" using Cons.prems(5) u by simp
  from upload_below_mark [OF Cons.prems(1-4) this, of cj j e]
  obtain m' where m': "s3 ?st i = s3 st i" "m' \<ge> m" "GetLastS3UploadFileNum h (qkv (sreg ?st)) queueID = Ret m'" "usable (qkv (sreg ?st))" by blast
  have "s3 (fold (\<lambda>(e, n) st. fst (uploadToS3 h cj j e queueID n st)) us ?st) i = s3 ?st i"
    by (rule Cons.IH [OF m'(4,3)]) (use m'(2) Cons.prems(3-5) in auto)
  then show ?case using m'(1) u by simp
qed simp

end


text \<open>A segment whose upload failed is never uploaded, and the mark says it was. When segment \<open>m + 1\<close>
  fails and segment \<open>m + 2\<close> succeeds, the mark of the last uploaded segment moves past both. Every later call
  starts behind the mark, so the object of segment \<open>m + 1\<close> stays as it was, whatever is uploaded afterwards.\<close>

theorem failed_upload_is_never_retried:
  assumes "known simple_kv cj j (sreg st) queueID (sreg st) q cfgs off" "\<not> closed (qkv (sreg st))" "walPlan (kvstore (qkv (sreg st))) = []"
    and "UploadToS3 (scfg st)" "S3Configured (scfg st)" "\<not> SkipZeroConsumers (scfg st)" "\<not> Enabled (CompressSegment (DiskCompression (scfg st)))"
    and "GetLastS3UploadFileNum simple_kv (qkv (sreg st)) queueID = Ret m" "- 1 \<le> m" "fits_int64 (m + 2)"
    and "\<not> s3Upload e (m + 1)" "s3Upload e (m + 2)" "\<forall>(e', n) \<in> set us. fits_int64 n"
  shows "\<exists>st'. uploadToS3 simple_kv cj j e queueID (m + 2) st = (st', None) \<and>
    GetLastS3UploadFileNum simple_kv (qkv (sreg st')) queueID = Ret (m + 2) \<and> s3 st' (m + 2) = fileAt st (m + 2) \<and>
    s3 (fold (\<lambda>(e, n) st. fst (uploadToS3 simple_kv cj j e queueID n st)) us st') (m + 1) = s3 st (m + 1)"
proof -
  obtain n x where ear: "\<And>k. earliest simple_kv cj j queueID st k = k (n, x) st" using earliest_settled [OF assms(1)] by blast
  let ?up = "st\<lparr>s3 := (s3 st)(m + 2 := fileAt st (m + 2))\<rparr>"
  define st' where "st' = fst (addMark simple_kv queueS3LastFileNum queueID (m + 2) ?up)"
  have mark: "addMark simple_kv queueS3LastFileNum queueID (m + 2) ?up = (st', None)"
    using rel.add_no_error [of "qkv (sreg st)"] assms(2,3) unfolding st'_def
    by (simp add: addMark_def split: prod.split) (metis snd_conv)
  have last: "GetLastS3UploadFileNum simple_kv (qkv (sreg st')) queueID = Ret (m + 2)" "\<not> closed (qkv (sreg st'))"
    using skv.mark_written [of ?up "m + 2" queueS3LastFileNum queueID] assms(2,10) by (simp_all add: st'_def GetLastS3UploadFileNum_def)
  have s3: "s3 st' = (s3 st)(m + 2 := fileAt st (m + 2))" by (simp add: st'_def)
  have l3: "uploadLoop simple_kv e queueID (m + 2) (m + 3) st' = (st', None)" by (subst uploadLoop.simps) simp
  have l2: "uploadLoop simple_kv e queueID (m + 2) (m + 2) st = (st', None)"
    using assms(7,12) mark l3 by (subst uploadLoop.simps) (simp add: andThen_def add.assoc)
  have l1: "uploadLoop simple_kv e queueID (m + 2) (m + 1) st = (st', None)"
    using assms(7,11) l2 by (subst uploadLoop.simps) (simp add: add.assoc)
  have "uploadToS3 simple_kv cj j e queueID (m + 2) st = (st', None)"
    using assms(4-6,8) ear l1 by (simp add: uploadToS3_def orPanic_def)
  moreover have "s3 (fold (\<lambda>(e, n) st. fst (uploadToS3 simple_kv cj j e queueID n st)) us st') (m + 1) = s3 st' (m + 1)"
    by (rule skv.uploads_below_mark [OF last(2,1)]) (use assms(9,13) in auto)
  ultimately show ?thesis using last(1) s3 by (intro exI [of _ st']) simp
qed

definition flakyEnv :: siteEnv where
  "flakyEnv = quietEnv\<lparr>s3Upload := (\<lambda>i. i = 1)\<rparr>"

definition uploading :: "SimpleKV site" where
  "uploading = twoSegments\<lparr>scfg := plainCfg\<lparr>UploadToS3 := True, S3Configured := True,
     DiskCompression := (DiskCompression plainCfg)\<lparr>CompressSegment := \<lparr>Enabled = False, Level = 3\<rparr>\<rparr>\<rparr>\<rparr>"

theorem failed_upload_is_never_retried_witness:
  "\<exists>st'. uploadToS3 simple_kv (cfgJson0 diskCfg) (oneJson sample_consumer) flakyEnv ''i'' 1 uploading = (st', None) \<and>
    GetLastS3UploadFileNum simple_kv (qkv (sreg st')) ''i'' = Ret 1 \<and> s3 st' 1 = Some [2] \<and>
    s3 (fst (uploadToS3 simple_kv (cfgJson0 diskCfg) (oneJson sample_consumer) (quietEnv\<lparr>s3Upload := (\<lambda>_. True)\<rparr>) ''i'' 5 st')) 0 = None"
proof -
  have "GetLastS3UploadFileNum simple_kv (qkv (sreg uploading)) ''i'' = Ret (- 1)"
    by (simp add: GetLastS3UploadFileNum_def lastFileNum_def simple_kv_def GetValue_def kvGet_def uploading_def twoSegments_def
        oneConsumer_def joinKey_inj)
  with failed_upload_is_never_retried [of "cfgJson0 diskCfg" "oneJson sample_consumer" uploading "''i''" 0
      "[(Key sample_consumer, sample_consumer)]" "\<lambda>_. NewOffset 0 0" "- 1" flakyEnv "[(quietEnv\<lparr>s3Upload := (\<lambda>_. True)\<rparr>, 5)]"] one_consumer
  show ?thesis
    by (simp add: uploading_def twoSegments_def plainCfg_def flakyEnv_def quietEnv_def fits_int64_def oneConsumer_def fileAt_def emptyDisk_def)
qed

end
