(* ===== verification/HttpBytes.thy ===== *)
theory HttpBytes
  imports Prelude
begin

unbundle bit_operations_syntax

section \<open>HTTP library: numbers and escapes\<close>

text \<open>
  \<open>lib/fasthttp/bytesconv.go\<close> and the tables of \<open>bytesconv_table_gen.go\<close>: decimal and hexadecimal
  numbers, HTML and URL escapes.

  \<^item> Bytes are 8-bit words, written with their ASCII codes. A Go \<open>int\<close> is an \<open>int\<close>; where the code can
    overflow (\<open>parseUintBuf\<close>) the wrap-around is written out with \<open>to_int64\<close>.
  \<^item> A function that appends to \<open>dst\<close> returns the extended slice.
  \<^item> A buffered reader is the list of the bytes still to come; reading past the end is \<open>io.EOF\<close>. A buffered
    writer is the list of the bytes written, and writing does not fail.
  \<^item> The tables are functions of the byte, as the generator defines them. Floating-point numbers
    (\<open>ParseUfloat\<close>) and dates are left out.
\<close>

subsection \<open>Tables\<close>

definition hex2int :: "byte \<Rightarrow> byte" where
  "hex2int i = (if i \<ge> 48 \<and> i \<le> 57 then i - 48
                else if i \<ge> 97 \<and> i \<le> 102 then i - 97 + 10
                else if i \<ge> 65 \<and> i \<le> 70 then i - 65 + 10 else 16)"

definition toLower :: "byte \<Rightarrow> byte" where
  "toLower c = (if c \<ge> 65 \<and> c \<le> 90 then c + 32 else c)"

definition toUpper :: "byte \<Rightarrow> byte" where
  "toUpper c = (if c \<ge> 97 \<and> c \<le> 122 then c - 32 else c)"

definition quotedArgShouldEscape :: "byte \<Rightarrow> bool" where
  "quotedArgShouldEscape c \<longleftrightarrow>
     \<not> ((c \<ge> 97 \<and> c \<le> 122) \<or> (c \<ge> 65 \<and> c \<le> 90) \<or> (c \<ge> 48 \<and> c \<le> 57) \<or> c \<in> {45, 95, 46, 126})"

definition quotedPathShouldEscape :: "byte \<Rightarrow> bool" where
  "quotedPathShouldEscape c \<longleftrightarrow> quotedArgShouldEscape c \<and> c \<notin> {36, 38, 43, 44, 47, 58, 59, 61, 64}"

definition upperhex :: "byte \<Rightarrow> byte" where
  "upperhex k = (if k < 10 then 48 + k else 65 + (k - 10))"

definition lowerhex :: "byte \<Rightarrow> byte" where
  "lowerhex k = (if k < 10 then 48 + k else 97 + (k - 10))"

definition lowercaseBytes :: "bytes \<Rightarrow> bytes" where
  "lowercaseBytes b = map toLower b"

subsection \<open>Decimal numbers\<close>

function appendDigits :: "int \<Rightarrow> bytes \<Rightarrow> bytes" where
  "appendDigits n buf =
     (if n \<ge> 10 then (let q = n div 10 in appendDigits q ((48 + word_of_int (n - q * 10)) # buf))
      else (48 + word_of_int n) # buf)"
  by pat_completeness auto
termination by (relation "measure (\<lambda>(n, _). nat n)") auto

declare appendDigits.simps [simp del]

definition AppendUint :: "bytes \<Rightarrow> int \<Rightarrow> bytes go" where
  "AppendUint dst n = (if n < 0 then Panic ''BUG: int must be positive'' else Ret (dst @ appendDigits n []))"

definition errEmptyInt :: string where "errEmptyInt = ''empty integer''"
definition errUnexpectedFirstChar :: string where
  "errUnexpectedFirstChar = ''unexpected first char found. Expecting 0-9''"
definition errUnexpectedTrailingChar :: string where
  "errUnexpectedTrailingChar = ''unexpected trailing char found. Expecting 0-9''"
definition errTooLongInt :: string where "errTooLongInt = ''too long int''"

fun parseUintLoop :: "bytes \<Rightarrow> int \<Rightarrow> int \<Rightarrow> int \<times> int \<times> string option" where
  "parseUintLoop [] i v = (v, i, None)"
| "parseUintLoop (c # b) i v =
     (let k = c - 48
      in if k > 9 then
           (if i = 0 then (-1, i, Some errUnexpectedFirstChar) else (v, i, None))
         else
           (let vNew = to_int64 (10 * v + uint k)
            in if vNew < v then (-1, i, Some errTooLongInt) else parseUintLoop b (i + 1) vNew))"

definition parseUintBuf :: "bytes \<Rightarrow> int \<times> int \<times> string option" where
  "parseUintBuf b = (if b = [] then (-1, 0, Some errEmptyInt) else parseUintLoop b 0 0)"

definition ParseUint :: "bytes \<Rightarrow> int \<times> string option" where
  "ParseUint buf = (let (v, n, err) = parseUintBuf buf
                    in if n \<noteq> int (length buf) then (-1, Some errUnexpectedTrailingChar) else (v, err))"

text \<open>\<open>lib/fasthttp/header.go\<close>: the length of a body.\<close>

definition parseContentLength :: "bytes \<Rightarrow> int \<times> string option" where
  "parseContentLength b =
     (let (v, n, err) = parseUintBuf b
      in case err of
           Some m \<Rightarrow> (-1, Some (''cannot parse Content-Length: '' @ m))
         | None \<Rightarrow>
             if n \<noteq> int (length b) then (-1, Some ''cannot parse Content-Length: non-numeric chars found'')
             else (v, None))"

subsection \<open>IPv4 addresses\<close>

definition AppendIPv4 :: "bytes \<Rightarrow> byte \<times> byte \<times> byte \<times> byte \<Rightarrow> bytes go" where
  "AppendIPv4 dst = (\<lambda>(a, b, c, d).
     go_bind (AppendUint dst (uint a)) (\<lambda>dst. go_bind (AppendUint (dst @ [46]) (uint b)) (\<lambda>dst.
     go_bind (AppendUint (dst @ [46]) (uint c)) (\<lambda>dst. AppendUint (dst @ [46]) (uint d)))))"

definition ipPart :: "bytes \<Rightarrow> string + byte" where
  "ipPart b = (case ParseUint b of
     (_, Some err) \<Rightarrow> Inl (''cannot parse ipStr: '' @ err)
   | (v, None) \<Rightarrow> if v > 255 then Inl ''ip part cannot exceed 255'' else Inr (word_of_int v))"

fun ipParts :: "nat \<Rightarrow> bytes \<Rightarrow> bytes \<Rightarrow> string + bytes" where
  "ipParts 0 b dst = (case ipPart b of Inl e \<Rightarrow> Inl e | Inr v \<Rightarrow> Inr (dst @ [v]))"
| "ipParts (Suc i) b dst =
     (if 46 \<notin> set b then Inl ''cannot find dot in ipStr''
      else (case ipPart (takeWhile (\<lambda>c. c \<noteq> 46) b) of
              Inl e \<Rightarrow> Inl e
            | Inr v \<Rightarrow> ipParts i (tl (dropWhile (\<lambda>c. c \<noteq> 46) b)) (dst @ [v])))"

definition ParseIPv4 :: "bytes \<Rightarrow> string + bytes" where
  "ParseIPv4 ipStr = (if ipStr = [] then Inl ''empty ip address string'' else ipParts 3 ipStr [])"

subsection \<open>Hexadecimal numbers\<close>

definition maxHexIntChars :: nat where "maxHexIntChars = 15"

definition errEOF :: string where "errEOF = ''EOF''"
definition errEmptyHexNum :: string where "errEmptyHexNum = ''empty hex number''"
definition errTooLargeHexNum :: string where "errTooLargeHexNum = ''too large hex number''"

text \<open>The reader is the bytes that can still be read and the error that comes behind them.\<close>

fun readHexLoop :: "string \<Rightarrow> bytes \<Rightarrow> nat \<Rightarrow> int \<Rightarrow> bytes \<times> (string + int)" where
  "readHexLoop err [] i n = ([], if err = errEOF \<and> i > 0 then Inr n else Inl err)"
| "readHexLoop err (c # r) i n =
     (let k = hex2int c
      in if k = 16 then (if i = 0 then (r, Inl errEmptyHexNum) else (c # r, Inr n))
         else if i \<ge> maxHexIntChars then (r, Inl errTooLargeHexNum)
         else readHexLoop err r (Suc i) (or (to_int64 (push_bit 4 n)) (uint k)))"

definition readHexInt :: "string \<Rightarrow> bytes \<Rightarrow> bytes \<times> (string + int)" where
  "readHexInt err r = readHexLoop err r 0 0"

text \<open>The loop ends when nothing is left of the number, which is not negative.\<close>

function hexDigits :: "int \<Rightarrow> bytes \<Rightarrow> bytes" where
  "hexDigits n buf =
     (let buf = lowerhex (word_of_int (and n 15)) # buf; n = drop_bit 4 n
      in if n \<le> 0 then buf else hexDigits n buf)"
  by pat_completeness auto
termination
proof (relation "measure (\<lambda>(n, _). nat n)")
  fix n m :: int and buf buf' :: bytes
  assume "m = drop_bit 4 n" "\<not> m \<le> 0"
  then show "((m, buf'), (n, buf)) \<in> measure (\<lambda>(n, _). nat n)"
    by (auto simp: drop_bit_eq_div)
qed simp

declare hexDigits.simps [simp del]

definition writeHexInt :: "bytes \<Rightarrow> int \<Rightarrow> bytes go" where
  "writeHexInt w n = (if n < 0 then Panic ''BUG: int must be positive'' else Ret (w @ hexDigits n []))"

subsection \<open>Escapes\<close>

definition htmlEscape :: "byte \<Rightarrow> bytes" where
  "htmlEscape c = (if c = 38 then str_bytes ''&amp;'' else if c = 60 then str_bytes ''&lt;''
     else if c = 62 then str_bytes ''&gt;'' else if c = 34 then str_bytes ''&#34;''
     else if c = 39 then str_bytes ''&#39;'' else [])"

text \<open>\<open>pending\<close> is \<open>s[prev:i]\<close>, which has not been copied yet.\<close>

fun htmlLoop :: "bytes \<Rightarrow> bytes \<Rightarrow> bytes \<Rightarrow> bytes" where
  "htmlLoop [] pending dst = dst @ pending"
| "htmlLoop (c # s) pending dst =
     (let sub = htmlEscape c
      in if sub \<noteq> [] then htmlLoop s [] (dst @ pending @ sub) else htmlLoop s (pending @ [c]) dst)"

definition AppendHTMLEscape :: "bytes \<Rightarrow> bytes \<Rightarrow> bytes" where
  "AppendHTMLEscape dst s = htmlLoop s [] dst"

definition quoteByte :: "byte \<Rightarrow> bytes" where
  "quoteByte c = [37, upperhex (drop_bit 4 c), upperhex (and c 15)]"

fun AppendQuotedArg :: "bytes \<Rightarrow> bytes \<Rightarrow> bytes" where
  "AppendQuotedArg dst [] = dst"
| "AppendQuotedArg dst (c # src) =
     AppendQuotedArg (if c = 32 then dst @ [43] else if quotedArgShouldEscape c then dst @ quoteByte c else dst @ [c]) src"

fun quotePathLoop :: "bytes \<Rightarrow> bytes \<Rightarrow> bytes" where
  "quotePathLoop dst [] = dst"
| "quotePathLoop dst (c # src) =
     quotePathLoop (if quotedPathShouldEscape c then dst @ quoteByte c else dst @ [c]) src"

definition appendQuotedPath :: "bytes \<Rightarrow> bytes \<Rightarrow> bytes" where
  "appendQuotedPath dst src = (if src = [42] then dst @ [42] else quotePathLoop dst src)"

text \<open>The slow path of the two decoders, from the first byte that may be encoded; \<open>plusIsSpace\<close> tells whether a
  plus sign stands for a space.\<close>

fun decodeSlow :: "bool \<Rightarrow> bytes \<Rightarrow> bytes \<Rightarrow> bytes" where
  "decodeSlow plusIsSpace dst [] = dst"
| "decodeSlow plusIsSpace dst (c # src) =
     (if c = 37 then
        (case src of
           a # b # src' \<Rightarrow>
             (let x2 = hex2int b; x1 = hex2int a
              in if x1 = 16 \<or> x2 = 16 then decodeSlow plusIsSpace (dst @ [37]) src
                 else decodeSlow plusIsSpace (dst @ [or (push_bit 4 x1) x2]) src')
         | _ \<Rightarrow> dst @ c # src)
      else if plusIsSpace \<and> c = 43 then decodeSlow plusIsSpace (dst @ [32]) src
      else decodeSlow plusIsSpace (dst @ [c]) src)"

definition decodeArgAppend :: "bytes \<Rightarrow> bytes \<Rightarrow> bytes" where
  "decodeArgAppend dst src =
     (if 37 \<notin> set src \<and> 43 \<notin> set src then dst @ src
      else (let plain = takeWhile (\<lambda>c. c \<noteq> 37 \<and> c \<noteq> 43) src
            in decodeSlow True (dst @ plain) (drop (length plain) src)))"

definition decodeArgAppendNoPlus :: "bytes \<Rightarrow> bytes \<Rightarrow> bytes" where
  "decodeArgAppendNoPlus dst src =
     (if 37 \<notin> set src then dst @ src
      else (let plain = takeWhile (\<lambda>c. c \<noteq> 37) src
            in decodeSlow False (dst @ plain) (drop (length plain) src)))"


subsection \<open>Decimal numbers are read as they are written\<close>

definition digits :: "bytes \<Rightarrow> bool" where
  "digits b \<longleftrightarrow> (\<forall>c \<in> set b. c - 48 \<le> 9)"

text \<open>The number a text of digits denotes, and from an accumulator.\<close>

definition decFrom :: "int \<Rightarrow> bytes \<Rightarrow> int" where
  "decFrom v b = foldl (\<lambda>v c. 10 * v + uint (c - 48)) v b"

definition decVal :: "bytes \<Rightarrow> int" where
  "decVal b = decFrom 0 b"

lemma decFrom_simps [simp]:
  "decFrom v [] = v" "decFrom v (c # b) = decFrom (10 * v + uint (c - 48)) b"
  "decFrom v (a @ b) = decFrom (decFrom v a) b"
  by (simp_all add: decFrom_def)

lemma digits_simps [simp]:
  "digits []" "digits (c # b) \<longleftrightarrow> c - 48 \<le> 9 \<and> digits b" "digits (a @ b) \<longleftrightarrow> digits a \<and> digits b"
  by (auto simp: digits_def)

lemma decFrom_grows: "0 \<le> v \<Longrightarrow> v \<le> decFrom v b"
proof (induction b arbitrary: v)
  case (Cons c b)
  have "v \<le> 10 * v + uint (c - 48)" using Cons.prems by (simp add: add_increasing2)
  also have "\<dots> \<le> decFrom (10 * v + uint (c - 48)) b" using Cons.prems by (intro Cons.IH) simp
  finally show ?case by simp
qed simp

lemma to_int64_small: "0 \<le> x \<Longrightarrow> x < 2 ^ 63 \<Longrightarrow> to_int64 x = x"
  by (rule to_int64_id) (simp add: fits_int64_def)

lemma parseUintLoop_digits:
  assumes "digits b" "0 \<le> v" "decFrom v b < 2 ^ 63"
  shows "parseUintLoop b i v = (decFrom v b, i + int (length b), None)"
  using assms
proof (induction b arbitrary: v i)
  case (Cons c b)
  let ?v = "10 * v + uint (c - 48)"
  have v: "v \<le> ?v" "0 \<le> ?v" using Cons.prems(2) by (simp_all add: add_increasing2)
  have "?v < 2 ^ 63" using decFrom_grows [of ?v b] v Cons.prems(3) by simp
  then have "to_int64 ?v = ?v" using v by (intro to_int64_small) auto
  with Cons.IH [of ?v "i + 1"] Cons.prems v show ?case by (simp add: Let_def not_less)
qed simp

lemma parseUintBuf_digits:
  "digits b \<Longrightarrow> b \<noteq> [] \<Longrightarrow> decVal b < 2 ^ 63 \<Longrightarrow> parseUintBuf b = (decVal b, int (length b), None)"
  by (simp add: parseUintBuf_def parseUintLoop_digits decVal_def)

lemma digit_byte:
  fixes d :: int
  assumes "0 \<le> d" "d < 10"
  shows "48 + word_of_int d - 48 = (word_of_int d :: byte)" "uint (word_of_int d :: byte) = d"
    "(word_of_int d :: byte) \<le> 9"
  using assms by (simp_all add: uint_word_of_int word_le_def)

lemma appendDigits_value:
  "0 \<le> n \<Longrightarrow> \<exists>ds. appendDigits n buf = ds @ buf \<and> ds \<noteq> [] \<and> digits ds \<and> decVal ds = n \<and>
     (\<forall>k. n < 10 ^ Suc k \<longrightarrow> length ds \<le> Suc k)"
proof (induction n buf rule: appendDigits.induct)
  case (1 n buf)
  show ?case
  proof (cases "n \<ge> 10")
    case True
    define d where "d = n - n div 10 * 10"
    have d: "0 \<le> d" "d < 10" "n div 10 * 10 + d = n" by (simp_all add: d_def minus_div_mult_eq_mod)
    have "0 \<le> n div 10" using True by (simp add: pos_imp_zdiv_nonneg_iff)
    from "1.IH" [OF True refl this] obtain ds where
      ds: "appendDigits (n div 10) ((48 + word_of_int d) # buf) = ds @ (48 + word_of_int d) # buf"
        "ds \<noteq> []" "digits ds" "decVal ds = n div 10" "\<forall>k. n div 10 < 10 ^ Suc k \<longrightarrow> length ds \<le> Suc k"
      unfolding d_def by blast
    have "length (ds @ [48 + word_of_int d]) \<le> Suc k" if k: "n < 10 ^ Suc k" for k
    proof (cases k)
      case (Suc j)
      then have "n div 10 < 10 ^ Suc j" using k by simp
      with ds(5) Suc show ?thesis by auto
    qed (use True k in simp)
    moreover have "appendDigits n buf = (ds @ [48 + word_of_int d]) @ buf"
      using ds(1) True unfolding d_def by (simp only: appendDigits.simps [of n buf] Let_def if_True append_assoc append_Cons append_Nil)
    ultimately show ?thesis using ds(3,4) digit_byte [OF d(1,2)] d(3)
      by (intro exI [of _ "ds @ [48 + word_of_int d]"]) (auto simp: decVal_def)
  next
    case False
    with "1.prems" digit_byte [of n] show ?thesis
      by (intro exI [of _ "[48 + word_of_int n]"]) (auto simp: appendDigits.simps [of n buf] decVal_def)
  qed
qed

text \<open>Decimal round trip. Every number an \<open>int\<close> can hold is written with at most 19 digits, which fit the
  buffer of 20, and both readers of numbers give it back.\<close>

theorem uint_roundtrip:
  assumes "0 \<le> n" "n < 2 ^ 63"
  shows "\<exists>b. AppendUint dst n = Ret (dst @ b) \<and> length b \<le> 19 \<and> ParseUint b = (n, None) \<and> parseContentLength b = (n, None)"
proof -
  obtain b where b: "appendDigits n [] = b" "b \<noteq> []" "digits b" "decVal b = n" "n < 10 ^ Suc 18 \<longrightarrow> length b \<le> Suc 18"
    using appendDigits_value [OF assms(1), of "[]"] by (metis append_Nil2)
  then have "parseUintBuf b = (n, int (length b), None)" using parseUintBuf_digits [of b] assms(2) by simp
  with b assms show ?thesis by (simp add: AppendUint_def ParseUint_def parseContentLength_def)
qed

text \<open>Numbers that do not fit. A text of digits is read exactly if its value fits an \<open>int\<close>; but the test for
  overflow compares the wrapped value with the one before only, so longer numbers are not all refused:
  21000000000000000000 is accepted as a body length, with another value.\<close>

theorem uint_overflow_accepted:
  "(\<forall>b. digits b \<longrightarrow> b \<noteq> [] \<longrightarrow> decVal b < 2 ^ 63 \<longrightarrow> parseContentLength b = (decVal b, None)) \<and>
   (\<exists>b. digits b \<and> decVal b = 21000000000000000000 \<and> parseContentLength b = (2553255926290448384, None))"
proof
  show "\<forall>b. digits b \<longrightarrow> b \<noteq> [] \<longrightarrow> decVal b < 2 ^ 63 \<longrightarrow> parseContentLength b = (decVal b, None)"
    using parseUintBuf_digits by (auto simp: parseContentLength_def)
  let ?b = "str_bytes ''21000000000000000000''"
  have "parseUintBuf ?b = (2553255926290448384, 20, None)"
    by (simp add: parseUintBuf_def str_bytes_def byte_of_char_def to_int64_def Let_def)
  then have "digits ?b \<and> decVal ?b = 21000000000000000000 \<and> parseContentLength ?b = (2553255926290448384, None)"
    by (simp add: parseContentLength_def) (simp add: decVal_def str_bytes_def byte_of_char_def)
  then show "\<exists>b. digits b \<and> decVal b = 21000000000000000000 \<and> parseContentLength b = (2553255926290448384, None)" ..
qed

theorem uint_overflow_accepted_witness: "parseContentLength (str_bytes ''17'') = (17, None)"
proof -
  have "digits (str_bytes ''17'')" "decVal (str_bytes ''17'') = 17"
    by (simp_all add: decVal_def str_bytes_def byte_of_char_def)
  with uint_overflow_accepted [THEN conjunct1] show ?thesis by fastforce
qed


subsection \<open>Hexadecimal numbers are read as they are written\<close>

definition hexFrom :: "int \<Rightarrow> bytes \<Rightarrow> int" where
  "hexFrom v b = foldl (\<lambda>v c. 16 * v + uint (hex2int c)) v b"

definition hexes :: "bytes \<Rightarrow> bool" where
  "hexes b \<longleftrightarrow> (\<forall>c \<in> set b. hex2int c \<noteq> 16)"

lemma hexFrom_simps [simp]:
  "hexFrom v [] = v" "hexFrom v (c # b) = hexFrom (16 * v + uint (hex2int c)) b" "hexFrom v (a @ b) = hexFrom (hexFrom v a) b"
  by (simp_all add: hexFrom_def)

lemma hexes_simps [simp]: "hexes []" "hexes (c # b) \<longleftrightarrow> hex2int c \<noteq> 16 \<and> hexes b" "hexes (a @ b) \<longleftrightarrow> hexes a \<and> hexes b"
  by (auto simp: hexes_def)

lemma nibble_cases:
  fixes k :: byte
  assumes "k < 16"
  obtains "k = 0" | "k = 1" | "k = 2" | "k = 3" | "k = 4" | "k = 5" | "k = 6" | "k = 7"
    | "k = 8" | "k = 9" | "k = 10" | "k = 11" | "k = 12" | "k = 13" | "k = 14" | "k = 15"
proof -
  have "k \<in> of_nat ` {0..<16}" using assms by (intro image_eqI [of _ _ "unat k"]) (simp_all add: word_less_nat_alt)
  then show ?thesis using that by (auto simp: atLeastLessThan_nat_numeral)
qed

lemma hex_digit [simp]:
  fixes k :: byte
  assumes "k < 16"
  shows "hex2int (lowerhex k) = k" "hex2int (upperhex k) = k"
  using assms by (cases rule: nibble_cases; simp add: hex2int_def lowerhex_def upperhex_def)+

lemma hex2int_bound: "hex2int c \<noteq> 16 \<Longrightarrow> hex2int c < 16"
  unfolding hex2int_def by (auto split: if_splits; unat_arith)

lemma or_push_nibble:
  fixes n k :: int
  assumes "0 \<le> k" "k < 16"
  shows "or (push_bit 4 n) k = 16 * n + k"
proof -
  have "or (push_bit 4 n) k = concat_bit 4 k n"
    using assms by (simp add: concat_bit_def or.commute take_bit_int_eq_self)
  also have "\<dots> = 16 * n + k"
    using assms by (simp add: concat_bit_eq push_bit_eq_mult take_bit_int_eq_self)
  finally show ?thesis .
qed

lemma hex_step:
  assumes "hex2int c \<noteq> 16" "0 \<le> n" "n < 16 ^ i" "i < 15"
  shows "or (to_int64 (push_bit 4 n)) (uint (hex2int c)) = 16 * n + uint (hex2int c)"
proof -
  have k: "0 \<le> uint (hex2int c)" "uint (hex2int c) < 16" using hex2int_bound [of c] assms(1) by (simp_all add: word_less_def)
  have "(16::int) ^ i \<le> 16 ^ 14" using assms(4) by (intro power_increasing) auto
  then have "16 * n < 2 ^ 63" using assms(3) by simp
  then have "to_int64 (push_bit 4 n) = push_bit 4 n"
    using assms(2) by (intro to_int64_small) (simp_all add: push_bit_eq_mult)
  then show ?thesis using or_push_nibble [OF k, of n] by simp
qed

lemma readHexLoop_hexes:
  assumes "hexes b" "0 \<le> n" "n < 16 ^ i" "i + length b \<le> 15"
  shows "readHexLoop err (b @ r) i n = readHexLoop err r (i + length b) (hexFrom n b) \<and>
    0 \<le> hexFrom n b \<and> hexFrom n b < 16 ^ (i + length b)"
  using assms
proof (induction b arbitrary: n i)
  case (Cons c b)
  define k where "k = uint (hex2int c)"
  have k: "0 \<le> k" "k < 16" using hex2int_bound [of c] Cons.prems(1) by (simp_all add: k_def word_less_def)
  have small: "16 * n + k < 16 ^ Suc i" "0 \<le> 16 * n + k" using Cons.prems(2,3) k by simp_all
  have "or (to_int64 (push_bit 4 n)) (uint (hex2int c)) = 16 * n + k"
    unfolding k_def using Cons.prems by (intro hex_step) auto
  with Cons.IH [of "16 * n + k" "Suc i"] Cons.prems(1,4) small show ?case
    by (simp add: Let_def maxHexIntChars_def k_def)
qed simp

lemma readHexLoop_long:
  assumes "hexes b" "length b > 0"
  shows "\<exists>r'. readHexLoop err (b @ r) 15 n = (r', Inl errTooLargeHexNum)"
  using assms by (cases b) (auto simp: maxHexIntChars_def Let_def)

lemma hexDigits_value:
  "0 \<le> n \<Longrightarrow> \<exists>ds. hexDigits n buf = ds @ buf \<and> ds \<noteq> [] \<and> hexes ds \<and> hexFrom 0 ds = n \<and>
     (\<forall>k. n < 16 ^ Suc k \<longrightarrow> length ds \<le> Suc k)"
proof (induction n buf rule: hexDigits.induct)
  case (1 n buf)
  define d :: byte where "d = word_of_int (and n 15)"
  have and15: "and n 15 = n mod 16" using take_bit_eq_mask [of 4 n] by (simp add: take_bit_eq_mod mask_eq_exp_minus_1)
  then have d: "d < 16" "uint d = n mod 16" by (simp_all add: d_def word_less_def uint_word_of_int)
  have div: "drop_bit 4 n = n div 16" by (simp add: drop_bit_eq_div)
  have digit: "hex2int (lowerhex d) = d" "hex2int (lowerhex d) \<noteq> 16" using d(1) hex_digit(1) [OF d(1)] by auto
  show ?case
  proof (cases "n div 16 \<le> 0")
    case True
    then have "n < 16" "n mod 16 = n" using "1.prems" by auto
    then show ?thesis using True digit d div
      by (intro exI [of _ "[lowerhex d]"]) (simp add: hexDigits.simps [of n buf] Let_def d_def [symmetric])
  next
    case False
    from "1.IH" [OF refl refl, unfolded div, OF False] "1.prems" obtain ds where
      ds: "hexDigits (n div 16) (lowerhex d # buf) = ds @ lowerhex d # buf" "ds \<noteq> []" "hexes ds" "hexFrom 0 ds = n div 16"
        "\<forall>k. n div 16 < 16 ^ Suc k \<longrightarrow> length ds \<le> Suc k"
      by (auto simp: d_def pos_imp_zdiv_nonneg_iff)
    have "length (ds @ [lowerhex d]) \<le> Suc k" if k: "n < 16 ^ Suc k" for k
    proof (cases k)
      case 0
      then show ?thesis using False k "1.prems" by simp
    next
      case (Suc j)
      then have "n div 16 < 16 ^ Suc j" using k by simp
      with ds(5) Suc show ?thesis by auto
    qed
    with ds digit d False div show ?thesis
      by (intro exI [of _ "ds @ [lowerhex d]"]) (auto simp: hexDigits.simps [of n buf] Let_def d_def [symmetric])
  qed
qed

lemma writeHex_readHex:
  assumes "0 \<le> n" "n < 2 ^ 60" "rest = [] \<and> err = errEOF \<or> rest \<noteq> [] \<and> hex2int (hd rest) = 16"
  shows "\<exists>b. writeHexInt w n = Ret (w @ b) \<and> length b \<le> 15 \<and> readHexInt err (b @ rest) = (rest, Inr n)"
proof -
  obtain b where b: "hexDigits n [] = b" "b \<noteq> []" "hexes b" "hexFrom 0 b = n" "\<forall>k. n < 16 ^ Suc k \<longrightarrow> length b \<le> Suc k"
    using hexDigits_value [OF assms(1), of "[]"] by (metis append_Nil2)
  have len: "length b \<le> 15" using b(5) [rule_format, of 14] assms(2) by simp
  then have "readHexInt err (b @ rest) = readHexLoop err rest (length b) n"
    using readHexLoop_hexes [OF b(3), of 0 0 err rest] b(4) by (simp add: readHexInt_def)
  also have "\<dots> = (rest, Inr n)" using assms(3) b(2) by (cases rest) (auto simp: Let_def)
  finally show ?thesis using b(1) len assms(1) by (simp add: writeHexInt_def)
qed


lemma readHexLoop_shorter:
  "readHexLoop err r i n = (r', Inr m) \<Longrightarrow> 0 \<le> n \<Longrightarrow> n < 16 ^ i \<Longrightarrow> i \<le> 15 \<Longrightarrow>
     length r' \<le> length r \<and> (i = 0 \<longrightarrow> length r' < length r) \<and> 0 \<le> m \<and> m < 2 ^ 60"
proof (induction err r i n rule: readHexLoop.induct)
  case (1 err i n)
  have "(16::int) ^ i \<le> 16 ^ 15" using "1.prems"(4) by (intro power_increasing) auto
  with 1 show ?case by (auto split: if_splits)
next
  case (2 err c r i n)
  have pow: "(16::int) ^ i \<le> 16 ^ 15" using "2.prems"(4) by (intro power_increasing) auto
  show ?case
  proof (cases "hex2int c = 16")
    case True
    with 2 pow show ?thesis by (auto split: if_splits)
  next
    case False
    then have i: "i < 15" using 2 by (auto simp: maxHexIntChars_def split: if_splits)
    have "hexes [c]" using False by simp
    from readHexLoop_hexes [OF this "2.prems"(2,3), of err r] i
    have step: "readHexLoop err (c # r) i n = readHexLoop err r (Suc i) (hexFrom n [c])" "0 \<le> hexFrom n [c]"
      "hexFrom n [c] < 16 ^ Suc i" by simp_all
    have "or (to_int64 (push_bit 4 n)) (uint (hex2int c)) = hexFrom n [c]"
      using hex_step [OF False "2.prems"(2,3) i] by simp
    with "2.IH" [OF refl False] i step "2.prems" show ?thesis by (auto simp: maxHexIntChars_def)
  qed
qed

lemma readHexInt_shorter: "readHexInt err r = (r', Inr m) \<Longrightarrow> length r' < length r \<and> 0 \<le> m \<and> m < 2 ^ 60"
  using readHexLoop_shorter [of err r 0 0 r' m] by (simp add: readHexInt_def)

subsection \<open>Escapes are undone by decoding\<close>

lemma nibble_high: "drop_bit 4 (c :: byte) < 16"
proof -
  have "unat c < 256" by (rule unat_byte_less)
  then have "unat c div 16 < 16" by linarith
  then show ?thesis by (simp add: drop_bit_eq_div word_less_nat_alt unat_div)
qed

lemma nibble_low: "and (c :: byte) 15 < 16"
proof -
  have "and c 15 \<le> 15" by (rule word_and_le1)
  then show ?thesis by (rule order.strict_trans1) simp
qed

lemma nibbles_join: "or (push_bit 4 (drop_bit 4 c)) (and c 15) = (c :: byte)"
proof (rule bit_word_eqI)
  fix n assume "n < LENGTH(8)"
  then have "n \<in> {0, 1, 2, 3, 4, 5, 6, 7}" by auto
  then show "bit (or (push_bit 4 (drop_bit 4 c)) (and c 15)) n = bit c n"
    by (auto simp: bit_simps)
qed

declare decodeSlow.simps(2) [simp del]

lemma decodeSlow_append: "decodeSlow plusIsSpace dst src = dst @ decodeSlow plusIsSpace [] src"
proof (induction src arbitrary: dst rule: length_induct)
  case (1 src)
  have IH: "decodeSlow plusIsSpace (dst @ [x]) s = dst @ x # decodeSlow plusIsSpace [] s"
    "decodeSlow plusIsSpace [x] s = x # decodeSlow plusIsSpace [] s" if "length s < length src" for x s
    using 1 [rule_format, OF that, of "dst @ [x]"] 1 [rule_format, OF that, of "[x]"] by simp_all
  show ?case
  proof (cases src)
    case (Cons c s)
    with IH show ?thesis
      by (cases plusIsSpace) (auto simp: decodeSlow.simps(2) [of _ _ c s] Let_def split: list.split)
  qed simp
qed

lemma quoteByte_decode: "decodeSlow plusIsSpace [] (quoteByte c @ src) = c # decodeSlow plusIsSpace [] src"
proof -
  define h l where "h = drop_bit 4 c" "l = and c 15"
  have hl: "h < 16" "l < 16" "or (push_bit 4 h) l = c"
    using nibble_high [of c] nibble_low [of c] nibbles_join [of c] by (simp_all only: h_l_def)
  then have "h \<noteq> 16" "l \<noteq> 16" by auto
  with hl have "decodeSlow plusIsSpace [] (37 # upperhex h # upperhex l # src) = decodeSlow plusIsSpace [c] src"
    by (simp add: Let_def decodeSlow.simps)
  then show ?thesis using decodeSlow_append [of plusIsSpace "[c]" src] by (simp add: quoteByte_def h_l_def)
qed

lemma AppendQuotedArg_append: "AppendQuotedArg dst s = dst @ concat (map (\<lambda>c. AppendQuotedArg [] [c]) s)"
  by (induction s arbitrary: dst) auto

lemma quotePathLoop_append: "quotePathLoop dst s = dst @ concat (map (\<lambda>c. quotePathLoop [] [c]) s)"
  by (induction s arbitrary: dst) auto

lemma decodeSlow_plain: "c \<noteq> 37 \<Longrightarrow> \<not> (plusIsSpace \<and> c = 43) \<Longrightarrow> decodeSlow plusIsSpace [] (c # s) = c # decodeSlow plusIsSpace [] s"
  using decodeSlow_append [of plusIsSpace "[c]" s] by (auto simp: decodeSlow.simps)

lemma escaped_bytes: "quotedArgShouldEscape 37" "quotedArgShouldEscape 43" "quotedPathShouldEscape 37"
  by (simp_all add: quotedArgShouldEscape_def quotedPathShouldEscape_def)

lemma quote_arg_decode: "decodeSlow True [] (AppendQuotedArg [] s @ r) = s @ decodeSlow True [] r"
proof (induction s)
  case (Cons c s)
  have "decodeSlow True [] (AppendQuotedArg [] [c] @ t) = c # decodeSlow True [] t" for t
    using quoteByte_decode [of True c t] decodeSlow_append [of True "[32]" t] decodeSlow_plain [of c True t] escaped_bytes
    by (auto simp: decodeSlow.simps(2) [of True "[]" 43])
  then show ?case using Cons AppendQuotedArg_append [of "[]" s] AppendQuotedArg_append [of "[]" "c # s"] by simp
qed simp

lemma quote_path_decode: "decodeSlow False [] (quotePathLoop [] s @ r) = s @ decodeSlow False [] r"
proof (induction s)
  case (Cons c s)
  have "decodeSlow False [] (quotePathLoop [] [c] @ t) = c # decodeSlow False [] t" for t
    using quoteByte_decode [of False c t] decodeSlow_plain [of c False t] escaped_bytes by auto
  then show ?case using Cons quotePathLoop_append [of "[]" s] quotePathLoop_append [of "[]" "c # s"] by simp
qed simp

text \<open>The fast paths of the decoders agree with the slow one.\<close>

lemma decodeSlow_prefix:
  assumes "\<forall>c \<in> set p. c \<noteq> 37 \<and> \<not> (plusIsSpace \<and> c = 43)"
  shows "decodeSlow plusIsSpace [] (p @ s) = p @ decodeSlow plusIsSpace [] s"
  using assms by (induction p) (auto simp: decodeSlow_plain)

lemma decodeArgAppend_slow: "decodeArgAppend dst src = dst @ decodeSlow True [] src"
proof (cases "37 \<notin> set src \<and> 43 \<notin> set src")
  case True
  then have "\<forall>c \<in> set src. c \<noteq> 37 \<and> \<not> (True \<and> c = 43)" by auto
  from decodeSlow_prefix [OF this, of "[]"] True show ?thesis by (simp add: decodeArgAppend_def)
next
  case False
  let ?p = "takeWhile (\<lambda>c. c \<noteq> 37 \<and> c \<noteq> 43) src"
  have "\<forall>c \<in> set ?p. c \<noteq> 37 \<and> \<not> (True \<and> c = 43)" by (auto dest: set_takeWhileD)
  from decodeSlow_prefix [OF this, of "drop (length ?p) src"]
  have "decodeSlow True [] src = ?p @ decodeSlow True [] (drop (length ?p) src)"
    by (simp add: dropWhile_eq_drop [symmetric])
  with False decodeSlow_append [of True "dst @ ?p"] show ?thesis by (auto simp: decodeArgAppend_def Let_def)
qed

lemma decodeArgAppendNoPlus_slow: "decodeArgAppendNoPlus dst src = dst @ decodeSlow False [] src"
proof (cases "37 \<notin> set src")
  case True
  then have "\<forall>c \<in> set src. c \<noteq> 37 \<and> \<not> (False \<and> c = 43)" by auto
  from decodeSlow_prefix [OF this, of "[]"] True show ?thesis by (simp add: decodeArgAppendNoPlus_def)
next
  case False
  let ?p = "takeWhile (\<lambda>c. c \<noteq> 37) src"
  have "\<forall>c \<in> set ?p. c \<noteq> 37 \<and> \<not> (False \<and> c = 43)" by (auto dest: set_takeWhileD)
  from decodeSlow_prefix [OF this, of "drop (length ?p) src"]
  have "decodeSlow False [] src = ?p @ decodeSlow False [] (drop (length ?p) src)"
    by (simp add: dropWhile_eq_drop [symmetric])
  with False decodeSlow_append [of False "dst @ ?p"] show ?thesis by (auto simp: decodeArgAppendNoPlus_def Let_def)
qed

end
