(* ===== verification/HttpArgs.thy ===== *)
theory HttpArgs
  imports HttpBytes
begin

section \<open>HTTP library: query arguments\<close>

text \<open>
  \<open>lib/fasthttp/args.go\<close>: a list of arguments that is parsed from a query string, searched, changed and printed
  as a query string again. Headers and cookies of the library use the same list.

  \<^item> \<open>argsKV\<close> is an argument; \<open>noValue\<close> marks a key without an equals sign. \<open>Args\<close> has the list and the
    buffer of the last text. The pool of \<open>Args\<close> objects is left out, and so is the reuse of the capacity of
    slices: a reused element is overwritten in full (\<open>scanArg_overwrites\<close>).
  \<^item> The string and the \<open>[]byte\<close> variant of a method are one definition. A nil result is \<open>None\<close>.
\<close>

record argsKV =
  akey :: bytes
  avalue :: bytes
  noValue :: bool

record Args =
  args :: "argsKV list"
  abuf :: bytes

subsection \<open>Lists of arguments\<close>

definition allocArg :: "argsKV list \<Rightarrow> argsKV list" where
  "allocArg h = h @ [\<lparr>akey = [], avalue = [], noValue = False\<rparr>]"

definition releaseArg :: "argsKV list \<Rightarrow> argsKV list" where
  "releaseArg h = take (length h - 1) h"

definition appendArg :: "argsKV list \<Rightarrow> bytes \<Rightarrow> bytes \<Rightarrow> bool \<Rightarrow> argsKV list" where
  "appendArg h key val nov =
     (allocArg h)[length h := \<lparr>akey = key, avalue = (if nov then [] else val), noValue = nov\<rparr>]"

fun setArgLoop :: "argsKV list \<Rightarrow> nat \<Rightarrow> nat \<Rightarrow> bytes \<Rightarrow> bytes \<Rightarrow> bool \<Rightarrow> argsKV list" where
  "setArgLoop h i 0 key val nov = appendArg h key val nov"
| "setArgLoop h i (Suc left) key val nov =
     (if akey (h ! i) = key
      then h[i := (h ! i)\<lparr>avalue := (if nov then [] else val), noValue := nov\<rparr>]
      else setArgLoop h (Suc i) left key val nov)"

definition setArg :: "argsKV list \<Rightarrow> bytes \<Rightarrow> bytes \<Rightarrow> bool \<Rightarrow> argsKV list" where
  "setArg h key val nov = setArgLoop h 0 (length h) key val nov"

text \<open>Removing moves the later arguments one place down and looks at the same index again.\<close>

function delLoop :: "bytes \<Rightarrow> argsKV list \<Rightarrow> nat \<Rightarrow> argsKV list" where
  "delLoop key h i =
     (if i < length h then
        (if akey (h ! i) = key then delLoop key (take i h @ drop (Suc i) h) i else delLoop key h (Suc i))
      else h)"
  by pat_completeness auto
termination by (relation "measure (\<lambda>(_, h, i). length h - i)") auto

declare delLoop.simps [simp del]

definition delAllArgs :: "argsKV list \<Rightarrow> bytes \<Rightarrow> argsKV list" where
  "delAllArgs h key = delLoop key h 0"


fun peekArg :: "argsKV list \<Rightarrow> bytes \<Rightarrow> bytes option" where
  "peekArg [] k = None"
| "peekArg (kv # h) k = (if akey kv = k then Some (avalue kv) else peekArg h k)"

definition visitArgs :: "argsKV list \<Rightarrow> (bytes \<times> bytes) list" where
  "visitArgs h = map (\<lambda>kv. (akey kv, avalue kv)) h"

definition copyArgs :: "argsKV list \<Rightarrow> argsKV list" where
  "copyArgs src = map (\<lambda>kv. kv\<lparr>avalue := (if noValue kv then [] else avalue kv)\<rparr>) src"

subsection \<open>Parsing\<close>

text \<open>One argument: \<open>seg\<close> is the part of the text that belongs to the key or to the value so far, a further
  equals sign included.\<close>

definition finishArg :: "bytes \<Rightarrow> bool \<Rightarrow> argsKV \<Rightarrow> argsKV" where
  "finishArg seg isKey kv =
     (if isKey then kv\<lparr>akey := decodeArgAppend [] seg, avalue := [], noValue := True\<rparr>
      else kv\<lparr>avalue := decodeArgAppend [] seg\<rparr>)"

fun scanArg :: "bytes \<Rightarrow> bytes \<Rightarrow> bool \<Rightarrow> argsKV \<Rightarrow> argsKV \<times> bytes" where
  "scanArg [] seg isKey kv = (finishArg seg isKey kv, [])"
| "scanArg (c # b) seg isKey kv =
     (if c = 61 \<and> isKey then scanArg b [] False (kv\<lparr>akey := decodeArgAppend [] seg\<rparr>)
      else if c = 38 then (finishArg seg isKey kv, b)
      else scanArg b (seg @ [c]) isKey kv)"

definition nextArg :: "bytes \<Rightarrow> argsKV \<Rightarrow> (argsKV \<times> bytes) option" where
  "nextArg b kv = (if b = [] then None else Some (scanArg b [] True (kv\<lparr>noValue := False\<rparr>)))"

lemma scanArg_rest: "length (snd (scanArg b seg isKey kv)) \<le> length b - 1"
  by (induction b seg isKey kv rule: scanArg.induct) auto

lemma nextArg_shorter: "nextArg b kv = Some (kv', r) \<Longrightarrow> length r < length b"
  using scanArg_rest [of b "[]" True "kv\<lparr>noValue := False\<rparr>"] by (cases b) (auto simp: nextArg_def split: if_splits)

text \<open>\<open>h\<close> ends with the element the next argument is read into.\<close>

function parseLoop :: "bytes \<Rightarrow> argsKV list \<Rightarrow> argsKV list" where
  "parseLoop b h =
     (case nextArg b (last h) of
        None \<Rightarrow> h
      | Some (kv, b') \<Rightarrow>
          let h = butlast h @ [kv]
          in parseLoop b' (if length (akey kv) > 0 \<or> length (avalue kv) > 0 then allocArg h else h))"
  by pat_completeness auto
termination by (relation "measure (\<lambda>(b, _). length b)") (auto dest: nextArg_shorter)

declare parseLoop.simps [simp del]

definition ParseBytes :: "Args \<Rightarrow> bytes \<Rightarrow> Args" where
  "ParseBytes a b = a\<lparr>args := releaseArg (parseLoop b (allocArg []))\<rparr>"

definition argsParse :: "Args \<Rightarrow> bytes \<Rightarrow> Args" where
  "argsParse a s = ParseBytes (a\<lparr>abuf := s\<rparr>) s"

subsection \<open>Printing\<close>

fun argsAppendLoop :: "bytes \<Rightarrow> argsKV list \<Rightarrow> bytes" where
  "argsAppendLoop dst [] = dst"
| "argsAppendLoop dst (kv # rest) =
     (let dst = AppendQuotedArg dst (akey kv);
          dst = (if \<not> noValue kv
                 then (let dst = dst @ [61]
                       in if length (avalue kv) > 0 then AppendQuotedArg dst (avalue kv) else dst)
                 else dst);
          dst = (if rest \<noteq> [] then dst @ [38] else dst)
      in argsAppendLoop dst rest)"

definition argsAppendBytes :: "Args \<Rightarrow> bytes \<Rightarrow> bytes" where
  "argsAppendBytes a dst = argsAppendLoop dst (args a)"

definition argsQueryString :: "Args \<Rightarrow> Args \<times> bytes" where
  "argsQueryString a = (let b = argsAppendBytes a [] in (a\<lparr>abuf := b\<rparr>, b))"

subsection \<open>The methods of \<open>Args\<close>\<close>

definition argsReset :: "Args \<Rightarrow> Args" where
  "argsReset a = a\<lparr>args := []\<rparr>"

definition argsCopyTo :: "Args \<Rightarrow> Args \<Rightarrow> Args" where
  "argsCopyTo a dst = (argsReset dst)\<lparr>args := copyArgs (args a)\<rparr>"

definition argsDel :: "Args \<Rightarrow> bytes \<Rightarrow> Args" where
  "argsDel a key = a\<lparr>args := delAllArgs (args a) key\<rparr>"

definition argsAdd :: "Args \<Rightarrow> bytes \<Rightarrow> bytes \<Rightarrow> Args" where
  "argsAdd a key val = a\<lparr>args := appendArg (args a) key val False\<rparr>"

definition AddNoValue :: "Args \<Rightarrow> bytes \<Rightarrow> Args" where
  "AddNoValue a key = a\<lparr>args := appendArg (args a) key [] True\<rparr>"

definition argsSet :: "Args \<Rightarrow> bytes \<Rightarrow> bytes \<Rightarrow> Args" where
  "argsSet a key val = a\<lparr>args := setArg (args a) key val False\<rparr>"

definition SetNoValue :: "Args \<Rightarrow> bytes \<Rightarrow> Args" where
  "SetNoValue a key = a\<lparr>args := setArg (args a) key [] True\<rparr>"

definition argsPeek :: "Args \<Rightarrow> bytes \<Rightarrow> bytes option" where
  "argsPeek a key = peekArg (args a) key"

definition PeekMulti :: "Args \<Rightarrow> bytes \<Rightarrow> bytes list" where
  "PeekMulti a key = map snd (filter (\<lambda>(k, v). k = key) (visitArgs (args a)))"


definition GetUint :: "Args \<Rightarrow> bytes \<Rightarrow> int \<times> string option" where
  "GetUint a key =
     (case argsPeek a key of
        None \<Rightarrow> (-1, Some ''no Args value for the given key'')
      | Some val \<Rightarrow> if val = [] then (-1, Some ''no Args value for the given key'') else ParseUint val)"

definition SetUint :: "Args \<Rightarrow> bytes \<Rightarrow> int \<Rightarrow> Args go" where
  "SetUint a key val = go_bind (AppendUint [] val) (\<lambda>b. Ret (argsSet a key b))"

definition GetUintOrZero :: "Args \<Rightarrow> bytes \<Rightarrow> int" where
  "GetUintOrZero a key = (let (n, err) = GetUint a key in if err \<noteq> None then 0 else n)"

definition GetBool :: "Args \<Rightarrow> bytes \<Rightarrow> bool" where
  "GetBool a key \<longleftrightarrow>
     (case argsPeek a key of None \<Rightarrow> [] | Some v \<Rightarrow> v) \<in>
       set (map str_bytes [''1'', ''t'', ''T'', ''true'', ''TRUE'', ''True'', ''y'', ''yes'', ''Y'', ''YES'', ''Yes''])"

subsection \<open>Searching and changing\<close>

lemma appendArg_eq: "appendArg h key val nov = h @ [\<lparr>akey = key, avalue = (if nov then [] else val), noValue = nov\<rparr>]"
  by (simp add: appendArg_def allocArg_def)

text \<open>The loop of \<open>delAllArgs\<close> is a filter.\<close>

lemma delLoop_filter: "i \<le> length h \<Longrightarrow> delLoop key h i = take i h @ filter (\<lambda>kv. akey kv \<noteq> key) (drop i h)"
proof (induction key h i rule: delLoop.induct)
  case (1 key h i)
  show ?case
  proof (cases "i < length h")
    case True
    then have "drop i h = h ! i # drop (Suc i) h" by (simp add: Cons_nth_drop_Suc)
    with 1 True show ?thesis by (auto simp: delLoop.simps [of key h i] take_Suc_conv_app_nth)
  qed (use 1 in \<open>simp add: delLoop.simps [of key h "length h"]\<close>)
qed

lemma delAllArgs_eq: "delAllArgs h key = filter (\<lambda>kv. akey kv \<noteq> key) h"
  by (simp add: delAllArgs_def delLoop_filter)

lemma setArgLoop_Cons:
  "i + left = length h \<Longrightarrow> setArgLoop (kv # h) (Suc i) left key val nov = kv # setArgLoop h i left key val nov"
  by (induction left arbitrary: i) (auto simp: appendArg_eq)

lemma setArg_simps [simp]:
  "setArg [] key val nov = [\<lparr>akey = key, avalue = (if nov then [] else val), noValue = nov\<rparr>]"
  "setArg (kv # h) key val nov =
     (if akey kv = key then kv\<lparr>avalue := (if nov then [] else val), noValue := nov\<rparr> # h else kv # setArg h key val nov)"
  by (simp_all add: setArg_def appendArg_eq setArgLoop_Cons)

lemma peek_set: "peekArg (setArg h key val nov) k = (if k = key then Some (if nov then [] else val) else peekArg h k)"
  by (induction h) auto




subsection \<open>The query string is read as it is written\<close>

text \<open>An argument without a value has an empty one; every method keeps this.\<close>

definition args_ok :: "argsKV list \<Rightarrow> bool" where
  "args_ok h \<longleftrightarrow> (\<forall>kv \<in> set h. noValue kv \<longrightarrow> avalue kv = [])"

lemma args_ok_simps [simp]:
  "args_ok []" "args_ok (kv # h) \<longleftrightarrow> (noValue kv \<longrightarrow> avalue kv = []) \<and> args_ok h"
  "args_ok (h @ h') \<longleftrightarrow> args_ok h \<and> args_ok h'"
  by (auto simp: args_ok_def)


lemma args_ok_set: "args_ok h \<Longrightarrow> args_ok (setArg h key val nov)"
  by (induction h) auto

lemma args_ok_append: "args_ok h \<Longrightarrow> args_ok (appendArg h key val nov)"
  by (simp add: appendArg_eq)

lemma args_ok_del: "args_ok h \<Longrightarrow> args_ok (delAllArgs h key)"
  by (auto simp: delAllArgs_eq args_ok_def)

lemma args_ok_copy: "args_ok (copyArgs h)"
  by (auto simp: copyArgs_def args_ok_def)

text \<open>Reading an argument sets all three fields, whatever the element held before.\<close>

lemma scanArg_value_overwrites:
  "akey kv = akey kv' \<Longrightarrow> noValue kv = noValue kv' \<Longrightarrow> scanArg b seg False kv = scanArg b seg False kv'"
  by (induction b arbitrary: seg) (auto simp: finishArg_def)

lemma scanArg_overwrites: "noValue kv = noValue kv' \<Longrightarrow> scanArg b seg True kv = scanArg b seg True kv'"
  by (induction b arbitrary: seg) (auto simp: finishArg_def intro: scanArg_value_overwrites)

lemma nextArg_overwrites: "nextArg b kv = nextArg b kv'"
  by (simp add: nextArg_def scanArg_overwrites [of "kv\<lparr>noValue := False\<rparr>" "kv'\<lparr>noValue := False\<rparr>"])

definition emptyKV :: argsKV where
  "emptyKV = \<lparr>akey = [], avalue = [], noValue = False\<rparr>"

definition parsedKV :: "argsKV \<Rightarrow> bool" where
  "parsedKV kv \<longleftrightarrow> length (akey kv) > 0 \<or> length (avalue kv) > 0"

function argsOf :: "bytes \<Rightarrow> argsKV list" where
  "argsOf b = (case nextArg b emptyKV of None \<Rightarrow> [] | Some (kv, b') \<Rightarrow> (if parsedKV kv then [kv] else []) @ argsOf b')"
  by pat_completeness auto
termination by (relation "measure length") (auto dest: nextArg_shorter)

declare argsOf.simps [simp del]

lemma parseLoop_argsOf: "\<exists>kv'. parseLoop b (h @ [kv]) = h @ argsOf b @ [kv']"
proof (induction b arbitrary: h kv rule: length_induct)
  case (1 b)
  show ?case
  proof (cases "nextArg b emptyKV")
    case None
    then show ?thesis
      using nextArg_overwrites [of b kv emptyKV] by (simp add: parseLoop.simps [of b] argsOf.simps [of b])
  next
    case (Some r)
    obtain kv1 b' where r: "r = (kv1, b')" by fastforce
    from Some r nextArg_shorter have short: "length b' < length b" by blast
    have step: "parseLoop b (h @ [kv]) = parseLoop b' (if parsedKV kv1 then allocArg (h @ [kv1]) else h @ [kv1])"
      using Some r nextArg_overwrites [of b kv emptyKV] by (simp add: parseLoop.simps [of b] Let_def parsedKV_def)
    have "\<exists>kv'. parseLoop b' (h1 @ [kv2]) = h1 @ argsOf b' @ [kv']" for h1 kv2 using 1 short by blast
    from this [of "h @ [kv1]" emptyKV] this [of h kv1] step Some r show ?thesis
      by (auto simp: argsOf.simps [of b] allocArg_def emptyKV_def)
  qed
qed

lemma ParseBytes_argsOf: "args (ParseBytes a b) = argsOf b"
proof -
  obtain kv' where "parseLoop b ([] @ [emptyKV]) = [] @ argsOf b @ [kv']" using parseLoop_argsOf by blast
  then show ?thesis by (simp add: ParseBytes_def allocArg_def releaseArg_def emptyKV_def)
qed

lemma scanArg_ok: "\<lbrakk>scanArg b seg isKey kv = (kv', r); \<not> noValue kv\<rbrakk> \<Longrightarrow> noValue kv' \<longrightarrow> avalue kv' = []"
  by (induction b seg isKey kv rule: scanArg.induct) (auto simp: finishArg_def split: if_splits)

lemma args_ok_parse: "args_ok (argsOf b)"
proof (induction b rule: argsOf.induct)
  case (1 b)
  then show ?case
    by (auto simp: argsOf.simps [of b] nextArg_def split: option.split prod.split if_splits dest: scanArg_ok)
qed

lemma decode_quoted: "decodeArgAppend [] (AppendQuotedArg [] s) = s"
  using quote_arg_decode [of s "[]"] by (simp add: decodeArgAppend_slow)

lemma upperhex_clean: "k < 16 \<Longrightarrow> upperhex k \<noteq> 38 \<and> upperhex k \<noteq> 61"
  by (cases k rule: nibble_cases) (simp_all add: upperhex_def)

lemma quoted_byte_clean: "c \<in> set (AppendQuotedArg [] [x]) \<Longrightarrow> c \<noteq> 38 \<and> c \<noteq> 61"
proof (cases "quotedArgShouldEscape x")
  case True
  define k l where "k = upperhex (drop_bit 4 x)" "l = upperhex (and x 15)"
  have "k \<noteq> 38 \<and> k \<noteq> 61" "l \<noteq> 38 \<and> l \<noteq> 61"
    unfolding k_l_def by (rule upperhex_clean [OF nibble_high], rule upperhex_clean [OF nibble_low])
  moreover assume "c \<in> set (AppendQuotedArg [] [x])"
  then have "c \<in> {43, 37, k, l}"
    using True unfolding AppendQuotedArg.simps quoteByte_def k_l_def [symmetric] by (auto split: if_splits)
  ultimately show ?thesis by auto
next
  case False
  moreover have "quotedArgShouldEscape 38" "quotedArgShouldEscape 61" by (simp_all add: quotedArgShouldEscape_def)
  moreover assume "c \<in> set (AppendQuotedArg [] [x])"
  ultimately show ?thesis by (auto split: if_splits)
qed

lemma quoted_clean: "c \<in> set (AppendQuotedArg [] s) \<Longrightarrow> c \<noteq> 38 \<and> c \<noteq> 61"
  unfolding AppendQuotedArg_append [of "[]" s] using quoted_byte_clean
  by (auto simp only: append_Nil set_concat set_map)

lemma scan_clean: "\<forall>c \<in> set q. c \<noteq> 38 \<and> (isKey \<longrightarrow> c \<noteq> 61) \<Longrightarrow> scanArg (q @ r) seg isKey kv = scanArg r (seg @ q) isKey kv"
  by (induction q arbitrary: seg) auto

definition printKV :: "argsKV \<Rightarrow> bytes" where
  "printKV kv = AppendQuotedArg [] (akey kv) @ (if noValue kv then [] else 61 # AppendQuotedArg [] (avalue kv))"

lemma scan_printed:
  assumes "noValue kv \<longrightarrow> avalue kv = []" "r = [] \<or> hd r = 38" "\<not> noValue kv0"
  shows "scanArg (printKV kv @ r) [] True kv0 = (kv, tl r)"
proof -
  define K V where "K = AppendQuotedArg [] (akey kv)" "V = AppendQuotedArg [] (avalue kv)"
  have clean: "\<forall>c \<in> set K. c \<noteq> 38 \<and> (True \<longrightarrow> c \<noteq> 61)" "\<forall>c \<in> set V. c \<noteq> 38 \<and> (False \<longrightarrow> c \<noteq> 61)"
    using quoted_clean unfolding K_V_def by blast+
  have decode: "decodeArgAppend [] K = akey kv" "decodeArgAppend [] V = avalue kv"
    unfolding K_V_def by (rule decode_quoted)+
  note key = scan_clean [OF clean(1), of _ "[]", unfolded append_Nil]
    and val = scan_clean [OF clean(2), of _ "[]", unfolded append_Nil]
  show ?thesis
  proof (cases "noValue kv")
    case True
    have "scanArg (printKV kv @ r) [] True kv0 = scanArg r K True kv0"
      using True by (simp add: printKV_def K_V_def(1) [symmetric] key)
    with assms True decode show ?thesis by (cases r) (auto simp: finishArg_def)
  next
    case False
    have "scanArg (printKV kv @ r) [] True kv0 = scanArg (61 # V @ r) K True kv0"
      using False by (simp add: printKV_def K_V_def [symmetric] key)
    also have "\<dots> = scanArg (V @ r) [] False (kv0\<lparr>akey := akey kv\<rparr>)" by (simp add: decode)
    also have "\<dots> = scanArg r V False (kv0\<lparr>akey := akey kv\<rparr>)" by (rule val)
    also have "\<dots> = (kv, tl r)" using assms False decode by (cases r) (auto simp: finishArg_def)
    finally show ?thesis .
  qed
qed

fun joinArgs :: "argsKV list \<Rightarrow> bytes" where
  "joinArgs [] = []"
| "joinArgs (kv # h) = printKV kv @ (if h \<noteq> [] then 38 # joinArgs h else [])"

lemma argsAppendLoop_join: "argsAppendLoop dst h = dst @ joinArgs h"
proof (induction h arbitrary: dst)
  case (Cons kv h)
  have q: "AppendQuotedArg d s = d @ AppendQuotedArg [] s" for d s
    using AppendQuotedArg_append [of d s] AppendQuotedArg_append [of "[]" s] by (simp only: append_Nil)
  let ?k = "dst @ AppendQuotedArg [] (akey kv)"
  from Cons q [of dst "akey kv"] q [of "?k @ [61]" "avalue kv"] show ?case by (auto simp: Let_def printKV_def)
qed simp

lemma argsOf_join: "args_ok h \<Longrightarrow> argsOf (joinArgs h) = filter parsedKV h"
proof (induction h)
  case Nil
  then show ?case by (simp add: argsOf.simps [of "[]"] nextArg_def)
next
  case (Cons kv h)
  let ?r = "if h \<noteq> [] then 38 # joinArgs h else []"
  have scan: "scanArg (printKV kv @ ?r) [] True (emptyKV\<lparr>noValue := False\<rparr>) = (kv, tl ?r)"
    using Cons.prems by (intro scan_printed) auto
  show ?case
  proof (cases "printKV kv @ ?r = []")
    case True
    then have "h = []" "\<not> parsedKV kv" using Cons.prems decode_quoted [of "akey kv"]
      by (auto simp: printKV_def parsedKV_def decodeArgAppend_def split: if_splits)
    with True show ?thesis by (simp add: argsOf.simps [of "[]"] nextArg_def)
  next
    case False
    then have "nextArg (joinArgs (kv # h)) emptyKV = Some (kv, tl ?r)" using scan by (simp add: nextArg_def)
    then have "argsOf (joinArgs (kv # h)) = (if parsedKV kv then [kv] else []) @ argsOf (joinArgs h)"
      by (cases "h = []") (simp_all add: argsOf.simps [of "printKV kv @ 38 # joinArgs h"] argsOf.simps [of "printKV kv"])
    with Cons show ?thesis by auto
  qed
qed

text \<open>The calls that change an \<open>Args\<close> object.\<close>

datatype argsOp =
    Parse bytes | Add bytes bytes | AddKey bytes | SetVal bytes bytes | SetKey bytes | Del bytes | Reset

fun runOp :: "argsOp \<Rightarrow> Args \<Rightarrow> Args" where
  "runOp (Parse b) a = argsParse a b"
| "runOp (Add k v) a = argsAdd a k v"
| "runOp (AddKey k) a = AddNoValue a k"
| "runOp (SetVal k v) a = argsSet a k v"
| "runOp (SetKey k) a = SetNoValue a k"
| "runOp (Del k) a = argsDel a k"
| "runOp Reset a = argsReset a"

lemma runOp_ok: "args_ok (args a) \<Longrightarrow> args_ok (args (runOp op a))"
  by (cases op) (simp_all add: argsParse_def ParseBytes_argsOf args_ok_parse argsAdd_def AddNoValue_def args_ok_append
      argsSet_def SetNoValue_def args_ok_set argsDel_def args_ok_del argsReset_def)

lemma runOps_ok: "args_ok (args a) \<Longrightarrow> args_ok (args (fold runOp ops a))"
  by (induction ops arbitrary: a) (simp_all add: runOp_ok)

text \<open>C27: The query string round trip. Whatever calls have built an \<open>Args\<close> object, parsing its query string
  gives back the same arguments in the same order, with all their bytes and with the difference between
  an empty value and none; only arguments whose key and value are both empty are lost.\<close>

theorem query_string_roundtrip:
  assumes "args a = []"
  shows "args (ParseBytes a' (snd (argsQueryString (fold runOp ops a)))) =
    filter (\<lambda>kv. akey kv \<noteq> [] \<or> avalue kv \<noteq> []) (args (fold runOp ops a))"
proof -
  have "args_ok (args (fold runOp ops a))" using assms by (intro runOps_ok) simp
  then show ?thesis
    by (simp add: argsQueryString_def argsAppendBytes_def Let_def argsAppendLoop_join ParseBytes_argsOf argsOf_join
        parsedKV_def [abs_def])
qed

theorem query_string_roundtrip_witness:
  "args (ParseBytes \<lparr>args = [], abuf = []\<rparr> (snd (argsQueryString
     (fold runOp [SetVal [38] [61, 32], AddKey [37]] \<lparr>args = [], abuf = []\<rparr>)))) =
   [\<lparr>akey = [38], avalue = [61, 32], noValue = False\<rparr>, \<lparr>akey = [37], avalue = [], noValue = True\<rparr>]"
  using query_string_roundtrip [of "\<lparr>args = [], abuf = []\<rparr>" "\<lparr>args = [], abuf = []\<rparr>" "[SetVal [38] [61, 32], AddKey [37]]"]
  by (simp add: argsSet_def AddNoValue_def appendArg_eq)




lemma SetUint_GetUint:
  assumes "0 \<le> n" "n < 2 ^ 63"
  shows "\<exists>a'. SetUint a k n = Ret a' \<and> GetUint a' k = (n, None) \<and> GetUintOrZero a' k = n"
proof -
  obtain b where b: "appendDigits n [] = b" "b \<noteq> []" "digits b" "decVal b = n"
    using appendDigits_value [OF assms(1), of "[]"] by (metis append_Nil2)
  then have "ParseUint b = (n, None)" using parseUintBuf_digits [of b] assms(2) by (simp add: ParseUint_def)
  with b assms(1) show ?thesis
    by (simp add: SetUint_def AppendUint_def GetUint_def GetUintOrZero_def argsSet_def argsPeek_def peek_set)
qed

end
