(* ===== verification/HttpUri.thy ===== *)
theory HttpUri
  imports HttpArgs "HOL-Library.Sublist"
begin

unbundle bit_operations_syntax

section \<open>HTTP library: URIs\<close>

text \<open>
  \<open>lib/fasthttp/uri.go\<close>, with the leading slash of \<open>uri_unix.go\<close>: parsing a URI into its parts, normalising
  the path, unescaping the host, updating a URI by another one and printing it.

  \<^item> \<open>URI\<close> is the Go struct. The string and the \<open>[]byte\<close> variants of a method are one definition; plain
    accessors are the fields.
  \<^item> The loops of \<open>normalizePath\<close> are functions with a termination proof. Its slices share one
    array: \<open>removeSlashes\<close> has the part in front of the slice as an argument.
  \<^item> The path separator is the slash, so the branch for Windows is not taken.
\<close>

record URI =
  pathOriginal :: bytes
  scheme :: bytes
  path :: bytes
  queryString :: bytes
  hash :: bytes
  host :: bytes
  queryArgs :: Args
  parsedQueryArgs :: bool
  DisablePathNormalizing :: bool
  fullURI :: bytes
  requestURI :: bytes
  username :: bytes
  password :: bytes
  apiID :: bytes
  apiKey :: bytes

datatype encoding = encodeHost | encodeZone

datatype uriError = ErrorInvalidURI | EscapeError bytes | InvalidHostError bytes | HostError string bytes

subsection \<open>Searching in byte slices\<close>

text \<open>\<open>bytes.Index\<close>, \<open>IndexByte\<close>, \<open>LastIndex\<close> and \<open>LastIndexByte\<close>; \<open>None\<close> is the index \<open>-1\<close>.\<close>

fun Index :: "bytes \<Rightarrow> bytes \<Rightarrow> nat option" where
  "Index [] sep = (if sep = [] then Some 0 else None)"
| "Index (c # b) sep = (if take (length sep) (c # b) = sep then Some 0 else map_option Suc (Index b sep))"

definition IndexByte :: "bytes \<Rightarrow> byte \<Rightarrow> nat option" where
  "IndexByte b c = Index b [c]"

fun LastIndex :: "bytes \<Rightarrow> bytes \<Rightarrow> nat option" where
  "LastIndex [] sep = (if sep = [] then Some 0 else None)"
| "LastIndex (c # b) sep =
     (case LastIndex b sep of
        Some n \<Rightarrow> Some (Suc n)
      | None \<Rightarrow> if take (length sep) (c # b) = sep then Some 0 else None)"

definition LastIndexByte :: "bytes \<Rightarrow> byte \<Rightarrow> nat option" where
  "LastIndexByte b c = LastIndex b [c]"

lemma Index_None: "Index b sep = None \<longleftrightarrow> \<not> sublist sep b"
proof (induction b)
  case (Cons c b)
  have "take (length sep) (c # b) = sep \<longleftrightarrow> prefix sep (c # b)" by (metis append_eq_conv_conj prefix_def)
  with Cons show ?case by (auto simp: sublist_Cons_right)
qed simp

lemma Index_Some:
  "Index b sep = Some n \<Longrightarrow> b = take n b @ sep @ drop (n + length sep) b"
proof (induction b arbitrary: n)
  case (Cons c b)
  show ?case
  proof (cases "take (length sep) (c # b) = sep")
    case True
    with Cons.prems show ?thesis by (simp del: take_Cons') (metis append_take_drop_id)
  next
    case False
    with Cons.prems obtain m where m: "Index b sep = Some m" "n = Suc m" by (auto simp del: take_Cons')
    with Cons.IH [OF m(1)] show ?thesis by simp
  qed
qed (simp split: if_splits)

lemma Index_length: "Index b sep = Some n \<Longrightarrow> n + length sep \<le> length b"
proof (induction b arbitrary: n)
  case (Cons c b)
  have "take (length sep) (c # b) = sep \<Longrightarrow> length sep \<le> length (c # b)" by (metis length_take min.cobounded1)
  with Cons show ?case by (auto simp del: take_Cons' split: if_splits)
qed (simp split: if_splits)

lemma Index_split:
  assumes "Index b sep = Some n"
  obtains p q where "b = p @ sep @ q" "length p = n"
  using Index_Some [OF assms] Index_length [OF assms] by (metis add_leD1 length_take min.absorb2)

lemma LastIndex_None: "LastIndex b sep = None \<longleftrightarrow> \<not> sublist sep b"
proof (induction b)
  case (Cons c b)
  have "take (length sep) (c # b) = sep \<longleftrightarrow> prefix sep (c # b)" by (metis append_eq_conv_conj prefix_def)
  with Cons show ?case by (auto simp: sublist_Cons_right split: option.splits)
qed simp

lemma LastIndex_Some: "LastIndex b sep = Some n \<Longrightarrow> b = take n b @ sep @ drop (n + length sep) b"
proof (induction b arbitrary: n)
  case (Cons c b)
  show ?case
  proof (cases "LastIndex b sep")
    case None
    with Cons.prems have "take (length sep) (c # b) = sep" "n = 0" by (auto simp del: take_Cons' split: if_splits)
    then show ?thesis by (simp del: take_Cons') (metis append_take_drop_id)
  next
    case (Some m)
    with Cons.prems have "n = Suc m" by simp
    with Cons.IH [OF Some] show ?thesis by simp
  qed
qed (simp split: if_splits)

lemma LastIndexByte_Some:
  assumes "LastIndexByte b c = Some n"
  shows "n < length b" "b = take n b @ c # drop (Suc n) b"
proof -
  show b: "b = take n b @ c # drop (Suc n) b" using LastIndex_Some [of b "[c]" n] assms by (simp add: LastIndexByte_def)
  then have "length b = length (take n b @ c # drop (Suc n) b)" by metis
  then show "n < length b" by simp
qed

lemma LastIndexByte_split:
  assumes "LastIndexByte b c = Some n"
  obtains p q where "b = p @ c # q" "length p = n"
  by (rule that [of "take n b" "drop (Suc n) b"]) (use LastIndexByte_Some [OF assms] in auto)

subsection \<open>The path\<close>

definition strSlash :: bytes where "strSlash = [47]"
definition strSlashSlash :: bytes where "strSlashSlash = [47, 47]"
definition strSlashDotDot :: bytes where "strSlashDotDot = [47, 46, 46]"
definition strSlashDotSlash :: bytes where "strSlashDotSlash = [47, 46, 47]"
definition strSlashDotDotSlash :: bytes where "strSlashDotDotSlash = [47, 46, 46, 47]"

lemmas str_defs = strSlash_def strSlashSlash_def strSlashDotDot_def strSlashDotSlash_def strSlashDotDotSlash_def

definition addLeadingSlash :: "bytes \<Rightarrow> bytes \<Rightarrow> bytes" where
  "addLeadingSlash dst src = (if src = [] \<or> hd src \<noteq> 47 then dst @ [47] else dst)"

function removeSlashes :: "bytes \<Rightarrow> bytes \<Rightarrow> bytes" where
  "removeSlashes front b =
     (case Index b strSlashSlash of
        None \<Rightarrow> front @ b
      | Some n \<Rightarrow> removeSlashes (front @ take n b) (drop (Suc n) b))"
  by pat_completeness auto
termination by (relation "measure (\<lambda>(_, b). length b)") (auto simp: str_defs dest: Index_length)

function removeDots :: "bytes \<Rightarrow> bytes" where
  "removeDots b =
     (case Index b strSlashDotSlash of
        None \<Rightarrow> b
      | Some n \<Rightarrow> let nn = n + length strSlashDotSlash - 1 in removeDots (take n b @ drop nn b))"
  by pat_completeness auto
termination by (relation "measure length") (auto simp: str_defs dest: Index_length)

function removeDotDots :: "bytes \<Rightarrow> bytes" where
  "removeDotDots b =
     (case Index b strSlashDotDotSlash of
        None \<Rightarrow> b
      | Some n \<Rightarrow>
          let nn = (case LastIndexByte (take n b) 47 of None \<Rightarrow> 0 | Some k \<Rightarrow> k);
              n = n + length strSlashDotDotSlash - 1
          in removeDotDots (take nn b @ drop n b))"
  by pat_completeness auto
termination
proof (relation "measure length")
  fix b n nn and m :: nat
  assume "Index b strSlashDotDotSlash = Some n" "nn = (case LastIndexByte (take n b) 47 of None \<Rightarrow> 0 | Some k \<Rightarrow> k)"
    "m = n + length strSlashDotDotSlash - 1"
  moreover have "nn \<le> n"
    using calculation(2) LastIndexByte_Some(1) [of "take n b" 47] by (auto split: option.splits)
  ultimately show "(take nn b @ drop m b, b) \<in> measure length"
    using Index_length [of b strSlashDotDotSlash n] by (simp add: str_defs)
qed simp

declare removeSlashes.simps [simp del] removeDots.simps [simp del] removeDotDots.simps [simp del]

definition removeTrailingDotDot :: "bytes \<Rightarrow> bytes" where
  "removeTrailingDotDot b =
     (case LastIndex b strSlashDotDot of
        None \<Rightarrow> b
      | Some n \<Rightarrow>
          if n + length strSlashDotDot = length b
          then (case LastIndexByte (take n b) 47 of None \<Rightarrow> strSlash | Some nn \<Rightarrow> take (nn + 1) b)
          else b)"

definition normalizePath :: "bytes \<Rightarrow> bytes" where
  "normalizePath src =
     (let dst = decodeArgAppendNoPlus (addLeadingSlash [] src) src;
          dst = removeSlashes [] dst;
          b = removeDots dst;
          b = removeDotDots b
      in removeTrailingDotDot b)"

subsection \<open>Normal paths\<close>

lemma str_lengths [simp]:
  "length strSlashSlash = 2" "length strSlashDotDot = 3" "length strSlashDotSlash = 3" "length strSlashDotDotSlash = 4"
  by (simp_all add: str_defs)

lemma removeSlashes_step:
  "Index b strSlashSlash = Some n \<Longrightarrow> removeSlashes front b = removeSlashes (front @ take n b) (drop (Suc n) b)"
  by (subst removeSlashes.simps) simp

lemma removeDots_step: "Index b strSlashDotSlash = Some n \<Longrightarrow> removeDots b = removeDots (take n b @ drop (n + 2) b)"
  by (subst removeDots.simps) (simp add: Let_def)

lemma removeDotDots_step:
  "Index b strSlashDotDotSlash = Some n \<Longrightarrow>
     removeDotDots b =
       removeDotDots (take (case LastIndexByte (take n b) 47 of None \<Rightarrow> 0 | Some k \<Rightarrow> k) b @ drop (n + 3) b)"
  by (subst removeDotDots.simps) (simp add: Let_def add.commute)

text \<open>A pattern in \<open>u @ x # v\<close> lies in one of the two parts if it has \<open>x\<close> at its ends only.\<close>

lemma sublist_junction:
  assumes "sublist pat (u @ x # v)" "x \<notin> set (butlast (tl pat))"
  shows "sublist pat (u @ [x]) \<or> sublist pat (x # v)"
proof -
  obtain a b where ab: "u @ x # v = a @ pat @ b" using assms(1) by (auto simp: sublist_def)
  consider "length u \<le> length a" | "length a + length pat \<le> Suc (length u)"
    | "length a < length u" "Suc (length u) < length a + length pat" by linarith
  then show ?thesis
  proof cases
    case 1
    then have "x # v = drop (length u) a @ pat @ b" using arg_cong [OF ab, of "drop (length u)"] by simp
    then show ?thesis by (auto simp: sublist_def)
  next
    case 2
    have "u @ [x] = take (Suc (length u)) (u @ x # v)" by simp
    also have "\<dots> = a @ pat @ take (Suc (length u) - length a - length pat) b" using 2 by (simp add: ab)
    finally show ?thesis by (auto simp: sublist_def)
  next
    case 3
    define i where "i = length u - length a"
    have i: "0 < i" "Suc i < length pat" using 3 by (auto simp: i_def)
    have "x = (u @ x # v) ! length u" by simp
    also have "\<dots> = pat ! i" using 3(1) i by (simp only: ab nth_append) (simp add: i_def)
    also have "\<dots> = butlast (tl pat) ! (i - 1)" using i by (simp add: nth_butlast nth_tl)
    finally have "x \<in> set (butlast (tl pat))" using i by simp
    with assms(2) show ?thesis by simp
  qed
qed

lemma Index_first: "Index b sep = Some n \<Longrightarrow> sep \<noteq> [] \<Longrightarrow> \<not> sublist sep (take (n + length sep - 1) b)"
proof (induction b arbitrary: n)
  case (Cons c b)
  show ?case
  proof (cases "take (length sep) (c # b) = sep")
    case True
    with Cons.prems have "length (take (n + length sep - 1) (c # b)) < length sep" by (cases sep) (auto simp del: take_Cons')
    then show ?thesis using sublist_length_le [of sep] by fastforce
  next
    case False
    with Cons.prems obtain m where m: "Index b sep = Some m" "n = Suc m" by (auto simp del: take_Cons')
    have "\<not> prefix sep (take (n + length sep - 1) (c # b))"
      using False by (metis append_eq_conv_conj prefix_def prefix_order.trans take_is_prefix)
    moreover have "take (n + length sep - 1) (c # b) = c # take (m + length sep - 1) b"
      using m(2) Cons.prems(2) by (cases sep) auto
    ultimately show ?thesis using Cons.IH [OF m(1) Cons.prems(2)] by (simp add: sublist_Cons_right)
  qed
qed simp

definition rooted :: "bytes \<Rightarrow> bool" where
  "rooted b \<longleftrightarrow> b \<noteq> [] \<and> hd b = 47"

lemma rooted_Cons [simp]: "rooted (47 # b)" "\<not> rooted []"
  by (simp_all add: rooted_def)

lemma rooted_append: "rooted a \<Longrightarrow> rooted (a @ b)"
  by (simp add: rooted_def)

lemma decode_rooted: "rooted (decodeArgAppendNoPlus (addLeadingSlash [] src) src)"
proof (cases "src = [] \<or> hd src \<noteq> 47")
  case False
  then obtain s where "src = 47 # s" by (cases src) auto
  then show ?thesis
    by (simp add: decodeArgAppendNoPlus_slow addLeadingSlash_def decodeSlow_plain [of 47 False])
qed (simp add: decodeArgAppendNoPlus_slow addLeadingSlash_def)

lemma removeSlashes_normal:
  assumes "b = [] \<or> \<not> sublist strSlashSlash (front @ [hd b])" "b = [] \<longrightarrow> \<not> sublist strSlashSlash front"
  shows "\<not> sublist strSlashSlash (removeSlashes front b)"
  using assms
proof (induction front b rule: removeSlashes.induct)
  case (1 front b)
  show ?case
  proof (cases "Index b strSlashSlash")
    case None
    have "\<not> sublist strSlashSlash (front @ b)"
    proof (cases b)
      case (Cons x v)
      have "\<not> sublist strSlashSlash (x # v)" using iffD1 [OF Index_None None] Cons by simp
      moreover have "\<not> sublist strSlashSlash (front @ [x])" using "1.prems" Cons by simp
      moreover have "x \<notin> set (butlast (tl strSlashSlash))" by (simp add: strSlashSlash_def)
      ultimately show ?thesis using sublist_junction [of strSlashSlash front x v] Cons by blast
    qed (use 1 in simp)
    with None show ?thesis by (simp add: removeSlashes.simps [of front b])
  next
    case (Some n)
    obtain p q where b: "b = p @ 47 # 47 # q" "length p = n" using Index_split [OF Some] by (auto simp: str_defs)
    have "\<not> sublist strSlashSlash ((front @ p) @ [47])"
    proof (cases p)
      case Nil
      then show ?thesis using "1.prems" b(1) by auto
    next
      case (Cons x p')
      have "\<not> sublist strSlashSlash (x # p' @ [47])" using Index_first [OF Some] b Cons by (auto simp: str_defs)
      moreover have "\<not> sublist strSlashSlash (front @ [x])" using "1.prems" b(1) Cons by auto
      ultimately show ?thesis using sublist_junction [of strSlashSlash front x "p' @ [47]"] Cons by (auto simp: str_defs)
    qed
    moreover have "removeSlashes front b = removeSlashes (front @ p) (47 # q)"
      using removeSlashes_step [OF Some] b by simp
    ultimately show ?thesis using "1.IH" [OF Some] b by simp
  qed
qed

lemma rooted_tail: "rooted (a @ x # b) \<longleftrightarrow> rooted (a @ x # c)"
  by (cases a) (simp_all add: rooted_def)

lemma removeSlashes_rooted: "rooted (front @ b) \<Longrightarrow> rooted (removeSlashes front b)"
proof (induction front b rule: removeSlashes.induct)
  case (1 front b)
  show ?case
  proof (cases "Index b strSlashSlash")
    case (Some n)
    obtain p q where b: "b = p @ 47 # 47 # q" "length p = n" using Index_split [OF Some] by (auto simp: str_defs)
    have "rooted ((front @ take n b) @ drop (Suc n) b)"
      using "1.prems" b rooted_tail [of "front @ p" 47 "47 # q" q] by simp
    with "1.IH" [OF Some] Some show ?thesis by (simp add: removeSlashes.simps [of front b])
  qed (use 1 in \<open>simp add: removeSlashes.simps [of front b]\<close>)
qed

text \<open>What the later steps keep: a normal path without the patterns in \<open>P\<close>, none of which has a slash inside.\<close>

definition free :: "bytes set \<Rightarrow> bytes \<Rightarrow> bool" where
  "free P b \<longleftrightarrow> (\<forall>pat \<in> P. 47 \<notin> set (butlast (tl pat)) \<and> \<not> sublist pat b)"

lemma free_junction:
  assumes "free P b" "b = u @ 47 # v" "b = u' @ 47 # v'"
  shows "free P (u @ 47 # v')"
proof -
  have "\<not> sublist pat (u @ 47 # v')" if "pat \<in> P" for pat
  proof
    assume "sublist pat (u @ 47 # v')"
    then have "sublist pat (u @ [47]) \<or> sublist pat (47 # v')"
      using sublist_junction [of pat u 47 v'] assms(1) that by (auto simp: free_def)
    moreover have "prefix (u @ [47]) b" "suffix (47 # v') b" using assms(2,3) by (simp add: prefix_def, metis suffix_def)
    then have "sublist (u @ [47]) b" "sublist (47 # v') b" by (auto intro: prefix_imp_sublist suffix_imp_sublist)
    ultimately show False using assms(1) that sublist_order.order.trans by (auto simp: free_def)
  qed
  with assms(1) show ?thesis by (simp add: free_def)
qed

lemma removeDots_normal:
  "free P b \<Longrightarrow> rooted b \<Longrightarrow>
     free P (removeDots b) \<and> rooted (removeDots b) \<and> \<not> sublist strSlashDotSlash (removeDots b)"
proof (induction b rule: removeDots.induct)
  case (1 b)
  show ?case
  proof (cases "Index b strSlashDotSlash")
    case None
    with "1.prems" iffD1 [OF Index_None None] show ?thesis by (simp add: removeDots.simps [of b])
  next
    case (Some n)
    obtain p q where b: "b = p @ 47 # 46 # 47 # q" "length p = n" using Index_split [OF Some] by (auto simp: str_defs)
    have step: "removeDots b = removeDots (p @ 47 # q)"
      using removeDots_step [OF Some] b by simp
    have "free P (p @ 47 # q)" by (rule free_junction [OF "1.prems"(1)]) (use b in auto)
    moreover have "rooted (p @ 47 # q)" using "1.prems"(2) b(1) rooted_tail by metis
    ultimately show ?thesis using "1.IH" [OF Some refl] b step by simp
  qed
qed

lemma removeDotDots_normal:
  "free P b \<Longrightarrow> rooted b \<Longrightarrow>
     free P (removeDotDots b) \<and> rooted (removeDotDots b) \<and> \<not> sublist strSlashDotDotSlash (removeDotDots b)"
proof (induction b rule: removeDotDots.induct)
  case (1 b)
  show ?case
  proof (cases "Index b strSlashDotDotSlash")
    case None
    with "1.prems" iffD1 [OF Index_None None] show ?thesis by (simp add: removeDotDots.simps [of b])
  next
    case (Some n)
    obtain p q where b: "b = p @ 47 # 46 # 46 # 47 # q" "length p = n" using Index_split [OF Some] by (auto simp: str_defs)
    show ?thesis
    proof (cases "LastIndexByte p 47")
      case None
      have step: "removeDotDots b = removeDotDots (47 # q)"
        using removeDotDots_step [OF Some] b None by simp
      have "b = [] @ 47 # tl b" using "1.prems"(2) by (cases b) (simp_all add: rooted_def)
      moreover have "b = (p @ [47, 46, 46]) @ 47 # q" using b(1) by simp
      ultimately have "free P ([] @ 47 # q)" by (rule free_junction [OF "1.prems"(1)])
      then show ?thesis using "1.IH" [OF Some refl refl] b None step by simp
    next
      case (Some k)
      from LastIndexByte_split [OF this] obtain p1 p2 where p: "p = p1 @ 47 # p2" "length p1 = k" by metis
      have tb: "take n b = p" "drop (n + 3) b = 47 # q" using b by simp_all
      have tk: "take k b = p1" using b p by simp
      have step: "removeDotDots b = removeDotDots (p1 @ 47 # q)"
        using removeDotDots_step [OF \<open>Index b strSlashDotDotSlash = Some n\<close>] tb Some tk by (simp only: option.case)
      have "free P (p1 @ 47 # q)" by (rule free_junction [OF "1.prems"(1)]) (use b p in auto)
      moreover have "rooted (p1 @ 47 # q)" using "1.prems"(2) b(1) p(1) rooted_tail [of p1 47 "p2 @ 47 # 46 # 46 # 47 # q" q] by simp
      ultimately show ?thesis
        using "1.IH" [OF \<open>Index b strSlashDotDotSlash = Some n\<close> refl refl] tb Some tk step by (simp add: add.commute)
    qed
  qed
qed

lemma free_prefix: "free P b \<Longrightarrow> prefix a b \<Longrightarrow> free P a"
  unfolding free_def using prefix_imp_sublist sublist_order.order.trans by blast

lemma LastIndex_last: "suffix sep b \<Longrightarrow> sep \<noteq> [] \<Longrightarrow> LastIndex b sep = Some (length b - length sep)"
proof (induction b)
  case (Cons c b)
  show ?case
  proof (cases "suffix sep b")
    case True
    with Cons have "LastIndex b sep = Some (length b - length sep)" by simp
    moreover have "length sep \<le> length b" using True by (rule suffix_length_le)
    ultimately show ?thesis by (simp add: Suc_diff_le)
  next
    case False
    then have sep: "sep = c # b" using Cons.prems by (simp add: suffix_Cons)
    then have "\<not> sublist sep b" using sublist_length_le [of sep b] by auto
    with LastIndex_None [of b sep] sep show ?thesis by simp
  qed
qed simp

lemma removeTrailing_normal:
  assumes "free P b" "rooted b"
  shows "(removeTrailingDotDot b = strSlash \<or> free P (removeTrailingDotDot b)) \<and> rooted (removeTrailingDotDot b) \<and>
    \<not> suffix strSlashDotDot (removeTrailingDotDot b)"
proof (cases "suffix strSlashDotDot b")
  case False
  then have "removeTrailingDotDot b = b"
    using LastIndex_Some [of b strSlashDotDot] by (auto simp: removeTrailingDotDot_def suffix_def split: option.split)
  with assms False show ?thesis by simp
next
  case True
  then obtain a where a: "b = a @ strSlashDotDot" by (auto simp: suffix_def)
  have last: "LastIndex b strSlashDotDot = Some (length a)" using LastIndex_last [OF True] a by (simp add: str_defs)
  show ?thesis
  proof (cases "LastIndexByte a 47")
    case None
    then have "removeTrailingDotDot b = strSlash" using last a by (simp add: removeTrailingDotDot_def)
    then show ?thesis by (simp add: str_defs suffix_def)
  next
    case (Some k)
    from LastIndexByte_split [OF this] obtain p q where p: "a = p @ 47 # q" "length p = k" by metis
    have eq: "removeTrailingDotDot b = p @ [47]" using last a Some p by (simp add: removeTrailingDotDot_def)
    moreover have "prefix (p @ [47]) b" using a p by (simp add: prefix_def)
    moreover have "rooted (p @ [47])" using assms(2) a p rooted_tail [of p 47 "q @ strSlashDotDot" "[]"] by simp
    moreover have "\<not> suffix strSlashDotDot (p @ [47])" by (simp add: str_defs suffix_def)
    ultimately show ?thesis using free_prefix [OF assms(1)] by simp
  qed
qed

definition normal_path :: "bytes \<Rightarrow> bool" where
  "normal_path b \<longleftrightarrow> rooted b \<and> \<not> sublist strSlashSlash b \<and> \<not> sublist strSlashDotSlash b \<and>
     \<not> sublist strSlashDotDotSlash b \<and> \<not> suffix strSlashDotDot b"

lemma normalizePath_normal: "normal_path (normalizePath src)"
proof -
  define d where "d = decodeArgAppendNoPlus (addLeadingSlash [] src) src"
  have "rooted d" unfolding d_def by (rule decode_rooted)
  then have s: "rooted (removeSlashes [] d)" by (intro removeSlashes_rooted) simp
  have single: "\<not> sublist pat [x]" if "length pat > 1" for pat and x :: byte
    using sublist_length_le [of pat "[x]"] that by auto
  have n: "\<not> sublist strSlashSlash (removeSlashes [] d)"
    using \<open>rooted d\<close> by (intro removeSlashes_normal) (auto simp: single rooted_def)
  have inner: "47 \<notin> set (butlast (tl strSlashSlash))" "47 \<notin> set (butlast (tl strSlashDotSlash))"
    "47 \<notin> set (butlast (tl strSlashDotDotSlash))" by (simp_all add: str_defs)
  have "free {strSlashSlash} (removeSlashes [] d)" using n inner by (simp add: free_def)
  from removeDots_normal [OF this s] have
    dots: "rooted (removeDots (removeSlashes [] d))" "free {strSlashSlash, strSlashDotSlash} (removeDots (removeSlashes [] d))"
    using inner by (simp_all add: free_def)
  from removeDotDots_normal [OF dots(2,1)] have
    dd: "rooted (removeDotDots (removeDots (removeSlashes [] d)))"
      "free {strSlashSlash, strSlashDotSlash, strSlashDotDotSlash} (removeDotDots (removeDots (removeSlashes [] d)))"
    using inner by (simp_all add: free_def)
  have "normalizePath src = removeTrailingDotDot (removeDotDots (removeDots (removeSlashes [] d)))"
    by (simp add: normalizePath_def d_def Let_def)
  moreover have "\<not> sublist strSlashSlash strSlash" "\<not> sublist strSlashDotSlash strSlash" "\<not> sublist strSlashDotDotSlash strSlash"
    unfolding strSlash_def by (rule single, simp)+
  ultimately show ?thesis unfolding normal_path_def using removeTrailing_normal [OF dd(2,1)] by (auto simp: free_def)
qed

text \<open>C25: No path leaves the root. The path that \<open>normalizePath\<close> makes of any bytes, escaped or not, starts with a
  slash and has no empty part, no part that is a single dot followed by a slash, and no part of two dots, at the
  end or before.\<close>

theorem normal_path_stays_below_root:
  "rooted (normalizePath src) \<and> \<not> sublist strSlashSlash (normalizePath src) \<and>
   \<not> sublist strSlashDotSlash (normalizePath src) \<and> \<not> sublist strSlashDotDotSlash (normalizePath src) \<and>
   \<not> suffix strSlashDotDot (normalizePath src)"
  using normalizePath_normal [of src] by (simp add: normal_path_def)

text \<open>A normal path is left as it is, also when it has been quoted for a request line.\<close>

lemma quoted_rooted:
  assumes "normal_path p"
  shows "rooted (appendQuotedPath [] p)" "\<exists>t. p = 47 # t \<and> appendQuotedPath [] p = 47 # quotePathLoop [] t"
proof -
  obtain t where t: "p = 47 # t" using assms by (cases p) (auto simp: normal_path_def rooted_def)
  have "appendQuotedPath [] p = 47 # quotePathLoop [] t"
    using t quotePathLoop_append [of "[47]" t] quotePathLoop_append [of "[]" t]
    by (simp add: appendQuotedPath_def quotedPathShouldEscape_def quotedArgShouldEscape_def)
  with t show "\<exists>t. p = 47 # t \<and> appendQuotedPath [] p = 47 # quotePathLoop [] t" "rooted (appendQuotedPath [] p)" by simp_all
qed

lemma normalizePath_quoted:
  assumes "normal_path p"
  shows "normalizePath (appendQuotedPath [] p) = p"
proof -
  obtain t where t: "p = 47 # t" and q: "appendQuotedPath [] p = 47 # quotePathLoop [] t"
    using quoted_rooted(2) [OF assms] by blast
  have "decodeSlow False [] (47 # quotePathLoop [] t) = p"
    using decodeSlow_plain [of 47 False "quotePathLoop [] t"] quote_path_decode [of t "[]"] t by simp
  then have d: "decodeArgAppendNoPlus (addLeadingSlash [] (appendQuotedPath [] p)) (appendQuotedPath [] p) = p"
    by (simp add: q decodeArgAppendNoPlus_slow addLeadingSlash_def)
  have none: "Index p strSlashSlash = None" "Index p strSlashDotSlash = None" "Index p strSlashDotDotSlash = None"
    using assms by (simp_all add: Index_None normal_path_def)
  then have "removeSlashes [] p = p" "removeDots p = p" "removeDotDots p = p"
    using removeSlashes.simps [of "[]" p] removeDots.simps [of p] removeDotDots.simps [of p] by simp_all
  moreover have "removeTrailingDotDot p = p"
    using assms LastIndex_Some [of p strSlashDotDot]
    by (auto simp: removeTrailingDotDot_def suffix_def normal_path_def split: option.split)
  ultimately show ?thesis by (simp only: normalizePath_def d Let_def)
qed


subsection \<open>The host\<close>

definition ishex :: "byte \<Rightarrow> bool" where
  "ishex c \<longleftrightarrow> (48 \<le> c \<and> c \<le> 57) \<or> (97 \<le> c \<and> c \<le> 102) \<or> (65 \<le> c \<and> c \<le> 70)"

definition unhex :: "byte \<Rightarrow> byte" where
  "unhex c = (if 48 \<le> c \<and> c \<le> 57 then c - 48
              else if 97 \<le> c \<and> c \<le> 102 then c - 97 + 10
              else if 65 \<le> c \<and> c \<le> 70 then c - 65 + 10 else 0)"

definition shouldEscape :: "byte \<Rightarrow> encoding \<Rightarrow> bool" where
  "shouldEscape c mode \<longleftrightarrow>
     \<not> ((97 \<le> c \<and> c \<le> 122) \<or> (65 \<le> c \<and> c \<le> 90) \<or> (48 \<le> c \<and> c \<le> 57)) \<and>
     \<not> ((mode = encodeHost \<or> mode = encodeZone) \<and>
        c \<in> {33, 36, 38, 39, 40, 41, 42, 43, 44, 59, 61, 58, 91, 93, 60, 62, 34}) \<and>
     c \<notin> {45, 95, 46, 126}"

definition validOptionalPort :: "bytes \<Rightarrow> bool" where
  "validOptionalPort port \<longleftrightarrow> port = [] \<or> (hd port = 58 \<and> (\<forall>b \<in> set (tl port). 48 \<le> b \<and> b \<le> 57))"

text \<open>The first loop of \<open>unescape\<close> checks the text and counts the escapes.\<close>

fun checkEscapes :: "encoding \<Rightarrow> bytes \<Rightarrow> nat \<Rightarrow> uriError + nat" where
  "checkEscapes mode [] n = Inr n"
| "checkEscapes mode (c # s) n =
     (if c = 37 then
        (case s of
           a # b # s' \<Rightarrow>
             if \<not> ishex a \<or> \<not> ishex b then Inl (EscapeError (take 3 (c # s)))
             else if mode = encodeHost \<and> unhex a < 8 \<and> \<not> (a = 50 \<and> b = 53) then Inl (EscapeError (take 3 (c # s)))
             else if mode = encodeZone \<and> \<not> (a = 50 \<and> b = 53) \<and> or (push_bit 4 (unhex a)) (unhex b) \<noteq> 32 \<and>
                     shouldEscape (or (push_bit 4 (unhex a)) (unhex b)) encodeHost
             then Inl (EscapeError (take 3 (c # s)))
             else checkEscapes mode s' (Suc n)
         | _ \<Rightarrow> Inl (EscapeError (take 3 (c # s))))
      else if c < 128 \<and> shouldEscape c mode then Inl (InvalidHostError [c])
      else checkEscapes mode s n)"

text \<open>The second loop runs on a checked text only, in which two digits follow every percent sign.\<close>

fun unescapeLoop :: "bytes \<Rightarrow> bytes" where
  "unescapeLoop [] = []"
| "unescapeLoop (c # s) =
     (if c = 37 then
        (case s of a # b # s' \<Rightarrow> or (push_bit 4 (unhex a)) (unhex b) # unescapeLoop s' | _ \<Rightarrow> c # s)
      else c # unescapeLoop s)"

definition unescape :: "bytes \<Rightarrow> encoding \<Rightarrow> uriError + bytes" where
  "unescape s mode =
     (case checkEscapes mode s 0 of
        Inl err \<Rightarrow> Inl err
      | Inr n \<Rightarrow> Inr (if n = 0 then s else unescapeLoop s))"

definition unescapeZone :: "bytes \<Rightarrow> nat \<Rightarrow> nat \<Rightarrow> uriError + bytes" where
  "unescapeZone hst zone i =
     (case unescape (take zone hst) encodeHost of
        Inl err \<Rightarrow> Inl err
      | Inr host1 \<Rightarrow>
          (case unescape (drop zone (take i hst)) encodeZone of
             Inl err \<Rightarrow> Inl err
           | Inr host2 \<Rightarrow>
               (case unescape (drop i hst) encodeHost of
                  Inl err \<Rightarrow> Inl err
                | Inr host3 \<Rightarrow> Inr (host1 @ host2 @ host3))))"

definition parseHost :: "bytes \<Rightarrow> uriError + bytes" where
  "parseHost hst =
     (if hst \<noteq> [] \<and> hd hst = 91 then
        (case LastIndexByte hst 93 of
           None \<Rightarrow> Inl (HostError ''missing ']' in host'' [])
         | Some i \<Rightarrow>
             if \<not> validOptionalPort (drop (Suc i) hst) then Inl (HostError ''invalid port after host'' (drop (Suc i) hst))
             else (case Index (take i hst) [37, 50, 53] of
                     Some zone \<Rightarrow> unescapeZone hst zone i
                   | None \<Rightarrow> unescape hst encodeHost))
      else (case LastIndexByte hst 58 of
              Some i \<Rightarrow>
                if \<not> validOptionalPort (drop i hst) then Inl (HostError ''invalid port after host'' (drop i hst))
                else unescape hst encodeHost
            | None \<Rightarrow> unescape hst encodeHost))"

subsection \<open>Parsing a URI\<close>

definition strHTTP :: bytes where "strHTTP = [104, 116, 116, 112]"
definition strHTTPS :: bytes where "strHTTPS = [104, 116, 116, 112, 115]"
definition strColonSlashSlash :: bytes where "strColonSlashSlash = [58, 47, 47]"

definition stringContainsCTLByte :: "bytes \<Rightarrow> bool" where
  "stringContainsCTLByte s \<longleftrightarrow> (\<exists>b \<in> set s. b < 32 \<or> b = 127)"

definition splitHostURI :: "bytes \<Rightarrow> bytes \<Rightarrow> bytes \<times> bytes \<times> bytes" where
  "splitHostURI hst uri =
     (case Index uri strSlashSlash of
        None \<Rightarrow> (strHTTP, hst, uri)
      | Some n \<Rightarrow>
          let sch = take n uri
          in if IndexByte sch 47 \<noteq> None then (strHTTP, hst, uri)
             else
               (let sch = (if sch \<noteq> [] \<and> last sch = 58 then butlast sch else sch);
                    uri = drop (n + length strSlashSlash) uri
                in case (IndexByte uri 47, IndexByte uri 63) of
                     (Some n, Some nq) \<Rightarrow> let n = (if nq < n then nq else n) in (sch, take n uri, drop n uri)
                   | (Some n, None) \<Rightarrow> (sch, take n uri, drop n uri)
                   | (None, Some nq) \<Rightarrow> (sch, take nq uri, drop nq uri)
                   | (None, None) \<Rightarrow> (sch, uri, strSlash)))"

definition uriReset :: "URI \<Rightarrow> URI" where
  "uriReset u =
     u\<lparr>pathOriginal := [], scheme := [], path := [], queryString := [], hash := [], username := [], password := [],
       apiID := [], apiKey := [], host := [], queryArgs := argsReset (queryArgs u), parsedQueryArgs := False,
       DisablePathNormalizing := False\<rparr>"

definition SetScheme :: "URI \<Rightarrow> bytes \<Rightarrow> URI" where
  "SetScheme u sch = u\<lparr>scheme := lowercaseBytes sch\<rparr>"

definition SetHost :: "URI \<Rightarrow> bytes \<Rightarrow> URI" where
  "SetHost u hst = u\<lparr>host := lowercaseBytes hst\<rparr>"

definition SetPath :: "URI \<Rightarrow> bytes \<Rightarrow> URI" where
  "SetPath u p = u\<lparr>pathOriginal := p, path := normalizePath p\<rparr>"

definition SetQueryString :: "URI \<Rightarrow> bytes \<Rightarrow> URI" where
  "SetQueryString u q = u\<lparr>queryString := q, parsedQueryArgs := False\<rparr>"

definition SetHash :: "URI \<Rightarrow> bytes \<Rightarrow> URI" where
  "SetHash u h = u\<lparr>hash := h\<rparr>"

definition splitAuth :: "URI \<Rightarrow> bytes \<Rightarrow> URI" where
  "splitAuth u auth =
     (case IndexByte auth 58 of
        Some n \<Rightarrow> u\<lparr>username := take n auth, password := drop (Suc n) auth\<rparr>
      | None \<Rightarrow> u\<lparr>username := auth, password := []\<rparr>)"

definition splitPath :: "URI \<Rightarrow> bytes \<Rightarrow> URI" where
  "splitPath u b =
     (let queryIndex = IndexByte b 63; fragmentIndex = IndexByte b 35;
          queryIndex = (case (fragmentIndex, queryIndex) of
                          (Some f, Some q) \<Rightarrow> if q > f then None else Some q
                        | _ \<Rightarrow> queryIndex)
      in case (queryIndex, fragmentIndex) of
           (None, None) \<Rightarrow> SetPath u b
         | (Some q, None) \<Rightarrow> (SetPath u (take q b))\<lparr>queryString := drop (Suc q) b\<rparr>
         | (Some q, Some f) \<Rightarrow> (SetPath u (take q b))\<lparr>queryString := drop (Suc q) (take f b), hash := drop (Suc f) b\<rparr>
         | (None, Some f) \<Rightarrow> (SetPath u (take f b))\<lparr>hash := drop (Suc f) b\<rparr>)"

definition splitScheme :: "URI \<Rightarrow> bytes \<Rightarrow> bytes \<Rightarrow> bool \<Rightarrow> URI \<times> bytes \<times> bytes" where
  "splitScheme u hst uri isTLS =
     (let (u, hst, uri) =
            (if hst = [] \<or> Index uri strColonSlashSlash \<noteq> None
             then (let (sch, newHost, newURI) = splitHostURI hst uri in (SetScheme u sch, newHost, newURI))
             else (u, hst, uri))
      in (if isTLS then SetScheme u strHTTPS else u, hst, uri))"

definition splitUser :: "URI \<Rightarrow> bytes \<Rightarrow> URI \<times> bytes" where
  "splitUser u hst =
     (case IndexByte hst 64 of None \<Rightarrow> (u, hst) | Some n \<Rightarrow> (splitAuth u (take n hst), drop (Suc n) hst))"

text \<open>After a host that does not parse only the error counts; the code may have unescaped a part of it in
  place.\<close>

definition uriParse :: "URI \<Rightarrow> bytes \<Rightarrow> bytes \<Rightarrow> bool \<Rightarrow> URI \<times> uriError option" where
  "uriParse u hst uri isTLS =
     (let u = uriReset u
      in if stringContainsCTLByte uri then (u, Some ErrorInvalidURI)
         else
           (let (u, hst, uri) = splitScheme u hst uri isTLS;
                (u, hst) = splitUser u hst;
                u = u\<lparr>host := hst\<rparr>
            in case parseHost (host u) of
                 Inl err \<Rightarrow> (u, Some err)
               | Inr parsedHost \<Rightarrow> (splitPath (u\<lparr>host := lowercaseBytes parsedHost\<rparr>) uri, None)))"

subsection \<open>Printing and updating a URI\<close>

definition uriPath :: "URI \<Rightarrow> bytes" where
  "uriPath u = (if path u = [] then strSlash else path u)"

definition uriScheme :: "URI \<Rightarrow> bytes" where
  "uriScheme u = (if scheme u = [] then strHTTP else scheme u)"

definition RequestURI :: "URI \<Rightarrow> URI \<times> bytes" where
  "RequestURI u =
     (let dst = (if DisablePathNormalizing u then pathOriginal u else appendQuotedPath [] (uriPath u));
          dst = (if parsedQueryArgs u \<and> length (args (queryArgs u)) > 0
                 then argsAppendBytes (queryArgs u) (dst @ [63])
                 else if length (queryString u) > 0 then dst @ [63] @ queryString u else dst)
      in (u\<lparr>requestURI := dst\<rparr>, dst))"

definition appendSchemeHost :: "URI \<Rightarrow> bytes \<Rightarrow> bytes" where
  "appendSchemeHost u dst = dst @ uriScheme u @ strColonSlashSlash @ host u"

definition uriAppendBytes :: "URI \<Rightarrow> bytes \<Rightarrow> URI \<times> bytes" where
  "uriAppendBytes u dst =
     (let dst = appendSchemeHost u dst;
          (u, r) = RequestURI u;
          dst = dst @ r
      in (u, if length (hash u) > 0 then dst @ [35] @ hash u else dst))"

definition FullURI :: "URI \<Rightarrow> URI \<times> bytes" where
  "FullURI u = (let (u, b) = uriAppendBytes u [] in (u\<lparr>fullURI := b\<rparr>, b))"

definition parseQueryArgs :: "URI \<Rightarrow> URI" where
  "parseQueryArgs u =
     (if parsedQueryArgs u then u
      else u\<lparr>queryArgs := ParseBytes (queryArgs u) (queryString u), parsedQueryArgs := True\<rparr>)"

definition LastPathSegment :: "URI \<Rightarrow> bytes" where
  "LastPathSegment u = (case LastIndexByte (uriPath u) 47 of None \<Rightarrow> uriPath u | Some n \<Rightarrow> drop (Suc n) (uriPath u))"

definition updateBytes :: "URI \<Rightarrow> bytes \<Rightarrow> bytes \<Rightarrow> (URI \<times> bytes) go" where
  "updateBytes u newURI buf =
     (if newURI = [] then Ret (u, buf)
      else if Index newURI strSlashSlash \<noteq> None then
        (let schemeOriginal = scheme u; (u, err) = uriParse u [] newURI False
         in if err \<noteq> None then Ret (u, [])
            else if schemeOriginal \<noteq> [] \<and> scheme u = [] then Ret (u\<lparr>scheme := schemeOriginal\<rparr>, buf)
            else Ret (u, buf))
      else if hd newURI = 47 then
        (let buf = appendSchemeHost u [] @ newURI; (u, err) = uriParse u [] buf False
         in Ret (u, if err \<noteq> None then [] else buf))
      else if hd newURI = 63 then Ret (FullURI (SetQueryString u (tl newURI)))
      else if hd newURI = 35 then Ret (FullURI (SetHash u (tl newURI)))
      else
        (case LastIndexByte (uriPath u) 47 of
           None \<Rightarrow> Panic ''BUG: path must contain at least one slash''
         | Some n \<Rightarrow>
             let buf = appendQuotedPath (appendSchemeHost u []) (take (Suc n) (uriPath u)) @ newURI;
                 (u, err) = uriParse u [] buf False
             in Ret (u, if err \<noteq> None then [] else buf)))"

definition uriUpdate :: "URI \<Rightarrow> bytes \<Rightarrow> URI go" where
  "uriUpdate u newURI =
     go_bind (updateBytes u newURI (requestURI u)) (\<lambda>(u, b). Ret (u\<lparr>requestURI := b\<rparr>))"


subsection \<open>A printed URI is parsed to the same URI\<close>

lemma IndexByte_None [simp]: "IndexByte b c = None \<longleftrightarrow> c \<notin> set b"
  by (induction b) (auto simp: IndexByte_def)

lemma IndexByte_absent [simp]: "c \<notin> set b \<Longrightarrow> IndexByte b c = None"
  by simp

lemma IndexByte_append [simp]: "c \<notin> set p \<Longrightarrow> IndexByte (p @ c # q) c = Some (length p)"
  by (induction p) (auto simp: IndexByte_def)

lemma IndexByte_later: "c \<notin> set p \<Longrightarrow> IndexByte (p @ q) c = Some n \<Longrightarrow> length p \<le> n"
  by (induction p arbitrary: n) (auto simp: IndexByte_def)

lemma IndexByte_Some: "IndexByte b c = Some n \<Longrightarrow> c \<notin> set (take n b)"
  by (induction b arbitrary: n) (auto simp: IndexByte_def split: if_splits)

lemma Index_slashes: "47 \<notin> set p \<Longrightarrow> Index (p @ 47 # 47 # q) strSlashSlash = Some (length p)"
  by (induction p) (auto simp: strSlashSlash_def)

text \<open>The bytes that the parts of a printed URI can have.\<close>

definition ctl :: "byte \<Rightarrow> bool" where
  "ctl b \<longleftrightarrow> b < 32 \<or> b = 127"

lemma CTL_iff: "stringContainsCTLByte s \<longleftrightarrow> (\<exists>b \<in> set s. ctl b)"
  by (simp add: stringContainsCTLByte_def ctl_def)

lemma not_ctl [simp]: "\<not> ctl 47" "\<not> ctl 58" "\<not> ctl 63" "\<not> ctl 35" "\<forall>c \<in> set strHTTP. \<not> ctl c"
  by (simp_all add: ctl_def strHTTP_def)

lemma toLower_props: "toLower (toLower c) = toLower c" "toLower c = 47 \<longleftrightarrow> c = 47" "ctl (toLower c) \<longleftrightarrow> ctl c"
  by (auto simp: toLower_def ctl_def; unat_arith)+

lemma lowercaseBytes_props:
  "lowercaseBytes (lowercaseBytes b) = lowercaseBytes b" "47 \<in> set (lowercaseBytes b) \<longleftrightarrow> 47 \<in> set b"
  "(\<exists>c \<in> set (lowercaseBytes b). ctl c) \<longleftrightarrow> (\<exists>c \<in> set b. ctl c)" "lowercaseBytes b = [] \<longleftrightarrow> b = []"
  by (auto simp: lowercaseBytes_def toLower_props image_iff)

lemma upperhex_bytes: "k < 16 \<Longrightarrow> \<not> ctl (upperhex k) \<and> upperhex k \<noteq> 63 \<and> upperhex k \<noteq> 35"
  by (cases k rule: nibble_cases) (simp_all add: upperhex_def ctl_def)

lemma unescaped_path_byte: "\<not> quotedPathShouldEscape c \<Longrightarrow> \<not> ctl c \<and> c \<noteq> 63 \<and> c \<noteq> 35"
  unfolding quotedPathShouldEscape_def quotedArgShouldEscape_def ctl_def by (auto; unat_arith)

lemma quoted_path_byte: "c \<in> set (quotePathLoop [] [x]) \<Longrightarrow> \<not> ctl c \<and> c \<noteq> 63 \<and> c \<noteq> 35"
proof (cases "quotedPathShouldEscape x")
  case True
  define k l where "k = upperhex (drop_bit 4 x)" "l = upperhex (and x 15)"
  have "\<not> ctl k \<and> k \<noteq> 63 \<and> k \<noteq> 35" "\<not> ctl l \<and> l \<noteq> 63 \<and> l \<noteq> 35"
    unfolding k_l_def by (rule upperhex_bytes [OF nibble_high], rule upperhex_bytes [OF nibble_low])
  moreover assume "c \<in> set (quotePathLoop [] [x])"
  then have "c \<in> {37, k, l}"
    using True unfolding quotePathLoop.simps quoteByte_def k_l_def [symmetric] by auto
  moreover have "\<not> ctl 37" by (simp add: ctl_def)
  ultimately show ?thesis by auto
next
  case False
  moreover assume "c \<in> set (quotePathLoop [] [x])"
  ultimately show ?thesis using unescaped_path_byte by auto
qed

lemma quoted_path_bytes: "c \<in> set (quotePathLoop [] s) \<Longrightarrow> \<not> ctl c \<and> c \<noteq> 63 \<and> c \<noteq> 35"
  unfolding quotePathLoop_append [of "[]" s] using quoted_path_byte
  by (auto simp only: append_Nil set_concat set_map)

definition host_byte :: "byte \<Rightarrow> bool" where
  "host_byte c \<longleftrightarrow> \<not> ctl c \<and> c \<notin> {47, 63, 35, 64}"

lemma host_bytes: "ishex c \<Longrightarrow> host_byte c" "\<not> (c < 128 \<and> shouldEscape c mode) \<Longrightarrow> host_byte c" "host_byte 37"
  unfolding host_byte_def ctl_def ishex_def shouldEscape_def by (auto; unat_arith)+

lemma checkEscapes_bytes: "checkEscapes mode s n = Inr m \<Longrightarrow> \<forall>c \<in> set s. host_byte c"
proof (induction s arbitrary: n rule: length_induct)
  case (1 s)
  show ?case
  proof (cases s)
    case (Cons c t)
    show ?thesis
    proof (cases "c = 37")
      case True
      with "1.prems" Cons obtain a b t' where t: "t = a # b # t'" by (auto split: list.splits)
      with True Cons "1.prems" have ok: "ishex a" "ishex b" "checkEscapes mode t' (Suc n) = Inr m" by (auto split: if_splits)
      have "\<forall>c \<in> set t'. host_byte c" using "1.IH" [rule_format, of t' "Suc n"] ok(3) Cons t by simp
      with ok(1,2) True Cons t host_bytes show ?thesis by simp
    next
      case False
      with "1.prems" Cons have ok: "\<not> (c < 128 \<and> shouldEscape c mode)" "checkEscapes mode t n = Inr m" by (auto split: if_splits)
      have "\<forall>c \<in> set t. host_byte c" using "1.IH" [rule_format, of t n] ok(2) Cons by simp
      with host_bytes(2) [OF ok(1)] Cons show ?thesis by simp
    qed
  qed simp
qed

lemma unescape_bytes: "unescape s mode = Inr t \<Longrightarrow> \<forall>c \<in> set s. host_byte c"
  using checkEscapes_bytes [of mode s 0] by (auto simp: unescape_def split: sum.splits)

lemma parseHost_bytes:
  assumes "parseHost h = Inr t"
  shows "\<forall>c \<in> set h. host_byte c"
proof -
  have "\<exists>mode t. unescape h mode = Inr t" if "\<nexists>i zone. unescapeZone h zone i = Inr t \<and> zone \<le> i"
    using assms that Index_length [of "take _ h" "[37, 50, 53]"]
    by (fastforce simp: parseHost_def split: if_splits option.splits)
  moreover have "\<forall>c \<in> set h. host_byte c" if z: "unescapeZone h zone i = Inr t" "zone \<le> i" for zone i
  proof -
    have "\<forall>c \<in> set (take zone h). host_byte c" "\<forall>c \<in> set (drop zone (take i h)). host_byte c" "\<forall>c \<in> set (drop i h). host_byte c"
      using z unescape_bytes by (auto simp: unescapeZone_def split: sum.splits)
    moreover have "h = take zone h @ drop zone (take i h) @ drop i h"
      using z(2) by (metis append_take_drop_id min.absorb1 take_take append.assoc)
    ultimately show ?thesis by (metis Un_iff set_append)
  qed
  ultimately show ?thesis using unescape_bytes by blast
qed

text \<open>What parsing establishes.\<close>

definition parsed_ok :: "URI \<Rightarrow> bool" where
  "parsed_ok u \<longleftrightarrow>
     (\<exists>p. path u = normalizePath p) \<and> 47 \<notin> set (scheme u) \<and> lowercaseBytes (scheme u) = scheme u \<and>
     lowercaseBytes (host u) = host u \<and> 35 \<notin> set (queryString u) \<and>
     (\<forall>c \<in> set (scheme u) \<union> set (queryString u) \<union> set (hash u). \<not> ctl c) \<and>
     \<not> DisablePathNormalizing u \<and> \<not> parsedQueryArgs u"

lemma set_take_drop: "c \<in> set (take n b) \<Longrightarrow> c \<in> set b" "c \<in> set (drop n b) \<Longrightarrow> c \<in> set b"
  by (auto dest: in_set_takeD in_set_dropD)

lemma splitPath_ok:
  assumes "\<forall>c \<in> set b. \<not> ctl c" "queryString u = []" "hash u = []"
  shows "(\<exists>p. path (splitPath u b) = normalizePath p) \<and> 35 \<notin> set (queryString (splitPath u b)) \<and>
    (\<forall>c \<in> set (queryString (splitPath u b)) \<union> set (hash (splitPath u b)). \<not> ctl c) \<and>
    scheme (splitPath u b) = scheme u \<and> host (splitPath u b) = host u \<and>
    DisablePathNormalizing (splitPath u b) = DisablePathNormalizing u \<and> parsedQueryArgs (splitPath u b) = parsedQueryArgs u"
proof -
  have q: "35 \<notin> set (drop n (take f b))" if "IndexByte b 35 = Some f" for n f
    using IndexByte_Some [OF that] by (meson in_set_dropD)
  show ?thesis using assms
    by (auto simp: splitPath_def SetPath_def Let_def q split: option.split dest: set_take_drop)
qed

lemma ctl_parts: "c \<in> set (butlast (take n b)) \<Longrightarrow> c \<in> set b"
  by (meson in_set_butlastD in_set_takeD)

lemma splitHostURI_ok:
  assumes "splitHostURI hst uri = (sch, h, r)" "\<forall>c \<in> set uri. \<not> ctl c"
  shows "47 \<notin> set sch" "\<forall>c \<in> set sch. \<not> ctl c" "\<forall>c \<in> set r. \<not> ctl c"
proof -
  have http: "47 \<notin> set strHTTP" "\<forall>c \<in> set strHTTP. \<not> ctl c" "\<forall>c \<in> set strSlash. \<not> ctl c"
    by (simp_all add: strHTTP_def strSlash_def ctl_def)
  show "47 \<notin> set sch" "\<forall>c \<in> set sch. \<not> ctl c" "\<forall>c \<in> set r. \<not> ctl c"
    using assms http
    by (auto simp: splitHostURI_def Let_def split: option.splits if_splits
        dest: set_take_drop in_set_butlastD ctl_parts)
qed

definition scheme_ok :: "bytes \<Rightarrow> bool" where
  "scheme_ok b \<longleftrightarrow> 47 \<notin> set b \<and> lowercaseBytes b = b \<and> (\<forall>c \<in> set b. \<not> ctl c)"

lemma scheme_ok_lower: "47 \<notin> set b \<Longrightarrow> \<forall>c \<in> set b. \<not> ctl c \<Longrightarrow> scheme_ok (lowercaseBytes b)"
  by (auto simp: scheme_ok_def lowercaseBytes_props, auto simp: lowercaseBytes_def toLower_props)

lemma splitScheme_ok:
  assumes "splitScheme u hst uri isTLS = (u', h, r)" "\<forall>c \<in> set uri. \<not> ctl c" "scheme_ok (scheme u)"
  shows "scheme_ok (scheme u')" "\<forall>c \<in> set r. \<not> ctl c" "\<exists>sch. u' = u\<lparr>scheme := sch\<rparr>"
proof -
  have tls: "scheme_ok (lowercaseBytes strHTTPS)" by (rule scheme_ok_lower) (simp_all add: strHTTPS_def ctl_def)
  obtain sch h1 r1 where s: "splitHostURI hst uri = (sch, h1, r1)" by (cases "splitHostURI hst uri") auto
  note ok = splitHostURI_ok [OF s assms(2)]
  have "scheme_ok (lowercaseBytes sch)" by (rule scheme_ok_lower [OF ok(1,2)])
  with assms s tls ok show "scheme_ok (scheme u')" "\<forall>c \<in> set r. \<not> ctl c" "\<exists>sch. u' = u\<lparr>scheme := sch\<rparr>"
    by (auto simp: splitScheme_def SetScheme_def split: if_splits intro: exI [of _ "scheme u"])
qed

lemma splitUser_ok: "splitUser u hst = (u', h) \<Longrightarrow> \<exists>n p. u' = u\<lparr>username := n, password := p\<rparr>"
  by (cases u) (auto simp: splitUser_def splitAuth_def split: option.splits)

lemma uriParse_ok:
  assumes "uriParse u hst uri isTLS = (u', None)"
  shows "parsed_ok u'"
proof -
  have ctl: "\<forall>c \<in> set uri. \<not> ctl c" using assms by (auto simp: uriParse_def CTL_iff Let_def split: if_splits)
  obtain u1 h1 r where s1: "splitScheme (uriReset u) hst uri isTLS = (u1, h1, r)"
    by (cases "splitScheme (uriReset u) hst uri isTLS") auto
  have "scheme_ok (scheme (uriReset u))" by (simp add: scheme_ok_def uriReset_def lowercaseBytes_def)
  note u1 = splitScheme_ok [OF s1 ctl this]
  obtain u2 h2 where s2: "splitUser u1 h1 = (u2, h2)" by fastforce
  have "uriParse u hst uri isTLS = (case parseHost h2 of Inl err \<Rightarrow> (u2\<lparr>host := h2\<rparr>, Some err)
      | Inr parsed \<Rightarrow> (splitPath (u2\<lparr>host := lowercaseBytes parsed\<rparr>) r, None))"
    using ctl s1 s2 by (simp add: uriParse_def Let_def CTL_iff split: sum.split)
  with assms obtain parsed where p: "u' = splitPath (u2\<lparr>host := lowercaseBytes parsed\<rparr>) r" by (auto split: sum.splits)
  obtain sch where "u1 = (uriReset u)\<lparr>scheme := sch\<rparr>" using u1(3) by blast
  with splitUser_ok [OF s2] u1(1) have "scheme_ok (scheme u2)" "queryString u2 = []" "hash u2 = []"
    "\<not> DisablePathNormalizing u2" "\<not> parsedQueryArgs u2"
    by (auto simp: uriReset_def)
  with splitPath_ok [OF u1(2), of "u2\<lparr>host := lowercaseBytes parsed\<rparr>"] show ?thesis
    unfolding p parsed_ok_def by (auto simp: lowercaseBytes_props scheme_ok_def)
qed

text \<open>What a printed URI is split into.\<close>

lemma IndexByte_sep: "c \<notin> set p \<Longrightarrow> x \<noteq> c \<Longrightarrow> IndexByte (p @ x # q) c = Some n \<Longrightarrow> length p < n"
  using IndexByte_later [of c "p @ [x]" q n] by simp

lemma splitPath_cases:
  "IndexByte b 63 = None \<Longrightarrow> IndexByte b 35 = None \<Longrightarrow> splitPath u b = SetPath u b"
  "IndexByte b 63 = Some q \<Longrightarrow> IndexByte b 35 = None \<Longrightarrow>
     splitPath u b = (SetPath u (take q b))\<lparr>queryString := drop (Suc q) b\<rparr>"
  "IndexByte b 63 = Some q \<Longrightarrow> IndexByte b 35 = Some f \<Longrightarrow> q \<le> f \<Longrightarrow>
     splitPath u b = (SetPath u (take q b))\<lparr>queryString := drop (Suc q) (take f b), hash := drop (Suc f) b\<rparr>"
  "IndexByte b 35 = Some f \<Longrightarrow> (\<And>q. IndexByte b 63 = Some q \<Longrightarrow> f < q) \<Longrightarrow>
     splitPath u b = (SetPath u (take f b))\<lparr>hash := drop (Suc f) b\<rparr>"
  by (simp_all add: splitPath_def Let_def del: IndexByte_None split: option.split)

lemma splitPath_printed:
  assumes "63 \<notin> set p" "35 \<notin> set p" "35 \<notin> set q" "queryString u = []" "hash u = []"
    and w_def: "w = splitPath u (p @ (if length q > 0 then 63 # q else []) @ (if length h > 0 then 35 # h else []))"
  shows "path w = normalizePath p \<and> queryString w = q \<and> hash w = h \<and> scheme w = scheme u \<and> host w = host u"
proof -
  have sep: "IndexByte (p @ 63 # t) 63 = Some (length p)" "IndexByte (p @ 35 # t) 35 = Some (length p)"
    "IndexByte (p @ 63 # q @ 35 # t) 35 = Some (Suc (length p + length q))" for t
    using IndexByte_append [of 35 "p @ 63 # q" t] assms(1-3) by simp_all
  have none: "IndexByte p 63 = None" "IndexByte p 35 = None" "IndexByte (p @ 63 # q) 35 = None" using assms(1-3) by simp_all
  consider "q = []" "h = []" | "q \<noteq> []" "h = []" | "q \<noteq> []" "h \<noteq> []" | "q = []" "h \<noteq> []" by blast
  then show ?thesis
  proof cases
    case 1
    with splitPath_cases(1) [OF none(1,2)] show ?thesis using assms(4,5) by (simp add: w_def SetPath_def)
  next
    case 2
    with splitPath_cases(2) [OF sep(1) none(3)] show ?thesis using assms(4,5) by (simp add: w_def SetPath_def)
  next
    case 3
    with splitPath_cases(3) [OF sep(1,3)] show ?thesis by (simp add: w_def SetPath_def)
  next
    case 4
    have "length p < n" if "IndexByte (p @ 35 # h) 63 = Some n" for n
      using IndexByte_sep [OF assms(1) _ that] by simp
    with 4 splitPath_cases(4) [OF sep(2)] show ?thesis using assms(4,5) by (simp add: w_def SetPath_def)
  qed
qed

lemma splitHostURI_printed:
  assumes "47 \<notin> set sch" "47 \<notin> set hst" "63 \<notin> set hst" "rooted r"
  shows "splitHostURI [] (sch @ 58 # 47 # 47 # hst @ r) = (sch, hst, r)"
proof -
  obtain t where r: "r = 47 # t" using assms(4) by (cases r) (auto simp: rooted_def)
  have "Index (sch @ 58 # 47 # 47 # hst @ r) strSlashSlash = Some (Suc (length sch))"
    using Index_slashes [of "sch @ [58]" "hst @ r"] assms(1) by simp
  moreover have "IndexByte (hst @ r) 47 = Some (length hst)" using r assms(2) by simp
  moreover have "IndexByte (hst @ r) 63 = Some n \<Longrightarrow> length hst \<le> n" for n using IndexByte_later assms(3) by blast
  ultimately show ?thesis using assms(1)
    by (auto simp: splitHostURI_def Let_def split: option.split simp del: IndexByte_None)
qed

lemma uriParse_printed:
  assumes "47 \<notin> set sch" "lowercaseBytes sch = sch" "lowercaseBytes hst = hst" "parseHost hst = Inr hst" "rooted r"
    "\<forall>c \<in> set sch \<union> set r. \<not> ctl c"
  shows "\<exists>u'. uriParse v [] (sch @ strColonSlashSlash @ hst @ r) False = (splitPath u' r, None) \<and>
    scheme u' = sch \<and> host u' = hst \<and> queryString u' = [] \<and> hash u' = []"
proof -
  have h: "\<forall>c \<in> set hst. host_byte c" using parseHost_bytes [OF assms(4)] .
  then have n: "47 \<notin> set hst" "63 \<notin> set hst" "64 \<notin> set hst" by (auto simp: host_byte_def)
  have uri: "sch @ strColonSlashSlash @ hst @ r = sch @ 58 # 47 # 47 # hst @ r" by (simp add: strColonSlashSlash_def)
  have "\<not> stringContainsCTLByte (sch @ 58 # 47 # 47 # hst @ r)"
    using assms(6) h by (simp add: CTL_iff host_byte_def ball_Un)
  moreover have "splitScheme (uriReset v) [] (sch @ 58 # 47 # 47 # hst @ r) False = ((uriReset v)\<lparr>scheme := sch\<rparr>, hst, r)"
    using splitHostURI_printed [OF assms(1) n(1,2) assms(5)] assms(2) by (simp add: splitScheme_def SetScheme_def)
  moreover have "splitUser ((uriReset v)\<lparr>scheme := sch\<rparr>) hst = ((uriReset v)\<lparr>scheme := sch\<rparr>, hst)"
    using n(3) by (simp add: splitUser_def)
  ultimately have "uriParse v [] (sch @ 58 # 47 # 47 # hst @ r) False =
      (splitPath ((uriReset v)\<lparr>scheme := sch, host := hst\<rparr>) r, None)"
    using assms(3,4) by (simp add: uriParse_def Let_def)
  then show ?thesis unfolding uri by (intro exI [of _ "(uriReset v)\<lparr>scheme := sch, host := hst\<rparr>"]) (simp add: uriReset_def)
qed

lemma lower_http: "47 \<notin> set strHTTP" "lowercaseBytes strHTTP = strHTTP" "strHTTP \<noteq> []"
  by (simp_all add: strHTTP_def lowercaseBytes_def toLower_def)

lemma parsed_normal: "parsed_ok u \<Longrightarrow> normal_path (path u)"
  using normalizePath_normal by (auto simp: parsed_ok_def)

lemma FullURI_parsed:
  assumes "parsed_ok u"
  shows "snd (FullURI u) = uriScheme u @ strColonSlashSlash @ host u @ appendQuotedPath [] (path u) @
    (if length (queryString u) > 0 then 63 # queryString u else []) @ (if length (hash u) > 0 then 35 # hash u else [])"
proof -
  have "path u \<noteq> []" using parsed_normal [OF assms] by (auto simp: normal_path_def)
  with assms show ?thesis
    by (simp add: FullURI_def uriAppendBytes_def appendSchemeHost_def RequestURI_def uriPath_def parsed_ok_def Let_def)
qed

text \<open>C26: What the library prints of a URI it has parsed, it parses again to the same URI: scheme, host, path, query
  string and fragment come back, whatever URI, host header and transport the first parse had. The one premise is
  that the host, from which the first parse has taken the escapes, still parses to itself.\<close>

theorem full_uri_roundtrip:
  assumes "uriParse u hst uri isTLS = (u', None)" "parseHost (host u') = Inr (host u')"
  shows "\<exists>w. uriParse v [] (snd (FullURI u')) False = (w, None) \<and> uriScheme w = uriScheme u' \<and> host w = host u' \<and>
    path w = path u' \<and> queryString w = queryString u' \<and> hash w = hash u'"
proof -
  note ok = uriParse_ok [OF assms(1)]
  note norm = parsed_normal [OF ok]
  define q where "q = appendQuotedPath [] (path u')"
  define r where "r = q @ (if length (queryString u') > 0 then 63 # queryString u' else []) @
    (if length (hash u') > 0 then 35 # hash u' else [])"
  have "path u' \<noteq> [42]" "path u' \<noteq> []" using norm by (auto simp: normal_path_def rooted_def)
  then have bytes: "\<forall>c \<in> set q. \<not> ctl c \<and> c \<noteq> 63 \<and> c \<noteq> 35"
    using quoted_path_bytes by (auto simp: q_def appendQuotedPath_def)
  have "rooted q" using norm unfolding q_def by (rule quoted_rooted)
  then have rooted: "rooted r" unfolding r_def by (rule rooted_append)
  have ctl: "\<forall>c \<in> set (uriScheme u') \<union> set r. \<not> ctl c"
    using ok bytes by (cases "queryString u'"; cases "hash u'") (simp_all add: parsed_ok_def r_def uriScheme_def ball_Un)
  have sch: "47 \<notin> set (uriScheme u')" "lowercaseBytes (uriScheme u') = uriScheme u'" "uriScheme u' \<noteq> []"
    using ok by (simp_all add: parsed_ok_def uriScheme_def lower_http)
  have "lowercaseBytes (host u') = host u'" "35 \<notin> set (queryString u')" using ok by (simp_all add: parsed_ok_def)
  from uriParse_printed [OF sch(1,2) this(1) assms(2) rooted ctl, of v] obtain u1 where
    p: "uriParse v [] (uriScheme u' @ strColonSlashSlash @ host u' @ r) False = (splitPath u1 r, None)"
      "scheme u1 = uriScheme u'" "host u1 = host u'" "queryString u1 = []" "hash u1 = []" by blast
  have "path (splitPath u1 r) = normalizePath q \<and> queryString (splitPath u1 r) = queryString u' \<and>
      hash (splitPath u1 r) = hash u' \<and> scheme (splitPath u1 r) = scheme u1 \<and> host (splitPath u1 r) = host u1"
    using bytes \<open>35 \<notin> set (queryString u')\<close> p(4,5) unfolding r_def by (intro splitPath_printed) auto
  moreover have "normalizePath q = path u'" unfolding q_def by (rule normalizePath_quoted [OF norm])
  moreover have "snd (FullURI u') = uriScheme u' @ strColonSlashSlash @ host u' @ r"
    using FullURI_parsed [OF ok] by (simp add: r_def q_def)
  ultimately show ?thesis using p sch(3) by (auto simp: uriScheme_def)
qed

definition blankURI :: URI where
  "blankURI = \<lparr>pathOriginal = [], scheme = [], path = [], queryString = [], hash = [], host = [],
     queryArgs = \<lparr>args = [], abuf = []\<rparr>, parsedQueryArgs = False, DisablePathNormalizing = False, fullURI = [],
     requestURI = [], username = [], password = [], apiID = [], apiKey = []\<rparr>"

text \<open>\<open>Http://H/a/../b?k#f\<close> is printed as \<open>http://h/b?k#f\<close>.\<close>

definition sampleURI :: URI where
  "sampleURI = fst (uriParse blankURI [] [72, 116, 116, 112, 58, 47, 47, 72, 47, 97, 47, 46, 46, 47, 98, 63, 107, 35, 102] False)"

theorem full_uri_roundtrip_witness:
  "snd (FullURI sampleURI) = [104, 116, 116, 112, 58, 47, 47, 104, 47, 98, 63, 107, 35, 102] \<and>
   (\<exists>w. uriParse blankURI [] (snd (FullURI sampleURI)) False = (w, None) \<and> path w = [47, 98])"
proof -
  have "snd (uriParse blankURI [] [72, 116, 116, 112, 58, 47, 47, 72, 47, 97, 47, 46, 46, 47, 98, 63, 107, 35, 102] False) = None"
    by code_simp
  then have "uriParse blankURI [] [72, 116, 116, 112, 58, 47, 47, 72, 47, 97, 47, 46, 46, 47, 98, 63, 107, 35, 102] False =
    (sampleURI, None)" unfolding sampleURI_def by (metis prod.collapse)
  moreover have "parseHost (host sampleURI) = Inr (host sampleURI)" by code_simp
  moreover have "path sampleURI = [47, 98]"
    "snd (FullURI sampleURI) = [104, 116, 116, 112, 58, 47, 47, 104, 47, 98, 63, 107, 35, 102]" by code_simp+
  ultimately show ?thesis using full_uri_roundtrip [of blankURI "[]" _ False sampleURI blankURI] by metis
qed

end
