(* ===== verification/HttpBody.thy ===== *)
theory HttpBody
  imports HttpBytes
begin

section \<open>HTTP bodies\<close>

text \<open>
  The body of a message: \<open>lib/fasthttp/http.go\<close> from \<open>writeBodyChunked\<close> to \<open>round2\<close>,
  \<open>lib/fasthttp/streaming.go\<close> and the growing of a buffer in \<open>lib/bytebufferpool/bytebuffer.go\<close>.

  A \<open>bufio.Reader\<close> is the bytes that are still to come, the error behind them, and how many bytes each
  call of \<open>Read\<close> returns at most (\<open>sizes\<close>, from then on all that fits). A slice is its bytes and its
  capacity: what lies between the two is overwritten before it is read. A \<open>bufio.Writer\<close> is what it has
  written and the number of bytes it can still take; an error that \<open>bufio\<close> keeps for the next call is
  reported at once, which nobody sees since every chunk ends with \<open>Flush\<close>.
\<close>

subsection \<open>Readers, writers and slices\<close>

datatype bodyError =
  IOError string | ErrBodyTooLarge | ErrChunkedStream | ErrBrokenChunk string

definition errUnexpectedEOF :: string where "errUnexpectedEOF = ''unexpected EOF''"

record reader =
  input :: bytes
  fin :: string
  sizes :: "nat list"

definition rRead :: "reader \<Rightarrow> nat \<Rightarrow> reader \<times> bytes \<times> string option" where
  "rRead r k =
     (if k = 0 then (r, [], None)
      else if input r = [] then (r, [], Some (fin r))
      else (let n = (case sizes r of [] \<Rightarrow> k | s # _ \<Rightarrow> min k (max 1 s))
            in (r\<lparr>input := drop n (input r), sizes := tl (sizes r)\<rparr>, take n (input r), None)))"

definition ReadByte :: "reader \<Rightarrow> reader \<times> (string + byte)" where
  "ReadByte r = (case input r of [] \<Rightarrow> (r, Inl (fin r)) | c # b \<Rightarrow> (r\<lparr>input := b\<rparr>, Inr c))"

record writer =
  written :: bytes
  room :: nat

definition wWrite :: "writer \<Rightarrow> bytes \<Rightarrow> writer \<times> string option" where
  "wWrite w b = (w\<lparr>written := written w @ take (room w) b, room := room w - length b\<rparr>,
     if length b \<le> room w then None else Some ''write error'')"

record slice =
  sdata :: bytes
  scap :: nat

text \<open>The most bytes \<open>make\<close> can allocate on a 64-bit system; more panic at once.\<close>

definition maxAlloc :: int where "maxAlloc = 2 ^ 48"

definition makeSlice :: "int \<Rightarrow> int go" where
  "makeSlice n = (if n < 0 \<or> n > maxAlloc then Panic ''makeslice: len out of range'' else Ret n)"

definition maxInt32 :: int where "maxInt32 = 2 ^ 31 - 1"

definition round2 :: "int \<Rightarrow> int" where
  "round2 n =
     (if n \<le> 0 then 0
      else
        (let x = (word_of_int (n - 1) :: 32 word);
             x = or x (drop_bit 1 x);
             x = or x (drop_bit 2 x);
             x = or x (drop_bit 4 x);
             x = or x (drop_bit 8 x);
             x = or x (drop_bit 16 x)
         in if x \<ge> word_of_int maxInt32 then maxInt32 else uint (x + 1)))"

subsection \<open>A body of known length\<close>

text \<open>\<open>buf\<close> is \<open>dst[:offset]\<close>; the loop reads until it has \<open>dstLen\<close> bytes.\<close>

lemma rRead_props:
  assumes "rRead r k = (r', b, e)"
  shows "length b \<le> k" "b \<noteq> [] \<Longrightarrow> length (input r') < length (input r)" "input r = b @ input r'" "fin r' = fin r"
  using assms by (auto simp: rRead_def Let_def split: if_splits list.splits)

lemma rRead_shorter: "(r', c # b, e) = rRead r k \<Longrightarrow> length (input r') < length (input r)"
  using rRead_props(2) [of r k r' "c # b" e] by simp

function (sequential) fixedLoop :: "reader \<Rightarrow> bytes \<Rightarrow> nat \<Rightarrow> nat \<Rightarrow> (reader \<times> slice \<times> bodyError option) go" where
  "fixedLoop r buf c dstLen =
     (case rRead r (dstLen - length buf) of
        (r', [], None) \<Rightarrow> Panic ''BUG: bufio.Read() returned (0, nil)''
      | (r', [], Some err) \<Rightarrow>
          Ret (r', \<lparr>sdata = buf, scap = c\<rparr>, Some (IOError (if err = errEOF then errUnexpectedEOF else err)))
      | (r', b, _) \<Rightarrow>
          if length (buf @ b) = dstLen then Ret (r', \<lparr>sdata = buf @ b, scap = c\<rparr>, None)
          else fixedLoop r' (buf @ b) c dstLen)"
  by pat_completeness auto
termination
  by (relation "measure (\<lambda>(r, _). length (input r))") (auto dest: rRead_shorter)

declare fixedLoop.simps [simp del]

text \<open>\<open>len(dst) + n\<close> does not overflow: a chunk has less than \<open>2\<^sup>6\<^sup>0\<close> bytes, and \<open>dst\<close> is empty otherwise.\<close>

definition appendBodyFixedSize :: "reader \<Rightarrow> slice \<Rightarrow> int \<Rightarrow> (reader \<times> slice \<times> bodyError option) go" where
  "appendBodyFixedSize r dst n =
     (if n = 0 then Ret (r, dst, None)
      else
        (let dstLen = int (length (sdata dst)) + n
         in go_bind (if int (scap dst) < dstLen then makeSlice (round2 dstLen) else Ret (int (scap dst))) (\<lambda>c.
              if dstLen < 0 \<or> dstLen > c then Panic ''slice bounds out of range''
              else fixedLoop r (sdata dst) (nat c) (nat dstLen))))"

definition readBodyFixed :: "reader \<Rightarrow> int \<Rightarrow> int \<Rightarrow> slice \<Rightarrow> (reader \<times> slice \<times> bodyError option) go" where
  "readBodyFixed r contentLength maxBodySize dst =
     (if maxBodySize > 0 \<and> contentLength > maxBodySize then Ret (r, dst, Some ErrBodyTooLarge)
      else appendBodyFixedSize r dst contentLength)"

definition GrowTo :: "slice \<Rightarrow> int \<Rightarrow> slice go" where
  "GrowTo b n =
     (let offset = int (length (sdata b)); left = int (scap b) - offset
      in if left < n then go_bind (makeSlice (offset + n)) (\<lambda>c. Ret (b\<lparr>scap := nat c\<rparr>)) else Ret b)"

definition appendBodyFixedSizeWithBytesBuffer :: "reader \<Rightarrow> slice \<Rightarrow> int \<Rightarrow> (reader \<times> slice \<times> bodyError option) go" where
  "appendBodyFixedSizeWithBytesBuffer r buff n =
     (if n = 0 then Ret (r, buff, None)
      else
        go_bind (GrowTo buff n) (\<lambda>buff.
          let dstLen = int (length (sdata buff)) + n
          in if dstLen < 0 \<or> dstLen > int (scap buff) then Panic ''slice bounds out of range''
             else fixedLoop r (sdata buff) (scap buff) (nat dstLen)))"

definition readBodyWithBytesBuffer :: "reader \<Rightarrow> int \<Rightarrow> int \<Rightarrow> slice \<Rightarrow> (reader \<times> slice \<times> bodyError option) go" where
  "readBodyWithBytesBuffer r contentLength maxBodySize buf =
     (if maxBodySize > 0 \<and> contentLength > maxBodySize then Ret (r, buf, Some ErrBodyTooLarge)
      else appendBodyFixedSizeWithBytesBuffer r buf contentLength)"

subsection \<open>A body that ends with the connection\<close>

text \<open>\<open>dst[:offset]\<close> is \<open>buf\<close>, \<open>l\<close> the length of \<open>dst\<close>.\<close>

function (sequential) identityLoop :: "reader \<Rightarrow> int \<Rightarrow> bytes \<Rightarrow> nat \<Rightarrow> (reader \<times> slice \<times> bodyError option) go" where
  "identityLoop r maxBodySize buf l =
     (if l < length buf then Panic ''slice bounds out of range''
      else case rRead r (l - length buf) of
        (r', [], None) \<Rightarrow> Panic ''BUG: bufio.Read() returned (0, nil)''
      | (r', [], Some err) \<Rightarrow> Ret (r', \<lparr>sdata = buf, scap = l\<rparr>, if err = errEOF then None else Some (IOError err))
      | (r', b, _) \<Rightarrow>
          let buf' = buf @ b; offset = int (length buf')
          in if maxBodySize > 0 \<and> offset > maxBodySize then Ret (r', \<lparr>sdata = buf', scap = l\<rparr>, Some ErrBodyTooLarge)
             else if l = length buf'
             then (let n = round2 (2 * offset);
                       n = (if maxBodySize > 0 \<and> n > maxBodySize then maxBodySize + 1 else n)
                   in case makeSlice n of Panic m \<Rightarrow> Panic m
                      | Ret _ \<Rightarrow> identityLoop r' maxBodySize buf' (nat n))
             else identityLoop r' maxBodySize buf' l)"
  by pat_completeness auto
termination
  by (relation "measure (\<lambda>(r, _). length (input r))") (auto dest: rRead_shorter)

declare identityLoop.simps [simp del]

definition readBodyIdentity :: "reader \<Rightarrow> int \<Rightarrow> slice \<Rightarrow> (reader \<times> slice \<times> bodyError option) go" where
  "readBodyIdentity r maxBodySize dst = identityLoop r maxBodySize [] (if scap dst = 0 then 1024 else scap dst)"

subsection \<open>Chunks\<close>

definition strCRLF :: bytes where "strCRLF = [13, 10]"

fun readExpected :: "bytes \<Rightarrow> reader \<Rightarrow> reader \<times> bodyError option" where
  "readExpected [] r = (r, None)"
| "readExpected (e # es) r =
     (case ReadByte r of
        (r', Inl err) \<Rightarrow> (r', Some (ErrBrokenChunk (''cannot read char at the end of chunk size: '' @ err)))
      | (r', Inr c) \<Rightarrow>
          if c \<noteq> e then (r', Some (ErrBrokenChunk ''unexpected char at the end of chunk size'')) else readExpected es r')"

definition readCrLf :: "reader \<Rightarrow> reader \<times> bodyError option" where
  "readCrLf r = readExpected strCRLF r"

text \<open>The loop that skips a chunk extension puts the carriage return back.\<close>

definition skipExtension :: "bytes \<Rightarrow> bytes" where
  "skipExtension b = dropWhile (\<lambda>c. c \<noteq> 13) b"

definition parseChunkSize :: "reader \<Rightarrow> reader \<times> (bodyError + int)" where
  "parseChunkSize r =
     (case readHexInt (fin r) (input r) of
        (b, Inl err) \<Rightarrow> (r\<lparr>input := b\<rparr>, Inl (IOError err))
      | (b, Inr n) \<Rightarrow>
          (let r = r\<lparr>input := skipExtension b\<rparr>
           in if input r = [] then (r, Inl (ErrBrokenChunk (''cannot read CR at the end of chunk size: '' @ fin r)))
              else case readCrLf r of (r', Some err) \<Rightarrow> (r', Inl err) | (r', None) \<Rightarrow> (r', Inr n)))"

lemma readExpected_props:
  "readExpected es r = (r', e) \<Longrightarrow> length (input r') \<le> length (input r) \<and> fin r' = fin r \<and> sizes r' = sizes r"
proof (induction es arbitrary: r)
  case (Cons e es)
  then show ?case by (fastforce simp: ReadByte_def split: list.splits if_splits)
qed simp

lemma parseChunkSize_props:
  assumes "parseChunkSize r = (r', Inr n)"
  shows "length (input r') < length (input r)" "fin r' = fin r" "0 \<le> n" "n < 2 ^ 60"
proof -
  obtain b where b: "readHexInt (fin r) (input r) = (b, Inr n)"
    "readCrLf (r\<lparr>input := skipExtension b\<rparr>) = (r', None)"
    using assms by (auto simp: parseChunkSize_def Let_def split: prod.splits sum.splits if_splits option.splits)
  have "length (skipExtension b) \<le> length b" by (simp add: skipExtension_def length_dropWhile_le)
  with readExpected_props [OF b(2) [unfolded readCrLf_def]] readHexInt_shorter [OF b(1)]
  show "length (input r') < length (input r)" "fin r' = fin r" "0 \<le> n" "n < 2 ^ 60" by simp_all
qed

lemma fixedLoop_props:
  "fixedLoop r buf c dstLen = Ret (r', s, e) \<Longrightarrow> length buf \<le> dstLen \<Longrightarrow>
     \<exists>b. input r = b @ input r' \<and> sdata s = buf @ b \<and> scap s = c \<and> fin r' = fin r \<and> length (sdata s) \<le> dstLen \<and>
       (e = None \<longrightarrow> length (sdata s) = dstLen)"
proof (induction r buf c dstLen rule: fixedLoop.induct)
  case (1 r buf c dstLen)
  obtain r1 b e1 where rd: "rRead r (dstLen - length buf) = (r1, b, e1)" by (cases "rRead r (dstLen - length buf)") auto
  note props = rRead_props [OF rd]
  show ?case
  proof (cases b)
    case Nil
    with 1 rd props show ?thesis by (cases e1) (auto simp: fixedLoop.simps [of r buf])
  next
    case (Cons x xs)
    have "length (buf @ b) \<le> dstLen" using props(1) "1.prems"(2) by simp
    moreover note "1.IH" [OF rd [symmetric] refl Cons]
    ultimately show ?thesis using "1.prems" rd props Cons
      by (cases "length (buf @ b) = dstLen") (force simp: fixedLoop.simps [of r buf])+
  qed
qed

lemma appendBodyFixedSize_props:
  assumes "appendBodyFixedSize r dst n = Ret (r', s, e)" "0 \<le> n"
  shows "\<exists>b. input r = b @ input r' \<and> sdata s = sdata dst @ b \<and> fin r' = fin r \<and> int (length b) \<le> n \<and>
    (e = None \<longrightarrow> int (length b) = n)"
proof (cases "n = 0")
  case False
  then obtain c where c: "fixedLoop r (sdata dst) c (nat (int (length (sdata dst)) + n)) = Ret (r', s, e)"
    using assms(1) by (auto simp: appendBodyFixedSize_def Let_def go_bind_Ret_iff split: if_splits)
  have "length (sdata dst) \<le> nat (int (length (sdata dst)) + n)" using assms(2) by simp
  from fixedLoop_props [OF c this] assms(2) show ?thesis by auto
qed (use assms in \<open>auto simp: appendBodyFixedSize_def\<close>)

lemma appendBodyFixedSize_shorter:
  "Ret (r', s, e) = appendBodyFixedSize r dst n \<Longrightarrow> 0 \<le> n \<Longrightarrow> length (input r') \<le> length (input r)"
  using appendBodyFixedSize_props [of r dst n r' s e] by auto

function (sequential) chunkLoop :: "reader \<Rightarrow> int \<Rightarrow> slice \<Rightarrow> (reader \<times> slice \<times> bodyError option) go" where
  "chunkLoop r maxBodySize dst =
     (case parseChunkSize r of
        (r1, Inl err) \<Rightarrow> Ret (r1, dst, Some err)
      | (r1, Inr chunkSize) \<Rightarrow>
          if chunkSize = 0 then Ret (r1, dst, None)
          else if maxBodySize > 0 \<and> int (length (sdata dst)) + chunkSize > maxBodySize then Ret (r1, dst, Some ErrBodyTooLarge)
          else (case appendBodyFixedSize r1 dst (chunkSize + int (length strCRLF)) of
                  Panic m \<Rightarrow> Panic m
                | Ret (r2, dst2, Some err) \<Rightarrow> Ret (r2, dst2, Some err)
                | Ret (r2, dst2, None) \<Rightarrow>
                    let l = length (sdata dst2) - length strCRLF
                    in if drop l (sdata dst2) \<noteq> strCRLF
                       then Ret (r2, dst2, Some (ErrBrokenChunk ''cannot find crlf at the end of chunk''))
                       else chunkLoop r2 maxBodySize (dst2\<lparr>sdata := take l (sdata dst2)\<rparr>)))"
  by pat_completeness auto
termination
proof (relation "measure (\<lambda>(r, _). length (input r))")
  fix r maxBodySize dst r1 y chunkSize x r2 w dst2 e l
  assume "(r1, y) = parseChunkSize r" "y = Inr chunkSize"
    and a: "appendBodyFixedSize r1 dst (chunkSize + int (length strCRLF)) = Ret x" "(r2, w) = x" "(dst2, e) = w"
  then have p: "parseChunkSize r = (r1, Inr chunkSize)" by simp
  have "Ret (r2, dst2, e) = appendBodyFixedSize r1 dst (chunkSize + int (length strCRLF))" using a by simp
  then have "length (input r2) \<le> length (input r1)"
    by (rule appendBodyFixedSize_shorter) (use parseChunkSize_props(3) [OF p] in simp)
  with parseChunkSize_props(1) [OF p]
  show "((r2, maxBodySize, dst2\<lparr>sdata := take l (sdata dst2)\<rparr>), r, maxBodySize, dst) \<in> measure (\<lambda>(r, _). length (input r))"
    by simp
qed simp

declare chunkLoop.simps [simp del]

definition readBodyChunked :: "reader \<Rightarrow> int \<Rightarrow> slice \<Rightarrow> (reader \<times> slice \<times> bodyError option) go" where
  "readBodyChunked r maxBodySize dst =
     (if length (sdata dst) > 0 then Panic ''BUG: expected zero-length buffer'' else chunkLoop r maxBodySize dst)"

subsection \<open>Writing chunks\<close>

definition writeChunk :: "writer \<Rightarrow> bytes \<Rightarrow> (writer \<times> string option) go" where
  "writeChunk w b =
     (let n = length b
      in go_bind (writeHexInt [] (int n)) (\<lambda>digits.
           case wWrite w digits of (w, Some err) \<Rightarrow> Ret (w, Some err) | (w, None) \<Rightarrow>
           (case wWrite w strCRLF of (w, Some err) \<Rightarrow> Ret (w, Some err) | (w, None) \<Rightarrow>
           (case wWrite w b of (w, Some err) \<Rightarrow> Ret (w, Some err) | (w, None) \<Rightarrow>
            Ret (if n > 0 then wWrite w strCRLF else (w, None))))))"

definition copyBufSize :: nat where "copyBufSize = 4096"

function (sequential) writeBodyChunked :: "writer \<Rightarrow> reader \<Rightarrow> (writer \<times> reader \<times> string option) go" where
  "writeBodyChunked w r =
     (case rRead r copyBufSize of
        (r', [], None) \<Rightarrow> Panic ''BUG: io.Reader returned 0, nil''
      | (r', [], Some err) \<Rightarrow>
          if err = errEOF
          then (case writeChunk w [] of Panic m \<Rightarrow> Panic m | Ret (w', err') \<Rightarrow> Ret (w', r', err'))
          else Ret (w, r', Some err)
      | (r', b, _) \<Rightarrow>
          (case writeChunk w b of
             Panic m \<Rightarrow> Panic m
           | Ret (w', Some err) \<Rightarrow> Ret (w', r', Some err)
           | Ret (w', None) \<Rightarrow> writeBodyChunked w' r'))"
  by pat_completeness auto
termination
  by (relation "measure (\<lambda>(_, r). length (input r))") (auto dest: rRead_shorter)

declare writeBodyChunked.simps [simp del]

subsection \<open>Streams\<close>

text \<open>The header is an interface: the body length it tells, and how it reads the trailer.\<close>

definition readBodyWithStreaming :: "reader \<Rightarrow> int \<Rightarrow> int \<Rightarrow> slice \<Rightarrow> (reader \<times> slice \<times> bodyError option) go" where
  "readBodyWithStreaming r contentLength maxBodySize dst =
     (if contentLength = -1 then Ret (r, \<lparr>sdata = [], scap = 0\<rparr>, Some ErrChunkedStream)
      else
        (let dst = dst\<lparr>sdata := []\<rparr>;
             readN = maxBodySize;
             readN = (if readN > contentLength then contentLength else readN);
             readN = (if readN > 8 * 1024 then 8 * 1024 else readN)
         in go_bind (if contentLength \<ge> 0 \<and> maxBodySize \<ge> contentLength then appendBodyFixedSize r dst readN
                     else readBodyIdentity r readN dst) (\<lambda>(r, b, err).
              if err \<noteq> None then Ret (r, b, err)
              else Ret (r, b, if contentLength > maxBodySize then Some ErrBodyTooLarge else None))))"

record headerInterface =
  ContentLength :: int
  ReadTrailer :: "reader \<Rightarrow> reader \<times> string option"

record requestStream =
  rsHeader :: headerInterface
  prefetched :: bytes
  prefetchedPos :: nat
  rsReader :: reader
  totalBytesRead :: nat
  chunkLeft :: int

definition acquireRequestStream :: "bytes \<Rightarrow> reader \<Rightarrow> headerInterface \<Rightarrow> requestStream" where
  "acquireRequestStream b r h = \<lparr>rsHeader = h, prefetched = b, prefetchedPos = 0, rsReader = r, totalBytesRead = 0, chunkLeft = 0\<rparr>"

text \<open>The part of a chunked \<open>Read\<close> behind the size of the chunk; \<open>k\<close> is \<open>len(p)\<close>.\<close>

definition chunkRead :: "requestStream \<Rightarrow> nat \<Rightarrow> requestStream \<times> bytes \<times> bodyError option" where
  "chunkRead rs k =
     (let bytesToRead = (if chunkLeft rs < int k then nat (chunkLeft rs) else k);
          (r, b, err) = rRead (rsReader rs) bytesToRead;
          rs = rs\<lparr>rsReader := r, totalBytesRead := totalBytesRead rs + length b, chunkLeft := chunkLeft rs - int (length b)\<rparr>
      in case err of
           Some e \<Rightarrow> (rs, b, Some (IOError (if e = errEOF then errUnexpectedEOF else e)))
         | None \<Rightarrow>
             if chunkLeft rs = 0 then (let (r, err) = readCrLf (rsReader rs) in (rs\<lparr>rsReader := r\<rparr>, b, err))
             else (rs, b, None))"

definition streamRead :: "requestStream \<Rightarrow> nat \<Rightarrow> requestStream \<times> bytes \<times> bodyError option" where
  "streamRead rs k =
     (let cl = ContentLength (rsHeader rs)
      in if cl = -1
         then
           (if chunkLeft rs = 0
            then (case parseChunkSize (rsReader rs) of
                    (r, Inl err) \<Rightarrow> (rs\<lparr>rsReader := r\<rparr>, [], Some err)
                  | (r, Inr chunkSize) \<Rightarrow>
                      if chunkSize = 0
                      then (let (r, err) = ReadTrailer (rsHeader rs) r
                            in (rs\<lparr>rsReader := r\<rparr>, [],
                                Some (IOError (case err of Some e \<Rightarrow> if e \<noteq> errEOF then e else errEOF | None \<Rightarrow> errEOF))))
                      else chunkRead (rs\<lparr>rsReader := r, chunkLeft := chunkSize\<rparr>) k)
            else chunkRead rs k)
         else if int (totalBytesRead rs) = cl then (rs, [], Some (IOError errEOF))
         else if length (prefetched rs) > totalBytesRead rs
         then
           (let left = length (prefetched rs) - totalBytesRead rs;
                k = (if k > left then left else k);
                b = take k (drop (prefetchedPos rs) (prefetched rs));
                err = (if prefetchedPos rs \<ge> length (prefetched rs) then Some (IOError errEOF) else None);
                rs = rs\<lparr>prefetchedPos := prefetchedPos rs + length b, totalBytesRead := totalBytesRead rs + length b\<rparr>
            in if int (length b) = cl then (rs, b, Some (IOError errEOF)) else (rs, b, err))
         else
           (let left = cl - int (totalBytesRead rs);
                k = (if left > 0 \<and> int k > left then nat left else k);
                (r, b, err) = rRead (rsReader rs) k;
                rs = rs\<lparr>rsReader := r, totalBytesRead := totalBytesRead rs + length b\<rparr>
            in case err of
                 Some e \<Rightarrow> (rs, b, Some (IOError e))
               | None \<Rightarrow> (rs, b, if int (totalBytesRead rs) = cl then Some (IOError errEOF) else None)))"

subsection \<open>Rounding up\<close>

lemma smear_le: "(x :: 32 word) \<le> or x (drop_bit n x)"
  by (rule le_word_or2) 

lemma round2_upper: "0 \<le> round2 n \<and> round2 n \<le> maxInt32"
proof -
  have "uint (x + 1) \<le> maxInt32" if "\<not> x \<ge> (word_of_int maxInt32 :: 32 word)" for x
  proof -
    have "uint x < maxInt32" using that by (simp add: word_le_def not_le maxInt32_def)
    then show ?thesis by (simp add: uint_word_ariths maxInt32_def)
  qed
  then show ?thesis by (simp add: round2_def Let_def maxInt32_def)
qed

lemma uint_word32: "0 \<le> m \<Longrightarrow> m < 2 ^ 32 \<Longrightarrow> uint (word_of_int m :: 32 word) = m"
  by (simp add: uint_word_of_int)

lemma round2_word:
  assumes "0 < n"
  obtains x :: "32 word" where "word_of_int (n - 1) \<le> x" "round2 n = (if x \<ge> word_of_int maxInt32 then maxInt32 else uint (x + 1))"
proof -
  define x0 :: "32 word" where "x0 = word_of_int (n - 1)"
  define x1 where "x1 = or x0 (drop_bit 1 x0)"
  define x2 where "x2 = or x1 (drop_bit 2 x1)"
  define x3 where "x3 = or x2 (drop_bit 4 x2)"
  define x4 where "x4 = or x3 (drop_bit 8 x3)"
  define x5 where "x5 = or x4 (drop_bit 16 x4)"
  note defs = x1_def x2_def x3_def x4_def x5_def
  have "x0 \<le> x1" unfolding x1_def by (rule smear_le)
  also have "x1 \<le> x2" unfolding x2_def by (rule smear_le)
  also have "x2 \<le> x3" unfolding x3_def by (rule smear_le)
  also have "x3 \<le> x4" unfolding x4_def by (rule smear_le)
  also have "x4 \<le> x5" unfolding x5_def by (rule smear_le)
  finally have "x0 \<le> x5" .
  moreover have "round2 n = (if x5 \<ge> word_of_int maxInt32 then maxInt32 else uint (x5 + 1))"
    using assms by (subst round2_def) (simp only: Let_def defs x0_def linorder_not_le [symmetric] if_False not_False_eq_True)
  ultimately show ?thesis using that x0_def by blast
qed

lemma round2_fits:
  assumes "n \<le> maxInt32"
  shows "n \<le> round2 n"
proof (cases "0 < n")
  case True
  from round2_word [OF this] obtain x :: "32 word" where
    x: "word_of_int (n - 1) \<le> x" "round2 n = (if x \<ge> word_of_int maxInt32 then maxInt32 else uint (x + 1))" by blast
  have "uint (word_of_int (n - 1) :: 32 word) = n - 1"
    using True assms by (intro uint_word32) (simp_all add: maxInt32_def)
  then have le: "n - 1 \<le> uint x" using x(1) by (simp add: word_le_def)
  show ?thesis
  proof (cases "x \<ge> word_of_int maxInt32")
    case False
    then have "uint x < maxInt32" by (simp add: word_le_def not_le maxInt32_def)
    then have "uint (x + 1) = uint x + 1" by (simp add: uint_word_ariths maxInt32_def)
    with x(2) le False show ?thesis by simp
  qed (use x(2) assms in simp)
qed (use round2_upper [of n] in simp)

lemma round2_large:
  assumes "maxInt32 < n" "n \<le> 2 ^ 32"
  shows "round2 n = maxInt32"
proof -
  have "0 < n" using assms by (simp add: maxInt32_def)
  from round2_word [OF this] obtain x :: "32 word" where
    x: "word_of_int (n - 1) \<le> x" "round2 n = (if x \<ge> word_of_int maxInt32 then maxInt32 else uint (x + 1))" by blast
  have "uint (word_of_int (n - 1) :: 32 word) = n - 1"
    using assms by (intro uint_word32) (simp_all add: maxInt32_def)
  then have "maxInt32 \<le> uint x" using x(1) assms(1) by (simp add: word_le_def)
  then have "x \<ge> word_of_int maxInt32" by (simp add: word_le_def maxInt32_def)
  with x(2) show ?thesis by simp
qed

subsection \<open>Bodies of known length\<close>

definition endError :: "reader \<Rightarrow> bodyError" where
  "endError r = IOError (if fin r = errEOF then errUnexpectedEOF else fin r)"

lemma fixedLoop_spec:
  "length buf < dstLen \<Longrightarrow>
     \<exists>r'. input r' = drop (dstLen - length buf) (input r) \<and> fin r' = fin r \<and>
       fixedLoop r buf c dstLen =
         Ret (r', \<lparr>sdata = buf @ take (dstLen - length buf) (input r), scap = c\<rparr>,
              if length (input r) < dstLen - length buf then Some (endError r) else None)"
proof (induction r buf c dstLen rule: fixedLoop.induct)
  case (1 r buf c dstLen)
  define k where "k = dstLen - length buf"
  have k: "k > 0" using "1.prems" by (simp add: k_def)
  obtain r1 b e1 where rd: "rRead r k = (r1, b, e1)" by (cases "rRead r k") auto
  note props = rRead_props [OF rd]
  show ?case
  proof (cases "input r = []")
    case True
    then have "rRead r k = (r, [], Some (fin r))" using k by (simp add: rRead_def)
    with True k show ?thesis by (simp add: fixedLoop.simps [of r buf] k_def endError_def)
  next
    case False
    then obtain x xs where b: "b = x # xs" using rd k by (cases b) (auto simp: rRead_def Let_def split: if_splits list.splits)
    show ?thesis
    proof (cases "length (buf @ b) = dstLen")
      case True
      then have "length b = k" using "1.prems" by (simp add: k_def)
      then have "take k (input r) = b" "drop k (input r) = input r1" "\<not> length (input r) < k" using props(3) by simp_all
      moreover have "fixedLoop r buf c dstLen = Ret (r1, \<lparr>sdata = buf @ b, scap = c\<rparr>, None)"
        using True rd b by (simp add: fixedLoop.simps [of r buf] k_def)
      ultimately show ?thesis using props(4) by (intro exI [of _ r1]) (simp add: k_def [symmetric])
    next
      case neq: False
      have lb: "length b < k" using props(1) neq "1.prems" by (simp add: k_def)
      then have "length (buf @ b) < dstLen" by (simp add: k_def)
      from "1.IH" [OF rd [unfolded k_def, symmetric] refl b neq [unfolded b] this [unfolded b]] obtain r' where
        r': "input r' = drop (dstLen - length (buf @ b)) (input r1)" "fin r' = fin r1"
          "fixedLoop r1 (buf @ b) c dstLen =
             Ret (r', \<lparr>sdata = (buf @ b) @ take (dstLen - length (buf @ b)) (input r1), scap = c\<rparr>,
                  if length (input r1) < dstLen - length (buf @ b) then Some (endError r1) else None)"
        using b by auto
      have "dstLen - length (buf @ b) = k - length b" by (simp add: k_def)
      moreover have "fixedLoop r buf c dstLen = fixedLoop r1 (buf @ b) c dstLen"
        using rd b neq by (simp add: fixedLoop.simps [of r buf] k_def)
      ultimately show ?thesis using r' props lb by (intro exI [of _ r']) (auto simp: k_def [symmetric] endError_def)
    qed
  qed
qed

lemma appendBodyFixedSize_spec:
  assumes "0 < n" "int (length (sdata dst)) + n \<le> maxInt32"
  shows "\<exists>r' c. input r' = drop (nat n) (input r) \<and> fin r' = fin r \<and>
    appendBodyFixedSize r dst n =
      Ret (r', \<lparr>sdata = sdata dst @ take (nat n) (input r), scap = c\<rparr>,
           if length (input r) < nat n then Some (endError r) else None)"
proof -
  define m where "m = int (length (sdata dst)) + n"
  have m: "0 < m" "m \<le> maxInt32" "nat m - length (sdata dst) = nat n" "length (sdata dst) < nat m"
    using assms by (simp_all add: m_def)
  define c where "c = (if int (scap dst) < m then round2 m else int (scap dst))"
  have c: "m \<le> c" "0 \<le> c" using round2_fits [OF m(2)] m(1) by (auto simp: c_def)
  have "makeSlice (round2 m) = Ret (round2 m)"
    using round2_upper [of m] by (simp add: makeSlice_def maxAlloc_def maxInt32_def)
  then have "appendBodyFixedSize r dst n = fixedLoop r (sdata dst) (nat c) (nat m)"
    using assms(1) c m(1) by (auto simp: appendBodyFixedSize_def m_def [symmetric] c_def Let_def)
  with fixedLoop_spec [OF m(4), of r "nat c"] m(3) show ?thesis by auto
qed

subsection \<open>Chunks are read as they are written\<close>

definition chunkHead :: "nat \<Rightarrow> bytes" where
  "chunkHead n = hexDigits (int n) [] @ strCRLF"

definition chunkEnc :: "bytes \<Rightarrow> bytes" where
  "chunkEnc b = chunkHead (length b) @ b @ (if b = [] then [] else strCRLF)"

lemma chunkEnc_nonempty: "b \<noteq> [] \<Longrightarrow> chunkEnc b = chunkHead (length b) @ b @ strCRLF"
  by (simp add: chunkEnc_def)

lemma readCrLf_CRLF: "readCrLf (r\<lparr>input := strCRLF @ b\<rparr>) = (r\<lparr>input := b\<rparr>, None)"
  by (simp add: readCrLf_def strCRLF_def ReadByte_def)

lemma parseChunkSize_head:
  assumes "n < 2 ^ 60" "input r = chunkHead n @ b"
  shows "parseChunkSize r = (r\<lparr>input := b\<rparr>, Inr (int n))"
proof -
  have "int n < 2 ^ 60" using assms by (metis of_nat_less_iff of_nat_numeral of_nat_power)
  moreover have "hex2int (hd (strCRLF @ b)) = 16" by (simp add: strCRLF_def hex2int_def)
  ultimately obtain d where d: "writeHexInt [] (int n) = Ret ([] @ d)" "readHexInt (fin r) (d @ strCRLF @ b) = (strCRLF @ b, Inr (int n))"
    using writeHex_readHex [of "int n" "strCRLF @ b" "fin r" "[]"] by (auto simp: strCRLF_def)
  moreover have "chunkHead n = d @ strCRLF" using d(1) by (simp add: writeHexInt_def chunkHead_def)
  moreover have "skipExtension (strCRLF @ b) = strCRLF @ b" by (simp add: skipExtension_def strCRLF_def)
  ultimately show ?thesis using readCrLf_CRLF [where r = r and b = b] assms(2) by (simp add: parseChunkSize_def) (simp add: strCRLF_def)
qed

lemma chunkLoop_chunks:
  assumes "\<forall>c \<in> set cs. c \<noteq> []" "int (length (sdata dst @ concat cs)) + 2 \<le> maxInt32"
    "maxBodySize \<le> 0 \<or> int (length (sdata dst @ concat cs)) \<le> maxBodySize"
    "input r = concat (map chunkEnc cs) @ chunkEnc [] @ rest"
  shows "\<exists>r' s. chunkLoop r maxBodySize dst = Ret (r', s, None) \<and> sdata s = sdata dst @ concat cs \<and> input r' = rest \<and> fin r' = fin r"
  using assms
proof (induction cs arbitrary: r dst)
  case Nil
  have "parseChunkSize r = (r\<lparr>input := rest\<rparr>, Inr 0)"
    using parseChunkSize_head [of 0 r rest] Nil.prems(4) by (simp add: chunkEnc_def)
  then show ?case by (simp add: chunkLoop.simps [of r])
next
  case (Cons c cs)
  let ?rest = "concat (map chunkEnc cs) @ chunkEnc [] @ rest"
  have c: "c \<noteq> []" "int (length (sdata dst)) + (int (length c) + 2) \<le> maxInt32" "length c < 2 ^ 60"
    using Cons.prems(1,2) by (auto simp: maxInt32_def)
  have "input r = chunkHead (length c) @ c @ strCRLF @ ?rest" using Cons.prems(4) chunkEnc_nonempty [OF c(1)] by simp
  note p = parseChunkSize_head [OF c(3) this]
  define r1 where "r1 = r\<lparr>input := c @ strCRLF @ ?rest\<rparr>"
  have crlf: "length strCRLF = 2" by (simp add: strCRLF_def)
  have r1: "input r1 = (c @ strCRLF) @ ?rest" "fin r1 = fin r" "nat (int (length c) + 2) = length (c @ strCRLF)"
    by (simp_all add: r1_def crlf)
  from appendBodyFixedSize_spec [OF _ c(2), of r1] obtain r2 k where
    a: "input r2 = ?rest" "fin r2 = fin r"
      "appendBodyFixedSize r1 dst (int (length c) + 2) = Ret (r2, \<lparr>sdata = sdata dst @ c @ strCRLF, scap = k\<rparr>, None)"
    unfolding r1 by auto
  have max: "\<not> (maxBodySize > 0 \<and> int (length (sdata dst)) + int (length c) > maxBodySize)" using Cons.prems(3) by auto
  have "chunkLoop r maxBodySize dst = chunkLoop r2 maxBodySize \<lparr>sdata = sdata dst @ c, scap = k\<rparr>"
    using p a(3) c(1) by (simp add: chunkLoop.simps [of r] r1_def [symmetric] crlf Let_def if_not_P [OF max])
  with Cons.IH [of "\<lparr>sdata = sdata dst @ c, scap = k\<rparr>" r2] Cons.prems a(1,2) show ?case by simp
qed

lemma wWrite_ok: "wWrite w b = (w', None) \<Longrightarrow> written w' = written w @ b \<and> length b \<le> room w \<and> room w' = room w - length b"
  by (auto simp: wWrite_def split: if_splits)

lemma writeChunk_ok:
  assumes "writeChunk w b = Ret (w', None)"
  shows "written w' = written w @ chunkEnc b"
proof -
  obtain w1 w2 w3 where "wWrite w (hexDigits (int (length b)) []) = (w1, None)" "wWrite w1 strCRLF = (w2, None)"
    "wWrite w2 b = (w3, None)" "(if length b > 0 then wWrite w3 strCRLF else (w3, None)) = (w', None)"
    using assms by (auto simp: writeChunk_def writeHexInt_def Let_def split: prod.splits option.splits if_splits)
  then show ?thesis by (auto simp: chunkEnc_def chunkHead_def dest!: wWrite_ok split: if_splits)
qed

lemma writeBodyChunked_chunks:
  "writeBodyChunked w r = Ret (w', r', None) \<Longrightarrow>
     \<exists>cs. (\<forall>c \<in> set cs. c \<noteq> []) \<and> concat cs = input r \<and>
       written w' = written w @ concat (map chunkEnc cs) @ chunkEnc []"
proof (induction w r rule: writeBodyChunked.induct)
  case (1 w r)
  obtain r1 b e where rd: "rRead r copyBufSize = (r1, b, e)" by (cases "rRead r copyBufSize") auto
  note props = rRead_props [OF rd]
  show ?case
  proof (cases b)
    case Nil
    with rd have "input r = []" by (auto simp: rRead_def copyBufSize_def Let_def split: if_splits list.splits)
    moreover have "written w' = written w @ chunkEnc []"
      using "1.prems" rd Nil writeChunk_ok [of w "[]"]
      by (auto simp: writeBodyChunked.simps [of w r] split: option.splits if_splits go.splits prod.splits)
    ultimately show ?thesis by (intro exI [of _ "[]"]) simp
  next
    case (Cons x xs)
    then obtain w1 where w1: "writeChunk w b = Ret (w1, None)" "writeBodyChunked w1 r1 = Ret (w', r', None)"
      using "1.prems" rd by (auto simp: writeBodyChunked.simps [of w r] split: option.splits go.splits prod.splits)
    from "1.IH" [OF rd [symmetric] refl Cons w1(1) [unfolded Cons] refl refl w1(2)] obtain cs where
      "\<forall>c \<in> set cs. c \<noteq> []" "concat cs = input r1" "written w' = written w1 @ concat (map chunkEnc cs) @ chunkEnc []" by blast
    with writeChunk_ok [OF w1(1)] props(3) Cons show ?thesis by (intro exI [of _ "b # cs"]) simp
  qed
qed

text \<open>C29: Chunked bodies round trip. What \<open>writeBodyChunked\<close> writes of any source, whatever pieces the source hands
  out, is read back by \<open>readBodyChunked\<close> as the same bytes, whatever pieces the connection hands out; what follows
  the last chunk stays in the reader. The body is within the limit of the reader, and within 2 GiB.\<close>

theorem chunked_body_roundtrip:
  assumes "writeBodyChunked w src = Ret (w', src', None)" "written w' = written w @ enc" "input r = enc @ rest"
    "sdata dst = []" "maxBodySize \<le> 0 \<or> int (length (input src)) \<le> maxBodySize" "int (length (input src)) + 2 \<le> maxInt32"
  shows "\<exists>r' s. readBodyChunked r maxBodySize dst = Ret (r', s, None) \<and> sdata s = input src \<and> input r' = rest"
proof -
  from writeBodyChunked_chunks [OF assms(1)] obtain cs where
    cs: "\<forall>c \<in> set cs. c \<noteq> []" "concat cs = input src" "enc = concat (map chunkEnc cs) @ chunkEnc []"
    using assms(2) by auto
  with chunkLoop_chunks [of cs dst maxBodySize r rest] assms(3-6) show ?thesis by (auto simp: readBodyChunked_def)
qed

theorem chunked_body_roundtrip_witness:
  "\<exists>r' s. readBodyChunked \<lparr>input = [49, 13, 10, 104, 13, 10, 49, 13, 10, 105, 13, 10, 48, 13, 10, 13, 10], fin = errEOF, sizes = [2, 1]\<rparr> 0
     \<lparr>sdata = [], scap = 0\<rparr> = Ret (r', s, None) \<and> sdata s = [104, 105] \<and> input r' = [13, 10]"
proof -
  let ?src = "\<lparr>input = [104, 105], fin = errEOF, sizes = [1]\<rparr>" and ?w = "\<lparr>written = [], room = 100\<rparr>"
  let ?enc = "[49, 13, 10, 104, 13, 10, 49, 13, 10, 105, 13, 10, 48, 13, 10]"
  have "writeBodyChunked ?w ?src = Ret (\<lparr>written = ?enc, room = 85\<rparr>, \<lparr>input = [], fin = errEOF, sizes = []\<rparr>, None)"
    by code_simp
  from chunked_body_roundtrip [OF this, of ?enc
      "\<lparr>input = [49, 13, 10, 104, 13, 10, 49, 13, 10, 105, 13, 10, 48, 13, 10, 13, 10], fin = errEOF, sizes = [2, 1]\<rparr>"
      "[13, 10]" "\<lparr>sdata = [], scap = 0\<rparr>" 0]
  show ?thesis by (simp add: maxInt32_def)
qed

subsection \<open>Limits\<close>

lemma chunkLoop_bounded:
  "int (length (sdata dst)) \<le> maxBodySize \<Longrightarrow> 0 < maxBodySize \<Longrightarrow> maxBodySize + 2 \<le> maxInt32 \<Longrightarrow>
     \<exists>r' s e. chunkLoop r maxBodySize dst = Ret (r', s, e) \<and> int (length (sdata s)) \<le> maxBodySize + 2 \<and>
       (e = None \<longrightarrow> int (length (sdata s)) \<le> maxBodySize)"
proof (induction "length (input r)" arbitrary: r dst rule: less_induct)
  case less
  have crlf: "length strCRLF = 2" by (simp add: strCRLF_def)
  obtain r1 y where p: "parseChunkSize r = (r1, y)" by (cases "parseChunkSize r") auto
  show ?case
  proof (cases y)
    case (Inl err)
    with p less.prems show ?thesis by (simp add: chunkLoop.simps [of r])
  next
    case (Inr n)
    note n = parseChunkSize_props [OF p [unfolded Inr]]
    consider "n = 0" | "n \<noteq> 0" "int (length (sdata dst)) + n > maxBodySize" | "n > 0" "int (length (sdata dst)) + n \<le> maxBodySize"
      using n(3) by linarith
    then show ?thesis
    proof cases
      case 1
      with p Inr less.prems show ?thesis by (simp add: chunkLoop.simps [of r])
    next
      case 2
      with p Inr less.prems show ?thesis by (simp add: chunkLoop.simps [of r])
    next
      case 3
      have fits: "0 < n + 2" "int (length (sdata dst)) + (n + 2) \<le> maxInt32" using 3 less.prems(3) by simp_all
      from appendBodyFixedSize_spec [OF fits, of r1] obtain r2 c where
        i: "input r2 = drop (nat (n + 2)) (input r1)" and
        a: "appendBodyFixedSize r1 dst (n + 2) = Ret (r2, \<lparr>sdata = sdata dst @ take (nat (n + 2)) (input r1), scap = c\<rparr>,
              if length (input r1) < nat (n + 2) then Some (endError r1) else None)" by blast
      define d where "d = sdata dst @ take (nat (n + 2)) (input r1)"
      have d: "int (length d) \<le> int (length (sdata dst)) + n + 2"
        using 3(1) length_take [of "nat (n + 2)" "input r1"] by (simp add: d_def)
      have nmax: "\<not> (0 < maxBodySize \<and> maxBodySize < int (length (sdata dst)) + n)" using 3 by simp
      have step: "chunkLoop r maxBodySize dst =
          (if length (input r1) < nat (n + 2) then Ret (r2, \<lparr>sdata = d, scap = c\<rparr>, Some (endError r1))
           else if drop (length d - 2) d \<noteq> strCRLF
           then Ret (r2, \<lparr>sdata = d, scap = c\<rparr>, Some (ErrBrokenChunk ''cannot find crlf at the end of chunk''))
           else chunkLoop r2 maxBodySize \<lparr>sdata = take (length d - 2) d, scap = c\<rparr>)"
        using p Inr 3(1) a nmax by (simp add: chunkLoop.simps [of r] crlf Let_def d_def [symmetric] if_not_P [OF nmax])
      show ?thesis
      proof (cases "length (input r1) < nat (n + 2) \<or> drop (length d - 2) d \<noteq> strCRLF")
        case True
        then show ?thesis using step d 3(2) by auto
      next
        case False
        have "length (take (length d - 2) d) = length d - 2" by simp
        then have "int (length (take (length d - 2) d)) \<le> maxBodySize" using d 3(2) less.prems(2) by (cases "2 \<le> length d") simp_all
        moreover have "length (input r2) < length (input r)" using i n(1) by simp
        ultimately show ?thesis using less.hyps [of r2 "\<lparr>sdata = take (length d - 2) d, scap = c\<rparr>"] less.prems(2,3) False step by simp
      qed
    qed
  qed
qed

lemma identityLoop_step:
  assumes "rRead r (l - length buf) = (r1, b, e)" "b \<noteq> []" "length buf \<le> l" "buf' = buf @ b"
    "n = (let n = round2 (2 * int (length buf')) in if maxBodySize > 0 \<and> n > maxBodySize then maxBodySize + 1 else n)"
  shows "identityLoop r maxBodySize buf l =
    (if maxBodySize > 0 \<and> int (length buf') > maxBodySize then Ret (r1, \<lparr>sdata = buf', scap = l\<rparr>, Some ErrBodyTooLarge)
     else if l = length buf'
     then (case makeSlice n of Panic m \<Rightarrow> Panic m | Ret _ \<Rightarrow> identityLoop r1 maxBodySize buf' (nat n))
     else identityLoop r1 maxBodySize buf' l)"
  using assms by (cases b) (simp_all add: identityLoop.simps [of r] Let_def split: go.split)

lemma identityLoop_bounded:
  "length buf < l \<Longrightarrow> int (length buf) \<le> maxBodySize \<Longrightarrow> 0 < maxBodySize \<Longrightarrow> maxBodySize < maxInt32 \<Longrightarrow>
     \<exists>r' s e. identityLoop r maxBodySize buf l = Ret (r', s, e) \<and>
       (e = None \<longrightarrow> sdata s = buf @ input r \<and> int (length (sdata s)) \<le> maxBodySize)"
proof (induction "length (input r)" arbitrary: r buf l rule: less_induct)
  case less
  obtain r1 b e where rd: "rRead r (l - length buf) = (r1, b, e)" by (cases "rRead r (l - length buf)") auto
  note props = rRead_props [OF rd]
  show ?case
  proof (cases b)
    case Nil
    have "input r = []" "e = Some (fin r)" "r1 = r"
      using rd Nil less.prems(1) by (auto simp: rRead_def Let_def split: if_splits list.splits)
    with rd Nil less.prems show ?thesis by (simp add: identityLoop.simps [of r])
  next
    case (Cons x xs)
    define buf' where "buf' = buf @ b"
    have shorter: "length (input r1) < length (input r)" using props(2) Cons by simp
    have all: "buf @ input r = buf' @ input r1" using props(3) by (simp add: buf'_def)
    define n where n_def0: "n = (let n = round2 (2 * int (length buf')) in if maxBodySize > 0 \<and> n > maxBodySize then maxBodySize + 1 else n)"
    have "b \<noteq> []" "length buf \<le> l" using Cons less.prems(1) by simp_all
    note step = identityLoop_step [OF rd this buf'_def n_def0]
    show ?thesis
    proof (cases "int (length buf') > maxBodySize")
      case True
      with step less.prems(3) show ?thesis by simp
    next
      case small: False
      show ?thesis
      proof (cases "l = length buf'")
        case True
        define n0 where "n0 = round2 (2 * int (length buf'))"
        have n_def: "n = (if n0 > maxBodySize then maxBodySize + 1 else n0)"
          using less.prems(3) by (simp add: n_def0 n0_def Let_def)
        have pos: "0 < length buf'" using Cons by (simp add: buf'_def)
        have "n0 > int (length buf')"
        proof (cases "2 * int (length buf') \<le> maxInt32")
          case True
          then show ?thesis using round2_fits [OF True] pos unfolding n0_def by linarith
        next
          case False
          then show ?thesis
            using round2_large [of "2 * int (length buf')"] small less.prems(4) by (simp add: n0_def maxInt32_def)
        qed
        then have n: "int (length buf') < n" "n \<le> maxInt32" using small less.prems(4) round2_upper by (auto simp: n_def n0_def)
        then have mk: "makeSlice n = Ret n" by (simp add: makeSlice_def maxAlloc_def maxInt32_def)
        have "length buf' < nat n" using n(1) by simp
        with less.hyps [OF shorter this _ less.prems(3,4)] step all small True mk show ?thesis by simp
      next
        case False
        then have "length buf' < l" using props(1) less.prems(1) by (simp add: buf'_def)
        with less.hyps [OF shorter this _ less.prems(3,4)] step all small False show ?thesis by simp
      qed
    qed
  qed
qed

text \<open>C30: With a limit every body is read to an end. If the reader has a limit, up to nearly 2 GiB, then for any bytes on
  the connection, in any pieces and with any error behind them, each of the three ways to read a body returns and
  does not panic; a body that is returned without an error respects the limit, has the length that was announced,
  or is all that came.\<close>

theorem limited_body_is_read:
  assumes "0 < maxBodySize" "maxBodySize + 2 \<le> maxInt32" "sdata dst = []" "0 \<le> contentLength"
  shows "(\<exists>r' s e. readBodyChunked r maxBodySize dst = Ret (r', s, e) \<and> int (length (sdata s)) \<le> maxBodySize + 2 \<and>
      (e = None \<longrightarrow> int (length (sdata s)) \<le> maxBodySize)) \<and>
    (\<exists>r' s e. readBodyFixed r contentLength maxBodySize dst = Ret (r', s, e) \<and> int (length (sdata s)) \<le> maxBodySize \<and>
      (e = None \<longrightarrow> int (length (sdata s)) = contentLength \<and> input r = sdata s @ input r')) \<and>
    (\<exists>r' s e. readBodyIdentity r maxBodySize dst = Ret (r', s, e) \<and>
      (e = None \<longrightarrow> sdata s = input r \<and> int (length (sdata s)) \<le> maxBodySize))"
proof (intro conjI)
  show "\<exists>r' s e. readBodyChunked r maxBodySize dst = Ret (r', s, e) \<and> int (length (sdata s)) \<le> maxBodySize + 2 \<and>
      (e = None \<longrightarrow> int (length (sdata s)) \<le> maxBodySize)"
    using chunkLoop_bounded [of dst maxBodySize r] assms by (simp add: readBodyChunked_def)
  show "\<exists>r' s e. readBodyIdentity r maxBodySize dst = Ret (r', s, e) \<and>
      (e = None \<longrightarrow> sdata s = input r \<and> int (length (sdata s)) \<le> maxBodySize)"
    using identityLoop_bounded [of "[]" "if scap dst = 0 then 1024 else scap dst" maxBodySize r] assms
    by (simp add: readBodyIdentity_def)
  show "\<exists>r' s e. readBodyFixed r contentLength maxBodySize dst = Ret (r', s, e) \<and> int (length (sdata s)) \<le> maxBodySize \<and>
      (e = None \<longrightarrow> int (length (sdata s)) = contentLength \<and> input r = sdata s @ input r')"
  proof (cases "contentLength > maxBodySize \<or> contentLength = 0")
    case True
    then show ?thesis using assms by (auto simp: readBodyFixed_def appendBodyFixedSize_def)
  next
    case False
    then have n: "0 < contentLength" "int (length (sdata dst)) + contentLength \<le> maxInt32" using assms by auto
    from appendBodyFixedSize_spec [OF this, of r] False assms show ?thesis
      by (auto simp: readBodyFixed_def min_def split: if_splits)
  qed
qed

theorem limited_body_is_read_witness:
  "\<exists>r' s e. readBodyIdentity \<lparr>input = [1, 2, 3], fin = errEOF, sizes = [1]\<rparr> 5 \<lparr>sdata = [], scap = 1\<rparr> = Ret (r', s, e) \<and>
     (e = None \<longrightarrow> sdata s = [1, 2, 3])"
  using limited_body_is_read [of 5 "\<lparr>sdata = [], scap = 1\<rparr>" 0 "\<lparr>input = [1, 2, 3], fin = errEOF, sizes = [1]\<rparr>"]
  by (auto simp: maxInt32_def)

text \<open>Without a limit a length of 2 GiB or more panics. \<open>round2\<close> works on 32 bits and never answers more than
  \<open>2\<^sup>3\<^sup>1 - 1\<close>, so the slice that is made for a longer body is too short to be sliced to the length: a chunk size, or
  the length of a response, that is announced as 2 GiB or more ends in a panic before a byte of the body is read.
  A peer needs to send no more than the line with the size.\<close>

theorem huge_body_panics:
  assumes "maxBodySize \<le> 0" "sdata dst = []" "int (scap dst) \<le> maxInt32"
  shows "(contentLength > maxInt32 \<longrightarrow> readBodyFixed r contentLength maxBodySize dst = Panic ''slice bounds out of range'') \<and>
    (parseChunkSize r = (r', Inr chunkSize) \<longrightarrow> chunkSize > maxInt32 - 2 \<longrightarrow>
       readBodyChunked r maxBodySize dst = Panic ''slice bounds out of range'')"
proof -
  have panic: "appendBodyFixedSize r dst n = Panic ''slice bounds out of range''" if "n > maxInt32" for r and n :: int
  proof -
    have "makeSlice (round2 n) = Ret (round2 n)" "round2 n < n"
      using round2_upper [of n] that by (simp_all add: makeSlice_def maxAlloc_def maxInt32_def)
    with that assms(2,3) show ?thesis by (simp add: appendBodyFixedSize_def Let_def maxInt32_def)
  qed
  have "readBodyChunked r maxBodySize dst = Panic ''slice bounds out of range''"
    if "parseChunkSize r = (r', Inr chunkSize)" "chunkSize > maxInt32 - 2"
    using that assms panic [of "chunkSize + 2" r']
    by (simp add: readBodyChunked_def chunkLoop.simps [of r] strCRLF_def maxInt32_def)
  moreover have "readBodyFixed r contentLength maxBodySize dst = Panic ''slice bounds out of range''" if "contentLength > maxInt32"
    using that assms(1) panic [of contentLength r] by (simp add: readBodyFixed_def)
  ultimately show ?thesis by blast
qed

text \<open>The line \<open>7ffffffe\<close> is all that a peer sends.\<close>

theorem huge_body_panics_witness:
  "readBodyChunked \<lparr>input = str_bytes ''7ffffffe'' @ strCRLF, fin = errEOF, sizes = []\<rparr> 0 \<lparr>sdata = [], scap = 0\<rparr> =
     Panic ''slice bounds out of range''"
proof -
  have "parseChunkSize \<lparr>input = str_bytes ''7ffffffe'' @ strCRLF, fin = errEOF, sizes = []\<rparr> =
    (\<lparr>input = [], fin = errEOF, sizes = []\<rparr>, Inr 2147483646)" by code_simp
  with huge_body_panics [of 0 "\<lparr>sdata = [], scap = 0\<rparr>"] show ?thesis by (simp add: maxInt32_def)
qed

end
