(* ===== verification/Tries.thy ===== *)
theory Tries
  imports Prelude "HOL-Library.AList"
begin

section \<open>Tries\<close>

text \<open>
  \<open>core/trie\<close>: two tries with string keys. \<open>PathTrie\<close> (\<open>path_trie.go\<close>) cuts a key into parts before every slash
  (\<open>PathSegmenter\<close>, \<open>common.go\<close>), \<open>RuneTrie\<close> (\<open>rune_trie.go\<close>) into runes.

  \<^item> A node is its value and its children. Nodes are only reached through their parent, so a tree stands for the
    pointers; a step that changes a node in place returns the changed tree. The value \<open>nil\<close> is \<open>None\<close>.
  \<^item> The children are a Go map; the order of the association list is the order in which \<open>range\<close> visits it. All
    statements hold for every order.
  \<^item> The loops of both tries run over the parts of the key (\<open>parts\<close>, \<open>runes\<close>) and are otherwise the same.
  \<^item> The locale \<open>trier\<close> is the interface \<open>Trier\<close> (\<open>trie.go\<close>) with its promises; both tries are
    interpretations of it.
\<close>

datatype ('p, 'v) trie = Trie (nodeValue: "'v option") (children: "('p \<times> ('p, 'v) trie) list")

type_synonym 'v PathTrie = "(string, 'v) trie"
type_synonym 'v RuneTrie = "(int, 'v) trie"

definition NewTrie :: "('p, 'v) trie" where
  "NewTrie = Trie None []"

definition isLeaf :: "('p, 'v) trie \<Rightarrow> bool" where
  "isLeaf t \<longleftrightarrow> children t = []"

subsection \<open>The loops\<close>

fun nodeLoop :: "('p, 'v) trie \<Rightarrow> 'p list \<Rightarrow> ('p, 'v) trie option" where
  "nodeLoop node [] = Some node"
| "nodeLoop node (part # ps) =
     (case map_of (children node) part of None \<Rightarrow> None | Some node \<Rightarrow> nodeLoop node ps)"

fun getLoop :: "('p, 'v) trie \<Rightarrow> 'p list \<Rightarrow> 'v option" where
  "getLoop node [] = nodeValue node"
| "getLoop node (part # ps) =
     (case map_of (children node) part of None \<Rightarrow> None | Some node \<Rightarrow> getLoop node ps)"

fun getPathLoop :: "'v list \<Rightarrow> ('p, 'v) trie \<Rightarrow> 'p list \<Rightarrow> 'v list" where
  "getPathLoop values node [] = values"
| "getPathLoop values node (part # ps) =
     (case map_of (children node) part of
        None \<Rightarrow> []
      | Some node \<Rightarrow> getPathLoop (case nodeValue node of None \<Rightarrow> values | Some v \<Rightarrow> values @ [v]) node ps)"

fun putLoop :: "'v option \<Rightarrow> ('p, 'v) trie \<Rightarrow> 'p list \<Rightarrow> ('p, 'v) trie \<times> bool" where
  "putLoop v node [] = (Trie v (children node), nodeValue node = None)"
| "putLoop v node (part # ps) =
     (let child = (case map_of (children node) part of None \<Rightarrow> NewTrie | Some child \<Rightarrow> child);
          (child, isNewVal) = putLoop v child ps
      in (Trie (nodeValue node) (AList.update part child (children node)), isNewVal))"

text \<open>
  \<open>Delete\<close> walks down, clears the value and, if the node is a leaf, walks back up the recorded path, removing
  childless nodes. \<open>Pruning\<close> says that the walk up has reached this node's parent, \<open>Done\<close> that it has
  stopped. \<open>Crashed\<close> is the nil pointer the rune trie can meet on the way up.
\<close>

datatype deletion = NotFound | Pruning | Done | Crashed

definition removeChild :: "'p \<Rightarrow> ('p, 'v) trie \<Rightarrow> ('p, 'v) trie \<times> deletion" where
  "removeChild part parent =
     (let parent = Trie (nodeValue parent) (AList.delete part (children parent))
      in (parent, if nodeValue parent \<noteq> None \<or> \<not> isLeaf parent then Done else Pruning))"

definition clearValue :: "('p, 'v) trie \<Rightarrow> ('p, 'v) trie \<times> deletion" where
  "clearValue node = (Trie None (children node), if isLeaf node then Pruning else Done)"

fun trieDeleteLoop :: "('p, 'v) trie \<Rightarrow> 'p list \<Rightarrow> ('p, 'v) trie \<times> deletion" where
  "trieDeleteLoop node [] = clearValue node"
| "trieDeleteLoop node (part # ps) =
     (case map_of (children node) part of
        None \<Rightarrow> (node, NotFound)
      | Some child \<Rightarrow>
          (case trieDeleteLoop child ps of
             (child, NotFound) \<Rightarrow> (node, NotFound)
           | (child, Pruning) \<Rightarrow> removeChild part node
           | (child, r) \<Rightarrow> (Trie (nodeValue node) (AList.update part child (children node)), r)))"

text \<open>The walker is called with its own state and may return an error, which ends the walk.\<close>

type_synonym ('v, 'a) WalkFunc = "string \<Rightarrow> 'v \<Rightarrow> 'a \<Rightarrow> 'a \<times> string option"

fun walk :: "(string \<Rightarrow> 'p \<Rightarrow> string) \<Rightarrow> ('v, 'a) WalkFunc \<Rightarrow> string \<Rightarrow> ('p, 'v) trie \<Rightarrow> 'a \<Rightarrow> 'a \<times> string option"
  and walkChildren :: "(string \<Rightarrow> 'p \<Rightarrow> string) \<Rightarrow> ('v, 'a) WalkFunc \<Rightarrow> string \<Rightarrow> ('p \<times> ('p, 'v) trie) list \<Rightarrow> 'a \<Rightarrow> 'a \<times> string option" where
  "walk app walker key (Trie v cs) a =
     (case (case v of None \<Rightarrow> (a, None) | Some v \<Rightarrow> walker key v a) of
        (a, Some err) \<Rightarrow> (a, Some err)
      | (a, None) \<Rightarrow> walkChildren app walker key cs a)"
| "walkChildren app walker key [] a = (a, None)"
| "walkChildren app walker key ((part, child) # cs) a =
     (case walk app walker (app key part) child a of
        (a, Some err) \<Rightarrow> (a, Some err)
      | (a, None) \<Rightarrow> walkChildren app walker key cs a)"

subsection \<open>The path trie\<close>

text \<open>\<open>strings.IndexRune\<close> for the slash.\<close>

fun indexSlash :: "string \<Rightarrow> int" where
  "indexSlash [] = -1"
| "indexSlash (c # s) = (if c = CHR ''/'' then 0 else (let i = indexSlash s in if i = -1 then -1 else i + 1))"

definition PathSegmenter :: "string \<Rightarrow> int \<Rightarrow> string \<times> int" where
  "PathSegmenter path start =
     (if length path = 0 \<or> start < 0 \<or> start > int (length path) - 1 then ([], -1)
      else
        let end = indexSlash (drop (nat (start + 1)) path)
        in if end = -1 then (drop (nat start) path, -1)
           else (take (nat (end + 1)) (drop (nat start) path), start + end + 1))"

lemma indexSlash_range: "indexSlash s = -1 \<or> (0 \<le> indexSlash s \<and> indexSlash s < int (length s))"
  by (induction s) (auto simp: Let_def)

lemma PathSegmenter_next:
  assumes "PathSegmenter path start = (part, next)" "next \<noteq> -1"
  shows "0 \<le> start" "start < next" "next < int (length path)"
  using assms indexSlash_range [of "drop (nat (start + 1)) path"]
  by (auto simp: PathSegmenter_def Let_def split: if_splits)

text \<open>The parts the loop header \<open>for part, i := segmenter(key, 0); ; part, i = segmenter(key, i)\<close> goes through.\<close>

function partsFrom :: "string \<Rightarrow> int \<Rightarrow> string list" where
  "partsFrom key i =
     (let (part, i') = PathSegmenter key i in part # (if i' = -1 then [] else partsFrom key i'))"
  by auto
termination
proof (relation "measure (\<lambda>(key, i). nat (int (length key) - i))")
  fix key i x part i' assume "x = PathSegmenter key i" "(part, i') = x" "i' \<noteq> -1"
  then have "PathSegmenter key i = (part, i')" by simp
  from PathSegmenter_next [OF this \<open>i' \<noteq> -1\<close>] show "((key, i'), key, i) \<in> measure (\<lambda>(key, i). nat (int (length key) - i))"
    by simp
qed simp

declare partsFrom.simps [simp del]

definition parts :: "string \<Rightarrow> string list" where
  "parts key = partsFrom key 0"

definition pathGet :: "'v PathTrie \<Rightarrow> string \<Rightarrow> 'v option" where
  "pathGet trie key = getLoop trie (parts key)"

definition pathGetPath :: "'v PathTrie \<Rightarrow> string \<Rightarrow> 'v list" where
  "pathGetPath trie key = getPathLoop [] trie (parts key)"

definition pathPut :: "'v PathTrie \<Rightarrow> string \<Rightarrow> 'v option \<Rightarrow> 'v PathTrie \<times> bool" where
  "pathPut trie key v = putLoop v trie (parts key)"

definition pathDelete :: "'v PathTrie \<Rightarrow> string \<Rightarrow> 'v PathTrie \<times> bool" where
  "pathDelete trie key = (case trieDeleteLoop trie (parts key) of (trie, r) \<Rightarrow> (trie, r \<noteq> NotFound))"

definition pathNode :: "'v PathTrie \<Rightarrow> string \<Rightarrow> 'v PathTrie option" where
  "pathNode trie key = nodeLoop trie (parts key)"

definition pathWalk :: "('v, 'a) WalkFunc \<Rightarrow> 'v PathTrie \<Rightarrow> 'a \<Rightarrow> 'a \<times> string option" where
  "pathWalk walker trie a = walk (@) walker [] trie a"

subsection \<open>The rune trie\<close>

text \<open>\<open>range\<close> over a string decodes UTF-8: a sequence that is not well-formed gives U+FFFD for its first byte. \<open>runes\<close>
  has the runes with the number of bytes they take; \<open>runeString\<close> is the conversion \<open>string(r)\<close>.\<close>

definition byteAt :: "string \<Rightarrow> nat \<Rightarrow> int" where
  "byteAt s i = (if i < length s then of_char (s ! i) else -1)"

definition decodeRune :: "string \<Rightarrow> int \<times> nat" where
  "decodeRune s =
     (let b0 = byteAt s 0; b1 = byteAt s 1; b2 = byteAt s 2; b3 = byteAt s 3;
          cont = (\<lambda>b. 128 \<le> b \<and> b \<le> 191)
      in if b0 < 128 then (b0, 1)
         else if 194 \<le> b0 \<and> b0 \<le> 223 \<and> cont b1 then ((b0 - 192) * 64 + (b1 - 128), 2)
         else if 224 \<le> b0 \<and> b0 \<le> 239 \<and> (if b0 = 224 then 160 else 128) \<le> b1 \<and> b1 \<le> (if b0 = 237 then 159 else 191) \<and> cont b2
         then ((b0 - 224) * 4096 + (b1 - 128) * 64 + (b2 - 128), 3)
         else if 240 \<le> b0 \<and> b0 \<le> 244 \<and> (if b0 = 240 then 144 else 128) \<le> b1 \<and> b1 \<le> (if b0 = 244 then 143 else 191) \<and> cont b2 \<and> cont b3
         then ((b0 - 240) * 262144 + (b1 - 128) * 4096 + (b2 - 128) * 64 + (b3 - 128), 4)
         else (65533, 1))"

fun runes :: "string \<Rightarrow> (int \<times> nat) list" where
  "runes [] = []"
| "runes (c # s) = (let (r, w) = decodeRune (c # s) in (r, w) # runes (drop (w - 1) s))"

definition runeString :: "int \<Rightarrow> string" where
  "runeString r =
     (let r = (if r < 0 \<or> r > 1114111 \<or> (55296 \<le> r \<and> r \<le> 57343) then 65533 else r)
      in map char_of
        (if r < 128 then [r]
         else if r < 2048 then [192 + r div 64, 128 + r mod 64]
         else if r < 65536 then [224 + r div 4096, 128 + r div 64 mod 64, 128 + r mod 64]
         else [240 + r div 262144, 128 + r div 4096 mod 64, 128 + r div 64 mod 64, 128 + r mod 64]))"

definition runeGet :: "'v RuneTrie \<Rightarrow> string \<Rightarrow> 'v option" where
  "runeGet trie key = getLoop trie (map fst (runes key))"

definition runeGetPath :: "'v RuneTrie \<Rightarrow> string \<Rightarrow> 'v list" where
  "runeGetPath trie key = getPathLoop [] trie (map fst (runes key))"

definition runePut :: "'v RuneTrie \<Rightarrow> string \<Rightarrow> 'v option \<Rightarrow> 'v RuneTrie \<times> bool" where
  "runePut trie key v = putLoop v trie (map fst (runes key))"

definition runeNode :: "'v RuneTrie \<Rightarrow> string \<Rightarrow> 'v RuneTrie option" where
  "runeNode trie key = nodeLoop trie (map fst (runes key))"

definition runeWalk :: "('v, 'a) WalkFunc \<Rightarrow> 'v RuneTrie \<Rightarrow> 'a \<Rightarrow> 'a \<times> string option" where
  "runeWalk walker trie a = walk (\<lambda>key r. key @ runeString r) walker [] trie a"

text \<open>
  \<open>Delete\<close> records the path in a slice with an entry for every byte of the key, at the index of the first byte of each
  rune. The walk up goes through all indices: below a rune of more than one byte it meets an entry whose node
  is \<open>nil\<close>.
\<close>

fun runeDeleteLoop :: "'v RuneTrie \<Rightarrow> (int \<times> nat) list \<Rightarrow> 'v RuneTrie \<times> deletion" where
  "runeDeleteLoop node [] = clearValue node"
| "runeDeleteLoop node ((r, width) # rs) =
     (case map_of (children node) r of
        None \<Rightarrow> (node, NotFound)
      | Some child \<Rightarrow>
          (case runeDeleteLoop child rs of
             (child, NotFound) \<Rightarrow> (node, NotFound)
           | (child, Pruning) \<Rightarrow>
               if width > 1 then (Trie (nodeValue node) (AList.update r child (children node)), Crashed)
               else removeChild r node
           | (child, d) \<Rightarrow> (Trie (nodeValue node) (AList.update r child (children node)), d)))"

definition runeDelete :: "'v RuneTrie \<Rightarrow> string \<Rightarrow> 'v RuneTrie \<times> bool go" where
  "runeDelete trie key =
     (case runeDeleteLoop trie (runes key) of
        (trie, Crashed) \<Rightarrow> (trie, Panic ''invalid memory address or nil pointer dereference'')
      | (trie, r) \<Rightarrow> (trie, Ret (r \<noteq> NotFound)))"

subsection \<open>Lookups after changes\<close>

lemma getLoop_New [simp]: "getLoop NewTrie ps = None"
  by (cases ps) (simp_all add: NewTrie_def)

lemma getLoop_empty: "nodeValue t = None \<Longrightarrow> children t = [] \<Longrightarrow> getLoop t ps = None"
  by (cases ps) simp_all

lemma getLoop_node: "getLoop t ps = (case nodeLoop t ps of None \<Rightarrow> None | Some n \<Rightarrow> nodeValue n)"
  by (induction t ps rule: getLoop.induct) (auto split: option.splits)

lemma getLoop_put: "getLoop (fst (putLoop v t ps)) qs = (if qs = ps then v else getLoop t qs)"
proof (induction ps arbitrary: t qs)
  case Nil
  then show ?case by (cases qs) simp_all
next
  case (Cons p ps)
  then show ?case
    by (cases qs) (auto simp: Let_def case_prod_beta update_conv' split: option.splits)
qed

lemma putLoop_new: "snd (putLoop v t ps) \<longleftrightarrow> getLoop t ps = None"
  by (induction ps arbitrary: t) (auto simp: Let_def case_prod_beta split: option.splits)

lemma trieDeleteLoop_pruning:
  "snd (trieDeleteLoop t ps) = Pruning \<Longrightarrow> nodeValue (fst (trieDeleteLoop t ps)) = None \<and> children (fst (trieDeleteLoop t ps)) = []"
  by (cases ps) (auto simp: clearValue_def removeChild_def isLeaf_def Let_def split: option.splits prod.splits deletion.splits if_splits)

lemma removeChild_result: "snd (removeChild part t) = Done \<or> snd (removeChild part t) = Pruning"
  by (simp add: removeChild_def Let_def)

lemma trieDeleteLoop_found: "snd (trieDeleteLoop t ps) = NotFound \<longleftrightarrow> nodeLoop t ps = None"
proof (induction ps arbitrary: t)
  case (Cons p ps)
  show ?case
  proof (cases "map_of (children t) p")
    case (Some c)
    then show ?thesis using Cons [of c] removeChild_result [of p t]
      by (cases "trieDeleteLoop c ps"; cases "snd (trieDeleteLoop c ps)") auto
  qed simp
qed (simp add: clearValue_def)

lemma trieDeleteLoop_not_crashed: "snd (trieDeleteLoop t ps) \<noteq> Crashed"
proof (induction ps arbitrary: t)
  case (Cons p ps)
  show ?case
  proof (cases "map_of (children t) p")
    case (Some c)
    then show ?thesis using Cons [of c] removeChild_result [of p t]
      by (cases "trieDeleteLoop c ps"; cases "snd (trieDeleteLoop c ps)") auto
  qed simp
qed (simp add: clearValue_def)

lemma getLoop_delete: "getLoop (fst (trieDeleteLoop t ps)) qs = (if qs = ps then None else getLoop t qs)"
proof (induction ps arbitrary: t qs)
  case Nil
  then show ?case by (cases qs) (simp_all add: clearValue_def)
next
  case (Cons p ps)
  show ?case
  proof (cases "map_of (children t) p")
    case None
    then show ?thesis by auto
  next
    case (Some c)
    obtain c' r where d: "trieDeleteLoop c ps = (c', r)" by (cases "trieDeleteLoop c ps") auto
    have IH: "getLoop c' xs = (if xs = ps then None else getLoop c xs)" for xs using Cons [of c xs] d by simp
    show ?thesis
    proof (cases r)
      case NotFound
      then have "nodeLoop c ps = None" using trieDeleteLoop_found [of c ps] d by simp
      then show ?thesis using Some NotFound d by (auto simp: getLoop_node)
    next
      case Pruning
      then have "getLoop c' xs = None" for xs using trieDeleteLoop_pruning [of c ps] d by (simp add: getLoop_empty)
      with IH have "xs \<noteq> ps \<Longrightarrow> getLoop c xs = None" for xs by metis
      then show ?thesis using Some Pruning d
        by (cases qs) (auto simp: removeChild_def Let_def delete_conv' split: option.splits)
    next
      case Done
      then show ?thesis using Some d IH by (cases qs) (auto simp: update_conv')
    next
      case Crashed
      then show ?thesis using trieDeleteLoop_not_crashed [of c ps] d by simp
    qed
  qed
qed

subsection \<open>Distinct children\<close>

fun wfTrie :: "('p, 'v) trie \<Rightarrow> bool"
  and wfChildren :: "('p \<times> ('p, 'v) trie) list \<Rightarrow> bool" where
  "wfTrie (Trie v cs) \<longleftrightarrow> distinct (map fst cs) \<and> wfChildren cs"
| "wfChildren [] \<longleftrightarrow> True"
| "wfChildren ((part, child) # cs) \<longleftrightarrow> wfTrie child \<and> wfChildren cs"

lemma wfChildren_iff: "wfChildren cs \<longleftrightarrow> (\<forall>x \<in> set cs. wfTrie (snd x))"
  by (induction cs) (auto split: prod.splits)

lemma wfTrie_sel: "wfTrie t \<longleftrightarrow> distinct (map fst (children t)) \<and> wfChildren (children t)"
  by (cases t) simp

lemma wfTrie_child: "wfTrie t \<Longrightarrow> map_of (children t) part = Some child \<Longrightarrow> wfTrie child"
  by (cases t) (auto simp: wfChildren_iff dest: map_of_SomeD)

lemma wfTrie_New [simp]: "wfTrie NewTrie"
  by (simp add: NewTrie_def)

lemma wfChildren_update: "wfTrie child \<Longrightarrow> wfChildren cs \<Longrightarrow> wfChildren (AList.update part child cs)"
  by (induction cs) auto

lemma wfTrie_update:
  "wfTrie t \<Longrightarrow> wfTrie child \<Longrightarrow>
    distinct (map fst (AList.update part child (children t))) \<and> wfChildren (AList.update part child (children t))"
  by (simp add: wfTrie_sel [of t] wfChildren_update distinct_update)

lemma wfTrie_removeChild: "wfTrie t \<Longrightarrow> wfTrie (fst (removeChild part t))"
  by (auto simp: removeChild_def Let_def wfTrie_sel [of t] wfChildren_iff AList.delete_eq distinct_map_filter)

lemma wfTrie_put: "wfTrie t \<Longrightarrow> wfTrie (fst (putLoop v t ps))"
proof (induction ps arbitrary: t)
  case Nil
  then show ?case by (simp add: wfTrie_sel [of t])
next
  case (Cons p ps)
  have "wfTrie (case map_of (children t) p of None \<Rightarrow> NewTrie | Some child \<Rightarrow> child)"
    using Cons.prems by (auto split: option.splits dest: wfTrie_child)
  from Cons.IH [OF this] Cons.prems show ?case by (simp add: Let_def case_prod_beta wfTrie_update)
qed

lemma wfTrie_delete: "wfTrie t \<Longrightarrow> wfTrie (fst (trieDeleteLoop t ps))"
proof (induction ps arbitrary: t)
  case Nil
  then show ?case by (simp add: clearValue_def wfTrie_sel [of t])
next
  case (Cons p ps)
  show ?case
  proof (cases "map_of (children t) p")
    case (Some c)
    then show ?thesis using Cons.IH [OF wfTrie_child [OF Cons.prems Some]] Cons.prems
      by (cases "trieDeleteLoop c ps"; cases "snd (trieDeleteLoop c ps)") (auto simp: wfTrie_update wfTrie_removeChild)
  qed (use Cons.prems in simp)
qed

subsection \<open>What a walk visits\<close>

text \<open>\<open>entries\<close> has the paths and values of a trie in the order of a walk. \<open>visit\<close> calls the walker on a list
  until it returns an error.\<close>

fun entries :: "'p list \<Rightarrow> ('p, 'v) trie \<Rightarrow> ('p list \<times> 'v) list"
  and childEntries :: "'p list \<Rightarrow> ('p \<times> ('p, 'v) trie) list \<Rightarrow> ('p list \<times> 'v) list" where
  "entries pre (Trie v cs) = (case v of None \<Rightarrow> [] | Some v \<Rightarrow> [(pre, v)]) @ childEntries pre cs"
| "childEntries pre [] = []"
| "childEntries pre ((part, child) # cs) = entries (pre @ [part]) child @ childEntries pre cs"

fun visit :: "('v, 'a) WalkFunc \<Rightarrow> (string \<times> 'v) list \<Rightarrow> 'a \<Rightarrow> 'a \<times> string option" where
  "visit walker [] a = (a, None)"
| "visit walker ((key, v) # kvs) a =
     (case walker key v a of (a, Some err) \<Rightarrow> (a, Some err) | (a, None) \<Rightarrow> visit walker kvs a)"

lemma visit_append:
  "visit walker (xs @ ys) a = (case visit walker xs a of (a, Some err) \<Rightarrow> (a, Some err) | (a, None) \<Rightarrow> visit walker ys a)"
  by (induction walker xs a rule: visit.induct) (auto split: prod.splits option.splits)

lemma walk_visits:
  fixes t :: "('p, 'v) trie" and walker :: "('v, 'a) WalkFunc"
  shows "walk app walker (foldl app k pre) t a = visit walker (map (\<lambda>(ps, v). (foldl app k ps, v)) (entries pre t)) a"
    and "walkChildren app walker (foldl app k pre) cs a =
      visit walker (map (\<lambda>(ps, v). (foldl app k ps, v)) (childEntries pre cs)) a"
proof (induction pre t and pre cs arbitrary: a and a rule: entries_childEntries.induct)
  case (3 pre part child cs)
  have "foldl app k (pre @ [part]) = app (foldl app k pre) part" by simp
  with 3 show ?case by (auto simp: visit_append split: prod.splits option.splits)
qed (auto split: prod.splits option.splits)

lemma entries_get:
  fixes t :: "('p, 'v) trie" and cs :: "('p \<times> ('p, 'v) trie) list"
  shows "wfTrie t \<Longrightarrow> (ps, v) \<in> set (entries pre t) \<longleftrightarrow> (\<exists>qs. ps = pre @ qs \<and> getLoop t qs = Some v)"
    and "distinct (map fst cs) \<Longrightarrow> wfChildren cs \<Longrightarrow>
      (ps, v) \<in> set (childEntries pre cs) \<longleftrightarrow>
      (\<exists>part child qs. ps = pre @ part # qs \<and> map_of cs part = Some child \<and> getLoop child qs = Some v)"
proof (induction pre t and pre cs rule: entries_childEntries.induct)
  case (1 pre w cs)
  have split: "(\<exists>qs. ps = pre @ qs \<and> getLoop (Trie w cs) qs = Some v) \<longleftrightarrow>
      ps = pre \<and> w = Some v \<or> (\<exists>part child qs. ps = pre @ part # qs \<and> map_of cs part = Some child \<and> getLoop child qs = Some v)"
    (is "(\<exists>qs. ?P qs) \<longleftrightarrow> _")
  proof -
    have "(\<exists>qs. ?P qs) \<longleftrightarrow> ?P [] \<or> (\<exists>part qs. ?P (part # qs))" by (metis list.exhaust)
    then show ?thesis by (auto split: option.splits)
  qed
  with 1 show ?case by (cases w) auto
next
  case (3 pre part child cs)
  then have IH: "(ps, v) \<in> set (entries (pre @ [part]) child) \<longleftrightarrow> (\<exists>qs. ps = pre @ part # qs \<and> getLoop child qs = Some v)"
    "(ps, v) \<in> set (childEntries pre cs) \<longleftrightarrow> (\<exists>part child qs. ps = pre @ part # qs \<and> map_of cs part = Some child \<and> getLoop child qs = Some v)"
    by auto
  have "map_of cs part = None" using 3(3) by (simp add: map_of_eq_None_iff)
  then have "(\<exists>p c qs. ps = pre @ p # qs \<and> map_of ((part, child) # cs) p = Some c \<and> getLoop c qs = Some v) \<longleftrightarrow>
      (\<exists>qs. ps = pre @ part # qs \<and> getLoop child qs = Some v) \<or>
      (\<exists>p c qs. ps = pre @ p # qs \<and> map_of cs p = Some c \<and> getLoop c qs = Some v)"
    by (auto split: if_splits) (metis option.distinct(1))
  then show ?case by (simp only: IH childEntries.simps set_append Un_iff)
qed simp

lemma entries_prefix:
  fixes t :: "('p, 'v) trie" and cs :: "('p \<times> ('p, 'v) trie) list"
  shows "x \<in> fst ` set (entries pre t) \<Longrightarrow> \<exists>qs. x = pre @ qs"
    and "x \<in> fst ` set (childEntries pre cs) \<Longrightarrow> \<exists>part qs. x = pre @ part # qs \<and> part \<in> fst ` set cs"
  by (induction pre t and pre cs rule: entries_childEntries.induct) (force split: option.splits)+

lemma distinct_entries:
  fixes t :: "('p, 'v) trie" and cs :: "('p \<times> ('p, 'v) trie) list"
  shows "wfTrie t \<Longrightarrow> distinct (map fst (entries pre t))"
    and "distinct (map fst cs) \<Longrightarrow> wfChildren cs \<Longrightarrow> distinct (map fst (childEntries pre cs))"
proof (induction pre t and pre cs rule: entries_childEntries.induct)
  case (1 pre w cs)
  have "pre \<notin> fst ` set (childEntries pre cs)" using entries_prefix(2) [of pre pre cs] by auto
  with 1 show ?case by (cases w) auto
next
  case (3 pre part child cs)
  have "x \<notin> fst ` set (childEntries pre cs)" if "x \<in> fst ` set (entries (pre @ [part]) child)" for x
    using entries_prefix(1) [OF that] entries_prefix(2) [of x pre cs] 3(3) by auto
  with 3 show ?case by auto
qed simp

subsection \<open>Keys and their parts\<close>

lemma partsFrom_concat: "0 \<le> i \<Longrightarrow> i < int (length key) \<Longrightarrow> concat (partsFrom key i) = drop (nat i) key"
proof (induction key i rule: partsFrom.induct)
  case (1 key i)
  obtain part i' where seg: "PathSegmenter key i = (part, i')" by (cases "PathSegmenter key i") auto
  show ?case
  proof (cases "i' = -1")
    case True
    then have "part = drop (nat i) key" using seg 1(2,3) indexSlash_range [of "drop (nat (i + 1)) key"]
      by (auto simp: PathSegmenter_def Let_def split: if_splits)
    then show ?thesis using seg True by (simp add: partsFrom.simps [of key i])
  next
    case False
    note next' = PathSegmenter_next [OF seg False]
    have "part = take (nat (i' - i)) (drop (nat i) key)"
      using seg False 1(2,3) by (auto simp: PathSegmenter_def Let_def split: if_splits)
    moreover have "drop (nat i') key = drop (nat (i' - i)) (drop (nat i) key)"
      using next' 1(2) by (simp flip: nat_add_distrib)
    moreover have "concat (partsFrom key i') = drop (nat i') key"
      using 1(1) [OF seg [symmetric] refl False] next' 1(2) by simp
    ultimately have "part @ concat (partsFrom key i') = drop (nat i) key" by (metis append_take_drop_id)
    then show ?thesis using seg False by (simp add: partsFrom.simps [of key i])
  qed
qed

lemma concat_parts [simp]: "concat (parts key) = key"
proof (cases "key = []")
  case True
  then show ?thesis by (simp add: parts_def partsFrom.simps [of _ 0] PathSegmenter_def)
qed (use partsFrom_concat [of 0 key] in \<open>simp add: parts_def\<close>)

lemma parts_inject [simp]: "parts key = parts key' \<longleftrightarrow> key = key'"
  by (metis concat_parts)

definition ascii :: "string \<Rightarrow> bool" where
  "ascii key \<longleftrightarrow> (\<forall>c \<in> set key. of_char c < (128 :: int))"

lemma runes_ascii: "ascii key \<Longrightarrow> runes key = map (\<lambda>c. (of_char c, 1)) key"
  by (induction key) (simp_all add: ascii_def decodeRune_def byteAt_def Let_def)

lemma runeString_ascii: "of_char c < (128 :: int) \<Longrightarrow> runeString (of_char c) = [c]"
  by (simp add: runeString_def Let_def not_less) (metis of_nat_0_le_iff of_nat_of_char)

lemma ascii_key: "ascii key \<Longrightarrow> foldl (\<lambda>key r. key @ runeString r) k (map fst (runes key)) = k @ key"
proof (induction key arbitrary: k)
  case (Cons c key)
  have "ascii key" "of_char c < (128 :: int)" using Cons.prems by (simp_all add: ascii_def)
  then show ?case using Cons.IH [of "k @ [c]"] runes_ascii [OF Cons.prems] runes_ascii [of key] by (simp add: runeString_ascii)
qed (simp add: ascii_def)

lemma runes_inject: "ascii key \<Longrightarrow> ascii key' \<Longrightarrow> map fst (runes key) = map fst (runes key') \<longleftrightarrow> key = key'"
  by (metis ascii_key append_Nil)

text \<open>On ASCII keys the walk up of the rune trie meets no gap.\<close>

lemma runeDeleteLoop_narrow: "\<forall>x \<in> set rs. snd x = 1 \<Longrightarrow> runeDeleteLoop t rs = trieDeleteLoop t (map fst rs)"
proof (induction rs arbitrary: t)
  case (Cons x rs)
  then show ?case by (cases x) (simp split: option.splits prod.splits deletion.splits)
qed simp

lemma runeDelete_ascii:
  assumes "ascii key"
  shows "runeDelete t key = (fst (trieDeleteLoop t (map fst (runes key))), Ret (nodeLoop t (map fst (runes key)) \<noteq> None))"
proof -
  have "runeDeleteLoop t (runes key) = trieDeleteLoop t (map fst (runes key))"
    by (rule runeDeleteLoop_narrow) (auto simp: runes_ascii [OF assms])
  then show ?thesis
    using trieDeleteLoop_not_crashed [of t "map fst (runes key)"] trieDeleteLoop_found [of t "map fst (runes key)"]
    by (auto simp: runeDelete_def split: prod.splits deletion.splits)
qed

subsection \<open>The interface and its two implementations\<close>

datatype 'v trieOp = PutOp string "'v option" | DeleteOp string

fun opKey :: "'v trieOp \<Rightarrow> string" where
  "opKey (PutOp key v) = key"
| "opKey (DeleteOp key) = key"

fun mapStep :: "(string \<rightharpoonup> 'v) \<Rightarrow> 'v trieOp \<Rightarrow> (string \<rightharpoonup> 'v)" where
  "mapStep m (PutOp key v) = m(key := v)"
| "mapStep m (DeleteOp key) = m(key := None)"

fun trieStep ::
  "('t \<Rightarrow> string \<Rightarrow> 'v option \<Rightarrow> 't \<times> bool) \<Rightarrow> ('t \<Rightarrow> string \<Rightarrow> 't \<times> bool go) \<Rightarrow> 't \<Rightarrow> 'v trieOp \<Rightarrow> 't" where
  "trieStep put delete t (PutOp key v) = fst (put t key v)"
| "trieStep put delete t (DeleteOp key) = fst (delete t key)"

definition collect :: "('v, (string \<times> 'v) list) WalkFunc" where
  "collect key v a = (a @ [(key, v)], None)"

lemma visit_collect: "visit collect kvs a = (a @ kvs, None)"
  by (induction kvs arbitrary: a) (auto simp: collect_def)

locale trier =
  fixes new :: 't
    and get :: "'t \<Rightarrow> string \<Rightarrow> 'v option"
    and put :: "'t \<Rightarrow> string \<Rightarrow> 'v option \<Rightarrow> 't \<times> bool"
    and delete :: "'t \<Rightarrow> string \<Rightarrow> 't \<times> bool go"
    and visited :: "'t \<Rightarrow> (string \<times> 'v) list"
    and inv :: "'t \<Rightarrow> bool"
    and key_ok :: "string \<Rightarrow> bool"
  assumes inv_new: "inv new" and get_new: "get new key = None"
    and inv_put: "inv t \<Longrightarrow> key_ok key \<Longrightarrow> inv (fst (put t key w))"
    and get_put: "inv t \<Longrightarrow> key_ok key \<Longrightarrow> key_ok key' \<Longrightarrow> get (fst (put t key w)) key' = (if key' = key then w else get t key')"
    and put_new: "inv t \<Longrightarrow> key_ok key \<Longrightarrow> snd (put t key w) \<longleftrightarrow> get t key = None"
    and inv_delete: "inv t \<Longrightarrow> key_ok key \<Longrightarrow> inv (fst (delete t key))"
    and get_delete: "inv t \<Longrightarrow> key_ok key \<Longrightarrow> key_ok key' \<Longrightarrow> get (fst (delete t key)) key' = (if key' = key then None else get t key')"
    and delete_found: "inv t \<Longrightarrow> key_ok key \<Longrightarrow> \<exists>found. snd (delete t key) = Ret found \<and> (get t key \<noteq> None \<longrightarrow> found)"
    and visited_get: "inv t \<Longrightarrow> (key, v) \<in> set (visited t) \<longleftrightarrow> key_ok key \<and> get t key = Some v"
    and visited_once: "inv t \<Longrightarrow> distinct (map fst (visited t))"
begin

lemma step_refines:
  assumes "inv t" "key_ok (opKey op)" "\<forall>key. key_ok key \<longrightarrow> get t key = m key"
  shows "inv (trieStep put delete t op) \<and> (\<forall>key. key_ok key \<longrightarrow> get (trieStep put delete t op) key = mapStep m op key)"
  using assms by (cases op) (auto simp: inv_put inv_delete get_put get_delete)

lemma run_refines:
  assumes "\<forall>op \<in> set ops. key_ok (opKey op)" "inv t" "\<forall>key. key_ok key \<longrightarrow> get t key = m key"
  shows "inv (foldl (trieStep put delete) t ops) \<and>
    (\<forall>key. key_ok key \<longrightarrow> get (foldl (trieStep put delete) t ops) key = foldl mapStep m ops key)"
  using assms
proof (induction ops arbitrary: t m)
  case (Cons op ops)
  from step_refines [of t op m] Cons.prems Cons.IH [of "trieStep put delete t op" "mapStep m op"] show ?case by simp
qed simp

lemma fresh_run:
  assumes "\<forall>op \<in> set ops. key_ok (opKey op)"
  shows "inv (foldl (trieStep put delete) new ops)"
    and "key_ok key \<Longrightarrow> get (foldl (trieStep put delete) new ops) key = foldl mapStep Map.empty ops key"
    and "(key, v) \<in> set (visited (foldl (trieStep put delete) new ops)) \<longleftrightarrow> key_ok key \<and> foldl mapStep Map.empty ops key = Some v"
  using run_refines [OF assms inv_new, of Map.empty] visited_get [of "foldl (trieStep put delete) new ops"]
  by (auto simp: get_new)

end

text \<open>What both implementations keep: the children of a node are distinct, and every value lies at the parts of a key.
  The walk then meets every key once.\<close>

definition trieInv :: "('p list \<Rightarrow> bool) \<Rightarrow> ('p, 'v) trie \<Rightarrow> bool" where
  "trieInv isKey t \<longleftrightarrow> wfTrie t \<and> (\<forall>ps v. getLoop t ps = Some v \<longrightarrow> isKey ps)"

definition isPath :: "string list \<Rightarrow> bool" where "isPath ps \<longleftrightarrow> parts (concat ps) = ps"

definition isAscii :: "int list \<Rightarrow> bool" where
  "isAscii ps \<longleftrightarrow> (\<exists>key. ascii key \<and> ps = map fst (runes key))"

lemma trieInv_New: "trieInv isKey NewTrie"
  by (simp add: trieInv_def)

lemma isPath_parts: "isPath (parts key)"
  by (simp add: isPath_def)

lemma isPath_split: "isPath ps \<Longrightarrow> parts (concat ps) = ps \<and> True"
  by (simp add: isPath_def)

lemma isAscii_runes: "ascii key \<Longrightarrow> isAscii (map fst (runes key))"
  by (auto simp: isAscii_def)

lemma isAscii_split:
  "isAscii ps \<Longrightarrow> map fst (runes (foldl (\<lambda>key r. key @ runeString r) [] ps)) = ps \<and> ascii (foldl (\<lambda>key r. key @ runeString r) [] ps)"
  unfolding isAscii_def using ascii_key [of _ "[]"] by fastforce

lemma ascii_join: "ascii key \<Longrightarrow> foldl (\<lambda>key r. key @ runeString r) [] (map fst (runes key)) = key"
  using ascii_key [of key "[]"] by simp

lemma getLoop_found: "getLoop t ps = Some v \<Longrightarrow> \<exists>n. nodeLoop t ps = Some n"
  by (auto simp: getLoop_node split: option.splits)

lemma foldl_concat: "foldl (@) xs yss = xs @ concat yss"
  by (induction yss arbitrary: xs) simp_all

lemma trieInv_put: "trieInv isKey t \<Longrightarrow> isKey ps \<Longrightarrow> trieInv isKey (fst (putLoop v t ps))"
  by (auto simp: trieInv_def wfTrie_put getLoop_put split: if_splits)

lemma trieInv_delete: "trieInv isKey t \<Longrightarrow> trieInv isKey (fst (trieDeleteLoop t ps))"
  by (auto simp: trieInv_def wfTrie_delete getLoop_delete split: if_splits)

lemma visited_entries:
  "fst (pathWalk collect t []) = map (\<lambda>(ps, v). (concat ps, v)) (entries [] t)"
  "fst (runeWalk collect u []) = map (\<lambda>(ps, v). (foldl (\<lambda>key r. key @ runeString r) [] ps, v)) (entries [] u)"
  using walk_visits(1) [of "(@)" collect "[]" "[]" t "[]"] walk_visits(1) [of "\<lambda>key r. key @ runeString r" collect "[]" "[]" u "[]"]
  by (simp_all add: pathWalk_def runeWalk_def visit_collect foldl_concat)

lemma walk_is_map:
  assumes "trieInv isKey t" "\<And>ps. isKey ps \<Longrightarrow> split (join ps) = ps \<and> key_ok (join ps)" "\<And>key. key_ok key \<Longrightarrow> join (split key) = key"
  shows "(key, v) \<in> set (map (\<lambda>(ps, v). (join ps, v)) (entries [] t)) \<longleftrightarrow> key_ok key \<and> getLoop t (split key) = Some v"
    and "distinct (map fst (map (\<lambda>(ps, v). (join ps, v)) (entries [] t)))"
proof -
  have e: "(ps, v) \<in> set (entries [] t) \<longleftrightarrow> getLoop t ps = Some v" for ps v
    using entries_get(1) [of t ps v "[]"] assms(1) by (auto simp: trieInv_def)
  have keys: "isKey ps" if "ps \<in> fst ` set (entries [] t)" for ps
    using that e assms(1) by (auto simp: trieInv_def)
  show "(key, v) \<in> set (map (\<lambda>(ps, v). (join ps, v)) (entries [] t)) \<longleftrightarrow> key_ok key \<and> getLoop t (split key) = Some v"
  proof -
    have "(key, v) \<in> set (map (\<lambda>(ps, v). (join ps, v)) (entries [] t)) \<longleftrightarrow> (\<exists>ps. (ps, v) \<in> set (entries [] t) \<and> join ps = key)"
      by force
    also have "\<dots> \<longleftrightarrow> key_ok key \<and> getLoop t (split key) = Some v"
      using e assms(1) assms(2,3) by (metis trieInv_def)
    finally show ?thesis .
  qed
  have "inj_on join (fst ` set (entries [] t))" using keys assms(2) by (metis inj_onI)
  moreover have "distinct (map fst (entries [] t))" using distinct_entries(1) assms(1) by (auto simp: trieInv_def)
  ultimately show "distinct (map fst (map (\<lambda>(ps, v). (join ps, v)) (entries [] t)))"
    by (simp add: case_prod_beta comp_def distinct_map inj_on_def)
qed

definition pathDeleteGo :: "'v PathTrie \<Rightarrow> string \<Rightarrow> 'v PathTrie \<times> bool go" where
  "pathDeleteGo t key = apsnd Ret (pathDelete t key)"

lemma fst_pathDelete: "fst (pathDeleteGo t key) = fst (trieDeleteLoop t (parts key))"
  "snd (pathDeleteGo t key) = Ret (nodeLoop t (parts key) \<noteq> None)"
  using trieDeleteLoop_found [of t "parts key"] by (auto simp: pathDeleteGo_def pathDelete_def case_prod_beta)

interpretation path: trier NewTrie pathGet pathPut pathDeleteGo "\<lambda>t. fst (pathWalk collect t [])" "trieInv isPath" "\<lambda>_. True"
proof unfold_locales
  fix t :: "'v PathTrie" and key v
  assume inv: "trieInv isPath t"
  show "((key, v) \<in> set (fst (pathWalk collect t []))) = (True \<and> pathGet t key = Some v)"
    "distinct (map fst (fst (pathWalk collect t [])))"
    unfolding visited_entries pathGet_def by (rule walk_is_map [OF inv isPath_split concat_parts], assumption)+
qed (auto simp: pathGet_def pathPut_def fst_pathDelete getLoop_put getLoop_delete putLoop_new trieInv_put trieInv_delete
    isPath_parts trieInv_New dest: getLoop_found)

interpretation rune: trier NewTrie runeGet runePut runeDelete "\<lambda>t. fst (runeWalk collect t [])" "trieInv isAscii" ascii
proof unfold_locales
  fix t :: "'v RuneTrie" and key v
  assume inv: "trieInv isAscii t"
  show "((key, v) \<in> set (fst (runeWalk collect t []))) = (ascii key \<and> runeGet t key = Some v)"
    "distinct (map fst (fst (runeWalk collect t [])))"
    unfolding visited_entries runeGet_def
    by (rule walk_is_map [OF inv isAscii_split ascii_join], assumption+)+
qed (auto simp: runeGet_def runePut_def runeDelete_ascii getLoop_put getLoop_delete putLoop_new trieInv_put trieInv_delete
    runes_inject isAscii_runes trieInv_New dest: getLoop_found)

subsection \<open>Values along a path, and no dead branches\<close>

text \<open>If the key has a node, \<open>GetPath\<close> has the values of all its prefixes, the shortest first.\<close>

lemma getPathLoop_prefixes:
  "getPathLoop vs t ps =
    (if nodeLoop t ps = None then []
     else vs @ concat (map (\<lambda>n. case getLoop t (take (Suc n) ps) of None \<Rightarrow> [] | Some v \<Rightarrow> [v]) [0..<length ps]))"
proof (induction ps arbitrary: vs t)
  case (Cons p ps)
  have "[0..<length (p # ps)] = 0 # map Suc [0..<length ps]"
    by (simp add: map_Suc_upt upt_conv_Cons del: upt_Suc)
  then show ?case using Cons by (auto simp: comp_def split: option.splits)
qed simp

text \<open>As long as no \<open>nil\<close> is put, every node below the root has a value or children: deleting leaves nothing behind.\<close>

fun livesTrie :: "('p, 'v) trie \<Rightarrow> bool"
  and livesChildren :: "('p \<times> ('p, 'v) trie) list \<Rightarrow> bool" where
  "livesTrie (Trie v cs) \<longleftrightarrow> (v \<noteq> None \<or> cs \<noteq> []) \<and> livesChildren cs"
| "livesChildren [] \<longleftrightarrow> True"
| "livesChildren ((part, child) # cs) \<longleftrightarrow> livesTrie child \<and> livesChildren cs"

lemma livesChildren_iff: "livesChildren cs \<longleftrightarrow> (\<forall>x \<in> set cs. livesTrie (snd x))"
  by (induction cs) (auto split: prod.splits)

lemma livesTrie_sel: "livesTrie t \<longleftrightarrow> (nodeValue t \<noteq> None \<or> children t \<noteq> []) \<and> livesChildren (children t)"
  by (cases t) simp

lemma lives_child: "livesChildren (children t) \<Longrightarrow> map_of (children t) part = Some child \<Longrightarrow> livesTrie child"
  by (metis livesChildren_iff map_of_SomeD snd_conv)

lemma livesChildren_update: "livesTrie child \<Longrightarrow> livesChildren cs \<Longrightarrow> livesChildren (AList.update part child cs)"
  by (induction cs) auto

lemma lives_put: "livesChildren (children t) \<Longrightarrow> livesTrie (fst (putLoop (Some v) t ps))"
proof (induction ps arbitrary: t)
  case (Cons p ps)
  have "livesChildren (children (case map_of (children t) p of None \<Rightarrow> NewTrie | Some child \<Rightarrow> child))"
    using Cons.prems by (auto simp: NewTrie_def livesTrie_sel split: option.splits dest: lives_child)
  from Cons.IH [OF this] Cons.prems show ?case
    by (simp add: Let_def case_prod_beta livesChildren_update update_nonempty)
qed simp

lemma lives_delete:
  "livesChildren (children t) \<Longrightarrow> livesChildren (children (fst (trieDeleteLoop t ps))) \<and>
    (snd (trieDeleteLoop t ps) = Done \<longrightarrow> livesTrie (fst (trieDeleteLoop t ps)))"
proof (induction ps arbitrary: t)
  case Nil
  then show ?case by (simp add: clearValue_def isLeaf_def)
next
  case (Cons p ps)
  show ?case
  proof (cases "map_of (children t) p")
    case (Some c)
    have c: "livesChildren (children c)" using lives_child [OF Cons.prems Some] by (simp add: livesTrie_sel)
    obtain c' r where d: "trieDeleteLoop c ps = (c', r)" by (cases "trieDeleteLoop c ps") auto
    show ?thesis
    proof (cases r)
      case Pruning
      then show ?thesis using Some d Cons.prems
        by (auto simp: removeChild_def Let_def isLeaf_def livesChildren_iff AList.delete_eq)
    next
      case Crashed
      then show ?thesis using trieDeleteLoop_not_crashed [of c ps] d by simp
    qed (use Some d Cons.IH [OF c] Cons.prems in \<open>simp_all add: livesChildren_update update_nonempty\<close>)
  qed (use Cons.prems in simp)
qed

lemma no_dead_branches:
  "\<forall>op \<in> set ops. \<forall>key. op \<noteq> PutOp key None \<Longrightarrow> livesChildren (children (foldl (trieStep pathPut pathDeleteGo) NewTrie ops))"
proof (induction ops rule: rev_induct)
  case (snoc op ops)
  then have IH: "livesChildren (children (foldl (trieStep pathPut pathDeleteGo) NewTrie ops))" by simp
  show ?case
  proof (cases op)
    case (PutOp key v)
    with snoc.prems obtain w where "v = Some w" by auto
    with PutOp lives_put [OF IH, of w "parts key"] show ?thesis by (simp add: pathPut_def [of _ key] livesTrie_sel)
  next
    case (DeleteOp key)
    with lives_delete [OF IH] show ?thesis by (simp add: fst_pathDelete)
  qed
qed (simp add: NewTrie_def)

text \<open>C32: The path trie is a map. After any sequence of \<open>Put\<close> and \<open>Delete\<close>, \<open>Get\<close> returns what was last put under
  a key and not deleted since, whatever other keys share parts with it; \<open>Put\<close> reports a new value exactly if there
  was none; and \<open>Walk\<close> calls its walker, until that returns an error, once for every key with a value, with the
  key as it was put.\<close>

theorem path_trie_is_a_map:
  "\<exists>kvs. pathGet (foldl (trieStep pathPut pathDeleteGo) NewTrie ops) key = foldl mapStep Map.empty ops key \<and>
     snd (pathPut (foldl (trieStep pathPut pathDeleteGo) NewTrie ops) key v) = (foldl mapStep Map.empty ops key = None) \<and>
     pathWalk walker (foldl (trieStep pathPut pathDeleteGo) NewTrie ops) a = visit walker kvs a \<and>
     distinct (map fst kvs) \<and> set kvs = {(k, w). foldl mapStep Map.empty ops k = Some w}"
proof -
  let ?t = "foldl (trieStep pathPut pathDeleteGo) NewTrie ops" let ?kvs = "fst (pathWalk collect ?t [])"
  have ok: "\<forall>op \<in> set ops. True" by simp
  note run = path.fresh_run [OF ok]
  have "pathWalk walker ?t a = visit walker ?kvs a"
    unfolding visited_entries using walk_visits(1) [of "(@)" walker "[]" "[]" ?t a] by (simp add: pathWalk_def foldl_concat)
  moreover have "set ?kvs = {(k, w). foldl mapStep Map.empty ops k = Some w}" using run(3) by auto
  ultimately show ?thesis
    using run(2) [of key] path.put_new [OF run(1), of key v] path.visited_once [OF run(1)] by auto
qed

text \<open>The same holds of the rune trie on ASCII keys.\<close>

lemma rune_trie_is_a_map:
  assumes "\<forall>op \<in> set ops. ascii (opKey op)" "ascii key"
  shows "runeGet (foldl (trieStep runePut runeDelete) NewTrie ops) key = foldl mapStep Map.empty ops key"
    "set (fst (runeWalk collect (foldl (trieStep runePut runeDelete) NewTrie ops) [])) =
      {(k, w). ascii k \<and> foldl mapStep Map.empty ops k = Some w}"
  using rune.fresh_run(2) [OF assms] rune.fresh_run(3) [OF assms(1)] by auto

text \<open>C33: Deleting a key from the rune trie panics when the key ends in a rune of more than one byte and its node is
  a leaf: the path is recorded at byte indices, so the entry below the last rune has no node. The value is
  gone by then, the node stays in the trie.\<close>

theorem rune_delete_panics:
  assumes "runes key = rs @ [(r, width)]" "width > 1" "runeNode t key = Some n" "isLeaf n"
  shows "snd (runeDelete t key) = Panic ''invalid memory address or nil pointer dereference'' \<and>
    runeGet (fst (runeDelete t key)) key = None \<and> runeNode (fst (runeDelete t key)) key \<noteq> None"
proof -
  have "snd (runeDeleteLoop t (rs @ [(r, width)])) = Crashed \<and>
      getLoop (fst (runeDeleteLoop t (rs @ [(r, width)]))) (map fst (rs @ [(r, width)])) = None \<and>
      nodeLoop (fst (runeDeleteLoop t (rs @ [(r, width)]))) (map fst (rs @ [(r, width)])) \<noteq> None"
    using assms(3) unfolding runeNode_def assms(1)
  proof (induction rs arbitrary: t)
    case Nil
    then show ?case using assms(2,4) by (auto simp: clearValue_def update_conv' split: option.splits)
  next
    case (Cons x rs)
    then obtain c where c: "map_of (children t) (fst x) = Some c" "nodeLoop c (map fst (rs @ [(r, width)])) = Some n"
      by (auto split: option.splits)
    from Cons.IH [OF c(2)] c(1) show ?case
      by (cases x; cases "runeDeleteLoop c (rs @ [(r, width)])") (auto simp: update_conv')
  qed
  then show ?thesis
    by (cases "runeDeleteLoop t (rs @ [(r, width)])") (simp add: runeDelete_def runeGet_def runeNode_def assms(1))
qed

theorem rune_delete_panics_witness:
  "snd (runeDelete (fst (runePut NewTrie [CHR ''a'', CHR 0xC3, CHR 0xA9] (Some ()))) [CHR ''a'', CHR 0xC3, CHR 0xA9]) =
    Panic ''invalid memory address or nil pointer dereference''"
proof -
  let ?key = "[CHR ''a'', CHR 0xC3, CHR 0xA9]"
  have key: "runes ?key = [(97, 1)] @ [(233, 2)]" by (simp add: decodeRune_def byteAt_def Let_def)
  have "runeNode (fst (runePut NewTrie ?key (Some ()))) ?key = Some (Trie (Some ()) [])"
    unfolding runeNode_def runePut_def key by (simp add: NewTrie_def)
  from rune_delete_panics [OF key _ this] show ?thesis by (simp add: isLeaf_def)
qed

end
