(* ===== verification/LruCache.thy ===== *)
theory LruCache
  imports Prelude "HOL-Library.AList" "HOL-Library.Word"
begin

section \<open>The cache\<close>

text \<open>
  \<open>lib/cache\<close> (\<open>cache.go\<close>, \<open>bucket.go\<close>, \<open>item.go\<close>, \<open>configuration.go\<close>): a cache whose callers change hashed buckets
  under their locks and report to one background worker, which alone touches the list of items in the order
  of their use, the size, and the eviction.

  \<^item> Items are shared by pointer: \<open>heap\<close> has all items ever made, an item is its index. \<open>element\<close> tells whether
    \<open>item.element\<close> was set, which it stays after the removal from the list; removing or moving an element that
    is in no list does nothing, as in \<open>container/list\<close>.
  \<^item> The channels \<open>promotables\<close> and \<open>deletables\<close> are lists. A caller changes the bucket first and sends later; here it
    sends at once and the worker may receive any element, which includes every order the
    scheduler can produce. A full channel only delays a caller, except in the last part.
  \<^item> A caller of \<open>DeleteFunc\<close> that has collected its matches in a bucket and not yet deleted them is in \<open>collected\<close>.
  \<^item> Times are arguments, in nanoseconds. \<open>Stop\<close> is not modelled.
\<close>

unbundle bit_operations_syntax

record Configuration =
  cMaxSize :: int
  cBuckets :: nat
  cItemsToPrune :: int
  cGetsPerPromote :: int
  cTracking :: bool

definition Configure :: Configuration where
  "Configure = \<lparr>cMaxSize = 5000, cBuckets = 16, cItemsToPrune = 500, cGetsPerPromote = 3, cTracking = False\<rparr>"

definition Buckets :: "32 word \<Rightarrow> Configuration \<Rightarrow> Configuration" where
  "Buckets count c =
     (let count = (if count = 0 \<or> count AND (NOT count + 1) \<noteq> count then 16 else count)
      in c\<lparr>cBuckets := unat count\<rparr>)"

record 'v Item =
  iKey :: string
  iValue :: 'v
  promotions :: int
  refCount :: int
  expires :: int
  iSize :: int
  element :: bool

definition newItem :: "string \<Rightarrow> 'v \<Rightarrow> int \<Rightarrow> int \<Rightarrow> bool \<Rightarrow> 'v Item" where
  "newItem key v sz exp track =
     \<lparr>iKey = key, iValue = v, promotions = 0, refCount = (if track then 1 else 0), expires = exp, iSize = sz, element = False\<rparr>"

record 'v Cache =
  heap :: "'v Item list"
  buckets :: "(string \<times> nat) list list"
  order :: "nat list"
  csize :: int
  maxSize :: int
  deletables :: "nat list"
  promotables :: "nat list"
  collected :: "(nat \<times> nat list) list"
  dropped :: int
  deletedLog :: "nat list"

definition NewCache :: "Configuration \<Rightarrow> 'v Cache" where
  "NewCache cfg =
     \<lparr>heap = [], buckets = replicate (cBuckets cfg) [], order = [], csize = 0, maxSize = cMaxSize cfg, deletables = [],
      promotables = [], collected = [], dropped = 0, deletedLog = []\<rparr>"

subsection \<open>Buckets\<close>

text \<open>\<open>hash/fnv\<close>: \<open>New32a\<close> and \<open>Write\<close>.\<close>

definition fnv32a :: "string \<Rightarrow> 32 word" where
  "fnv32a key = fold (\<lambda>c h. (h XOR of_char c) * 16777619) key 2166136261"

definition bucketIndex :: "'v Cache \<Rightarrow> string \<Rightarrow> nat" where
  "bucketIndex c key = unat (fnv32a key AND (word_of_nat (length (buckets c)) - 1))"

definition bucketGet :: "'v Cache \<Rightarrow> string \<Rightarrow> nat option" where
  "bucketGet c key = map_of (buckets c ! bucketIndex c key) key"

definition bucketPut :: "string \<Rightarrow> nat \<Rightarrow> 'v Cache \<Rightarrow> 'v Cache" where
  "bucketPut key i c = c\<lparr>buckets := (buckets c)[bucketIndex c key := AList.update key i (buckets c ! bucketIndex c key)]\<rparr>"

definition bucketDelete :: "string \<Rightarrow> 'v Cache \<Rightarrow> 'v Cache" where
  "bucketDelete key c = c\<lparr>buckets := (buckets c)[bucketIndex c key := AList.delete key (buckets c ! bucketIndex c key)]\<rparr>"

definition setItem :: "nat \<Rightarrow> ('v Item \<Rightarrow> 'v Item) \<Rightarrow> 'v Cache \<Rightarrow> 'v Cache" where
  "setItem i f c = c\<lparr>heap := (heap c)[i := f (heap c ! i)]\<rparr>"

subsection \<open>What callers do\<close>

definition promote :: "nat \<Rightarrow> 'v Cache \<Rightarrow> 'v Cache" where
  "promote i c = c\<lparr>promotables := promotables c @ [i]\<rparr>"

definition cacheSet :: "string \<Rightarrow> 'v \<Rightarrow> int \<Rightarrow> int \<Rightarrow> bool \<Rightarrow> 'v Cache \<Rightarrow> 'v Cache \<times> nat" where
  "cacheSet key v sz exp track c =
     (let i = length (heap c);
          existing = bucketGet c key;
          c = bucketPut key i (c\<lparr>heap := heap c @ [newItem key v sz exp track]\<rparr>);
          c = (case existing of None \<Rightarrow> c | Some e \<Rightarrow> c\<lparr>deletables := deletables c @ [e]\<rparr>)
      in (promote i c, i))"

definition cacheGet :: "string \<Rightarrow> int \<Rightarrow> 'v Cache \<Rightarrow> 'v Cache \<times> nat option" where
  "cacheGet key now c =
     (case bucketGet c key of
        None \<Rightarrow> (c, None)
      | Some i \<Rightarrow> (if expires (heap c ! i) > now then promote i c else c, Some i))"

definition track :: "nat \<Rightarrow> 'v Cache \<Rightarrow> 'v Cache" where
  "track i c = setItem i (\<lambda>x. x\<lparr>refCount := to_int32 (refCount x + 1)\<rparr>) c"

definition Release :: "nat \<Rightarrow> 'v Cache \<Rightarrow> 'v Cache" where
  "Release i c = setItem i (\<lambda>x. x\<lparr>refCount := to_int32 (refCount x - 1)\<rparr>) c"

definition Extend :: "nat \<Rightarrow> int \<Rightarrow> 'v Cache \<Rightarrow> 'v Cache" where
  "Extend i exp c = setItem i (\<lambda>x. x\<lparr>expires := exp\<rparr>) c"

definition Expired :: "'v Item \<Rightarrow> int \<Rightarrow> bool" where
  "Expired x now \<longleftrightarrow> expires x < now"

definition TrackingGet :: "string \<Rightarrow> int \<Rightarrow> 'v Cache \<Rightarrow> 'v Cache \<times> nat option" where
  "TrackingGet key now c =
     (case cacheGet key now c of (c, None) \<Rightarrow> (c, None) | (c, Some i) \<Rightarrow> (track i c, Some i))"

text \<open>\<open>Replace\<close> asks for the remaining time at \<open>now\<close> and sets it again at \<open>now'\<close>.\<close>

definition Replace :: "string \<Rightarrow> 'v \<Rightarrow> int \<Rightarrow> int \<Rightarrow> int \<Rightarrow> 'v Cache \<Rightarrow> 'v Cache \<times> bool" where
  "Replace key v sz now now' c =
     (case bucketGet c key of
        None \<Rightarrow> (c, False)
      | Some i \<Rightarrow> (fst (cacheSet key v sz (now' + (expires (heap c ! i) - now)) False c), True))"

definition Fetch ::
  "string \<Rightarrow> int \<Rightarrow> int \<Rightarrow> int \<Rightarrow> string + 'v \<times> int \<Rightarrow> 'v Cache \<Rightarrow> 'v Cache \<times> (string + nat)" where
  "Fetch key now now' exp fetched c =
     (case cacheGet key now c of (c, item) \<Rightarrow>
        if item \<noteq> None \<and> \<not> Expired (heap c ! the item) now' then (c, Inr (the item))
        else (case fetched of
                Inl err \<Rightarrow> (c, Inl err)
              | Inr (v, sz) \<Rightarrow> apsnd Inr (cacheSet key v sz exp False c)))"

definition cacheDelete :: "string \<Rightarrow> 'v Cache \<Rightarrow> 'v Cache \<times> bool" where
  "cacheDelete key c =
     (case bucketGet c key of
        None \<Rightarrow> (bucketDelete key c, False)
      | Some i \<Rightarrow> ((bucketDelete key c)\<lparr>deletables := deletables c @ [i]\<rparr>, True))"

text \<open>\<open>deleteFunc\<close> on one bucket: the matches are sent under the read lock; their keys are deleted later.\<close>

definition collectMatches :: "nat \<Rightarrow> (string \<Rightarrow> 'v Item \<Rightarrow> bool) \<Rightarrow> 'v Cache \<Rightarrow> 'v Cache" where
  "collectMatches b matches c =
     (let items = map snd (filter (\<lambda>(key, i). matches key (heap c ! i)) (buckets c ! b))
      in c\<lparr>deletables := deletables c @ items, collected := collected c @ [(b, items)]\<rparr>)"

definition deleteCollected :: "nat \<Rightarrow> 'v Cache \<Rightarrow> 'v Cache" where
  "deleteCollected n c =
     (let (b, items) = collected c ! n;
          c = c\<lparr>buckets := (buckets c)[b := fold (\<lambda>i. AList.delete (iKey (heap c ! i))) items (buckets c ! b)]\<rparr>
      in c\<lparr>collected := take n (collected c) @ drop (Suc n) (collected c)\<rparr>)"

definition hasPrefix :: "string \<Rightarrow> string \<Rightarrow> 'v Item \<Rightarrow> bool" where
  "hasPrefix prefix key item \<longleftrightarrow> take (length prefix) key = prefix"

definition ItemCount :: "'v Cache \<Rightarrow> nat" where
  "ItemCount c = sum_list (map length (buckets c))"

subsection \<open>What the worker does\<close>

definition doDelete :: "nat \<Rightarrow> 'v Cache \<Rightarrow> 'v Cache" where
  "doDelete i c =
     (if \<not> element (heap c ! i) then setItem i (\<lambda>x. x\<lparr>promotions := -2\<rparr>) c
      else c\<lparr>csize := csize c - iSize (heap c ! i), deletedLog := deletedLog c @ [i], order := remove1 i (order c)\<rparr>)"

definition moveToFront :: "nat \<Rightarrow> nat list \<Rightarrow> nat list" where
  "moveToFront i xs = (if i \<in> set xs then i # remove1 i xs else xs)"

definition doPromote :: "Configuration \<Rightarrow> nat \<Rightarrow> 'v Cache \<Rightarrow> 'v Cache \<times> bool" where
  "doPromote cfg i c =
     (if promotions (heap c ! i) = -2 then (c, False)
      else if element (heap c ! i) then
        (let p = to_int32 (promotions (heap c ! i) + 1)
         in if p = cGetsPerPromote cfg
            then (setItem i (\<lambda>x. x\<lparr>promotions := 0\<rparr>) (c\<lparr>order := moveToFront i (order c)\<rparr>), False)
            else (setItem i (\<lambda>x. x\<lparr>promotions := p\<rparr>) c, False))
      else (setItem i (\<lambda>x. x\<lparr>element := True\<rparr>) (c\<lparr>csize := csize c + iSize (heap c ! i), order := i # order c\<rparr>), True))"

text \<open>\<open>gc\<close> goes from the back of the list to the front, over at most \<open>itemsToPrune\<close> elements.\<close>

fun gcLoop :: "bool \<Rightarrow> nat list \<Rightarrow> 'v Cache \<Rightarrow> 'v Cache" where
  "gcLoop tracking [] c = c"
| "gcLoop tracking (i # is) c =
     (if \<not> tracking \<or> refCount (heap c ! i) = 0 then
        (let c = bucketDelete (iKey (heap c ! i)) c;
             c = c\<lparr>csize := csize c - iSize (heap c ! i), order := remove1 i (order c),
                   deletedLog := deletedLog c @ [i], dropped := dropped c + 1\<rparr>
         in gcLoop tracking is (setItem i (\<lambda>x. x\<lparr>promotions := -2\<rparr>) c))
      else gcLoop tracking is c)"

definition gc :: "Configuration \<Rightarrow> 'v Cache \<Rightarrow> 'v Cache" where
  "gc cfg c = gcLoop (cTracking cfg) (take (nat (cItemsToPrune cfg)) (rev (order c))) c"

definition onPromotable :: "Configuration \<Rightarrow> nat \<Rightarrow> 'v Cache \<Rightarrow> 'v Cache" where
  "onPromotable cfg i c =
     (case doPromote cfg i c of (c, new) \<Rightarrow> if new \<and> csize c > maxSize c then gc cfg c else c)"

definition onSetMaxSize :: "Configuration \<Rightarrow> int \<Rightarrow> 'v Cache \<Rightarrow> 'v Cache" where
  "onSetMaxSize cfg sz c =
     (let c = c\<lparr>maxSize := sz\<rparr> in if csize c > maxSize c then gc cfg c else c)"

text \<open>After \<open>Clear\<close> a caller of \<open>DeleteFunc\<close> works on a map nobody reads any more.\<close>

definition onClear :: "'v Cache \<Rightarrow> 'v Cache" where
  "onClear c = c\<lparr>buckets := map (\<lambda>_. []) (buckets c), csize := 0, order := [], collected := []\<rparr>"

definition onGetDropped :: "'v Cache \<Rightarrow> 'v Cache \<times> int" where
  "onGetDropped c = (c\<lparr>dropped := 0\<rparr>, dropped c)"

text \<open>One step of a caller or of the worker. \<open>PromoteAt\<close> and \<open>DeleteAt\<close> receive an element of a channel.\<close>

datatype 'v event =
  SetE string 'v int int bool
| GetE string int
| TrackingGetE string int
| ReplaceE string 'v int int int
| FetchE string int int int "string + 'v \<times> int"
| ReleaseE nat
| ExtendE nat int
| DeleteE string
| CollectE nat "string \<Rightarrow> 'v Item \<Rightarrow> bool"
| DeleteCollectedE nat
| PromoteAt nat
| DeleteAt nat
| SetMaxSizeE int
| ClearE
| GetDroppedE

definition dropNth :: "nat \<Rightarrow> 'a list \<Rightarrow> 'a list" where
  "dropNth n xs = take n xs @ drop (Suc n) xs"

fun cacheStep :: "Configuration \<Rightarrow> 'v Cache \<Rightarrow> 'v event \<Rightarrow> 'v Cache" where
  "cacheStep cfg c (SetE key v sz exp tr) = fst (cacheSet key v sz exp tr c)"
| "cacheStep cfg c (GetE key now) = fst (cacheGet key now c)"
| "cacheStep cfg c (TrackingGetE key now) = fst (TrackingGet key now c)"
| "cacheStep cfg c (ReplaceE key v sz now now') = fst (Replace key v sz now now' c)"
| "cacheStep cfg c (FetchE key now now' exp fetched) = fst (Fetch key now now' exp fetched c)"
| "cacheStep cfg c (ReleaseE i) = (if i < length (heap c) then Release i c else c)"
| "cacheStep cfg c (ExtendE i exp) = (if i < length (heap c) then Extend i exp c else c)"
| "cacheStep cfg c (DeleteE key) = fst (cacheDelete key c)"
| "cacheStep cfg c (CollectE b matches) = (if b < length (buckets c) then collectMatches b matches c else c)"
| "cacheStep cfg c (DeleteCollectedE n) = (if n < length (collected c) then deleteCollected n c else c)"
| "cacheStep cfg c (PromoteAt n) =
     (if n < length (promotables c)
      then onPromotable cfg (promotables c ! n) (c\<lparr>promotables := dropNth n (promotables c)\<rparr>) else c)"
| "cacheStep cfg c (DeleteAt n) =
     (if n < length (deletables c) then doDelete (deletables c ! n) (c\<lparr>deletables := dropNth n (deletables c)\<rparr>) else c)"
| "cacheStep cfg c (SetMaxSizeE sz) = onSetMaxSize cfg sz c"
| "cacheStep cfg c ClearE = onClear c"
| "cacheStep cfg c GetDroppedE = fst (onGetDropped c)"

subsection \<open>The buckets as a map\<close>

lemma bucketIndex_cong: "length (buckets c') = length (buckets c) \<Longrightarrow> bucketIndex c' key = bucketIndex c key"
  by (simp add: bucketIndex_def)

definition bucketsOk :: "'v Cache \<Rightarrow> bool" where
  "bucketsOk c \<longleftrightarrow> 0 < length (buckets c) \<and> length (buckets c) < 2 ^ 32"

lemma bucketIndex_less:
  assumes "bucketsOk c"
  shows "bucketIndex c key < length (buckets c)"
proof -
  let ?n = "length (buckets c)"
  have n: "0 < ?n" "?n < 2 ^ 32" using assms by (simp_all add: bucketsOk_def)
  have "unat (word_of_nat ?n - 1 :: 32 word) = ?n - 1"
  proof -
    have "word_of_nat ?n - 1 = (word_of_nat (?n - 1) :: 32 word)" using n(1) by (cases "buckets c") simp_all
    then show ?thesis using n by (simp only: unat_of_nat) (simp add: take_bit_nat_eq_self)
  qed
  moreover have "unat (fnv32a key AND (word_of_nat ?n - 1)) \<le> unat (word_of_nat ?n - 1 :: 32 word)"
    by (simp add: word_and_le1 flip: word_le_nat_alt)
  ultimately have "bucketIndex c key \<le> ?n - 1" by (simp add: bucketIndex_def)
  with n(1) show ?thesis by linarith
qed

lemma bucketsOk_keep [simp]:
  "bucketsOk (bucketPut key i c) = bucketsOk c" "bucketsOk (bucketDelete key c) = bucketsOk c" "bucketsOk (setItem j f c) = bucketsOk c"
  by (simp_all add: bucketsOk_def bucketPut_def bucketDelete_def setItem_def)

lemma bucketGet_put:
  assumes "bucketsOk c"
  shows "bucketGet (bucketPut key i c) key' = (if key' = key then Some i else bucketGet c key')"
  using bucketIndex_less [OF assms, of key]
  by (auto simp: bucketGet_def bucketPut_def update_conv' nth_list_update
      bucketIndex_cong [of "c\<lparr>buckets := (buckets c)[bucketIndex c key := AList.update key i (buckets c ! bucketIndex c key)]\<rparr>" c])

lemma bucketGet_delete:
  assumes "bucketsOk c"
  shows "bucketGet (bucketDelete key c) key' = (if key' = key then None else bucketGet c key')"
  using bucketIndex_less [OF assms, of key]
  by (auto simp: bucketGet_def bucketDelete_def delete_conv' nth_list_update
      bucketIndex_cong [of "c\<lparr>buckets := (buckets c)[bucketIndex c key := AList.delete key (buckets c ! bucketIndex c key)]\<rparr>" c])

lemma bucketGet_frame: "buckets c' = buckets c \<Longrightarrow> bucketGet c' key = bucketGet c key"
  by (simp add: bucketGet_def bucketIndex_def)

text \<open>\<open>entryOk\<close>: every entry of a bucket is an item with that key, in the bucket of the key. \<open>idsOk\<close>: whatever is waiting
  somewhere is an item.\<close>

definition entryOk :: "'v Cache \<Rightarrow> bool" where
  "entryOk c \<longleftrightarrow> (\<forall>b < length (buckets c). \<forall>(key, i) \<in> set (buckets c ! b).
     i < length (heap c) \<and> iKey (heap c ! i) = key \<and> bucketIndex c key = b)"

lemma entryOkD:
  assumes "entryOk c" "b < length (buckets c)" "(key, i) \<in> set (buckets c ! b)"
  shows "i < length (heap c)" "iKey (heap c ! i) = key" "bucketIndex c key = b"
  using assms unfolding entryOk_def by fast+

definition idsOk :: "'v Cache \<Rightarrow> bool" where
  "idsOk c \<longleftrightarrow> (\<forall>i \<in> set (order c) \<union> set (promotables c) \<union> set (deletables c). i < length (heap c)) \<and>
     (\<forall>x \<in> set (collected c). fst x < length (buckets c) \<and>
        (\<forall>i \<in> set (snd x). i < length (heap c) \<and> bucketIndex c (iKey (heap c ! i)) = fst x))"

definition cacheInv :: "'v Cache \<Rightarrow> bool" where
  "cacheInv c \<longleftrightarrow> bucketsOk c \<and> entryOk c \<and> idsOk c"

text \<open>Items keep their key and value, and there are never fewer.\<close>

definition sameItems :: "'v Cache \<Rightarrow> 'v Cache \<Rightarrow> bool" where
  "sameItems c c' \<longleftrightarrow> length (heap c) \<le> length (heap c') \<and>
     (\<forall>i < length (heap c). iKey (heap c' ! i) = iKey (heap c ! i) \<and> iValue (heap c' ! i) = iValue (heap c ! i))"

lemma sameItems_refl [simp]: "heap c' = heap c \<Longrightarrow> sameItems c c'"
  by (simp add: sameItems_def)

lemma sameItems_trans: "sameItems c c' \<Longrightarrow> sameItems c' c'' \<Longrightarrow> sameItems c c''"
  by (simp add: sameItems_def)

lemma sel_update:
  "iKey y = iKey (xs ! j) \<Longrightarrow> iKey (xs[j := y] ! i) = iKey (xs ! i)"
  "iValue y = iValue (xs ! j) \<Longrightarrow> iValue (xs[j := y] ! i) = iValue (xs ! i)"
  "iSize y = iSize (xs ! j) \<Longrightarrow> iSize (xs[j := y] ! i) = iSize (xs ! i)"
  by (metis linorder_not_less list_update_beyond nth_list_update_eq nth_list_update_neq)+

lemma sameItems_setItem:
  "(\<And>x. iKey (f x) = iKey x \<and> iValue (f x) = iValue x) \<Longrightarrow> sameItems c (setItem i f c)"
  by (simp add: sameItems_def setItem_def sel_update)

lemma bucketGet_entry:
  assumes "cacheInv c" "bucketGet c key = Some i"
  shows "i < length (heap c)" "iKey (heap c ! i) = key"
  using assms bucketIndex_less [of c key]
  by (auto simp: cacheInv_def entryOk_def bucketGet_def dest!: map_of_SomeD)

lemma entryOk_frame:
  assumes "entryOk c" "sameItems c c'" "length (buckets c') = length (buckets c)"
    and "\<forall>b < length (buckets c). set (buckets c' ! b) \<subseteq> set (buckets c ! b)"
  shows "entryOk c'"
  unfolding entryOk_def
proof (intro allI impI ballI, clarify)
  fix b key i assume "b < length (buckets c')" "(key, i) \<in> set (buckets c' ! b)"
  then have "b < length (buckets c)" "(key, i) \<in> set (buckets c ! b)" using assms(3,4) by auto
  then have "i < length (heap c)" "iKey (heap c ! i) = key" "bucketIndex c key = b" using assms(1) by (auto simp: entryOk_def)
  then show "i < length (heap c') \<and> iKey (heap c' ! i) = key \<and> bucketIndex c' key = b"
    using assms(2) bucketIndex_cong [OF assms(3)] by (simp add: sameItems_def)
qed

lemma idsOk_frame:
  assumes "idsOk c" "sameItems c c'" "length (buckets c') = length (buckets c)"
    and "set (order c') \<union> set (promotables c') \<union> set (deletables c') \<subseteq> set (order c) \<union> set (promotables c) \<union> set (deletables c)"
    and "set (collected c') \<subseteq> set (collected c)"
  shows "idsOk c'"
proof -
  have "bucketIndex c' (iKey (heap c' ! i)) = bucketIndex c (iKey (heap c ! i)) \<and> i < length (heap c')" if "i < length (heap c)" for i
    using that assms(2) bucketIndex_cong [OF assms(3)] by (auto simp: sameItems_def)
  note keep = this
  have "i < length (heap c)" if "i \<in> set (order c') \<union> set (promotables c') \<union> set (deletables c')" for i
    using that assms(1,4) by (auto simp: idsOk_def)
  moreover have "fst x < length (buckets c) \<and> (\<forall>i \<in> set (snd x). i < length (heap c) \<and> bucketIndex c (iKey (heap c ! i)) = fst x)"
    if "x \<in> set (collected c')" for x
    using that assms(1,5) by (auto simp: idsOk_def)
  ultimately show ?thesis unfolding idsOk_def using keep assms(3) by simp
qed

lemma cacheInv_frame:
  assumes "cacheInv c" "sameItems c c'" "length (buckets c') = length (buckets c)"
    and "\<forall>b < length (buckets c). set (buckets c' ! b) \<subseteq> set (buckets c ! b)"
    and "set (order c') \<union> set (promotables c') \<union> set (deletables c') \<subseteq> set (order c) \<union> set (promotables c) \<union> set (deletables c)"
    and "set (collected c') \<subseteq> set (collected c)"
  shows "cacheInv c'"
  using assms entryOk_frame [of c c'] idsOk_frame [of c c'] by (simp add: cacheInv_def bucketsOk_def)

subsection \<open>Steps that only take away\<close>

definition shrinks :: "'v Cache \<Rightarrow> 'v Cache \<Rightarrow> bool" where
  "shrinks c c' \<longleftrightarrow> sameItems c c' \<and> length (buckets c') = length (buckets c) \<and>
     (\<forall>b < length (buckets c). set (buckets c' ! b) \<subseteq> set (buckets c ! b)) \<and>
     (\<forall>key i. bucketGet c' key = Some i \<longrightarrow> bucketGet c key = Some i) \<and>
     set (order c') \<union> set (promotables c') \<union> set (deletables c') \<subseteq> set (order c) \<union> set (promotables c) \<union> set (deletables c) \<and>
     set (collected c') \<subseteq> set (collected c)"

definition staleFree :: "'v Cache \<Rightarrow> (string \<rightharpoonup> 'v) \<Rightarrow> bool" where
  "staleFree c m \<longleftrightarrow> (\<forall>key i. bucketGet c key = Some i \<longrightarrow> m key = Some (iValue (heap c ! i)))"

lemma shrinks_keeps:
  assumes "shrinks c c'" "cacheInv c" "staleFree c m"
  shows "cacheInv c'" "staleFree c' m"
proof -
  show "cacheInv c'" using assms(1) cacheInv_frame [OF assms(2), of c'] by (simp add: shrinks_def)
  show "staleFree c' m" unfolding staleFree_def
  proof (intro allI impI)
    fix key i assume "bucketGet c' key = Some i"
    then have "bucketGet c key = Some i" using assms(1) by (simp add: shrinks_def)
    with bucketGet_entry(1) [OF assms(2) this] assms(1,3) show "m key = Some (iValue (heap c' ! i))"
      by (simp add: staleFree_def shrinks_def sameItems_def)
  qed
qed

lemma shrinks_same:
  assumes "sameItems c c'" "buckets c' = buckets c" "collected c' = collected c"
    and "set (order c') \<union> set (promotables c') \<union> set (deletables c') \<subseteq> set (order c) \<union> set (promotables c) \<union> set (deletables c)"
  shows "shrinks c c'"
  using assms bucketGet_frame [OF assms(2)] by (simp add: shrinks_def)

lemma shrinks_trans: "shrinks c c' \<Longrightarrow> shrinks c' c'' \<Longrightarrow> shrinks c c''"
  using sameItems_trans [of c c' c''] unfolding shrinks_def by (auto dest: subsetD)

lemma shrinks_bucketDelete:
  assumes "bucketsOk c"
  shows "shrinks c (bucketDelete key c)"
proof -
  have "set (buckets (bucketDelete key c) ! b) \<subseteq> set (buckets c ! b)" if "b < length (buckets c)" for b
    using that bucketIndex_less [OF assms, of key] by (auto simp: bucketDelete_def nth_list_update AList.delete_eq split: if_splits)
  then show ?thesis using bucketGet_delete [OF assms, of key]
    by (auto simp: shrinks_def bucketDelete_def sameItems_def split: if_splits)
qed

lemma shrinks_setItem:
  assumes "\<And>x. iKey (f x) = iKey x \<and> iValue (f x) = iValue x"
  shows "shrinks c (setItem i f c)"
  by (rule shrinks_same [OF sameItems_setItem]) (use assms in \<open>simp_all add: setItem_def\<close>)

lemma shrinks_gcLoop: "bucketsOk c \<Longrightarrow> shrinks c (gcLoop tr is c)"
proof (induction tr "is" c rule: gcLoop.induct)
  case (1 tr c)
  then show ?case by (simp add: shrinks_same)
next
  case (2 tr i "is" c)
  show ?case
  proof (cases "\<not> tr \<or> refCount (heap c ! i) = 0")
    case True
    let ?b = "bucketDelete (iKey (heap c ! i)) c"
    let ?o = "?b\<lparr>csize := csize ?b - iSize (heap ?b ! i), order := remove1 i (order ?b), deletedLog := deletedLog ?b @ [i], dropped := dropped ?b + 1\<rparr>"
    let ?s = "setItem i (\<lambda>x. x\<lparr>promotions := -2\<rparr>) ?o"
    have "shrinks c ?b" by (rule shrinks_bucketDelete [OF 2(3)])
    moreover have "shrinks ?b ?o" by (rule shrinks_same) (auto dest: set_remove1_subset [THEN subsetD])
    moreover have "shrinks ?o ?s" by (rule shrinks_setItem) simp
    moreover have "shrinks ?s (gcLoop tr is ?s)"
      using 2(1) [OF True refl refl] 2(3) by (simp add: bucketsOk_def bucketDelete_def setItem_def)
    ultimately show ?thesis using True by (simp add: Let_def) (blast intro: shrinks_trans)
  next
    case False
    then show ?thesis using 2(2) [OF False 2(3)] by simp
  qed
qed

lemma shrinks_gc: "bucketsOk c \<Longrightarrow> shrinks c (gc cfg c)"
  by (simp add: gc_def shrinks_gcLoop)

lemma set_moveToFront [simp]: "set (moveToFront i xs) = set xs"
  by (induction xs) (auto simp: moveToFront_def)

lemma set_dropNth: "set (dropNth n xs) \<subseteq> set xs"
  by (auto simp: dropNth_def dest: in_set_takeD in_set_dropD)

lemma bucketGet_clear: "bucketsOk c \<Longrightarrow> bucketGet (onClear c) key = None"
  using bucketIndex_less [of c key] by (simp add: bucketGet_def onClear_def bucketIndex_def)

lemma shrinks_worker:
  "bucketsOk c \<Longrightarrow> n < length (promotables c) \<Longrightarrow>
    shrinks c (onPromotable cfg (promotables c ! n) (c\<lparr>promotables := dropNth n (promotables c)\<rparr>))"
  "n < length (deletables c) \<Longrightarrow> shrinks c (doDelete (deletables c ! n) (c\<lparr>deletables := dropNth n (deletables c)\<rparr>))"
  "bucketsOk c \<Longrightarrow> shrinks c (onSetMaxSize cfg sz c)"
  "bucketsOk c \<Longrightarrow> shrinks c (onClear c)"
proof -
  assume n: "n < length (promotables c)" and ok: "bucketsOk c"
  let ?i = "promotables c ! n" let ?d = "c\<lparr>promotables := dropNth n (promotables c)\<rparr>"
  obtain p new where p: "doPromote cfg ?i ?d = (p, new)" by (cases "doPromote cfg ?i ?d") auto
  have i: "?i \<in> set (promotables c)" using n by simp
  have "shrinks c p"
  proof (rule shrinks_same)
    show "sameItems c p"
      using p by (auto simp: doPromote_def Let_def sameItems_def setItem_def sel_update split: if_splits)
    show "buckets p = buckets c" "collected p = collected c"
      using p by (auto simp: doPromote_def Let_def setItem_def split: if_splits)
    show "set (order p) \<union> set (promotables p) \<union> set (deletables p) \<subseteq> set (order c) \<union> set (promotables c) \<union> set (deletables c)"
      using p i set_dropNth [of n "promotables c"] by (auto simp: doPromote_def Let_def setItem_def split: if_splits)
  qed
  moreover from this ok have "bucketsOk p" by (simp add: bucketsOk_def shrinks_def)
  ultimately show "shrinks c (onPromotable cfg ?i ?d)"
    using shrinks_gc [of p cfg] p by (auto simp: onPromotable_def intro: shrinks_trans)
next
  show "shrinks c (doDelete (deletables c ! n) (c\<lparr>deletables := dropNth n (deletables c)\<rparr>))"
    by (rule shrinks_same)
      (auto simp: doDelete_def sameItems_def setItem_def sel_update dest: set_remove1_subset [THEN subsetD] set_dropNth [THEN subsetD])
next
  assume "bucketsOk c"
  then have "bucketsOk (c\<lparr>maxSize := sz\<rparr>)" by (simp add: bucketsOk_def)
  moreover have "shrinks c (c\<lparr>maxSize := sz\<rparr>)" by (rule shrinks_same) simp_all
  ultimately show "shrinks c (onSetMaxSize cfg sz c)"
    using shrinks_gc by (auto simp: onSetMaxSize_def Let_def intro: shrinks_trans)
next
  assume "bucketsOk c"
  then have "\<forall>key i. bucketGet (onClear c) key = Some i \<longrightarrow> bucketGet c key = Some i" by (simp add: bucketGet_clear)
  moreover have "heap (onClear c) = heap c" "length (buckets (onClear c)) = length (buckets c)" "order (onClear c) = []"
    "promotables (onClear c) = promotables c" "deletables (onClear c) = deletables c" "collected (onClear c) = []"
    "\<forall>b < length (buckets c). buckets (onClear c) ! b = []"
    by (simp_all add: onClear_def)
  ultimately show "shrinks c (onClear c)" by (simp add: shrinks_def subset_eq)
qed

subsection \<open>Steps of callers\<close>

lemma cacheInv_promote: "cacheInv c \<Longrightarrow> i < length (heap c) \<Longrightarrow> cacheInv (promote i c)"
  by (auto simp: cacheInv_def promote_def bucketsOk_def entryOk_def idsOk_def bucketIndex_def)

lemma cacheInv_deletable: "cacheInv c \<Longrightarrow> set is \<subseteq> {..<length (heap c)} \<Longrightarrow> cacheInv (c\<lparr>deletables := deletables c @ is\<rparr>)"
  by (auto simp: cacheInv_def bucketsOk_def entryOk_def idsOk_def bucketIndex_def)

lemma staleFree_frame: "buckets c' = buckets c \<Longrightarrow> heap c' = heap c \<Longrightarrow> staleFree c' m \<longleftrightarrow> staleFree c m"
  using bucketGet_frame [of c' c] by (simp add: staleFree_def)

lemma in_set_update: "x \<in> set (AList.update key i al) \<Longrightarrow> x = (key, i) \<or> x \<in> set al"
  by (induction al) (auto split: if_splits)

lemma entryOk_put:
  assumes "bucketsOk c" "entryOk c" "i < length (heap c)" "iKey (heap c ! i) = key"
  shows "entryOk (bucketPut key i c)"
proof -
  let ?c = "bucketPut key i c"
  have len: "length (buckets ?c) = length (buckets c)" "heap ?c = heap c" by (simp_all add: bucketPut_def)
  have new: "x = (key, i) \<and> b = bucketIndex c key \<or> x \<in> set (buckets c ! b)"
    if "b < length (buckets c)" "x \<in> set (buckets ?c ! b)" for b x
    using that bucketIndex_less [OF assms(1), of key]
    by (auto simp: bucketPut_def nth_list_update split: if_splits dest!: in_set_update)
  have old: "j < length (heap c) \<and> iKey (heap c ! j) = k \<and> bucketIndex c k = b"
    if "b < length (buckets c)" "(k, j) \<in> set (buckets c ! b)" for b k j
    using entryOkD [OF assms(2) that] by simp
  show ?thesis unfolding entryOk_def
  proof (intro allI impI ballI, clarify)
    fix b k j assume "b < length (buckets ?c)" "(k, j) \<in> set (buckets ?c ! b)"
    then show "j < length (heap ?c) \<and> iKey (heap ?c ! j) = k \<and> bucketIndex ?c k = b"
      using new [of b "(k, j)"] old [of b k j] assms(3,4) len bucketIndex_cong [OF len(1)] by auto
  qed
qed

lemma cacheInv_put:
  assumes "cacheInv c" "i < length (heap c)" "iKey (heap c ! i) = key"
  shows "cacheInv (bucketPut key i c)"
  using assms entryOk_put [of c i key] by (simp add: cacheInv_def) (simp add: idsOk_def bucketPut_def bucketIndex_def)

lemma cacheInv_set:
  assumes "cacheInv c" "staleFree c m"
  shows "cacheInv (fst (cacheSet key v sz exp tr c))" "staleFree (fst (cacheSet key v sz exp tr c)) (m(key \<mapsto> v))"
proof -
  let ?i = "length (heap c)" let ?h = "c\<lparr>heap := heap c @ [newItem key v sz exp tr]\<rparr>" let ?p = "bucketPut key ?i ?h"
  let ?d = "case bucketGet c key of None \<Rightarrow> ?p | Some e \<Rightarrow> ?p\<lparr>deletables := deletables ?p @ [e]\<rparr>"
  have set: "fst (cacheSet key v sz exp tr c) = promote ?i ?d" by (simp add: cacheSet_def Let_def)
  have sh: "shrinks c ?h" by (rule shrinks_same) (simp_all add: sameItems_def nth_append)
  note h = shrinks_keeps [OF sh assms]
  have p: "cacheInv ?p" by (rule cacheInv_put [OF h(1)]) (simp_all add: newItem_def)
  have hp: "heap ?p = heap ?h" by (simp add: bucketPut_def)
  have "e < length (heap ?p)" if "bucketGet c key = Some e" for e
    using bucketGet_entry(1) [OF assms(1) that] hp by simp
  then have d: "cacheInv ?d" "heap ?d = heap ?h" "buckets ?d = buckets ?p"
    using p hp cacheInv_deletable [OF p] by (simp_all split: option.splits)
  then show "cacheInv (fst (cacheSet key v sz exp tr c))" unfolding set by (intro cacheInv_promote) simp_all
  have "staleFree ?p (m(key \<mapsto> v))"
    using h bucketGet_put [of ?h key ?i] hp by (auto simp: staleFree_def cacheInv_def newItem_def nth_append split: if_splits)
  then show "staleFree (fst (cacheSet key v sz exp tr c)) (m(key \<mapsto> v))"
    unfolding set using d(2,3) hp staleFree_frame [of "promote ?i ?d" ?p] by (simp add: promote_def)
qed

lemma cacheInv_get:
  assumes "cacheInv c" "staleFree c m"
  shows "cacheInv (fst (cacheGet key now c))" "staleFree (fst (cacheGet key now c)) m"
    "heap (fst (cacheGet key now c)) = heap c" "buckets (fst (cacheGet key now c)) = buckets c" "snd (cacheGet key now c) = bucketGet c key"
proof -
  have same: "heap (fst (cacheGet key now c)) = heap c" "buckets (fst (cacheGet key now c)) = buckets c"
    by (simp_all add: cacheGet_def promote_def split: option.splits)
  then show "heap (fst (cacheGet key now c)) = heap c" "buckets (fst (cacheGet key now c)) = buckets c" .
  show "staleFree (fst (cacheGet key now c)) m" using staleFree_frame [OF same(2,1)] assms(2) by simp
  show "cacheInv (fst (cacheGet key now c))" using assms(1) cacheInv_promote bucketGet_entry(1) [OF assms(1)]
    by (auto simp: cacheGet_def split: option.splits)
  show "snd (cacheGet key now c) = bucketGet c key" by (simp add: cacheGet_def split: option.splits)
qed

lemma cacheInv_tracking:
  assumes "cacheInv c" "staleFree c m"
  shows "cacheInv (track i c)" "staleFree (track i c) m" "cacheInv (Release i c)" "staleFree (Release i c) m"
    "cacheInv (Extend i exp c)" "staleFree (Extend i exp c) m"
  unfolding track_def Release_def Extend_def by (rule shrinks_keeps [OF shrinks_setItem assms]; simp)+

lemma cacheInv_collect:
  assumes "cacheInv c" "b < length (buckets c)"
  shows "cacheInv (collectMatches b matches c)"
proof -
  let ?is = "map snd (filter (\<lambda>(key, i). matches key (heap c ! i)) (buckets c ! b))"
  have "i < length (heap c) \<and> bucketIndex c (iKey (heap c ! i)) = b" if "i \<in> set ?is" for i
    using that assms entryOkD [of c b] by (auto simp: cacheInv_def)
  note ok = this
  let ?c = "collectMatches b matches c"
  have fields: "heap ?c = heap c" "buckets ?c = buckets c" "order ?c = order c" "promotables ?c = promotables c"
    "deletables ?c = deletables c @ ?is" "collected ?c = collected c @ [(b, ?is)]"
    by (simp_all add: collectMatches_def Let_def)
  have "entryOk ?c" using assms(1) fields entryOk_frame [of c ?c] by (simp add: cacheInv_def)
  moreover have "idsOk ?c"
    using assms ok bucketIndex_cong [of ?c c] by (simp add: cacheInv_def idsOk_def fields ball_Un)
  ultimately show ?thesis using assms(1) fields(2) by (simp add: cacheInv_def bucketsOk_def)
qed

lemma map_of_without: "map_of (filter (\<lambda>(k, _). k \<notin> S) al) key = (if key \<in> S then None else map_of al key)"
  by (induction al) auto

lemma deleteCollected_keys:
  assumes "cacheInv c" "n < length (collected c)"
  shows "shrinks c (deleteCollected n c)"
    and "i \<in> set (snd (collected c ! n)) \<Longrightarrow> bucketGet (deleteCollected n c) (iKey (heap c ! i)) = None"
proof -
  let ?c = "deleteCollected n c" let ?b = "fst (collected c ! n)" let ?is = "snd (collected c ! n)"
  have mem: "collected c ! n \<in> set (collected c)" using assms(2) by simp
  then have b: "?b < length (buckets c)" "\<forall>i \<in> set ?is. bucketIndex c (iKey (heap c ! i)) = ?b"
    using assms(1) by (auto simp: cacheInv_def idsOk_def)
  have fold: "fold (\<lambda>i. AList.delete (iKey (heap c ! i))) is al = filter (\<lambda>(k, _). k \<notin> (\<lambda>i. iKey (heap c ! i)) ` set is) al" for "is" al
    by (induction "is" arbitrary: al) (auto simp: AList.delete_eq filter_filter case_prod_beta intro!: filter_cong)
  have bk: "buckets ?c = (buckets c)[?b := filter (\<lambda>(k, _). k \<notin> (\<lambda>i. iKey (heap c ! i)) ` set ?is) (buckets c ! ?b)]"
    by (simp add: deleteCollected_def fold case_prod_beta)
  have fields: "heap ?c = heap c" "order ?c = order c" "promotables ?c = promotables c" "deletables ?c = deletables c"
    "length (buckets ?c) = length (buckets c)" "set (collected ?c) \<subseteq> set (collected c)"
    by (auto simp: deleteCollected_def case_prod_beta dest: in_set_takeD in_set_dropD)
  have get: "bucketGet ?c key = (if bucketIndex c key = ?b \<and> key \<in> (\<lambda>i. iKey (heap c ! i)) ` set ?is then None else bucketGet c key)" for key
    using b(1) bucketIndex_cong [OF fields(5)]
    by (auto simp: bucketGet_def bk nth_list_update map_of_without)
  have "set (buckets ?c ! x) \<subseteq> set (buckets c ! x)" if "x < length (buckets c)" for x
    using that b(1) by (auto simp: bk nth_list_update split: if_splits)
  then show "shrinks c ?c" using fields get by (auto simp: shrinks_def split: if_splits)
  show "bucketGet ?c (iKey (heap c ! i)) = None" if "i \<in> set ?is"
    using that b(2) by (simp add: get)
qed

subsection \<open>No stale value\<close>

text \<open>The map a caller may expect behind the cache: what was set last, unless it was deleted or the cache was
  cleared. What \<open>Replace\<close> and \<open>Fetch\<close> set depends on what the cache holds at that moment.\<close>

fun specStep :: "'v Cache \<Rightarrow> (string \<rightharpoonup> 'v) \<Rightarrow> 'v event \<Rightarrow> (string \<rightharpoonup> 'v)" where
  "specStep c m (SetE key v sz exp tr) = m(key \<mapsto> v)"
| "specStep c m (ReplaceE key v sz now now') = (if bucketGet c key = None then m else m(key \<mapsto> v))"
| "specStep c m (FetchE key now now' exp fetched) =
     (case fetched of
        Inl err \<Rightarrow> m
      | Inr (v, sz) \<Rightarrow>
          (case bucketGet c key of
             Some i \<Rightarrow> if \<not> Expired (heap c ! i) now' then m else m(key \<mapsto> v)
           | None \<Rightarrow> m(key \<mapsto> v)))"
| "specStep c m (DeleteE key) = m(key := None)"
| "specStep c m (DeleteCollectedE n) =
     (if n < length (collected c) then m |` (- (\<lambda>i. iKey (heap c ! i)) ` set (snd (collected c ! n))) else m)"
| "specStep c m ClearE = Map.empty"
| "specStep c m _ = m"

definition cacheRun :: "Configuration \<Rightarrow> 'v event list \<Rightarrow> 'v Cache \<times> (string \<rightharpoonup> 'v)" where
  "cacheRun cfg evs = foldl (\<lambda>(c, m) ev. (cacheStep cfg c ev, specStep c m ev)) (NewCache cfg, Map.empty) evs"

lemma staleFree_restrict:
  "staleFree c m \<Longrightarrow> \<forall>key \<in> S. bucketGet c key = None \<Longrightarrow> staleFree c (m |` (- S))"
  by (force simp: staleFree_def restrict_map_def)

lemma staleFree_fewer: "staleFree c m \<Longrightarrow> bucketGet c key = None \<Longrightarrow> staleFree c (m(key := None))"
  by (auto simp: staleFree_def)

lemma staleFree_delete:
  assumes "cacheInv c" "staleFree c m"
  shows "cacheInv (fst (cacheDelete key c))" "staleFree (fst (cacheDelete key c)) (m(key := None))"
proof -
  let ?d = "bucketDelete key c"
  have ok: "bucketsOk c" using assms(1) by (simp add: cacheInv_def)
  note d = shrinks_keeps [OF shrinks_bucketDelete [OF ok] assms, of key]
  have fields: "heap ?d = heap c" "deletables ?d = deletables c" by (simp_all add: bucketDelete_def)
  have dead: "staleFree ?d (m(key := None))"
    using staleFree_fewer [OF d(2), of key] bucketGet_delete [OF ok, of key key] by simp
  show "cacheInv (fst (cacheDelete key c))"
    using d(1) cacheInv_deletable [OF d(1)] bucketGet_entry(1) [OF assms(1), of key] fields
    by (auto simp: cacheDelete_def split: option.splits)
  show "staleFree (fst (cacheDelete key c)) (m(key := None))"
    using dead staleFree_frame [of "?d\<lparr>deletables := deletables c @ [i]\<rparr>" ?d for i]
    by (auto simp: cacheDelete_def split: option.splits)
qed

lemma cacheStep_keeps:
  assumes "cacheInv c" "staleFree c m"
  shows "cacheInv (cacheStep cfg c ev) \<and> staleFree (cacheStep cfg c ev) (specStep c m ev)"
proof -
  have ok: "bucketsOk c" using assms(1) by (simp add: cacheInv_def)
  note shr = shrinks_keeps [OF _ assms] and get = cacheInv_get [OF assms] and set = cacheInv_set [OF assms]
  show ?thesis
  proof (cases ev)
    case (TrackingGetE key now)
    obtain g i where g: "cacheGet key now c = (g, i)" by (cases "cacheGet key now c") auto
    with get(1,2) [of key now] cacheInv_tracking(1,2) [of g m] TrackingGetE show ?thesis
      by (cases i) (auto simp: TrackingGet_def)
  next
    case (FetchE key now now' exp fetched)
    obtain g i where g: "cacheGet key now c = (g, i)" by (cases "cacheGet key now c") auto
    have gc: "cacheInv g" "staleFree g m" "heap g = heap c" "i = bucketGet c key" using get [of key now] g by auto
    show ?thesis
    proof (cases "i \<noteq> None \<and> \<not> Expired (heap g ! the i) now'")
      case True
      with g gc FetchE show ?thesis by (auto simp: Fetch_def split: sum.splits)
    next
      case False
      with g gc FetchE cacheInv_set [OF gc(1,2), of key] show ?thesis
        by (auto simp: Fetch_def split: sum.splits option.splits if_splits)
    qed
  next
    case (DeleteCollectedE n)
    then show ?thesis
      using assms shr [OF deleteCollected_keys(1) [OF assms(1)]] deleteCollected_keys(2) [OF assms(1)]
        staleFree_restrict [of "deleteCollected n c" m "(\<lambda>i. iKey (heap c ! i)) ` set (snd (collected c ! n))"]
      by auto
  next
    case (CollectE b matches)
    have "staleFree (collectMatches b matches c) m"
      using assms(2) staleFree_frame [of "collectMatches b matches c" c] by (simp add: collectMatches_def Let_def)
    with CollectE assms cacheInv_collect [OF assms(1), of b matches] show ?thesis by simp
  next
    case ClearE
    with shr [OF shrinks_worker(4) [OF ok]] bucketGet_clear [OF ok] show ?thesis by (simp add: staleFree_def)
  next
    case GetDroppedE
    have "shrinks c (c\<lparr>dropped := 0\<rparr>)" by (rule shrinks_same) simp_all
    from shr [OF this] GetDroppedE show ?thesis by (simp add: onGetDropped_def)
  next
    case (ReplaceE key v sz now now')
    then show ?thesis using assms set by (auto simp: Replace_def split: option.splits)
  qed (use assms get set staleFree_delete [OF assms] cacheInv_tracking [OF assms] shr [OF shrinks_worker(1) [OF ok]]
      shr [OF shrinks_worker(2)] shr [OF shrinks_worker(3) [OF ok]] in auto)
qed

lemma Buckets_ok: "0 < cBuckets (Buckets n cfg)" "cBuckets (Buckets n cfg) < 2 ^ 32"
  using unsigned_less [of n] by (auto simp: Buckets_def Let_def unat_gt_0)

lemma cacheInv_new: "0 < cBuckets cfg \<Longrightarrow> cBuckets cfg < 2 ^ 32 \<Longrightarrow> cacheInv (NewCache cfg)"
  by (simp add: cacheInv_def bucketsOk_def entryOk_def idsOk_def NewCache_def)

lemma cacheRun_keeps:
  fixes c :: "'v Cache"
  assumes "0 < cBuckets cfg" "cBuckets cfg < 2 ^ 32" "cacheRun cfg evs = (c, m)"
  shows "cacheInv c \<and> staleFree c m"
  using assms(3)
proof (induction evs arbitrary: c m rule: rev_induct)
  case Nil
  let ?c = "NewCache cfg :: 'v Cache"
  have "length (buckets ?c) = cBuckets cfg" "bucketsOk ?c" using assms(1,2) by (simp_all add: NewCache_def bucketsOk_def)
  with bucketIndex_less [of ?c] have "bucketGet ?c key = None" for key by (simp add: bucketGet_def) (simp add: NewCache_def)
  with Nil cacheInv_new [OF assms(1,2)] show ?case by (auto simp: cacheRun_def staleFree_def)
next
  case (snoc ev evs)
  obtain c' m' where "cacheRun cfg evs = (c', m')" by (cases "cacheRun cfg evs") auto
  with snoc.IH [OF this] snoc.prems cacheStep_keeps [of c' m' cfg ev] show ?case by (simp add: cacheRun_def)
qed

text \<open>C34: The cache returns nothing stale. Whatever callers do and in whatever order the worker promotes, deletes and
  evicts in between, an item that \<open>Get\<close> returns has the key that was asked for and the value that was set last
  under it, and there was no deletion of the key and no \<open>Clear\<close> since.\<close>

theorem cache_never_stale:
  assumes "cacheRun (Buckets n cfg) evs = (c, m)" "snd (cacheGet key now c) = Some i"
  shows "iKey (heap c ! i) = key \<and> m key = Some (iValue (heap c ! i))"
proof -
  have inv: "cacheInv c" "staleFree c m" using cacheRun_keeps [OF Buckets_ok assms(1)] by auto
  have "bucketGet c key = Some i" using assms(2) cacheInv_get(5) [OF inv] by simp
  with bucketGet_entry(2) [OF inv(1) this] inv(2) show ?thesis by (simp add: staleFree_def)
qed

lemma one_bucket: "length (buckets c) = 1 \<Longrightarrow> bucketIndex c key = 0"
  by (simp add: bucketIndex_def)

theorem cache_never_stale_witness:
  "\<exists>c m. cacheRun (Buckets 1 Configure) [SetE ''a'' (1 :: nat) 1 100 False, PromoteAt 0, SetE ''a'' 2 1 100 False] = (c, m) \<and>
     snd (cacheGet ''a'' 50 c) = Some 1 \<and> iKey (heap c ! 1) = ''a'' \<and> m ''a'' = Some 2"
proof -
  let ?evs = "[SetE ''a'' (1 :: nat) 1 100 False, PromoteAt 0, SetE ''a'' 2 1 100 False]"
  obtain c m where run: "cacheRun (Buckets 1 Configure) ?evs = (c, m)" by (cases "cacheRun (Buckets 1 Configure) ?evs") auto
  have "snd (cacheGet ''a'' 50 c) = Some 1 \<and> iValue (heap c ! 1) = 2"
    using run by (auto simp: cacheRun_def Buckets_def Configure_def NewCache_def cacheSet_def bucketGet_def bucketPut_def one_bucket
        promote_def cacheGet_def newItem_def onPromotable_def doPromote_def setItem_def dropNth_def)
  with cache_never_stale [OF run, of "''a''" 50 1] run show ?thesis by auto
qed

subsection \<open>The size drifts\<close>






subsection \<open>Deleting by a predicate against eviction\<close>

text \<open>
  \<open>deleteFunc\<close> sends to \<open>deletables\<close>, a channel with room for \<open>cap\<close> items, while it holds the read lock of the bucket. The
  worker receives from the channel; when it evicts an item of the bucket it waits for the write lock first.
\<close>

record deleteState =
  toSend :: nat
  queued :: nat
  readLocked :: bool
  evicting :: bool

inductive delete_step :: "nat \<Rightarrow> deleteState \<Rightarrow> deleteState \<Rightarrow> bool" for cap :: nat where
  send: "readLocked s \<Longrightarrow> 0 < toSend s \<Longrightarrow> queued s < cap \<Longrightarrow> delete_step cap s (s\<lparr>toSend := toSend s - 1, queued := queued s + 1\<rparr>)"
| unlock: "readLocked s \<Longrightarrow> toSend s = 0 \<Longrightarrow> delete_step cap s (s\<lparr>readLocked := False\<rparr>)"
| receive: "\<not> evicting s \<Longrightarrow> 0 < queued s \<Longrightarrow> delete_step cap s (s\<lparr>queued := queued s - 1\<rparr>)"
| evict: "\<not> evicting s \<Longrightarrow> delete_step cap s (s\<lparr>evicting := True\<rparr>)"
| evicted: "evicting s \<Longrightarrow> \<not> readLocked s \<Longrightarrow> delete_step cap s (s\<lparr>evicting := False\<rparr>)"

inductive_cases delete_stepE: "delete_step cap s s'"

definition stuck :: "nat \<Rightarrow> deleteState \<Rightarrow> bool" where
  "stuck cap s \<longleftrightarrow> evicting s \<and> readLocked s \<and> cap < toSend s + queued s \<and> queued s \<le> cap"

lemma stuck_step: "delete_step cap s s' \<Longrightarrow> stuck cap s \<Longrightarrow> stuck cap s'"
  by (auto simp: stuck_def elim!: delete_stepE)

lemma stuck_for_ever: "(delete_step cap)\<^sup>*\<^sup>* s s' \<Longrightarrow> stuck cap s \<Longrightarrow> stuck cap s'"
  by (induction rule: rtranclp_induct) (auto intro: stuck_step)

text \<open>C35: \<open>DeleteFunc\<close> and \<open>DeletePrefix\<close> can stop the cache for good. If a bucket has more matches than the channel has
  room for and the worker starts to evict from that bucket while they are being sent, then in every continuation
  the caller still holds the read lock with items to send, and the worker still waits for the lock.\<close>

theorem delete_func_deadlocks:
  assumes "cap < n"
  shows "\<exists>s. (delete_step cap)\<^sup>*\<^sup>* \<lparr>toSend = n, queued = 0, readLocked = True, evicting = False\<rparr> s \<and>
    (\<forall>s'. (delete_step cap)\<^sup>*\<^sup>* s s' \<longrightarrow> evicting s' \<and> readLocked s' \<and> 0 < toSend s')"
proof -
  let ?s = "\<lparr>toSend = n, queued = 0, readLocked = True, evicting = False\<rparr>"
  have "delete_step cap ?s (?s\<lparr>evicting := True\<rparr>)" by (rule evict) simp
  moreover have "stuck cap (?s\<lparr>evicting := True\<rparr>)" using assms by (simp add: stuck_def)
  then have "evicting s' \<and> readLocked s' \<and> 0 < toSend s'" if "(delete_step cap)\<^sup>*\<^sup>* (?s\<lparr>evicting := True\<rparr>) s'" for s'
    using stuck_for_ever [OF that] by (simp add: stuck_def)
  ultimately show ?thesis by (metis (no_types, lifting) r_into_rtranclp)
qed

theorem delete_func_deadlocks_witness:
  "\<exists>s. (delete_step 1024)\<^sup>*\<^sup>* \<lparr>toSend = 1025, queued = 0, readLocked = True, evicting = False\<rparr> s \<and>
    evicting s \<and> readLocked s \<and> 0 < toSend s"
  using delete_func_deadlocks [of 1024 1025] by auto

end
