(* ===== verification/Radix.thy ===== *)
theory Radix
  imports Prelude "HOL-Library.AList"
begin

section \<open>Radix tries\<close>

text \<open>
  \<open>core/radix\<close>: a trie with compressed edges (\<open>radix.go\<close>) and one whose keys are patterns with the wildcard \<open>*\<close> and
  a backslash as the escape (\<open>pattern.go\<close>, \<open>match.go\<close>). The second one filters the configuration files in \<open>core/config\<close>.

  Nodes are only reached through their parent, so a tree stands for the pointers. The slices \<open>child\<close> and
  \<open>childidx\<close>, which are always extended together, are one association list from first bytes to children. The
  value \<open>vNONE\<close> of inner nodes is \<open>None\<close>. Copying a string (\<open>dump\<close>) has no effect on its content.
\<close>

subsection \<open>The plain trie\<close>

datatype 'v node = Node (nodeS: string) (nodeV: "'v option") (child: "(char \<times> 'v node) list")

text \<open>The loop that finds the longest common prefix.\<close>

fun commonPrefix :: "string \<Rightarrow> string \<Rightarrow> nat" where
  "commonPrefix (c # s) (d # t) = (if c \<noteq> d then 0 else Suc (commonPrefix s t))"
| "commonPrefix _ _ = 0"

text \<open>\<open>setV\<close> returns the old value. The type assertion assigns \<open>false\<close> to \<open>ok\<close> when there is one.\<close>

definition setV :: "'v \<Rightarrow> 'v node \<Rightarrow> 'v node \<times> 'v option \<times> bool" where
  "setV v n = (Node (nodeS n) (Some v) (child n), nodeV n, False)"

definition newSubTree :: "string \<Rightarrow> 'v \<Rightarrow> 'v node" where
  "newSubTree s v = Node s (Some v) []"

definition appendChild :: "string \<Rightarrow> 'v \<Rightarrow> 'v node \<Rightarrow> 'v node" where
  "appendChild s v n = Node (nodeS n) (nodeV n) (child n @ [(hd s, newSubTree s v)])"

lemma size_child:
  assumes "map_of cs c = Some m"
  shows "size m < Suc (size_list (size_prod (\<lambda>_. 0) size) cs)"
  using map_of_SomeD [OF assms] by (induction cs) auto

function addLoop :: "'v \<Rightarrow> 'v node \<Rightarrow> string \<Rightarrow> 'v node \<times> 'v option \<times> bool" where
  "addLoop v (Node ns nv cs) s =
     (let l = commonPrefix s ns
      in if l = length ns then
           (let s = drop l s
            in if length s = 0 then setV v (Node ns nv cs)
               else (case map_of cs (hd s) of
                       Some m \<Rightarrow> (case addLoop v m s of (m, r) \<Rightarrow> (Node ns nv (AList.update (hd s) m cs), r))
                     | None \<Rightarrow> (appendChild s v (Node ns nv cs), None, False)))
         else
           (let prefix = take l ns; suffix = drop l ns;
                n = Node prefix None [(hd suffix, Node suffix nv cs)];
                s = drop l s
            in if length s = 0 then setV v n else (appendChild s v n, None, False)))"
  by pat_completeness auto
termination
  by (relation "measure (\<lambda>(v, n, s). size n)") (auto dest: size_child)

declare addLoop.simps [simp del]

definition trieAdd :: "string \<Rightarrow> 'v \<Rightarrow> 'v node option \<Rightarrow> 'v node option \<times> 'v option \<times> bool" where
  "trieAdd s v root =
     (if s = [] then (root, None, False)
      else (case root of
              None \<Rightarrow> (Some (newSubTree s v), None, False)
            | Some n \<Rightarrow> (case addLoop v n s of (n, r) \<Rightarrow> (Some n, r))))"

function nodeLookup :: "'v node \<Rightarrow> string \<Rightarrow> 'v node option" where
  "nodeLookup (Node ns nv cs) s =
     (let l = commonPrefix s ns
      in if l = length ns then
           (let s = drop l s
            in if length s = 0 then Some (Node ns nv cs)
               else (case map_of cs (hd s) of Some m \<Rightarrow> nodeLookup m s | None \<Rightarrow> None))
         else None)"
  by pat_completeness auto
termination
  by (relation "measure (\<lambda>(n, s). size n)") (auto dest: size_child)

declare nodeLookup.simps [simp del]

text \<open>\<open>Lookup\<close> asserts the type of the value with \<open>_, ok = v.(noneType)\<close>, which assigns \<open>ok\<close> in both cases.\<close>

definition trieLookup :: "string \<Rightarrow> 'v node option \<Rightarrow> 'v option \<times> bool" where
  "trieLookup s root =
     (case (case root of None \<Rightarrow> None | Some n \<Rightarrow> nodeLookup n s) of
        None \<Rightarrow> (None, False)
      | Some n \<Rightarrow>
          let v = nodeV n;
              ok = (v = None)
          in if ok then (None, False) else (v, ok))"

subsection \<open>The plain trie as a map\<close>

definition valueAt :: "'v node \<Rightarrow> string \<Rightarrow> 'v option" where
  "valueAt n s = (case nodeLookup n s of None \<Rightarrow> None | Some m \<Rightarrow> nodeV m)"

lemma commonPrefix_le: "commonPrefix s t \<le> length s" "commonPrefix s t \<le> length t"
  by (induction s t rule: commonPrefix.induct) auto

lemma commonPrefix_take: "take (commonPrefix s t) s = take (commonPrefix s t) t"
  by (induction s t rule: commonPrefix.induct) auto

lemma commonPrefix_full: "commonPrefix s t = length t \<longleftrightarrow> (\<exists>u. s = t @ u)"
  by (induction s t rule: commonPrefix.induct) auto

lemma commonPrefix_differ:
  "commonPrefix s t < length s \<Longrightarrow> commonPrefix s t < length t \<Longrightarrow> s ! commonPrefix s t \<noteq> t ! commonPrefix s t"
  by (induction s t rule: commonPrefix.induct) auto

lemma valueAt_Node:
  "valueAt (Node ns nv cs) (ns @ s) =
    (if s = [] then nv else (case map_of cs (hd s) of Some m \<Rightarrow> valueAt m s | None \<Rightarrow> None))"
proof -
  have "commonPrefix (ns @ s) ns = length ns" by (simp add: commonPrefix_full)
  then show ?thesis by (auto simp: valueAt_def nodeLookup.simps [of ns nv cs "ns @ s"] split: option.splits)
qed

lemma valueAt_other: "\<nexists>u. s = ns @ u \<Longrightarrow> valueAt (Node ns nv cs) s = None"
  by (simp add: valueAt_def nodeLookup.simps [of ns nv cs s] commonPrefix_full)

lemma valueAt_self: "valueAt (Node ns nv cs) ns = nv"
  using valueAt_Node [of ns nv cs "[]"] by simp

lemma valueAt_new: "valueAt (newSubTree k v) s = (if s = k then Some v else None)"
proof (cases "\<exists>w. s = k @ w")
  case True
  then obtain w where "s = k @ w" by blast
  then show ?thesis by (simp add: newSubTree_def valueAt_Node)
qed (auto simp: newSubTree_def valueAt_other)

lemma valueAt_append:
  assumes "valueAt n (nodeS n @ k) = None" "map_of (child n) (hd k) = None" "k \<noteq> []"
  shows "valueAt (appendChild k v n) s = (if s = nodeS n @ k then Some v else valueAt n s)"
proof (cases "\<exists>u. s = nodeS n @ u")
  case True
  then obtain u where u: "s = nodeS n @ u" by blast
  have new: "valueAt (newSubTree k v) u = (if u = k then Some v else None)" by (rule valueAt_new)
  show ?thesis using u assms(2,3) new
    by (cases n) (auto simp: appendChild_def valueAt_Node map_add_def map_of_append split: option.splits if_splits)
next
  case False
  then show ?thesis by (cases n) (auto simp: appendChild_def valueAt_other)
qed

text \<open>Splitting a node changes no value.\<close>

lemma valueAt_split:
  assumes "l < length ns"
  shows "valueAt (Node (take l ns) None [(hd (drop l ns), Node (drop l ns) nv cs)]) s = valueAt (Node ns nv cs) s"
proof (cases "\<exists>u. s = take l ns @ u")
  case True
  then obtain u where u: "s = take l ns @ u" by blast
  have suffix: "drop l ns \<noteq> []" using assms by simp
  have pre: "(\<exists>w. s = ns @ w) \<longleftrightarrow> (\<exists>w. u = drop l ns @ w)"
    using u by (metis append_assoc append_take_drop_id same_append_eq)
  show ?thesis
  proof (cases "\<exists>w. u = drop l ns @ w")
    case True
    then obtain w where w: "u = drop l ns @ w" by blast
    then have sw: "s = ns @ w" using u by (metis append_assoc append_take_drop_id)
    have "valueAt (Node (take l ns) None [(hd (drop l ns), Node (drop l ns) nv cs)]) s = valueAt (Node (drop l ns) nv cs) u"
      unfolding u using w suffix by (simp add: valueAt_Node)
    also have "\<dots> = valueAt (Node ns nv cs) s" unfolding w sw by (simp add: valueAt_Node)
    finally show ?thesis .
  next
    case False
    with pre have "valueAt (Node ns nv cs) s = None" by (simp add: valueAt_other)
    moreover have "valueAt (Node (drop l ns) nv cs) u = None" using False by (simp add: valueAt_other)
    ultimately show ?thesis using u by (simp add: valueAt_Node)
  qed
next
  case False
  then have "\<nexists>w. s = ns @ w" by (metis append_assoc append_take_drop_id)
  with False show ?thesis by (simp add: valueAt_other)
qed

lemma valueAt_setV: "valueAt (fst (setV v n)) s = (if s = nodeS n then Some v else valueAt n s)"
proof (cases "\<exists>u. s = nodeS n @ u")
  case True
  then obtain u where "s = nodeS n @ u" by blast
  then show ?thesis by (cases n) (simp add: setV_def valueAt_Node)
next
  case False
  then show ?thesis by (cases n) (auto simp: setV_def valueAt_other)
qed

lemma valueAt_add: "valueAt (fst (addLoop v n k)) s = (if s = k then Some v else valueAt n s)"
proof (induction v n k arbitrary: s rule: addLoop.induct)
  case (1 v ns nv cs k)
  let ?n = "Node ns nv cs" let ?l = "commonPrefix k ns"
  show ?case
  proof (cases "?l = length ns")
    case True
    then obtain u where u: "k = ns @ u" by (auto simp: commonPrefix_full)
    show ?thesis
    proof (cases "u = []")
      case True
      then show ?thesis using u \<open>?l = length ns\<close> valueAt_setV [of v ?n s] by (simp add: addLoop.simps)
    next
      case un: False
      show ?thesis
      proof (cases "map_of cs (hd u)")
        case None
        then have "valueAt ?n (ns @ u) = None" using un by (simp add: valueAt_Node)
        with None valueAt_append [of ?n u v s] un u True show ?thesis by (simp add: addLoop.simps)
      next
        case (Some m)
        obtain m' r where m': "addLoop v m u = (m', r)" by (cases "addLoop v m u") auto
        have du: "u = drop ?l k" "length u \<noteq> 0" using u un True by simp_all
        have IH: "valueAt m' x = (if x = u then Some v else valueAt m x)" for x
          using 1 [OF refl True du Some, of x] m' by simp
        have "fst (addLoop v ?n k) = Node ns nv (AList.update (hd u) m' cs)"
          using u un True Some m' by (simp add: addLoop.simps)
        moreover have "valueAt (Node ns nv (AList.update (hd u) m' cs)) s = (if s = k then Some v else valueAt ?n s)"
        proof (cases "\<exists>w. s = ns @ w")
          case True
          then obtain w where "s = ns @ w" by blast
          then show ?thesis using u un Some IH [of w] by (auto simp: valueAt_Node update_conv')
        qed (use u in \<open>auto simp: valueAt_other\<close>)
        ultimately show ?thesis by simp
      qed
    qed
  next
    case False
    then have l: "?l < length ns" using commonPrefix_le(2) [of k ns] by simp
    let ?p = "Node (take ?l ns) None [(hd (drop ?l ns), Node (drop ?l ns) nv cs)]"
    have k: "k = take ?l ns @ drop ?l k" using commonPrefix_take [of k ns] by (metis append_take_drop_id)
    show ?thesis
    proof (cases "drop ?l k = []")
      case True
      then show ?thesis using False k valueAt_setV [of v ?p s] valueAt_split [OF l, of nv cs s]
        by (simp add: addLoop.simps Let_def)
    next
      case un: False
      then have lk: "?l < length k" by simp
      have "hd (drop ?l k) \<noteq> hd (drop ?l ns)" using commonPrefix_differ [OF lk l] lk l by (simp add: hd_drop_conv_nth)
      then have none: "map_of (child ?p) (hd (drop ?l k)) = None" by simp
      then have "valueAt ?p (nodeS ?p @ drop ?l k) = None" using un by (simp add: valueAt_Node)
      from valueAt_append [OF this none un, of v s] False un k valueAt_split [OF l, of nv cs s] show ?thesis
        by (simp add: addLoop.simps Let_def)
    qed
  qed
qed

definition addAll :: "(string \<times> 'v) list \<Rightarrow> 'v node option" where
  "addAll kvs = foldl (\<lambda>root (s, v). fst (trieAdd s v root)) None kvs"

definition mapAll :: "(string \<times> 'v) list \<Rightarrow> (string \<rightharpoonup> 'v)" where
  "mapAll kvs = foldl (\<lambda>m (s, v). if s = [] then m else m(s \<mapsto> v)) Map.empty kvs"

text \<open>C38: \<open>Lookup\<close> finds the values and never says so. After any sequence of \<open>Add\<close> it returns the value that was added
  last under a key, and none for every other key, but its second result is \<open>false\<close> in every case: the type
  assertion that recognises inner nodes overwrites it.\<close>

theorem radix_lookup: "trieLookup s (addAll kvs) = (mapAll kvs s, False)"
proof -
  have "(case addAll kvs of None \<Rightarrow> None | Some n \<Rightarrow> valueAt n s) = mapAll kvs s"
  proof (induction kvs arbitrary: s rule: rev_induct)
    case (snoc kv kvs)
    obtain k v where kv: "kv = (k, v)" by (cases kv)
    have new: "valueAt (newSubTree k v) s = (if s = k then Some v else None)" by (rule valueAt_new)
    show ?case
    proof (cases "addAll kvs")
      case None
      with snoc [of s] kv new show ?thesis by (auto simp: addAll_def mapAll_def trieAdd_def)
    next
      case (Some n)
      with snoc [of s] kv valueAt_add [of v n k s] show ?thesis
        by (auto simp: addAll_def mapAll_def trieAdd_def split: prod.splits)
    qed
  qed (simp add: addAll_def mapAll_def)
  then show ?thesis by (auto simp: trieLookup_def valueAt_def Let_def split: option.splits)
qed

subsection \<open>The pattern trie\<close>

datatype nodeType = COMMON | WILDCARD

datatype 'v pnode = PNode (pS: string) (pV: "'v option") (pTyp: nodeType) (pEnd: bool)
  (pChild: "(char \<times> 'v pnode) list") (pWcard: "'v pnode option")

definition backslash :: char where "backslash = CHR 0x5C"

text \<open>The loop \<open>FIND_AST\<close>: the bytes up to the next wildcard, with escapes resolved, and the index it stopped at.\<close>

fun findAst :: "bool \<Rightarrow> string \<Rightarrow> string \<times> nat" where
  "findAst escape [] = ([], 0)"
| "findAst escape (c # pattern) =
     (if c = backslash \<and> \<not> escape then (let (s, j) = findAst True pattern in (s, Suc j))
      else if c = CHR ''*'' \<and> \<not> escape then ([], 0)
      else (let (s, j) = findAst False pattern in (c # s, Suc j)))"

definition indexPanic :: string where
  "indexPanic = ''index out of range [0] with length 0''"

text \<open>\<open>newTree\<close> makes a chain of nodes, one for each wildcard and each piece in between. A piece that is empty has no
  first byte to enter into \<open>childidx\<close>.\<close>

definition attach :: "'v pnode \<Rightarrow> 'v pnode \<Rightarrow> 'v pnode go" where
  "attach n c =
     (case n of PNode s v t e cs w \<Rightarrow>
        (case pTyp c of
           WILDCARD \<Rightarrow> Ret (PNode s v t e cs (Some c))
         | COMMON \<Rightarrow> if pS c = [] then Panic indexPanic else Ret (PNode s v t e (cs @ [(hd (pS c), c)]) w)))"

function newTree :: "'v \<Rightarrow> string \<Rightarrow> 'v pnode go" where
  "newTree v pattern =
     (let (s, j) = findAst False pattern;
          n = (if j = 0 then PNode ''*'' None WILDCARD False [] None else PNode s None COMMON False [] None);
          rest = drop (if j = 0 then 1 else j) pattern
      in if pattern = [] then Panic ''invalid memory address or nil pointer dereference''
         else if rest = [] then Ret (PNode (pS n) (Some v) (pTyp n) True [] None)
         else go_bind (newTree v rest) (attach n))"
  by pat_completeness auto
termination
  by (relation "measure (\<lambda>(v, pattern). length pattern)") (auto split: if_splits)

declare newTree.simps [simp del]

definition psetV :: "'v \<Rightarrow> 'v pnode \<Rightarrow> 'v pnode \<times> 'v option \<times> bool" where
  "psetV v n = (PNode (pS n) (Some v) (pTyp n) True (pChild n) (pWcard n), pV n, pEnd n)"

text \<open>The loop that compares a pattern with the text of a node: how many bytes of both it has passed, and whether it
  stopped after an escape.\<close>

fun matchLoop :: "bool \<Rightarrow> string \<Rightarrow> string \<Rightarrow> nat \<times> nat \<times> bool" where
  "matchLoop escape (p # pattern) (c # s) =
     (if p = backslash \<and> \<not> escape then (let (i, l, e) = matchLoop True pattern (c # s) in (Suc i, l, e))
      else
        let escape = (if p = backslash then False else escape)
        in if \<not> escape \<and> p = CHR ''*'' then (0, 0, escape)
           else if p \<noteq> c then (0, 0, escape)
           else (let (i, l, e) = matchLoop False pattern s in (Suc i, Suc l, e)))"
| "matchLoop escape _ _ = (0, 0, escape)"

text \<open>The end of \<open>Add\<close>: a new subtree for the rest of the pattern.\<close>

definition addRest :: "'v \<Rightarrow> string \<Rightarrow> 'v pnode \<Rightarrow> ('v pnode \<times> 'v option \<times> bool) go" where
  "addRest v pattern n = go_bind (go_bind (newTree v pattern) (attach n)) (\<lambda>n. Ret (n, None, False))"

definition splitNode :: "nat \<Rightarrow> 'v pnode \<Rightarrow> 'v pnode" where
  "splitNode l n =
     (let c = PNode (drop l (pS n)) (pV n) (pTyp n) (pEnd n) (pChild n) (pWcard n)
      in if pTyp c = WILDCARD then PNode (take l (pS n)) None COMMON False [] (Some c)
         else PNode (take l (pS n)) None COMMON False [(hd (pS c), c)] None)"

definition setWcard :: "'v pnode \<Rightarrow> 'v pnode \<Rightarrow> 'v pnode" where
  "setWcard n w = PNode (pS n) (pV n) (pTyp n) (pEnd n) (pChild n) (Some w)"

definition setChild :: "'v pnode \<Rightarrow> char \<Rightarrow> 'v pnode \<Rightarrow> 'v pnode" where
  "setChild n c m = PNode (pS n) (pV n) (pTyp n) (pEnd n) (AList.update c m (pChild n)) (pWcard n)"

lemma size_pchild: "map_of cs c = Some m \<Longrightarrow> size m < size (PNode s v t e cs w)"
  by (drule map_of_SomeD, induction cs) auto

lemma size_wcard: "size m < size (PNode s v t e cs (Some m))"
  by simp

function patternAdd :: "'v \<Rightarrow> 'v pnode \<Rightarrow> string \<Rightarrow> ('v pnode \<times> 'v option \<times> bool) go" where
  "patternAdd v (PNode ns nv nt ne cs w) pattern =
     (let n = PNode ns nv nt ne cs w;
          wmatch = (nt = WILDCARD \<and> pattern \<noteq> [] \<and> hd pattern = CHR ''*'');
          (i, l, e) = (if nt = WILDCARD then (0, 0, False) else matchLoop False pattern ns);
          i = (if wmatch then 1 else if e then i - 1 else i)
      in if wmatch \<or> l = length ns then
           (let pattern = drop i pattern
            in if length pattern = 0 then Ret (psetV v n)
               else if hd pattern = CHR ''*'' then
                 (case w of
                    None \<Rightarrow> go_bind (newTree v pattern) (\<lambda>t. Ret (setWcard n t, None, False))
                  | Some m \<Rightarrow> go_bind (patternAdd v m pattern) (\<lambda>(m, r). Ret (setWcard n m, r)))
               else
                 (let first = (if hd pattern = backslash then 1 else 0)
                  in if length (drop first pattern) > 0 then
                       (case map_of cs (pattern ! first) of
                          Some m \<Rightarrow> go_bind (patternAdd v m pattern) (\<lambda>(m, r). Ret (setChild n (pattern ! first) m, r))
                        | None \<Rightarrow> addRest v pattern n)
                     else addRest v pattern n))
         else
           (let n = splitNode l n;
                pattern = drop i pattern
            in if length pattern = 0 then Ret (psetV v n) else addRest v pattern n))"
  by pat_completeness auto
termination
  by (relation "measure (\<lambda>(v, n, pattern). size n)") (auto intro: size_pchild size_wcard simp del: pnode.size)

declare patternAdd.simps [simp del]

definition trieAddPattern :: "string \<Rightarrow> 'v \<Rightarrow> 'v pnode option \<Rightarrow> ('v pnode option \<times> 'v option \<times> bool) go" where
  "trieAddPattern pattern v root =
     (if pattern = [] then Ret (root, None, False)
      else (case root of
              None \<Rightarrow> go_bind (newTree v pattern) (\<lambda>n. Ret (Some n, None, False))
            | Some n \<Rightarrow> go_bind (patternAdd v n pattern) (\<lambda>(n, r). Ret (Some n, r))))"

text \<open>\<open>lookup\<close>, the loop over the bytes a wildcard captures, and \<open>lookupW\<close>.\<close>

definition orElse :: "'a option \<Rightarrow> 'a option \<Rightarrow> 'a option" where
  "orElse x y = (case x of None \<Rightarrow> y | Some z \<Rightarrow> Some z)"

function plookup :: "'v pnode \<Rightarrow> string \<Rightarrow> 'v pnode option"
  and captureLoop :: "'v pnode \<Rightarrow> string \<Rightarrow> 'v pnode option"
  and lookupW :: "'v pnode \<Rightarrow> string \<Rightarrow> 'v pnode option" where
  "plookup (PNode ns nv nt ne cs w) s =
     (if nt = WILDCARD then captureLoop (PNode ns nv nt ne cs w) s
      else if commonPrefix s ns = length ns then
        (let s = drop (length ns) s
         in if length s = 0 then
              (if ne then Some (PNode ns nv nt ne cs w)
               else orElse (case w of None \<Rightarrow> None | Some m \<Rightarrow> plookup m s) (Some (PNode ns nv nt ne cs w)))
            else orElse (case map_of cs (hd s) of None \<Rightarrow> None | Some m \<Rightarrow> plookup m s)
                   (case w of None \<Rightarrow> None | Some m \<Rightarrow> plookup m s))
      else None)"
| "captureLoop n s = orElse (lookupW n s) (case s of [] \<Rightarrow> None | c # s \<Rightarrow> captureLoop n s)"
| "lookupW (PNode ns nv nt ne cs w) s =
     (if s = [] then Some (PNode ns nv nt ne cs w)
      else orElse (case map_of cs (hd s) of None \<Rightarrow> None | Some m \<Rightarrow> plookup m s)
             (case w of None \<Rightarrow> None | Some m \<Rightarrow> plookup m s))"
  by pat_completeness auto
termination
  by (relation "measures [case_sum (size \<circ> fst) (case_sum (size \<circ> fst) (size \<circ> fst)),
      case_sum (\<lambda>_. 2) (case_sum (\<lambda>_. 1) (\<lambda>_. 0)), case_sum (length \<circ> snd) (case_sum (length \<circ> snd) (length \<circ> snd))]")
    (auto intro: size_pchild size_wcard simp del: pnode.size)

declare plookup.simps [simp del] captureLoop.simps [simp del] lookupW.simps [simp del]

definition patternLookup :: "'v pnode option \<Rightarrow> string \<Rightarrow> 'v option \<times> bool" where
  "patternLookup root s =
     (case (case root of None \<Rightarrow> None | Some n \<Rightarrow> plookup n s) of
        None \<Rightarrow> (None, False)
      | Some n \<Rightarrow> (pV n, pEnd n))"

fun addPatterns :: "string list \<Rightarrow> unit pnode option \<Rightarrow> unit pnode option go" where
  "addPatterns [] root = Ret root"
| "addPatterns (p # ps) root = go_bind (trieAddPattern p () root) (\<lambda>(root, _). addPatterns ps root)"

definition Compile :: "string list \<Rightarrow> unit pnode option go" where
  "Compile patterns = addPatterns patterns None"

definition patternMatch :: "unit pnode option \<Rightarrow> string \<Rightarrow> bool" where
  "patternMatch p s = snd (patternLookup p s)"

definition Match :: "string \<Rightarrow> string \<Rightarrow> bool go" where
  "Match pattern s = go_bind (Compile [pattern]) (\<lambda>p. Ret (patternMatch p s))"

subsection \<open>What a pattern trie accepts\<close>

text \<open>The meaning of a pattern: its bytes with the escapes resolved, and wildcards that stand for any string.\<close>

datatype token = Lit char | Star

fun tokens :: "bool \<Rightarrow> string \<Rightarrow> token list" where
  "tokens escape [] = []"
| "tokens escape (c # pattern) =
     (if c = backslash \<and> \<not> escape then tokens True pattern
      else if c = CHR ''*'' \<and> \<not> escape then Star # tokens False pattern
      else Lit c # tokens False pattern)"

fun globs :: "token list \<Rightarrow> string \<Rightarrow> bool" where
  "globs [] s \<longleftrightarrow> s = []"
| "globs (Lit c # ts) [] \<longleftrightarrow> False"
| "globs (Lit c # ts) (d # s) \<longleftrightarrow> c = d \<and> globs ts s"
| "globs (Star # ts) [] \<longleftrightarrow> globs ts []"
| "globs (Star # ts) (d # s) \<longleftrightarrow> globs ts (d # s) \<or> globs (Star # ts) s"

definition nodeTokens :: "'v pnode \<Rightarrow> token list" where
  "nodeTokens n = (if pTyp n = WILDCARD then [Star] else map Lit (pS n))"

text \<open>\<open>leads n ts m\<close>: the path from \<open>n\<close> to \<open>m\<close> spells \<open>ts\<close>. The language of a node has the paths to the ends of patterns.\<close>

inductive leads :: "'v pnode \<Rightarrow> token list \<Rightarrow> 'v pnode \<Rightarrow> bool" where
  here: "leads n (nodeTokens n) n"
| down: "(c, m) \<in> set (pChild n) \<Longrightarrow> leads m ts k \<Longrightarrow> leads n (nodeTokens n @ ts) k"
| wild: "pWcard n = Some m \<Longrightarrow> leads m ts k \<Longrightarrow> leads n (nodeTokens n @ ts) k"

definition lang :: "'v pnode \<Rightarrow> token list set" where
  "lang n = {ts. \<exists>k. leads n ts k \<and> pEnd k}"

definition langChildren :: "(char \<times> 'v pnode) list \<Rightarrow> token list set" where
  "langChildren cs = (\<Union>x \<in> set cs. lang (snd x))"

definition langOption :: "'v pnode option \<Rightarrow> token list set" where
  "langOption w = (case w of None \<Rightarrow> {} | Some m \<Rightarrow> lang m)"

lemma lang_node:
  "lang n = (if pEnd n then {nodeTokens n} else {}) \<union> (@) (nodeTokens n) ` (langChildren (pChild n) \<union> langOption (pWcard n))"
  (is "_ = ?L")
proof (intro set_eqI iffI)
  fix ts assume "ts \<in> lang n"
  then obtain k where k: "leads n ts k" "pEnd k" by (auto simp: lang_def)
  from k(1) show "ts \<in> ?L"
  proof (cases rule: leads.cases)
    case here
    with k(2) show ?thesis by simp
  next
    case (down c m ts')
    with k(2) have "ts' \<in> langChildren (pChild n)" unfolding langChildren_def lang_def by force
    with down show ?thesis by auto
  next
    case (wild m ts')
    with k(2) have "ts' \<in> langOption (pWcard n)" by (auto simp: langOption_def lang_def)
    with wild show ?thesis by auto
  qed
next
  fix ts assume "ts \<in> ?L"
  then consider "pEnd n" "ts = nodeTokens n"
    | ts' where "ts = nodeTokens n @ ts'" "ts' \<in> langChildren (pChild n)"
    | ts' where "ts = nodeTokens n @ ts'" "ts' \<in> langOption (pWcard n)" by (auto split: if_splits)
  then show "ts \<in> lang n"
  proof cases
    case 1
    then show ?thesis by (auto simp: lang_def intro: here)
  next
    case 2
    then show ?thesis unfolding lang_def langChildren_def by (fastforce intro: down)
  next
    case 3
    then show ?thesis by (auto simp: lang_def langOption_def intro: wild split: option.splits)
  qed
qed

lemma globs_star: "globs (Star # ts) s \<longleftrightarrow> (\<exists>t u. s = t @ u \<and> globs ts u)"
proof (induction s)
  case (Cons d s)
  have "(\<exists>t u. d # s = t @ u \<and> globs ts u) \<longleftrightarrow> globs ts (d # s) \<or> (\<exists>t u. s = t @ u \<and> globs ts u)"
    by (metis append_Cons append_Nil list.exhaust list.inject)
  with Cons show ?case by simp
qed simp

lemma globs_lits: "globs (map Lit s @ ts) (s @ u) \<longleftrightarrow> globs ts u"
  by (induction s) auto

text \<open>What \<open>lookup\<close> finds lies at the end of a path that matches.\<close>

lemma orElse_Some: "orElse x y = Some z \<longleftrightarrow> x = Some z \<or> x = None \<and> y = Some z"
  by (auto simp: orElse_def split: option.splits)

text \<open>\<open>below n k\<close>: the node \<open>k\<close> hangs below \<open>n\<close>.\<close>

definition below :: "'v pnode \<Rightarrow> 'v pnode \<Rightarrow> bool" where
  "below n k \<longleftrightarrow> (\<exists>c. (c, k) \<in> set (pChild n)) \<or> pWcard n = Some k"

lemma below_size: "below n k \<Longrightarrow> size k < size n"
proof -
  have "(c, k) \<in> set cs \<Longrightarrow> size k < Suc (size_list (size_prod (\<lambda>_. 0) size) cs)" for c cs
    by (induction cs) auto
  then show "below n k \<Longrightarrow> size k < size n" by (cases n) (fastforce simp: below_def)
qed

lemma leads_below: "below n k \<Longrightarrow> leads k ts m \<Longrightarrow> leads n (nodeTokens n @ ts) m"
  by (auto simp: below_def intro: down wild)

lemma plookup_common:
  assumes "plookup n s = Some m" "pTyp n \<noteq> WILDCARD"
  shows "\<exists>u. s = pS n @ u \<and> (u = [] \<and> m = n \<or> (\<exists>k. below n k \<and> plookup k u = Some m))"
proof -
  obtain ns nv nt ne cs w where n: "n = PNode ns nv nt ne cs w" by (cases n)
  let ?u = "drop (length ns) s"
  have pre: "commonPrefix s ns = length ns" using assms n by (auto simp: plookup.simps split: if_splits)
  then have "s = pS n @ ?u" using n by (auto simp: commonPrefix_full)
  moreover have "?u = [] \<and> m = n \<or> (\<exists>k. below n k \<and> plookup k ?u = Some m)"
    using assms pre n
    by (auto simp: plookup.simps [of ns nv nt ne cs w s] Let_def orElse_Some below_def split: if_splits option.splits dest: map_of_SomeD)
  ultimately show ?thesis by blast
qed

lemma lookupW_cases:
  assumes "lookupW n s = Some m"
  shows "s = [] \<and> m = n \<or> (\<exists>k. below n k \<and> plookup k s = Some m)"
  using assms
  by (cases n) (auto simp: lookupW.simps orElse_Some below_def split: if_splits option.splits dest: map_of_SomeD)

lemma captureLoop_cases: "captureLoop n s = Some m \<Longrightarrow> \<exists>t u. s = t @ u \<and> lookupW n u = Some m"
proof (induction s)
  case Nil
  then show ?case by (auto simp: captureLoop.simps [of n "[]"] orElse_Some)
next
  case (Cons c s)
  then consider "lookupW n (c # s) = Some m" | "captureLoop n s = Some m" by (auto simp: captureLoop.simps [of n "c # s"] orElse_Some)
  then show ?case
  proof cases
    case 1
    then show ?thesis by (intro exI [of _ "[]"] exI [of _ "c # s"]) simp
  next
    case 2
    with Cons.IH obtain t u where "s = t @ u" "lookupW n u = Some m" by blast
    then show ?thesis by (intro exI [of _ "c # t"] exI [of _ u]) simp
  qed
qed

lemma lookup_leads: "plookup n s = Some m \<Longrightarrow> \<exists>ts. leads n ts m \<and> globs ts s"
proof (induction "size n" arbitrary: n s rule: less_induct)
  case less
  show ?case
  proof (cases "pTyp n = WILDCARD")
    case True
    then have toks: "nodeTokens n = [Star]" by (simp add: nodeTokens_def)
    have "captureLoop n s = Some m" using less.prems True by (cases n) (simp add: plookup.simps)
    then obtain t u where tu: "s = t @ u" "lookupW n u = Some m" using captureLoop_cases by blast
    from lookupW_cases [OF tu(2)] show ?thesis
    proof (elim disjE exE conjE)
      assume "u = []" "m = n"
      then show ?thesis using here [of n] toks tu(1) by (intro exI [of _ "[Star]"]) (auto simp: globs_star)
    next
      fix k assume k: "below n k" "plookup k u = Some m"
      from less.hyps [OF below_size [OF k(1)] k(2)] obtain ts where ts: "leads k ts m" "globs ts u" by blast
      then show ?thesis using leads_below [OF k(1) ts(1)] toks tu(1)
        by (intro exI [of _ "Star # ts"]) (auto simp: globs_star)
    qed
  next
    case False
    then have toks: "nodeTokens n = map Lit (pS n)" by (simp add: nodeTokens_def)
    from plookup_common [OF less.prems False] obtain u where
      u: "s = pS n @ u" "u = [] \<and> m = n \<or> (\<exists>k. below n k \<and> plookup k u = Some m)" by blast
    from u(2) show ?thesis
    proof (elim disjE exE conjE)
      assume "u = []" "m = n"
      then show ?thesis using here [of n] toks globs_lits [of "pS n" "[]" "[]"] u(1) by (intro exI [of _ "map Lit (pS n)"]) simp
    next
      fix k assume k: "below n k" "plookup k u = Some m"
      from less.hyps [OF below_size [OF k(1)] k(2)] obtain ts where ts: "leads k ts m" "globs ts u" by blast
      then show ?thesis using leads_below [OF k(1) ts(1)] toks u(1)
        by (intro exI [of _ "map Lit (pS n) @ ts"]) (simp add: globs_lits)
    qed
  qed
qed

text \<open>\<open>Add\<close> adds the meaning of its pattern and nothing else. Wildcard nodes have a text, as \<open>newTree\<close> makes them.\<close>

inductive wildOk :: "'v pnode \<Rightarrow> bool" where
  "(nt = WILDCARD \<Longrightarrow> ns \<noteq> []) \<Longrightarrow> (\<And>c m. (c, m) \<in> set cs \<Longrightarrow> wildOk m) \<Longrightarrow> (\<And>m. w = Some m \<Longrightarrow> wildOk m) \<Longrightarrow>
     wildOk (PNode ns nv nt ne cs w)"

inductive_simps wildOk_simps [simp]: "wildOk (PNode ns nv nt ne cs w)"

lemma nodeType_cases: "t \<noteq> WILDCARD \<longleftrightarrow> t = COMMON" "t \<noteq> COMMON \<longleftrightarrow> t = WILDCARD"
  by (cases t; simp)+

lemma findAst_tokens:
  assumes "findAst e p = (s, j)"
  shows "tokens e p = map Lit s @ tokens False (drop j p)" "drop j p = [] \<or> hd (drop j p) = CHR ''*''" "j = 0 \<Longrightarrow> s = []"
proof -
  have "tokens e p = map Lit s @ tokens False (drop j p) \<and> (drop j p = [] \<or> hd (drop j p) = CHR ''*'') \<and> (j = 0 \<longrightarrow> s = [])"
    using assms
  proof (induction e p arbitrary: s j rule: findAst.induct)
    case (2 e c p)
    show ?case
    proof (cases "c = backslash \<and> \<not> e")
      case True
      obtain s' j' where f: "findAst True p = (s', j')" by (cases "findAst True p") auto
      show ?thesis using 2(1) [OF True f] 2(3) True f by auto
    next
      case no: False
      show ?thesis
      proof (cases "c = CHR ''*'' \<and> \<not> e")
        case True
        then show ?thesis using 2(3) no by simp
      next
        case False
        obtain s' j' where f: "findAst False p = (s', j')" by (cases "findAst False p") auto
        show ?thesis using 2(2) [OF no False f] 2(3) no False f by auto
      qed
    qed
  qed simp
  then show "tokens e p = map Lit s @ tokens False (drop j p)" "drop j p = [] \<or> hd (drop j p) = CHR ''*''" "j = 0 \<Longrightarrow> s = []"
    by blast+
qed

lemma findAst_zero: "p \<noteq> [] \<Longrightarrow> findAst False p = (s, 0) \<Longrightarrow> hd p = CHR ''*''"
  by (cases p) (auto split: if_splits prod.splits)

lemma findAst_star: "findAst False (CHR ''*'' # p) = ([], 0)"
  by (simp add: backslash_def)

lemma lang_attach:
  assumes "attach n c = Ret n'" "pTyp c = WILDCARD \<longrightarrow> pWcard n = None"
  shows "lang n' = lang n \<union> (@) (nodeTokens n) ` lang c" "wildOk n \<Longrightarrow> wildOk c \<Longrightarrow> wildOk n'" "pTyp n' = pTyp n"
    "nodeTokens n' = nodeTokens n"
proof -
  obtain s v t e cs w where n: "n = PNode s v t e cs w" by (cases n)
  show "pTyp n' = pTyp n" "nodeTokens n' = nodeTokens n" "wildOk n \<Longrightarrow> wildOk c \<Longrightarrow> wildOk n'"
    using assms n by (auto simp: attach_def nodeTokens_def split: nodeType.splits if_splits)
  show "lang n' = lang n \<union> (@) (nodeTokens n) ` lang c"
  proof (cases "pTyp c")
    case COMMON
    then have "n' = PNode s v t e (cs @ [(hd (pS c), c)]) w" using assms(1) n by (simp add: attach_def split: if_splits)
    then have "langChildren (pChild n') = langChildren cs \<union> lang c" "pWcard n' = w" "pEnd n' = e" "nodeTokens n' = nodeTokens n"
      using n by (auto simp: langChildren_def nodeTokens_def)
    then show ?thesis using lang_node [of n'] lang_node [of n] n by (simp add: image_Un Un_ac)
  next
    case WILDCARD
    then have "n' = PNode s v t e cs (Some c)" "w = None" using assms n by (simp_all add: attach_def)
    then have "langOption (pWcard n') = lang c" "pChild n' = cs" "pEnd n' = e" "nodeTokens n' = nodeTokens n" "langOption (pWcard n) = {}"
      using n by (auto simp: langOption_def nodeTokens_def)
    then show ?thesis using lang_node [of n'] lang_node [of n] n by (simp add: image_Un Un_ac)
  qed
qed

lemma lang_leaf: "lang (PNode s v t e [] None) = (if e then {nodeTokens (PNode s v t e [] None)} else {})"
  using lang_node [of "PNode s v t e [] None"] by (simp add: langChildren_def langOption_def)

lemma lang_newTree:
  "newTree v p = Ret t \<Longrightarrow> lang t = {tokens False p} \<and> wildOk t \<and> (pTyp t = WILDCARD \<longleftrightarrow> hd p = CHR ''*'')"
proof (induction v p arbitrary: t rule: newTree.induct)
  case (1 v p)
  obtain s j where f: "findAst False p = (s, j)" by (cases "findAst False p") auto
  let ?n = "if j = 0 then PNode ''*'' None WILDCARD False [] None else PNode s None COMMON False [] None :: 'a pnode"
  let ?rest = "drop (if j = 0 then 1 else j) p"
  have p: "p \<noteq> []" using "1.prems" f by (auto simp: newTree.simps [of v p])
  have ty: "pTyp ?n = WILDCARD \<longleftrightarrow> hd p = CHR ''*''"
    using f p findAst_zero [OF p, of s] findAst_star [of "tl p"] by (cases p) auto
  have toks: "tokens False p = nodeTokens ?n @ tokens False ?rest"
  proof (cases "j = 0")
    case True
    then obtain p' where "p = CHR ''*'' # p'" using f findAst_zero [OF p] p by (cases p) auto
    then show ?thesis using True by (simp add: nodeTokens_def backslash_def)
  next
    case False
    then show ?thesis using findAst_tokens(1) [OF f] by (simp add: nodeTokens_def)
  qed
  have wn: "wildOk ?n" by simp
  show ?case
  proof (cases "?rest = []")
    case True
    then have "t = PNode (pS ?n) (Some v) (pTyp ?n) True [] None" using "1.prems" f p by (simp add: newTree.simps [of v p] Let_def)
    then show ?thesis using toks True ty wn by (auto simp: lang_leaf nodeTokens_def)
  next
    case False
    then obtain t' where t': "newTree v ?rest = Ret t'" "attach ?n t' = Ret t"
      using "1.prems" f p by (auto simp: newTree.simps [of v p] go_bind_Ret_iff Let_def)
    have IH: "lang t' = {tokens False ?rest}" "wildOk t'" using "1.IH" [OF f [symmetric] refl refl refl p False t'(1)] by simp_all
    have none: "pWcard ?n = None" "lang ?n = {}" by (simp_all add: lang_leaf)
    from lang_attach [OF t'(2)] none IH toks ty wn show ?thesis by simp
  qed
qed

text \<open>A pattern without an escaped backslash.\<close>

fun noDouble :: "string \<Rightarrow> bool" where
  "noDouble (c # d # p) \<longleftrightarrow> \<not> (c = backslash \<and> d = backslash) \<and> noDouble (d # p)"
| "noDouble _ \<longleftrightarrow> True"

lemma noDouble_tl: "noDouble (c # p) \<Longrightarrow> noDouble p"
  by (cases p) auto

lemma noDouble_drop: "noDouble p \<Longrightarrow> noDouble (drop i p)"
  by (induction i arbitrary: p) (auto simp: drop_Suc dest: noDouble_tl split: list.splits, metis list.collapse list.sel(2) noDouble_tl)

lemma matchLoop_tokens:
  "matchLoop e p s = (i, l, e') \<Longrightarrow> noDouble p \<Longrightarrow> (e \<longrightarrow> p = [] \<or> hd p \<noteq> backslash) \<Longrightarrow>
    tokens e p = map Lit (take l s) @ tokens e' (drop i p) \<and> l \<le> length s \<and> (e' \<longrightarrow> i = 0 \<and> e \<or> 0 < i \<and> i \<le> length p \<and> p ! (i - 1) = backslash)"
proof (induction e p s arbitrary: i l e' rule: matchLoop.induct)
  case (1 e c p d s)
  show ?case
  proof (cases "c = backslash \<and> \<not> e")
    case True
    obtain i1 l1 e1 where m: "matchLoop True p (d # s) = (i1, l1, e1)" by (cases "matchLoop True p (d # s)") auto
    have "p = [] \<or> hd p \<noteq> backslash" "noDouble p" using "1.prems"(2) True by (cases p; auto)+
    with "1.IH"(1) [OF True m] "1.prems"(1) True m show ?thesis by (auto simp: nth_Cons split: nat.splits)
  next
    case False
    have e: "c = backslash \<Longrightarrow> \<not> e" using "1.prems"(3) by auto
    then have nb: "c \<noteq> backslash" using False by auto
    show ?thesis
    proof (cases "\<not> e \<and> c = CHR ''*'' \<or> c \<noteq> d")
      case True
      then have "(i, l, e') = (0, 0, e)" using "1.prems"(1) nb by (auto simp: Let_def split: if_splits)
      then show ?thesis by auto
    next
      case go: False
      obtain i1 l1 e1 where m: "matchLoop False p s = (i1, l1, e1)" by (cases "matchLoop False p s") auto
      have r: "i = Suc i1" "l = Suc l1" "e' = e1" "c = d" "\<not> (c = CHR ''*'' \<and> \<not> e)" using "1.prems"(1) nb go m by (auto simp: Let_def)
      have "tokens False p = map Lit (take l1 s) @ tokens e1 (drop i1 p) \<and> l1 \<le> length s \<and>
          (e1 \<longrightarrow> i1 = 0 \<and> False \<or> 0 < i1 \<and> i1 \<le> length p \<and> p ! (i1 - 1) = backslash)"
        using "1.IH"(2) [OF False refl, of i1 l1 e1] m nb go noDouble_tl [OF "1.prems"(2)] by auto
      with r nb show ?thesis by (auto simp: nth_Cons split: nat.splits)
    qed
  qed
qed auto

lemma lang_psetV: "lang (fst (psetV v n)) = insert (nodeTokens n) (lang n)" "wildOk n \<Longrightarrow> wildOk (fst (psetV v n))"
proof -
  have "nodeTokens (fst (psetV v n)) = nodeTokens n" by (simp add: psetV_def nodeTokens_def)
  then show "lang (fst (psetV v n)) = insert (nodeTokens n) (lang n)"
    unfolding lang_node [of "fst (psetV v n)"] lang_node [of n] by (auto simp: psetV_def)
  show "wildOk n \<Longrightarrow> wildOk (fst (psetV v n))" by (cases n) (simp add: psetV_def)
qed

lemma lang_split:
  assumes "l < length (pS n)" "pTyp n = WILDCARD \<longrightarrow> l = 0" "wildOk n"
  shows "lang (splitNode l n) = lang n" "wildOk (splitNode l n)" "nodeTokens (splitNode l n) = map Lit (take l (pS n))"
    "pTyp n = COMMON \<Longrightarrow> pWcard (splitNode l n) = None"
proof -
  let ?c = "PNode (drop l (pS n)) (pV n) (pTyp n) (pEnd n) (pChild n) (pWcard n)"
  show "nodeTokens (splitNode l n) = map Lit (take l (pS n))" "wildOk (splitNode l n)"
    "pTyp n = COMMON \<Longrightarrow> pWcard (splitNode l n) = None"
    using assms by (cases n; auto simp: splitNode_def nodeTokens_def Let_def)+
  have low: "lang (splitNode l n) = (@) (map Lit (take l (pS n))) ` lang ?c"
    using lang_node [of "splitNode l n"] \<open>nodeTokens (splitNode l n) = _\<close>
    by (auto simp: splitNode_def Let_def langChildren_def langOption_def split: if_splits)
  have "nodeTokens n = map Lit (take l (pS n)) @ nodeTokens ?c"
    using assms(2) by (auto simp: nodeTokens_def simp flip: map_append)
  then have "lang n = (@) (map Lit (take l (pS n))) ` lang ?c"
    unfolding lang_node [of n] lang_node [of ?c] by (auto simp: image_Un image_image)
  with low show "lang (splitNode l n) = lang n" by simp
qed

lemma lang_addRest:
  assumes "addRest v p n = Ret (n', r)" "wildOk n" "hd p = CHR ''*'' \<longrightarrow> pWcard n = None"
  shows "lang n' = insert (nodeTokens n @ tokens False p) (lang n) \<and> wildOk n'"
proof -
  obtain t where t: "newTree v p = Ret t" "attach n t = Ret n'" using assms(1) by (auto simp: addRest_def go_bind_Ret_iff)
  from lang_newTree [OF t(1)] assms(3) have "lang t = {tokens False p}" "wildOk t" "pTyp t = WILDCARD \<longrightarrow> pWcard n = None" by auto
  with lang_attach [OF t(2)] assms(2) show ?thesis by auto
qed

lemma langChildren_update:
  "map_of cs c = Some m \<Longrightarrow> lang m' = insert ts (lang m) \<Longrightarrow> langChildren (AList.update c m' cs) = insert ts (langChildren cs)"
  by (induction cs) (auto simp: langChildren_def split: if_splits)

lemma lang_setChild:
  assumes "map_of (pChild n) c = Some m" "lang m' = insert ts (lang m)" "wildOk n" "wildOk m'"
  shows "lang (setChild n c m') = insert (nodeTokens n @ ts) (lang n) \<and> wildOk (setChild n c m')"
proof -
  have "nodeTokens (setChild n c m') = nodeTokens n" by (simp add: setChild_def nodeTokens_def)
  then have "lang (setChild n c m') = insert (nodeTokens n @ ts) (lang n)"
    unfolding lang_node [of "setChild n c m'"] lang_node [of n]
    using langChildren_update [OF assms(1,2)] by (auto simp: setChild_def)
  moreover have upd: "(k, x) \<in> set (AList.update c m' cs) \<Longrightarrow> x = m' \<or> (k, x) \<in> set cs" for k x cs
    by (induction cs) (auto split: if_splits)
  then have "wildOk (setChild n c m')" using assms(3,4) by (cases n) (auto simp: setChild_def dest!: upd)
  ultimately show ?thesis by simp
qed

lemma lang_setWcard:
  assumes "lang w = insert ts (langOption (pWcard n))" "wildOk n" "wildOk w"
  shows "lang (setWcard n w) = insert (nodeTokens n @ ts) (lang n) \<and> wildOk (setWcard n w)"
proof -
  have "nodeTokens (setWcard n w) = nodeTokens n" by (simp add: setWcard_def nodeTokens_def)
  then have "lang (setWcard n w) = insert (nodeTokens n @ ts) (lang n)"
    unfolding lang_node [of "setWcard n w"] lang_node [of n] using assms(1) by (auto simp: setWcard_def langOption_def)
  moreover have "wildOk (setWcard n w)" using assms(2,3) by (cases n) (auto simp: setWcard_def)
  ultimately show ?thesis by simp
qed

text \<open>The part of \<open>Add\<close> behind a node that the pattern has passed.\<close>

definition addBelow :: "'v \<Rightarrow> 'v pnode \<Rightarrow> string \<Rightarrow> ('v pnode \<times> 'v option \<times> bool) go" where
  "addBelow v n pattern =
     (if length pattern = 0 then Ret (psetV v n)
      else if hd pattern = CHR ''*'' then
        (case pWcard n of
           None \<Rightarrow> go_bind (newTree v pattern) (\<lambda>t. Ret (setWcard n t, None, False))
         | Some m \<Rightarrow> go_bind (patternAdd v m pattern) (\<lambda>(m, r). Ret (setWcard n m, r)))
      else
        (let first = (if hd pattern = backslash then 1 else 0)
         in if length (drop first pattern) > 0 then
              (case map_of (pChild n) (pattern ! first) of
                 Some m \<Rightarrow> go_bind (patternAdd v m pattern) (\<lambda>(m, r). Ret (setChild n (pattern ! first) m, r))
               | None \<Rightarrow> addRest v pattern n)
            else addRest v pattern n))"

lemma patternAdd_below:
  "patternAdd v (PNode ns nv nt ne cs w) pattern =
     (let n = PNode ns nv nt ne cs w;
          wmatch = (nt = WILDCARD \<and> pattern \<noteq> [] \<and> hd pattern = CHR ''*'');
          (i, l, e) = (if nt = WILDCARD then (0, 0, False) else matchLoop False pattern ns);
          i = (if wmatch then 1 else if e then i - 1 else i)
      in if wmatch \<or> l = length ns then addBelow v n (drop i pattern)
         else if drop i pattern = [] then Ret (psetV v (splitNode l n)) else addRest v (drop i pattern) (splitNode l n))"
  by (simp only: patternAdd.simps [of v ns] addBelow_def pnode.sel Let_def length_0_conv split_def)

lemma lang_addBelow:
  assumes IH: "\<And>m m' r. below n m \<Longrightarrow> patternAdd v m p = Ret (m', r) \<Longrightarrow> wildOk m \<Longrightarrow> lang m' = insert (tokens False p) (lang m) \<and> wildOk m'"
    and "addBelow v n p = Ret (n', r)" "wildOk n"
  shows "lang n' = insert (nodeTokens n @ tokens False p) (lang n) \<and> wildOk n'"
proof -
  have sub: "wildOk m" if "below n m" for m using that assms(3) by (cases n) (auto simp: below_def)
  consider "p = []" | "p \<noteq> []" "hd p = CHR ''*''" | "p \<noteq> []" "hd p \<noteq> CHR ''*''" by blast
  then show ?thesis
  proof cases
    case 1
    then show ?thesis using assms(2,3) lang_psetV [where v = v and n = n] by (auto simp: addBelow_def)
  next
    case 2
    show ?thesis
    proof (cases "pWcard n")
      case None
      with 2 assms(2) obtain t where t: "newTree v p = Ret t" "n' = setWcard n t" by (auto simp: addBelow_def go_bind_Ret_iff)
      with lang_newTree [OF t(1)] None assms(3) lang_setWcard [of t "tokens False p" n] show ?thesis by (simp add: langOption_def)
    next
      case (Some m)
      with 2 assms(2) obtain m' r' where m': "patternAdd v m p = Ret (m', r')" "n' = setWcard n m'"
        by (auto simp: addBelow_def go_bind_Ret_iff)
      have b: "below n m" using Some by (simp add: below_def)
      from IH [OF b m'(1) sub [OF b]] m'(2) Some assms(3) lang_setWcard [of m' "tokens False p" n] show ?thesis
        by (simp add: langOption_def)
    qed
  next
    case 3
    consider "addRest v p n = Ret (n', r)" | c m m' r' where "map_of (pChild n) c = Some m" "patternAdd v m p = Ret (m', r')" "n' = setChild n c m'"
    proof -
      let ?c = "p ! (if hd p = backslash then 1 else 0)"
      show thesis
      proof (cases "length (drop (if hd p = backslash then 1 else 0) p) > 0 \<and> map_of (pChild n) ?c \<noteq> None")
        case True
        then obtain m where m: "map_of (pChild n) ?c = Some m" by blast
        with True 3 assms(2) have "go_bind (patternAdd v m p) (\<lambda>(m, r). Ret (setChild n ?c m, r)) = Ret (n', r)"
          by (simp only: addBelow_def Let_def) simp
        then obtain m' where "patternAdd v m p = Ret (m', r)" "n' = setChild n ?c m'" by (auto simp: go_bind_Ret_iff)
        with m show thesis by (rule that(2))
      next
        case False
        with 3 assms(2) have "addRest v p n = Ret (n', r)" by (auto simp: addBelow_def Let_def split: if_splits)
        then show thesis by (rule that(1))
      qed
    qed
    then show ?thesis
    proof cases
      case 1
      then show ?thesis using lang_addRest [OF 1 assms(3)] 3 by simp
    next
      case 2
      then have b: "below n m" by (auto simp: below_def dest: map_of_SomeD)
      from IH [OF b 2(2) sub [OF b]] 2(1,3) assms(3) lang_setChild [of n c m m'] show ?thesis by simp
    qed
  qed
qed

lemma patternAdd_cases:
  assumes "patternAdd v n p = Ret (n', r)" "wildOk n" "noDouble p"
  obtains i where "tokens False p = nodeTokens n @ tokens False (drop i p)" "addBelow v n (drop i p) = Ret (n', r)"
  | i l where "l < length (pS n)" "pTyp n = WILDCARD \<longrightarrow> l = 0 \<and> (drop i p = [] \<or> hd (drop i p) \<noteq> CHR ''*'')"
      "tokens False p = map Lit (take l (pS n)) @ tokens False (drop i p)"
      "(if drop i p = [] then Ret (psetV v (splitNode l n)) else addRest v (drop i p) (splitNode l n)) = Ret (n', r)"
proof -
  obtain ns nv nt ne cs w where n: "n = PNode ns nv nt ne cs w" by (cases n)
  show ?thesis
  proof (cases "nt = WILDCARD")
    case True
    then have ns: "ns \<noteq> []" using assms(2) n by simp
    show ?thesis
    proof (cases "p \<noteq> [] \<and> hd p = CHR ''*''")
      case w: True
      then obtain p' where p: "p = CHR ''*'' # p'" by (cases p) auto
      show ?thesis
      proof (rule that(1) [of 1])
        show "tokens False p = nodeTokens n @ tokens False (drop 1 p)" using p True n by (simp add: nodeTokens_def backslash_def)
        show "addBelow v n (drop 1 p) = Ret (n', r)"
          using assms(1) n True w by (simp add: patternAdd_below)
      qed
    next
      case False
      have "(if drop 0 p = [] then Ret (psetV v (splitNode 0 n)) else addRest v (drop 0 p) (splitNode 0 n)) = Ret (n', r)"
        using assms(1) n True False ns by (simp add: patternAdd_below Let_def split: if_splits)
      from that(2) [OF _ _ _ this] show ?thesis using n False ns by simp
    qed
  next
    case False
    obtain i l e where m: "matchLoop False p ns = (i, l, e)" by (cases "matchLoop False p ns") auto
    let ?i = "if e then i - 1 else i"
    have mt: "tokens False p = map Lit (take l ns) @ tokens e (drop i p)" "l \<le> length ns"
      "e \<longrightarrow> 0 < i \<and> i \<le> length p \<and> p ! (i - 1) = backslash"
      using matchLoop_tokens [OF m assms(3)] by auto
    have "tokens e (drop i p) = tokens False (drop ?i p)"
    proof (cases e)
      case True
      then have "drop (i - 1) p = backslash # drop i p" using mt(3) by (metis Cons_nth_drop_Suc One_nat_def Suc_pred diff_less less_le_trans zero_less_one)
      with True show ?thesis by simp
    qed simp
    then have toks: "tokens False p = map Lit (take l ns) @ tokens False (drop ?i p)" using mt(1) by simp
    show ?thesis
    proof (cases "l = length ns")
      case True
      show ?thesis
      proof (rule that(1) [of ?i])
        show "tokens False p = nodeTokens n @ tokens False (drop ?i p)" using toks True n False by (simp add: nodeTokens_def)
        show "addBelow v n (drop ?i p) = Ret (n', r)"
          using assms(1) n False m True by (simp add: patternAdd_below Let_def)
      qed
    next
      case no: False
      have "(if drop ?i p = [] then Ret (psetV v (splitNode l n)) else addRest v (drop ?i p) (splitNode l n)) = Ret (n', r)"
        using assms(1) n False m no by (simp add: patternAdd_below Let_def split: if_splits)
      from that(2) [OF _ _ _ this] show ?thesis using n False no mt(2) toks by simp
    qed
  qed
qed

lemma lang_patternAdd:
  "patternAdd v n p = Ret (n', r) \<Longrightarrow> wildOk n \<Longrightarrow> noDouble p \<Longrightarrow> lang n' = insert (tokens False p) (lang n) \<and> wildOk n'"
proof (induction "size n" arbitrary: n p n' r rule: less_induct)
  case less
  from less.prems show ?case
  proof (cases rule: patternAdd_cases)
    case (1 i)
    have "lang m' = insert (tokens False (drop i p)) (lang m) \<and> wildOk m'"
      if "below n m" "patternAdd v m (drop i p) = Ret (m', r')" "wildOk m" for m m' r'
      by (rule less.hyps [OF below_size [OF that(1)] that(2,3) noDouble_drop [OF less.prems(3)]])
    then have "lang n' = insert (nodeTokens n @ tokens False (drop i p)) (lang n) \<and> wildOk n'"
      by (rule lang_addBelow [OF _ 1(2) less.prems(2)])
    then show ?thesis by (simp only: 1(1))
  next
    case (2 i l)
    note sp = lang_split [of l n] 
    have s: "lang (splitNode l n) = lang n" "wildOk (splitNode l n)" "nodeTokens (splitNode l n) = map Lit (take l (pS n))"
      using sp(1-3) 2(1,2) less.prems(2) by simp_all
    show ?thesis
    proof (cases "drop i p = []")
      case True
      then have "n' = fst (psetV v (splitNode l n))" using 2(4) by simp
      with lang_psetV [where v = v and n = "splitNode l n"] s True
      have "lang n' = insert (map Lit (take l (pS n)) @ tokens False (drop i p)) (lang n) \<and> wildOk n'" by simp
      then show ?thesis by (simp only: 2(3))
    next
      case False
      have "hd (drop i p) = CHR ''*'' \<longrightarrow> pWcard (splitNode l n) = None"
      proof (cases "pTyp n")
        case COMMON
        with sp(4) 2(1) less.prems(2) show ?thesis by simp
      next
        case WILDCARD
        with 2(2) False show ?thesis by simp
      qed
      with lang_addRest [of v "drop i p" "splitNode l n" n' r] False 2(4) s
      have "lang n' = insert (map Lit (take l (pS n)) @ tokens False (drop i p)) (lang n) \<and> wildOk n'" by simp
      then show ?thesis by (simp only: 2(3))
    qed
  qed
qed

lemma lang_addPatterns:
  assumes "addPatterns ps root = Ret root'" "\<forall>p \<in> set ps. noDouble p" "\<forall>n. root = Some n \<longrightarrow> wildOk n"
  shows "langOption root' = langOption root \<union> tokens False ` (set ps - {[]})"
  using assms
proof (induction ps arbitrary: root)
  case (Cons p ps)
  then obtain r1 x where r1: "trieAddPattern p () root = Ret (r1, x)" "addPatterns ps r1 = Ret root'"
    by (auto simp: go_bind_Ret_iff)
  have step: "langOption r1 = langOption root \<union> tokens False ` ({p} - {[]}) \<and> (\<forall>n. r1 = Some n \<longrightarrow> wildOk n)"
  proof (cases "p = []")
    case True
    then show ?thesis using r1(1) Cons.prems(3) by (simp add: trieAddPattern_def)
  next
    case p: False
    show ?thesis
    proof (cases root)
      case None
      then obtain t where "newTree () p = Ret t" "r1 = Some t" using r1(1) p by (auto simp: trieAddPattern_def go_bind_Ret_iff)
      with lang_newTree [OF this(1)] None p show ?thesis by (simp add: langOption_def)
    next
      case (Some n)
      then obtain n' r where n': "patternAdd () n p = Ret (n', r)" "r1 = Some n'"
        using r1(1) p by (auto simp: trieAddPattern_def go_bind_Ret_iff)
      with lang_patternAdd [OF n'(1)] Some p Cons.prems(2,3) show ?thesis by (simp add: langOption_def)
    qed
  qed
  have "langOption root' = langOption r1 \<union> tokens False ` (set ps - {[]})"
    using Cons.IH [OF r1(2)] Cons.prems(2) step by simp
  with step show ?case by auto
qed simp

text \<open>C37: A compiled set of patterns accepts only what one of its patterns matches, if no pattern has an escaped
  backslash. The trie has exactly the patterns as its paths, and a lookup that succeeds has found one of them
  that matches the whole string.\<close>

theorem pattern_match_sound:
  assumes "Compile ps = Ret root" "\<forall>p \<in> set ps. noDouble p" "patternMatch root s"
  shows "\<exists>p. p \<in> set ps \<and> globs (tokens False p) s"
proof -
  have lang: "langOption root = tokens False ` (set ps - {[]})"
    using lang_addPatterns [of ps None root] assms(1,2) by (simp add: Compile_def langOption_def)
  from assms(3) obtain n m where m: "root = Some n" "plookup n s = Some m" "pEnd m"
    by (auto simp: patternMatch_def patternLookup_def split: option.splits)
  from lookup_leads [OF m(2)] obtain ts where ts: "leads n ts m" "globs ts s" by blast
  then have "ts \<in> langOption root" using m by (auto simp: langOption_def lang_def)
  with lang ts(2) show ?thesis by auto
qed

theorem pattern_match_sound_witness: "\<exists>p. p \<in> {''a*b'', ''c''} \<and> globs (tokens False p) ''axb''"
proof -
  have run: "case Compile [''a*b'', ''c''] of Ret root \<Rightarrow> patternMatch root ''axb'' | Panic _ \<Rightarrow> False" by code_simp
  then obtain root where "Compile [''a*b'', ''c''] = Ret root" "patternMatch root ''axb''" by (auto split: go.splits)
  from pattern_match_sound [OF this(1) _ this(2)] show ?thesis by (simp add: backslash_def)
qed

text \<open>Three ways in which a set of patterns goes wrong. Next to \<open>abc\<close> and \<open>abd\<close> the pattern \<open>*\<close> does not match \<open>ab\<close>: the
  lookup stops at the inner node that the other two share. Next to \<open>ab\<close> a pattern in which an escaped
  backslash follows the \<open>a\<close> is entered without it, and accepts a string that no pattern matches. And a pattern that
  adds a final backslash to another one panics.\<close>

theorem pattern_sets_go_wrong:
  "(case Compile [''abc'', ''abd'', ''*''] of Ret root \<Rightarrow> \<not> patternMatch root ''ab'' | Panic _ \<Rightarrow> False) \<and>
   globs (tokens False ''*'') ''ab'' \<and>
   (case Compile [''ab'', [CHR ''a'', backslash, backslash, CHR ''c'']] of Ret root \<Rightarrow> patternMatch root ''ac'' | Panic _ \<Rightarrow> False) \<and>
   \<not> globs (tokens False ''ab'') ''ac'' \<and> \<not> globs (tokens False [CHR ''a'', backslash, backslash, CHR ''c'']) ''ac'' \<and>
   Compile [''foo'', ''foo'' @ [backslash]] = Panic indexPanic"
proof -
  have "case Compile [''abc'', ''abd'', ''*''] of Ret root \<Rightarrow> \<not> patternMatch root ''ab'' | Panic _ \<Rightarrow> False" by code_simp
  moreover have "case Compile [''ab'', [CHR ''a'', backslash, backslash, CHR ''c'']] of Ret root \<Rightarrow> patternMatch root ''ac'' | Panic _ \<Rightarrow> False"
    by code_simp
  moreover have "case Compile [''foo'', ''foo'' @ [backslash]] of Ret _ \<Rightarrow> False | Panic m \<Rightarrow> m = indexPanic" by code_simp
  then have "Compile [''foo'', ''foo'' @ [backslash]] = Panic indexPanic" by (simp split: go.splits)
  moreover have "globs (tokens False ''*'') ''ab''" "\<not> globs (tokens False ''ab'') ''ac''"
    "\<not> globs (tokens False [CHR ''a'', backslash, backslash, CHR ''c'']) ''ac''" by code_simp+
  ultimately show ?thesis by blast
qed

end
