(* ===== verification/LockFree.thy ===== *)
theory LockFree
  imports Prelude "HOL-Library.Word"
begin

unbundle bit_operations_syntax

text \<open>
  The lock-free ring buffer of \<open>lib/lock_free/queue/esQueue.go\<close>. The counters are 32-bit words. A goroutine in \<open>Put\<close>, \<open>Puts\<close>, \<open>Get\<close>
  or \<open>Gets\<close> is a program counter \<open>pc\<close> with its local variables, \<open>threadStep\<close> executes its next access to shared
  memory, and a schedule interleaves any number of goroutines. Every access to a shared variable is a step of its
  own; the accesses to the counters are atomic in Go.

  The lemmas are on the capacity, which is a power of two, and on the bookkeeping of claimed positions as tickets.
\<close>

subsection \<open>The queue\<close>

record 'v esCache =
  putNo :: "32 word"
  getNo :: "32 word"
  slotValue :: "'v option"

record 'v EsQueue =
  capaciity :: "32 word"
  capMod :: "32 word"
  putPos :: "32 word"
  getPos :: "32 word"
  cache :: "'v esCache list"

definition minQuantity :: "32 word \<Rightarrow> 32 word" where
  "minQuantity v =
     (let v = v - 1;
          v = v OR drop_bit 1 v;
          v = v OR drop_bit 2 v;
          v = v OR drop_bit 4 v;
          v = v OR drop_bit 8 v;
          v = v OR drop_bit 16 v
      in v + 1)"

text \<open>\<open>q.cache[0]\<close> panics if the capacity is zero.\<close>

definition NewQueue :: "32 word \<Rightarrow> 'v EsQueue go" where
  "NewQueue c =
     (let n = minQuantity c;
          cs = map (\<lambda>i. \<lparr>putNo = of_nat i, getNo = of_nat i, slotValue = None\<rparr>) [0..<unat n]
      in if cs = [] then Panic ''index out of range [0] with length 0''
         else Ret \<lparr>capaciity = n, capMod = n - 1, putPos = 0, getPos = 0, cache = cs[0 := \<lparr>putNo = n, getNo = n, slotValue = None\<rparr>]\<rparr>)"

text \<open>The number of entries between two positions, as every operation computes it.\<close>

definition posCount :: "'v EsQueue \<Rightarrow> 32 word \<Rightarrow> 32 word \<Rightarrow> 32 word" where
  "posCount q pp gp = (if pp \<ge> gp then pp - gp else capMod q + (pp - gp))"

definition Quantity :: "'v EsQueue \<Rightarrow> 32 word" where
  "Quantity q = posCount q (putPos q) (getPos q)"

definition slotIndex :: "'v EsQueue \<Rightarrow> 32 word \<Rightarrow> nat" where
  "slotIndex q pos = unat (pos AND capMod q)"

definition setSlot :: "nat \<Rightarrow> ('v esCache \<Rightarrow> 'v esCache) \<Rightarrow> 'v EsQueue \<Rightarrow> 'v EsQueue" where
  "setSlot i f q = q\<lparr>cache := (cache q)[i := f (cache q ! i)]\<rparr>"

subsection \<open>A goroutine in an operation\<close>

text \<open>
  \<open>Gets\<close> has the length of its buffer. \<open>Start\<close> is the entry of an operation, \<open>Loaded\<close> has the first of the two
  positions, \<open>Claim\<close> both. With its positions claimed the goroutine fills or drains slot after slot; \<open>fPhase\<close>
  and \<open>dPhase\<close> say how far it is with the slot of \<open>posNew\<close>. \<open>Returning\<close> holds the results.
\<close>

datatype 'v request = Put 'v | Puts "'v list" | Get | Gets nat

datatype fPhase = FSpin | FSeen "32 word" | FWrite | FPublish

datatype 'v dPhase = DSpin | DSeen "32 word" | DRead | DClear "'v option" | DRelease "'v option"

datatype 'v pc =
    Idle
  | Start "'v request"
  | Loaded "'v request" "32 word"
  | Claim "'v request" "32 word" "32 word"
  | Filling fPhase "32 word" "'v list" "32 word \<times> 32 word"
  | Draining "'v dPhase" "32 word" nat "32 word \<times> 32 word"
  | Returning "32 word \<times> 32 word"

datatype 'v event = Tau | Accepted "'v list" | Published | Claimed nat | Delivered "'v option" | Returned "32 word \<times> 32 word"

fun isPut :: "'v request \<Rightarrow> bool" where
  "isPut (Put _) = True"
| "isPut (Puts _) = True"
| "isPut _ = False"

text \<open>What an operation claims when it has found \<open>posCnt\<close> entries.\<close>

fun putCount :: "'v EsQueue \<Rightarrow> 'v request \<Rightarrow> 32 word \<Rightarrow> 'v list \<times> 32 word" where
  "putCount q (Put v) posCnt = ([v], 1)"
| "putCount q (Puts values) posCnt =
     (let capPuts = capaciity q - posCnt;
          size = of_nat (length values);
          putCnt = (if capPuts \<ge> size then size else capPuts)
      in (take (unat putCnt) values, putCnt))"
| "putCount q _ posCnt = ([], 0)"

fun getCount :: "'v request \<Rightarrow> 32 word \<Rightarrow> 32 word" where
  "getCount (Gets n) posCnt = (let size = of_nat n in if posCnt \<ge> size then size else posCnt)"
| "getCount _ posCnt = 1"

definition fillFrom :: "32 word \<Rightarrow> 'v list \<Rightarrow> 32 word \<times> 32 word \<Rightarrow> 'v pc" where
  "fillFrom pos vs ret = (if vs = [] then Returning ret else Filling FSpin pos vs ret)"

definition drainFrom :: "32 word \<Rightarrow> nat \<Rightarrow> 32 word \<times> 32 word \<Rightarrow> 'v pc" where
  "drainFrom pos k ret = (if k = 0 then Returning ret else Draining DSpin pos k ret)"

text \<open>The test for a full or an empty queue and the compare-and-swap.\<close>

definition claimPut :: "'v EsQueue \<Rightarrow> 'v request \<Rightarrow> 32 word \<Rightarrow> 32 word \<Rightarrow> 'v EsQueue \<times> 'v pc \<times> 'v event" where
  "claimPut q req gp pp =
     (let posCnt = posCount q pp gp
      in if posCnt \<ge> capMod q - 1 then (q, Returning (0, posCnt), Tau)
         else (case putCount q req posCnt of (vs, putCnt) \<Rightarrow>
           if putPos q = pp
           then (q\<lparr>putPos := pp + putCnt\<rparr>, fillFrom (pp + 1) vs (putCnt, posCnt + putCnt), Accepted vs)
           else (q, Returning (0, posCnt), Tau)))"

definition claimGet :: "'v EsQueue \<Rightarrow> 'v request \<Rightarrow> 32 word \<Rightarrow> 32 word \<Rightarrow> 'v EsQueue \<times> 'v pc \<times> 'v event" where
  "claimGet q req gp pp =
     (let posCnt = posCount q pp gp
      in if posCnt < 1 then (q, Returning (0, posCnt), Tau)
         else (let getCnt = getCount req posCnt
               in if getPos q = gp
                  then (q\<lparr>getPos := gp + getCnt\<rparr>, drainFrom (gp + 1) (unat getCnt) (getCnt, posCnt - getCnt), Claimed (unat getCnt))
                  else (q, Returning (0, posCnt), Tau)))"

fun fillStep :: "'v EsQueue \<Rightarrow> fPhase \<Rightarrow> 32 word \<Rightarrow> 'v list \<Rightarrow> 32 word \<times> 32 word \<Rightarrow> 'v EsQueue \<times> 'v pc \<times> 'v event" where
  "fillStep q FSpin pos vs ret = (q, Filling (FSeen (getNo (cache q ! slotIndex q pos))) pos vs ret, Tau)"
| "fillStep q (FSeen gn) pos vs ret =
     (let pn = putNo (cache q ! slotIndex q pos)
      in (q, Filling (if pos = pn \<and> gn = pn then FWrite else FSpin) pos vs ret, Tau))"
| "fillStep q FWrite pos vs ret = (setSlot (slotIndex q pos) (slotValue_update (\<lambda>_. Some (hd vs))) q, Filling FPublish pos vs ret, Tau)"
| "fillStep q FPublish pos vs ret =
     (setSlot (slotIndex q pos) (putNo_update (\<lambda>n. n + capaciity q)) q, fillFrom (pos + 1) (tl vs) ret, Published)"

fun drainStep :: "'v EsQueue \<Rightarrow> 'v dPhase \<Rightarrow> 32 word \<Rightarrow> nat \<Rightarrow> 32 word \<times> 32 word \<Rightarrow> 'v EsQueue \<times> 'v pc \<times> 'v event" where
  "drainStep q DSpin pos k ret = (q, Draining (DSeen (getNo (cache q ! slotIndex q pos))) pos k ret, Tau)"
| "drainStep q (DSeen gn) pos k ret =
     (let pn = putNo (cache q ! slotIndex q pos)
      in (q, Draining (if pos = gn \<and> gn = pn - capaciity q then DRead else DSpin) pos k ret, Tau))"
| "drainStep q DRead pos k ret = (q, Draining (DClear (slotValue (cache q ! slotIndex q pos))) pos k ret, Tau)"
| "drainStep q (DClear v) pos k ret = (setSlot (slotIndex q pos) (slotValue_update (\<lambda>_. None)) q, Draining (DRelease v) pos k ret, Tau)"
| "drainStep q (DRelease v) pos k ret =
     (setSlot (slotIndex q pos) (getNo_update (\<lambda>n. n + capaciity q)) q, drainFrom (pos + 1) (k - 1) ret, Delivered v)"

fun threadStep :: "'v EsQueue \<Rightarrow> 'v pc \<Rightarrow> 'v EsQueue \<times> 'v pc \<times> 'v event" where
  "threadStep q Idle = (q, Idle, Tau)"
| "threadStep q (Start req) = (q, Loaded req (if isPut req then getPos q else putPos q), Tau)"
| "threadStep q (Loaded req w) = (q, if isPut req then Claim req w (putPos q) else Claim req (getPos q) w, Tau)"
| "threadStep q (Claim req gp pp) = (if isPut req then claimPut q req gp pp else claimGet q req gp pp)"
| "threadStep q (Filling ph pos vs ret) = fillStep q ph pos vs ret"
| "threadStep q (Draining ph pos k ret) = drainStep q ph pos k ret"
| "threadStep q (Returning ret) = (q, Idle, Returned ret)"

subsection \<open>Any number of goroutines\<close>

text \<open>
  A system has the queue, its goroutines, and a history that the code does not have: the values in the order in
  which their positions were claimed, the number of positions claimed for reading, and for each value handed out
  the rank of its claim. Next to its program counter a goroutine has the rank of the position it works on.
\<close>

record 'v sys =
  queue :: "'v EsQueue"
  threads :: "('v pc \<times> nat) list"
  accepted :: "'v list"
  claimed :: nat
  delivered :: "(nat \<times> 'v option) list"

fun record_event :: "'v event \<Rightarrow> nat \<Rightarrow> 'v sys \<Rightarrow> 'v sys \<times> nat" where
  "record_event (Accepted vs) r s = (s\<lparr>accepted := accepted s @ vs\<rparr>, length (accepted s))"
| "record_event (Claimed k) r s = (s\<lparr>claimed := claimed s + k\<rparr>, claimed s)"
| "record_event Published r s = (s, r + 1)"
| "record_event (Delivered v) r s = (s\<lparr>delivered := delivered s @ [(r, v)]\<rparr>, r + 1)"
| "record_event _ r s = (s, r)"

text \<open>An element of a schedule names a goroutine and the operation it begins if it is idle.\<close>

definition sysStep :: "'v sys \<Rightarrow> nat \<times> 'v request \<Rightarrow> 'v sys" where
  "sysStep s = (\<lambda>(i, req).
     if i < length (threads s) then
       (case threads s ! i of (pc, r) \<Rightarrow>
          if pc = Idle then s\<lparr>threads := (threads s)[i := (Start req, r)]\<rparr>
          else (case threadStep (queue s) pc of (q, pc', e) \<Rightarrow>
                  (case record_event e r s of (s, r') \<Rightarrow> s\<lparr>queue := q, threads := (threads s)[i := (pc', r')]\<rparr>)))
     else s)"

definition initially :: "'v EsQueue \<Rightarrow> nat \<Rightarrow> 'v sys" where
  "initially q n = \<lparr>queue = q, threads = replicate n (Idle, 0), accepted = [], claimed = 0, delivered = []\<rparr>"

definition sysRun :: "'v EsQueue \<Rightarrow> nat \<Rightarrow> (nat \<times> 'v request) list \<Rightarrow> 'v sys" where
  "sysRun q n sched = foldl sysStep (initially q n) sched"

subsection \<open>The capacity\<close>

definition smear :: "32 word \<Rightarrow> 32 word" where
  "smear v = (let v = v OR drop_bit 1 v; v = v OR drop_bit 2 v; v = v OR drop_bit 4 v; v = v OR drop_bit 8 v in v OR drop_bit 16 v)"

lemma minQuantity_smear: "minQuantity v = smear (v - 1) + 1"
  by (simp add: minQuantity_def smear_def Let_def)

lemma bit_smear: "bit (smear v) i \<longleftrightarrow> (\<exists>k < 32. bit v (i + k))"
proof -
  have step: "(\<exists>k < 2 * n. P (i + k)) \<longleftrightarrow> (\<exists>k < n. P (i + k)) \<or> (\<exists>k < n. P (i + n + k))" for P :: "nat \<Rightarrow> bool" and n i
  proof
    assume "\<exists>k < 2 * n. P (i + k)"
    then obtain k where k: "k < 2 * n" "P (i + k)" by blast
    show "(\<exists>k < n. P (i + k)) \<or> (\<exists>k < n. P (i + n + k))"
    proof (cases "k < n")
      case False
      then have "k - n < n" "P (i + n + (k - n))" using k by auto
      then show ?thesis by blast
    qed (use k in blast)
  next
    assume "(\<exists>k < n. P (i + k)) \<or> (\<exists>k < n. P (i + n + k))"
    then obtain k where "k < n" "P (i + k) \<or> P (i + (n + k))" by (metis add.assoc)
    then have "k < 2 * n \<and> n + k < 2 * n \<and> (P (i + k) \<or> P (i + (n + k)))" by simp
    then show "\<exists>k < 2 * n. P (i + k)" by blast
  qed
  have widen: "bit (w OR drop_bit n w) i \<longleftrightarrow> (\<exists>k < 2 * n. bit v (i + k))"
    if "\<And>i. bit w i \<longleftrightarrow> (\<exists>k < n. bit v (i + k))" for w :: "32 word" and n i
    unfolding step using that by (simp add: bit_or_iff bit_drop_bit_eq add.commute)
  let ?a = "v OR drop_bit 1 v" let ?b = "?a OR drop_bit 2 ?a" let ?c = "?b OR drop_bit 4 ?b" let ?d = "?c OR drop_bit 8 ?c"
  have "bit ?a i \<longleftrightarrow> (\<exists>k < 2 * 1. bit v (i + k))" for i by (rule widen) simp
  then have "bit ?b i \<longleftrightarrow> (\<exists>k < 2 * 2. bit v (i + k))" for i by (intro widen) simp
  then have "bit ?c i \<longleftrightarrow> (\<exists>k < 2 * 4. bit v (i + k))" for i by (intro widen) simp
  then have "bit ?d i \<longleftrightarrow> (\<exists>k < 2 * 8. bit v (i + k))" for i by (intro widen) simp
  then have "bit (?d OR drop_bit 16 ?d) i \<longleftrightarrow> (\<exists>k < 2 * 16. bit v (i + k))" for i by (intro widen) simp
  then show ?thesis by (simp add: smear_def Let_def)
qed

text \<open>\<open>minQuantity\<close> rounds up to a power of two, and to zero if there is none in 32 bits.\<close>

lemma minQuantity_power:
  assumes "v \<noteq> 0"
  shows "\<exists>m \<le> 32. minQuantity v = 2 ^ m \<and> unat v \<le> 2 ^ m \<and> 2 ^ m < 2 * unat v"
proof (cases "v = 1")
  case True
  then show ?thesis by (intro exI [of _ 0]) (simp add: minQuantity_def)
next
  case False
  let ?w = "v - 1" let ?S = "{j. bit ?w j}"
  have fin: "finite ?S" by (rule finite_subset [of _ "{..<32}"]) (auto dest: bit_imp_le_length)
  have "?w \<noteq> 0" using False by simp
  then have "?S \<noteq> {}" by (auto simp: bit_eq_iff)
  define m where "m = Max ?S"
  have m: "bit ?w m" "\<And>j. bit ?w j \<Longrightarrow> j \<le> m" using Max_in [OF fin \<open>?S \<noteq> {}\<close>] Max_ge [OF fin] by (auto simp: m_def)
  have "m < 32" using bit_imp_le_length [OF m(1)] by simp
  have "smear ?w = mask (Suc m)"
  proof (rule bit_eqI)
    fix i
    have "(\<exists>k < 32. bit ?w (i + k)) \<longleftrightarrow> i \<le> m"
    proof
      assume "i \<le> m"
      then show "\<exists>k < 32. bit ?w (i + k)" using m(1) \<open>m < 32\<close> by (intro exI [of _ "m - i"]) auto
    qed (use m(2) in fastforce)
    then show "bit (smear ?w) i = bit (mask (Suc m) :: 32 word) i" using \<open>m < 32\<close> by (auto simp: bit_smear bit_mask_iff)
  qed
  then have "minQuantity v = 2 ^ Suc m" by (simp add: minQuantity_smear mask_eq_exp_minus_1)
  moreover have "unat ?w < 2 ^ Suc m"
  proof -
    have "take_bit (Suc m) ?w = ?w" by (rule bit_eqI) (auto simp: bit_take_bit_iff dest: m(2))
    then have "take_bit (Suc m) (unat ?w) = unat ?w" by (metis unsigned_take_bit_eq)
    then show ?thesis by (metis take_bit_nat_less_exp)
  qed
  moreover have "2 ^ m \<le> unat ?w"
  proof -
    have "odd (unat ?w div 2 ^ m)" using m(1) \<open>m < 32\<close> by (simp add: bit_unsigned_iff flip: bit_iff_odd)
    then have "unat ?w div 2 ^ m \<noteq> 0" by (metis even_zero)
    then show ?thesis by (metis div_less not_le)
  qed
  moreover have "unat v = unat ?w + 1" using assms by (metis add_diff_cancel_right' diff_add_cancel unat_minus_one Suc_eq_plus1 Suc_pred unat_gt_0)
  ultimately show ?thesis using \<open>m < 32\<close> by (intro exI [of _ "Suc m"]) auto
qed


subsection \<open>Tickets\<close>

text \<open>
  The position that is claimed as the \<open>T\<close>-th one is a ticket. \<open>tickets C n pn rs\<close> says of \<open>n\<close> claimed tickets which
  are done, namely those below the number \<open>pn\<close> of their slot, and that the others are held by the
  goroutines, whose shares \<open>rs\<close> are disjoint. It is used for writing and for reading.
\<close>

definition tickets :: "nat \<Rightarrow> nat \<Rightarrow> (nat \<Rightarrow> nat) \<Rightarrow> nat set list \<Rightarrow> bool" where
  "tickets C n pn rs \<longleftrightarrow>
     (\<forall>T \<ge> 1. T \<le> n \<longleftrightarrow> T < pn (T mod C) \<or> T \<in> \<Union> (set rs)) \<and>
     (\<forall>T \<in> \<Union> (set rs). 1 \<le> T \<and> pn (T mod C) \<le> T) \<and>
     (\<forall>i j. i < length rs \<longrightarrow> j < length rs \<longrightarrow> i \<noteq> j \<longrightarrow> rs ! i \<inter> rs ! j = {})"

lemma ticketsD:
  assumes "tickets C n pn rs" "i < length rs" "T \<in> rs ! i"
  shows "1 \<le> T" "T \<le> n" "pn (T mod C) \<le> T"
  using assms nth_mem [of i rs] unfolding tickets_def by blast+

lemma tickets_done: "tickets C n pn rs \<Longrightarrow> 1 \<le> T \<Longrightarrow> T < pn (T mod C) \<Longrightarrow> T \<le> n"
  unfolding tickets_def by blast

lemma tickets_disjoint:
  "tickets C n pn rs \<Longrightarrow> i < length rs \<Longrightarrow> j < length rs \<Longrightarrow> T \<in> rs ! i \<Longrightarrow> T \<in> rs ! j \<Longrightarrow> i = j"
  unfolding tickets_def by blast

lemma Union_update: "i < length rs \<Longrightarrow> \<Union> (set (rs[i := A])) = A \<union> (\<Union>j \<in> {..<length rs} - {i}. rs ! j)"
  by (auto simp: set_conv_nth nth_list_update split: if_splits)

lemma Union_split: "i < length rs \<Longrightarrow> \<Union> (set rs) = rs ! i \<union> (\<Union>j \<in> {..<length rs} - {i}. rs ! j)"
  using Union_update [of i rs "rs ! i"] by simp

lemma tickets_claim:
  assumes "tickets C n pn rs" "i < length rs" "rs ! i = {}"
  shows "tickets C (n + k) pn (rs[i := {n + 1..n + k}])"
proof -
  have rest: "(\<Union>j \<in> {..<length rs} - {i}. rs ! j) = \<Union> (set rs)" using Union_split [OF assms(2)] assms(3) by simp
  have new: "pn (T mod C) \<le> T" if "T \<in> {n + 1..n + k}" for T
  proof -
    have "1 \<le> T" "\<not> T \<le> n" using that by auto
    then show ?thesis using assms(1) unfolding tickets_def by (metis leI)
  qed
  have small: "rs ! j \<inter> {n + 1..n + k} = {}" if "j < length rs" for j
    using ticketsD(2) [OF assms(1) that] by fastforce
  have "T \<le> n + k \<longleftrightarrow> T < pn (T mod C) \<or> T \<in> {n + 1..n + k} \<union> \<Union> (set rs)" if "T \<ge> 1" for T
  proof -
    have "T \<le> n \<longleftrightarrow> T < pn (T mod C) \<or> T \<in> \<Union> (set rs)" using assms(1) that unfolding tickets_def by blast
    then show ?thesis by auto
  qed
  moreover have "1 \<le> T \<and> pn (T mod C) \<le> T" if "T \<in> {n + 1..n + k} \<union> \<Union> (set rs)" for T
    using that new assms(1) unfolding tickets_def by auto
  moreover have "rs[i := {n + 1..n + k}] ! a \<inter> rs[i := {n + 1..n + k}] ! b = {}"
    if "a < length rs" "b < length rs" "a \<noteq> b" for a b
  proof -
    have "rs ! a \<inter> rs ! b = {}" using assms(1) that unfolding tickets_def by blast
    then show ?thesis using small [OF that(1)] small [OF that(2)] that assms(2) by (simp add: nth_list_update Int_commute)
  qed
  ultimately show ?thesis unfolding tickets_def Union_update [OF assms(2)] rest by simp
qed

lemma congruent_between:
  assumes "T mod C = T' mod C" "T \<le> T'" "T' < T + C"
  shows "T' = (T :: nat)"
proof -
  have "(T' - T) mod C = 0" using assms(1,2) by (metis mod_eq_dvd_iff_nat dvd_imp_mod_0)
  moreover have "T' - T < C" using assms(2,3) by linarith
  ultimately show ?thesis using assms(2) by simp
qed

lemma below_advance:
  assumes "pn (T mod C) = T" "0 < C"
  shows "T' < (pn(T mod C := T + C)) (T' mod C) \<longleftrightarrow> T' < pn (T' mod C) \<or> T' = (T :: nat)"
proof (cases "T' mod C = T mod C")
  case True
  then have "T' < T + C \<longleftrightarrow> T' < T \<or> T' = T" using congruent_between [of T C T'] assms(2) by fastforce
  with True assms(1) show ?thesis by simp
next
  case False
  then have "T' \<noteq> T" by blast
  with False show ?thesis by simp
qed

lemma tickets_advance:
  assumes "tickets C n pn rs" "i < length rs" "T \<in> rs ! i" "pn (T mod C) = T" "0 < C"
  shows "tickets C n (pn(T mod C := T + C)) (rs[i := rs ! i - {T}])"
proof -
  let ?pn = "pn(T mod C := T + C)" let ?U = "\<Union>j \<in> {..<length rs} - {i}. rs ! j"
  have all: "\<Union> (set rs) = rs ! i \<union> ?U" by (rule Union_split [OF assms(2)])
  have notin: "T \<notin> ?U" using tickets_disjoint [OF assms(1,2) _ assms(3)] by blast
  have below: "T' < ?pn (T' mod C) \<longleftrightarrow> T' < pn (T' mod C) \<or> T' = T" for T' by (rule below_advance [of pn T C, OF assms(4,5)])
  have held: "1 \<le> T' \<and> ?pn (T' mod C) \<le> T'" if "T' \<in> (rs ! i - {T}) \<union> ?U" for T'
  proof -
    have "1 \<le> T'" "pn (T' mod C) \<le> T'" "T' \<noteq> T" using that all notin assms(1) unfolding tickets_def by auto
    then show ?thesis using below [of T'] by (auto simp: not_less [symmetric])
  qed
  have "T' \<le> n \<longleftrightarrow> T' < ?pn (T' mod C) \<or> T' \<in> (rs ! i - {T}) \<union> ?U" if "T' \<ge> 1" for T'
  proof -
    have "T' \<le> n \<longleftrightarrow> T' < pn (T' mod C) \<or> T' \<in> rs ! i \<union> ?U" using assms(1) that unfolding tickets_def all by blast
    then show ?thesis unfolding below using assms(3) by auto
  qed
  moreover have "rs[i := rs ! i - {T}] ! a \<inter> rs[i := rs ! i - {T}] ! b = {}" if "a < length rs" "b < length rs" "a \<noteq> b" for a b
  proof -
    have "rs[i := rs ! i - {T}] ! a \<subseteq> rs ! a" "rs[i := rs ! i - {T}] ! b \<subseteq> rs ! b" using that assms(2) by (auto simp: nth_list_update)
    moreover have "rs ! a \<inter> rs ! b = {}" using assms(1) that unfolding tickets_def by blast
    ultimately show ?thesis by blast
  qed
  ultimately show ?thesis using held unfolding tickets_def Union_update [OF assms(2)] by simp
qed

text \<open>The numbers of a slot lag behind a ticket by at most the number of tickets held.\<close>

lemma tickets_bound:
  assumes "tickets C n pn rs" "i < length rs" "T \<in> rs ! i" "pn (T mod C) mod C = T mod C" "1 \<le> pn (T mod C)" "0 < C"
    and "\<forall>A \<in> set rs. finite A \<and> card A \<le> M"
  shows "T + C \<le> pn (T mod C) + length rs * M * C"
proof -
  let ?p = "pn (T mod C)"
  have p: "?p \<le> T" "T \<le> n" using ticketsD [OF assms(1-3)] by auto
  define d where "d = (T - ?p) div C"
  have T: "T = ?p + d * C"
  proof -
    have "(T - ?p) mod C = 0" using assms(4) p(1) by (metis mod_eq_dvd_iff_nat dvd_imp_mod_0)
    then show ?thesis using p(1) by (metis d_def add.commute div_mult_mod_eq le_add_diff_inverse2 add.right_neutral)
  qed
  let ?A = "(\<lambda>j. ?p + j * C) ` {..d}"
  have "?A \<subseteq> \<Union> (set rs)"
  proof
    fix x assume "x \<in> ?A"
    then obtain j where j: "x = ?p + j * C" "j \<le> d" by blast
    have "j * C \<le> d * C" using j(2) by simp
    then have "x \<le> n" "1 \<le> x" using j(1) T p(2) assms(5) by linarith+
    moreover have "x mod C = T mod C" using j(1) assms(4) by simp
    ultimately show "x \<in> \<Union> (set rs)" using assms(1) j(1) unfolding tickets_def by (metis le_add1 not_less)
  qed
  moreover have fin: "finite (\<Union> (set rs))" using assms(7) by blast
  ultimately have "card ?A \<le> card (\<Union> (set rs))" by (rule card_mono [rotated])
  also have "card (\<Union> (set rs)) \<le> sum card (set rs)" using assms(7) by (intro card_Union_le_sum_card)
  also have "sum card (set rs) \<le> (\<Sum>A \<in> set rs. M)" using assms(7) by (intro sum_mono) blast
  also have "\<dots> \<le> length rs * M" by (simp add: card_length)
  finally have "card ?A \<le> length rs * M" .
  moreover have "card ?A = d + 1" using assms(6) by (subst card_image) (auto simp: inj_on_def)
  ultimately have "(d + 1) * C \<le> length rs * M * C" by (intro mult_le_mono1) simp
  then show ?thesis using T by (simp add: algebra_simps)
qed

end
