(* ===== verification/LockFreeTickets.thy ===== *)
theory LockFreeTickets
  imports LockFree
begin

text \<open>
  What the lock-free queue guarantees and what it does not. An invariant relates the words of the queue to natural
  numbers: which tickets are done, who holds the others, and what the slots contain. One lemma per kind of step shows
  that it is kept. It gives the ticket theorem: the goroutine that claims the \<open>k\<close>-th position for reading receives
  the value of the one that claimed the \<open>k\<close>-th position for writing, in every schedule and over any number of
  wrap-arounds of the counters. The last theorem is about progress, of which the queue has none in
  a state that two goroutines can bring about.
\<close>

subsection \<open>The invariant\<close>

text \<open>
  \<open>C\<close> is the capacity; \<open>pn i\<close> and \<open>gn i\<close> are the numbers of slot \<open>i\<close> as natural numbers, which the words count
  modulo \<open>2\<^sup>3\<^sup>2\<close>.
\<close>

fun putRange :: "'v pc \<times> nat \<Rightarrow> nat set" where
  "putRange (Filling ph pos vs ret, r) = {r + 1..r + length vs}"
| "putRange _ = {}"

fun getRange :: "'v pc \<times> nat \<Rightarrow> nat set" where
  "getRange (Draining ph pos k ret, r) = {r + 1..r + k}"
| "getRange _ = {}"

definition seenOk :: "(nat \<Rightarrow> nat) \<Rightarrow> nat \<Rightarrow> nat \<Rightarrow> 32 word \<Rightarrow> bool" where
  "seenOk gn C T g \<longleftrightarrow> (\<exists>g'. g = of_nat g' \<and> g' \<le> gn (T mod C) \<and> T < g' + 2 ^ 32)"

fun fillOk :: "nat \<Rightarrow> (nat \<Rightarrow> nat) \<Rightarrow> (nat \<Rightarrow> nat) \<Rightarrow> 'v esCache list \<Rightarrow> fPhase \<Rightarrow> 'v list \<Rightarrow> nat \<Rightarrow> bool" where
  "fillOk C pn gn cs FSpin vs T = True"
| "fillOk C pn gn cs (FSeen g) vs T = seenOk gn C T g"
| "fillOk C pn gn cs FWrite vs T = (pn (T mod C) = T \<and> gn (T mod C) = T)"
| "fillOk C pn gn cs FPublish vs T = (pn (T mod C) = T \<and> gn (T mod C) = T \<and> slotValue (cs ! (T mod C)) = Some (hd vs))"

fun drainOk :: "nat \<Rightarrow> (nat \<Rightarrow> nat) \<Rightarrow> (nat \<Rightarrow> nat) \<Rightarrow> 'v list \<Rightarrow> 'v dPhase \<Rightarrow> nat \<Rightarrow> bool" where
  "drainOk C pn gn acc DSpin T = True"
| "drainOk C pn gn acc (DSeen g) T = seenOk gn C T g"
| "drainOk C pn gn acc DRead T = (gn (T mod C) = T \<and> pn (T mod C) = T + C)"
| "drainOk C pn gn acc (DClear v) T = (gn (T mod C) = T \<and> pn (T mod C) = T + C \<and> v = Some (acc ! (T - 1)))"
| "drainOk C pn gn acc (DRelease v) T = (gn (T mod C) = T \<and> pn (T mod C) = T + C \<and> v = Some (acc ! (T - 1)))"

fun reqSize :: "'v request \<Rightarrow> nat" where
  "reqSize (Puts vs) = length vs"
| "reqSize (Gets n) = n"
| "reqSize _ = 1"

fun threadOk :: "nat \<Rightarrow> nat \<Rightarrow> (nat \<Rightarrow> nat) \<Rightarrow> (nat \<Rightarrow> nat) \<Rightarrow> 'v esCache list \<Rightarrow> 'v list \<Rightarrow> 'v pc \<times> nat \<Rightarrow> bool" where
  "threadOk C M pn gn cs acc (Filling ph pos vs ret, r) =
     (vs \<noteq> [] \<and> length vs \<le> M \<and> pos = of_nat (r + 1) \<and> r + length vs \<le> length acc \<and> take (length vs) (drop r acc) = vs \<and>
      fillOk C pn gn cs ph vs (r + 1))"
| "threadOk C M pn gn cs acc (Draining ph pos k ret, r) =
     (0 < k \<and> k \<le> M \<and> pos = of_nat (r + 1) \<and> drainOk C pn gn acc ph (r + 1))"
| "threadOk C M pn gn cs acc (Start req, r) = (reqSize req \<le> M)"
| "threadOk C M pn gn cs acc (Loaded req w, r) = (reqSize req \<le> M)"
| "threadOk C M pn gn cs acc (Claim req g p, r) = (reqSize req \<le> M)"
| "threadOk C M pn gn cs acc _ = True"

fun releasing :: "nat \<Rightarrow> 'v pc \<times> nat \<Rightarrow> bool" where
  "releasing T (Draining (DRelease v) pos k ret, r) = (r + 1 = T)"
| "releasing T _ = False"

definition queueOk :: "nat \<Rightarrow> (nat \<Rightarrow> nat) \<Rightarrow> (nat \<Rightarrow> nat) \<Rightarrow> 'v EsQueue \<Rightarrow> nat \<Rightarrow> nat \<Rightarrow> bool" where
  "queueOk C pn gn q n c \<longleftrightarrow>
     (\<exists>m < 32. C = 2 ^ m) \<and> capaciity q = of_nat C \<and> capMod q = of_nat C - 1 \<and> putPos q = of_nat n \<and> getPos q = of_nat c \<and>
     length (cache q) = C \<and> (\<forall>i < C. putNo (cache q ! i) = of_nat (pn i) \<and> getNo (cache q ! i) = of_nat (gn i)) \<and>
     (\<forall>i < C. 1 \<le> gn i \<and> gn i mod C = i \<and> (pn i = gn i \<or> pn i = gn i + C))"

definition sysInv :: "nat \<Rightarrow> nat \<Rightarrow> (nat \<Rightarrow> nat) \<Rightarrow> (nat \<Rightarrow> nat) \<Rightarrow> 'v sys \<Rightarrow> bool" where
  "sysInv C M pn gn s \<longleftrightarrow>
     queueOk C pn gn (queue s) (length (accepted s)) (claimed s) \<and> 1 \<le> M \<and> length (threads s) * M * C < 2 ^ 32 \<and>
     tickets C (length (accepted s)) pn (map putRange (threads s)) \<and> tickets C (claimed s) gn (map getRange (threads s)) \<and>
     (\<forall>th \<in> set (threads s). threadOk C M pn gn (cache (queue s)) (accepted s) th) \<and>
     (\<forall>i < C. pn i = gn i + C \<longrightarrow> slotValue (cache (queue s) ! i) = Some (accepted s ! (gn i - 1)) \<or> (\<exists>th \<in> set (threads s). releasing (gn i) th)) \<and>
     distinct (map fst (delivered s)) \<and> (\<forall>k. k \<in> fst ` set (delivered s) \<longleftrightarrow> k + 1 < gn ((k + 1) mod C)) \<and>
     (\<forall>(k, v) \<in> set (delivered s). v = Some (accepted s ! k))"

lemma slotIndex_of_nat:
  assumes "queueOk C pn gn q n c"
  shows "slotIndex q (of_nat T) = T mod C" "0 < C" "T mod C < C" "C < 2 ^ 32"
proof -
  obtain m where m: "m < 32" "C = 2 ^ m" "capMod q = of_nat C - 1" using assms by (auto simp: queueOk_def)
  then have "(of_nat T :: 32 word) AND capMod q = take_bit m (of_nat T)" by (simp add: take_bit_eq_mask mask_eq_exp_minus_1)
  then show "slotIndex q (of_nat T) = T mod C" using m
    by (simp add: slotIndex_def unsigned_take_bit_eq unsigned_of_nat take_bit_eq_mod mod_mod_cancel le_imp_power_dvd min_def flip: take_bit_eq_mod)
  show "0 < C" "T mod C < C" using m by simp_all
  show "C < 2 ^ 32" unfolding m(2) using m(1) by (intro power_strict_increasing) simp_all
qed

lemma of_nat_inj_near: "of_nat a = (of_nat b :: 32 word) \<Longrightarrow> a \<le> b \<Longrightarrow> b < a + 2 ^ 32 \<Longrightarrow> a = b"
  using congruent_between [of a "2 ^ 32" b] by (simp add: word_of_nat_eq_iff take_bit_eq_mod)

lemma sysInvD:
  assumes "sysInv C M pn gn s"
  shows "queueOk C pn gn (queue s) (length (accepted s)) (claimed s)" "1 \<le> M" "length (threads s) * M * C < 2 ^ 32"
    "tickets C (length (accepted s)) pn (map putRange (threads s))" "tickets C (claimed s) gn (map getRange (threads s))"
    "i < length (threads s) \<Longrightarrow> threadOk C M pn gn (cache (queue s)) (accepted s) (threads s ! i)"
    "j < C \<Longrightarrow> pn j = gn j + C \<Longrightarrow> slotValue (cache (queue s) ! j) = Some (accepted s ! (gn j - 1)) \<or> (\<exists>th \<in> set (threads s). releasing (gn j) th)"
    "distinct (map fst (delivered s))" "k \<in> fst ` set (delivered s) \<longleftrightarrow> k + 1 < gn ((k + 1) mod C)"
    "(k, v) \<in> set (delivered s) \<Longrightarrow> v = Some (accepted s ! k)"
  using assms nth_mem unfolding sysInv_def by blast+

lemma sysInvI:
  assumes "queueOk C pn gn (queue s) (length (accepted s)) (claimed s)" "1 \<le> M" "length (threads s) * M * C < 2 ^ 32"
    "tickets C (length (accepted s)) pn (map putRange (threads s))" "tickets C (claimed s) gn (map getRange (threads s))"
    "\<And>i. i < length (threads s) \<Longrightarrow> threadOk C M pn gn (cache (queue s)) (accepted s) (threads s ! i)"
    "\<And>j. j < C \<Longrightarrow> pn j = gn j + C \<Longrightarrow> slotValue (cache (queue s) ! j) = Some (accepted s ! (gn j - 1)) \<or> (\<exists>th \<in> set (threads s). releasing (gn j) th)"
    "distinct (map fst (delivered s))" "\<And>k. k \<in> fst ` set (delivered s) \<longleftrightarrow> k + 1 < gn ((k + 1) mod C)"
    "\<And>k v. (k, v) \<in> set (delivered s) \<Longrightarrow> v = Some (accepted s ! k)"
  shows "sysInv C M pn gn s"
proof -
  have "\<forall>th \<in> set (threads s). threadOk C M pn gn (cache (queue s)) (accepted s) th" using assms(6) by (metis in_set_conv_nth)
  moreover have "\<forall>(k, v) \<in> set (delivered s). v = Some (accepted s ! k)" using assms(10) by blast
  ultimately show ?thesis unfolding sysInv_def using assms(1-5,7-9) by blast
qed

lemma queueOk_slot:
  assumes "queueOk C pn gn q n c" "i < C"
  shows "putNo (cache q ! i) = of_nat (pn i)" "getNo (cache q ! i) = of_nat (gn i)" "1 \<le> gn i" "gn i mod C = i" "pn i mod C = i"
    "pn i = gn i \<or> pn i = gn i + C"
proof -
  show "putNo (cache q ! i) = of_nat (pn i)" "getNo (cache q ! i) = of_nat (gn i)" "1 \<le> gn i" "gn i mod C = i"
    "pn i = gn i \<or> pn i = gn i + C" using assms unfolding queueOk_def by blast+
  then show "pn i mod C = i" by auto
qed

lemma range_small:
  assumes "threadOk C M pn gn cs acc th"
  shows "finite (putRange th) \<and> card (putRange th) \<le> M" "finite (getRange th) \<and> card (getRange th) \<le> M"
  using assms by (cases th; cases "fst th"; simp)+

lemma range_hd:
  "threadOk C M pn gn cs acc (Filling ph pos vs ret, r) \<Longrightarrow> r + 1 \<in> putRange (Filling ph pos vs ret, r)"
  "threadOk C M pn gn cs acc (Draining ph' pos k ret, r) \<Longrightarrow> r + 1 \<in> getRange (Draining ph' pos k ret :: 'v pc, r)"
  by (cases vs) auto

text \<open>What a waiting goroutine sees of its slot is less than \<open>2\<^sup>3\<^sup>2\<close> behind its ticket.\<close>

lemma inv_bound:
  assumes "sysInv C M pn gn s" "i < length (threads s)" "T \<in> putRange (threads s ! i) \<or> T \<in> getRange (threads s ! i)"
  shows "T < gn (T mod C) + 2 ^ 32"
proof -
  note q = sysInvD(1) [OF assms(1)]
  note C = slotIndex_of_nat(2) [OF q] slotIndex_of_nat(3) [OF q, of T] note slot = queueOk_slot [OF q C(2)]
  have small: "\<forall>A \<in> set (map putRange (threads s)). finite A \<and> card A \<le> M" "\<forall>A \<in> set (map getRange (threads s)). finite A \<and> card A \<le> M"
    unfolding all_set_conv_all_nth using range_small [OF sysInvD(6) [OF assms(1)]] by simp_all
  from assms(3) show ?thesis
  proof
    assume "T \<in> putRange (threads s ! i)"
    then have "T + C \<le> pn (T mod C) + length (map putRange (threads s)) * M * C"
      using slot(3,6) assms(2) by (intro tickets_bound [OF sysInvD(4) [OF assms(1)] _ _ slot(5) _ C(1) small(1), of i]) auto
    then show ?thesis using slot(6) sysInvD(3) [OF assms(1)] unfolding length_map by linarith
  next
    assume "T \<in> getRange (threads s ! i)"
    then have "T + C \<le> gn (T mod C) + length (map getRange (threads s)) * M * C"
      using assms(2) by (intro tickets_bound [OF sysInvD(5) [OF assms(1)] _ _ slot(4,3) C(1) small(2), of i]) auto
    then show ?thesis using sysInvD(3) [OF assms(1)] C(1) unfolding length_map by linarith
  qed
qed

lemma same_ticket:
  assumes "sysInv C M pn gn s" "i < length (threads s)" "j < length (threads s)"
  shows "T \<in> putRange (threads s ! i) \<Longrightarrow> T \<in> putRange (threads s ! j) \<Longrightarrow> i = j"
    "T \<in> getRange (threads s ! i) \<Longrightarrow> T \<in> getRange (threads s ! j) \<Longrightarrow> i = j"
  using tickets_disjoint [OF sysInvD(4) [OF assms(1)], of i j T] tickets_disjoint [OF sysInvD(5) [OF assms(1)], of i j T] assms(2,3) by auto

lemma releasing_update:
  assumes "i < length (threads s)" "\<And>T. releasing T (threads s ! i) \<Longrightarrow> releasing T th'" "\<exists>th \<in> set (threads s). releasing T th"
  shows "\<exists>th \<in> set ((threads s)[i := th']). releasing T th"
proof -
  from assms(3) obtain j where j: "j < length (threads s)" "releasing T (threads s ! j)" by (auto simp: in_set_conv_nth)
  have "releasing T ((threads s)[i := th'] ! j)" using j assms by (cases "j = i") auto
  then show ?thesis using j(1) by (metis length_list_update nth_mem)
qed

text \<open>A step that changes only the local variables of a goroutine.\<close>

lemma inv_local:
  assumes inv: "sysInv C M pn gn s" and i: "i < length (threads s)" "threads s ! i = th"
    and same: "putRange th' = putRange th" "getRange th' = getRange th" "\<And>T. releasing T th \<Longrightarrow> releasing T th'"
    and ok: "threadOk C M pn gn (cache (queue s)) (accepted s) th'"
  shows "sysInv C M pn gn (s\<lparr>threads := (threads s)[i := th']\<rparr>)"
proof (rule sysInvI)
  let ?s = "s\<lparr>threads := (threads s)[i := th']\<rparr>"
  have maps: "map putRange (threads ?s) = map putRange (threads s)" "map getRange (threads ?s) = map getRange (threads s)"
    using i same by (simp_all add: map_update list_update_same_conv)
  show "tickets C (length (accepted ?s)) pn (map putRange (threads ?s))" "tickets C (claimed ?s) gn (map getRange (threads ?s))"
    unfolding maps using sysInvD(4,5) [OF inv] by simp_all
  show "threadOk C M pn gn (cache (queue ?s)) (accepted ?s) (threads ?s ! j)" if "j < length (threads ?s)" for j
    using that ok sysInvD(6) [OF inv, of j] by (simp add: nth_list_update i(1))
  show "slotValue (cache (queue ?s) ! j) = Some (accepted ?s ! (gn j - 1)) \<or> (\<exists>th \<in> set (threads ?s). releasing (gn j) th)"
    if "j < C" "pn j = gn j + C" for j
    using sysInvD(7) [OF inv that] releasing_update [of i s th', OF i(1)] same(3) i(2) by auto
qed (use sysInvD(1-3,8-10) [OF inv] in simp_all)

text \<open>A step that writes the value of a slot.\<close>

fun publishing :: "'v pc \<times> nat \<Rightarrow> nat set" where
  "publishing (Filling FPublish pos vs ret, r) = {r + 1}"
| "publishing _ = {}"

lemma threadOk_cache:
  assumes "threadOk C M pn gn cs acc th" "\<And>T. T \<in> publishing th \<Longrightarrow> slotValue (cs' ! (T mod C)) = slotValue (cs ! (T mod C))"
  shows "threadOk C M pn gn cs' acc th"
  using assms
proof (cases th)
  case (Pair pc r)
  then show ?thesis using assms
  proof (cases pc)
    case (Filling ph pos vs ret)
    then show ?thesis using assms Pair by (cases ph) auto
  qed auto
qed

lemma inv_value:
  assumes inv: "sysInv C M pn gn s" and i: "i < length (threads s)" "threads s ! i = th"
    and same: "putRange th' = putRange th" "getRange th' = getRange th" "\<And>T. \<not> releasing T th"
    and l: "l < C" "\<And>j T. j < length (threads s) \<Longrightarrow> j \<noteq> i \<Longrightarrow> T \<in> publishing (threads s ! j) \<Longrightarrow> T mod C \<noteq> l"
    and full: "pn l = gn l + C \<Longrightarrow> releasing (gn l) th'"
    and q': "q' = setSlot l (slotValue_update (\<lambda>_. v)) (queue s)" and ok: "threadOk C M pn gn (cache q') (accepted s) th'"
  shows "sysInv C M pn gn (s\<lparr>queue := q', threads := (threads s)[i := th']\<rparr>)"
proof (rule sysInvI)
  let ?s = "s\<lparr>queue := q', threads := (threads s)[i := th']\<rparr>"
  note q = sysInvD(1) [OF inv]
  have len: "length (cache (queue s)) = C" using q by (simp add: queueOk_def)
  have slots: "cache q' ! j = (if j = l then (cache (queue s) ! l)\<lparr>slotValue := v\<rparr> else cache (queue s) ! j)" for j
    using l(1) len by (simp add: q' setSlot_def nth_list_update)
  then show "queueOk C pn gn (queue ?s) (length (accepted ?s)) (claimed ?s)"
    using q by (simp add: queueOk_def q' setSlot_def nth_list_update)
  have maps: "map putRange (threads ?s) = map putRange (threads s)" "map getRange (threads ?s) = map getRange (threads s)"
    using i same by (simp_all add: map_update list_update_same_conv)
  show "tickets C (length (accepted ?s)) pn (map putRange (threads ?s))" "tickets C (claimed ?s) gn (map getRange (threads ?s))"
    unfolding maps using sysInvD(4,5) [OF inv] by simp_all
  show "threadOk C M pn gn (cache (queue ?s)) (accepted ?s) (threads ?s ! j)" if "j < length (threads ?s)" for j
  proof (cases "j = i")
    case False
    have "threadOk C M pn gn (cache q') (accepted s) (threads s ! j)"
      using threadOk_cache [OF sysInvD(6) [OF inv, of j]] that l(2) [OF _ False] by (simp add: slots)
    with False show ?thesis by simp
  qed (use ok i(1) in simp)
  show "slotValue (cache (queue ?s) ! j) = Some (accepted ?s ! (gn j - 1)) \<or> (\<exists>th \<in> set (threads ?s). releasing (gn j) th)"
    if "j < C" "pn j = gn j + C" for j
  proof (cases "j = l")
    case True
    then have "releasing (gn j) th'" using full that(2) by simp
    moreover have "th' \<in> set (threads ?s)" using set_update_memI [OF i(1), of th'] by simp
    ultimately show ?thesis by blast
  next
    case False
    then show ?thesis using sysInvD(7) [OF inv that] releasing_update [of i s th', OF i(1)] same(3) i(2) by (auto simp: slots)
  qed
qed (use sysInvD(1-3,8-10) [OF inv] in simp_all)

text \<open>The numbers of a slot move on by the capacity.\<close>

lemma queueOk_putNo:
  assumes q: "queueOk C pn gn q n c" and eq: "pn (T mod C) = T" "gn (T mod C) = T"
    and q': "q' = setSlot (slotIndex q (of_nat T)) (putNo_update (\<lambda>n. n + capaciity q)) q"
  shows "queueOk C (pn(T mod C := T + C)) gn q' n c" "slotValue (cache q' ! j) = slotValue (cache q ! j)"
proof -
  let ?l = "T mod C" let ?pn = "pn(?l := T + C)"
  have len: "length (cache q) = C" and cap: "capaciity q = of_nat C" using q by (simp_all add: queueOk_def)
  have slots: "cache q' ! j = (if j = ?l then (cache q ! ?l)\<lparr>putNo := putNo (cache q ! ?l) + of_nat C\<rparr> else cache q ! j)" for j
    using slotIndex_of_nat(3) [OF q, of T] len by (simp add: q' setSlot_def nth_list_update slotIndex_of_nat(1) [OF q] cap)
  then show "slotValue (cache q' ! j) = slotValue (cache q ! j)" by simp
  have "putNo (cache q' ! j) = of_nat (?pn j) \<and> getNo (cache q' ! j) = of_nat (gn j)" if "j < C" for j
    using queueOk_slot(1,2) [OF q that] eq(1) by (cases "j = ?l") (simp_all add: slots)
  moreover have "1 \<le> gn j \<and> gn j mod C = j \<and> (?pn j = gn j \<or> ?pn j = gn j + C)" if "j < C" for j
    using queueOk_slot(3-6) [OF q that] eq(2) by (cases "j = ?l") auto
  moreover have "length (cache q') = C" "capaciity q' = of_nat C" "capMod q' = of_nat C - 1" "putPos q' = of_nat n" "getPos q' = of_nat c"
    "\<exists>m < 32. C = 2 ^ m" using q by (simp_all add: queueOk_def q' setSlot_def)
  ultimately show "queueOk C ?pn gn q' n c" unfolding queueOk_def by blast
qed

lemma queueOk_getNo:
  assumes q: "queueOk C pn gn q n c" and eq: "gn (T mod C) = T" "pn (T mod C) = T + C"
    and q': "q' = setSlot (slotIndex q (of_nat T)) (getNo_update (\<lambda>n. n + capaciity q)) q"
  shows "queueOk C pn (gn(T mod C := T + C)) q' n c" "slotValue (cache q' ! j) = slotValue (cache q ! j)"
proof -
  let ?l = "T mod C" let ?gn = "gn(?l := T + C)"
  have len: "length (cache q) = C" and cap: "capaciity q = of_nat C" using q by (simp_all add: queueOk_def)
  have slots: "cache q' ! j = (if j = ?l then (cache q ! ?l)\<lparr>getNo := getNo (cache q ! ?l) + of_nat C\<rparr> else cache q ! j)" for j
    using slotIndex_of_nat(3) [OF q, of T] len by (simp add: q' setSlot_def nth_list_update slotIndex_of_nat(1) [OF q] cap)
  then show "slotValue (cache q' ! j) = slotValue (cache q ! j)" by simp
  have "putNo (cache q' ! j) = of_nat (pn j) \<and> getNo (cache q' ! j) = of_nat (?gn j)" if "j < C" for j
    using queueOk_slot(1,2) [OF q that] eq(1) by (cases "j = ?l") (simp_all add: slots)
  moreover have "1 \<le> ?gn j \<and> ?gn j mod C = j \<and> (pn j = ?gn j \<or> pn j = ?gn j + C)" if "j < C" for j
    using queueOk_slot(3-6) [OF q that] eq(2) by (cases "j = ?l") auto
  moreover have "length (cache q') = C" "capaciity q' = of_nat C" "capMod q' = of_nat C - 1" "putPos q' = of_nat n" "getPos q' = of_nat c"
    "\<exists>m < 32. C = 2 ^ m" using q by (simp_all add: queueOk_def q' setSlot_def)
  ultimately show "queueOk C pn ?gn q' n c" unfolding queueOk_def by blast
qed

text \<open>The step that publishes a value, and the one that frees a slot.\<close>

lemma publish_others:
  assumes "threadOk C M pn gn cs acc th" "T \<notin> putRange th" "pn (T mod C) = T" "gn (T mod C) = T" "0 < C"
    and "\<And>l. slotValue (cs' ! l) = slotValue (cs ! l)"
  shows "threadOk C M (pn(T mod C := T + C)) gn cs' acc th"
proof -
  obtain pc r where th: "th = (pc, r)" by (cases th)
  show ?thesis
  proof (cases pc)
    case (Filling ph pos vs ret)
    have "r + 1 \<noteq> T" using assms(2) range_hd(1) [OF assms(1) [unfolded th Filling]] unfolding th Filling by blast
    then have "(r + 1) mod C \<noteq> T mod C" if "pn ((r + 1) mod C) = r + 1" using that assms(3) by metis
    then show ?thesis using assms(1) unfolding th Filling by (cases ph) (simp_all add: assms(6) seenOk_def)
  next
    case (Draining ph pos k ret)
    have "(r + 1) mod C \<noteq> T mod C" if "pn ((r + 1) mod C) = r + 1 + C" "gn ((r + 1) mod C) = r + 1" using that assms(3-5) by force
    then show ?thesis using assms(1) unfolding th Draining by (cases ph) (simp_all add: seenOk_def)
  qed (use assms(1) th in auto)
qed

lemma inv_publish:
  assumes inv: "sysInv C M pn gn s" and i: "i < length (threads s)" "threads s ! i = (Filling FPublish pos vs ret, r)"
    and q': "q' = setSlot (slotIndex (queue s) pos) (putNo_update (\<lambda>n. n + capaciity (queue s))) (queue s)"
  shows "sysInv C M (pn((r + 1) mod C := r + 1 + C)) gn (s\<lparr>queue := q', threads := (threads s)[i := (fillFrom (pos + 1) (tl vs) ret, r + 1)]\<rparr>)"
proof (rule sysInvI)
  let ?T = "r + 1" let ?l = "?T mod C" let ?pn = "pn(?l := ?T + C)" let ?th = "(fillFrom (pos + 1) (tl vs) ret, r + 1)"
  let ?s = "s\<lparr>queue := q', threads := (threads s)[i := ?th]\<rparr>"
  note q = sysInvD(1) [OF inv]
  note C = slotIndex_of_nat [OF q]
  have th: "threadOk C M pn gn (cache (queue s)) (accepted s) (Filling FPublish pos vs ret, r)" using sysInvD(6) [OF inv i(1)] i(2) by simp
  then have pos: "pos = of_nat ?T" "vs \<noteq> []" "length vs \<le> M" "r + length vs \<le> length (accepted s)" "take (length vs) (drop r (accepted s)) = vs"
    and eq: "pn ?l = ?T" "gn ?l = ?T" "slotValue (cache (queue s) ! ?l) = Some (hd vs)" by simp_all
  note new = queueOk_putNo [OF q eq(1,2), of q'] note val = new(2) [OF q' [unfolded pos(1)]]
  show "queueOk C ?pn gn (queue ?s) (length (accepted ?s)) (claimed ?s)" using new(1) [OF q' [unfolded pos(1)]] by simp
  obtain v vs' where vs: "vs = v # vs'" using pos(2) by (cases vs) auto
  have first: "accepted s ! r = v" "take (length vs') (drop (Suc r) (accepted s)) = vs'"
    using pos(4,5) Cons_nth_drop_Suc [of r "accepted s", symmetric] by (simp_all add: vs)
  have range: "putRange ?th = putRange (threads s ! i) - {?T}" "getRange ?th = getRange (threads s ! i)"
    by (auto simp: i(2) fillFrom_def vs)
  have hd: "?T \<in> map putRange (threads s) ! i" using range_hd(1) [OF th] i by simp
  show "tickets C (length (accepted ?s)) ?pn (map putRange (threads ?s))"
    using tickets_advance [where i = i and T = ?T, OF sysInvD(4) [OF inv] _ hd eq(1) C(2)] i(1) range(1) by (simp add: map_update)
  have "map getRange (threads ?s) = map getRange (threads s)" using i(1) range(2) by (simp add: map_update list_update_same_conv)
  then show "tickets C (claimed ?s) gn (map getRange (threads ?s))" using sysInvD(5) [OF inv] by simp
  show "threadOk C M ?pn gn (cache (queue ?s)) (accepted ?s) (threads ?s ! j)" if "j < length (threads ?s)" for j
  proof (cases "j = i")
    case True
    have "threadOk C M ?pn gn (cache q') (accepted s) ?th" using pos first(2) by (simp add: fillFrom_def vs)
    with True i(1) show ?thesis by simp
  next
    case False
    with that have "?T \<notin> putRange (threads s ! j)" using same_ticket(1) [OF inv i(1), of j ?T] hd i(1) by auto
    moreover have "j < length (threads s)" using that by simp
    ultimately have "threadOk C M ?pn gn (cache q') (accepted s) (threads s ! j)"
      using publish_others [OF sysInvD(6) [OF inv] _ eq(1,2) C(2) val] by blast
    with False show ?thesis by simp
  qed
  show "slotValue (cache (queue ?s) ! j) = Some (accepted ?s ! (gn j - 1)) \<or> (\<exists>th \<in> set (threads ?s). releasing (gn j) th)"
    if "j < C" "?pn j = gn j + C" for j
  proof (cases "j = ?l")
    case True
    then show ?thesis using eq val first(1) by (simp add: vs)
  next
    case False
    then have "pn j = gn j + C" using that(2) by simp
    from sysInvD(7) [OF inv that(1) this] show ?thesis
    proof
      assume "\<exists>th \<in> set (threads s). releasing (gn j) th"
      then have "\<exists>th \<in> set ((threads s)[i := ?th]). releasing (gn j) th" by (intro releasing_update [OF i(1)]) (simp_all add: i(2))
      then show ?thesis by simp
    qed (simp add: val)
  qed
qed (use sysInvD(1-3,8-10) [OF inv] in simp_all)

lemma seenOk_mono: "seenOk gn C T g \<Longrightarrow> gn (T mod C) \<le> gn' (T mod C) \<Longrightarrow> seenOk gn' C T g"
  unfolding seenOk_def by (blast intro: le_trans)

lemma release_others:
  assumes "threadOk C M pn gn cs acc th" "T \<notin> getRange th" "gn (T mod C) = T" "pn (T mod C) = T + C" "0 < C"
    and "\<And>l. slotValue (cs' ! l) = slotValue (cs ! l)"
  shows "threadOk C M pn (gn(T mod C := T + C)) cs' acc th"
proof -
  obtain pc r where th: "th = (pc, r)" by (cases th)
  have seen: "seenOk gn C T' g \<Longrightarrow> seenOk (gn(T mod C := T + C)) C T' g" for T' g using assms(3) by (elim seenOk_mono) simp
  show ?thesis
  proof (cases pc)
    case (Filling ph pos vs ret)
    have "(r + 1) mod C \<noteq> T mod C" if "pn ((r + 1) mod C) = r + 1" "gn ((r + 1) mod C) = r + 1" using that assms(3-5) by force
    then show ?thesis using assms(1) seen unfolding th Filling by (cases ph) (simp_all add: assms(6))
  next
    case (Draining ph pos k ret)
    have "r + 1 \<noteq> T" using assms(2) range_hd(2) [OF assms(1) [unfolded th Draining]] unfolding th Draining by blast
    then have "(r + 1) mod C \<noteq> T mod C" if "gn ((r + 1) mod C) = r + 1" using that assms(3) by metis
    then show ?thesis using assms(1) seen unfolding th Draining by (cases ph) simp_all
  qed (use assms(1) th in auto)
qed

lemma inv_release:
  fixes s :: "'v sys"
  assumes inv: "sysInv C M pn gn s" and i: "i < length (threads s)" "threads s ! i = (Draining (DRelease v) pos k ret, r)"
    and q': "q' = setSlot (slotIndex (queue s) pos) (getNo_update (\<lambda>n. n + capaciity (queue s))) (queue s)"
  shows "sysInv C M pn (gn((r + 1) mod C := r + 1 + C))
    (s\<lparr>delivered := delivered s @ [(r, v)], queue := q', threads := (threads s)[i := (drainFrom (pos + 1) (k - 1) ret, r + 1)]\<rparr>)"
proof (rule sysInvI)
  let ?T = "r + 1" let ?l = "?T mod C" let ?gn = "gn(?l := ?T + C)" let ?th = "(drainFrom (pos + 1) (k - 1) ret :: 'v pc, r + 1)"
  let ?s = "s\<lparr>delivered := delivered s @ [(r, v)], queue := q', threads := (threads s)[i := ?th]\<rparr>"
  note q = sysInvD(1) [OF inv]
  note C = slotIndex_of_nat [OF q]
  have th: "threadOk C M pn gn (cache (queue s)) (accepted s) (Draining (DRelease v) pos k ret, r)" using sysInvD(6) [OF inv i(1)] i(2) by simp
  then have pos: "pos = of_nat ?T" "0 < k" "k \<le> M" and eq: "gn ?l = ?T" "pn ?l = ?T + C" "v = Some (accepted s ! r)" by simp_all
  note new = queueOk_getNo [OF q eq(1,2), of q'] note val = new(2) [OF q' [unfolded pos(1)]]
  show "queueOk C pn ?gn (queue ?s) (length (accepted ?s)) (claimed ?s)" using new(1) [OF q' [unfolded pos(1)]] by simp
  have range: "getRange ?th = getRange (threads s ! i) - {?T}" "putRange ?th = putRange (threads s ! i)"
    using pos(2) by (auto simp: i(2) drainFrom_def)
  have hd: "?T \<in> map getRange (threads s) ! i" using range_hd(2) [OF th] i by simp
  show "tickets C (claimed ?s) ?gn (map getRange (threads ?s))"
    using tickets_advance [where i = i and T = ?T, OF sysInvD(5) [OF inv] _ hd eq(1) C(2)] i(1) range(1) by (simp add: map_update)
  have "map putRange (threads ?s) = map putRange (threads s)" using i(1) range(2) by (simp add: map_update list_update_same_conv)
  then show "tickets C (length (accepted ?s)) pn (map putRange (threads ?s))" using sysInvD(4) [OF inv] by simp
  show "threadOk C M pn ?gn (cache (queue ?s)) (accepted ?s) (threads ?s ! j)" if "j < length (threads ?s)" for j
  proof (cases "j = i")
    case True
    have "threadOk C M pn ?gn (cache q') (accepted s) ?th" using pos by (auto simp: drainFrom_def)
    with True i(1) show ?thesis by simp
  next
    case False
    with that have "?T \<notin> getRange (threads s ! j)" using same_ticket(2) [OF inv i(1), of j ?T] hd i(1) by auto
    moreover have "j < length (threads s)" using that by simp
    ultimately have "threadOk C M pn ?gn (cache q') (accepted s) (threads s ! j)"
      using release_others [OF sysInvD(6) [OF inv] _ eq(1,2) C(2) val] by blast
    with False show ?thesis by simp
  qed
  show "slotValue (cache (queue ?s) ! j) = Some (accepted ?s ! (?gn j - 1)) \<or> (\<exists>th \<in> set (threads ?s). releasing (?gn j) th)"
    if "j < C" "pn j = ?gn j + C" for j
  proof -
    have j: "j \<noteq> ?l" using that(2) eq(2) C(2) by auto
    then have "pn j = gn j + C" using that(2) by simp
    from sysInvD(7) [OF inv that(1) this] show ?thesis
    proof
      assume "\<exists>th \<in> set (threads s). releasing (gn j) th"
      moreover have "\<not> releasing (gn j) (threads s ! i)" using j queueOk_slot(4) [OF q that(1)] by (auto simp: i(2))
      ultimately obtain a where "a < length (threads s)" "a \<noteq> i" "releasing (gn j) (threads s ! a)" by (metis in_set_conv_nth)
      then have "a < length (threads ?s)" "releasing (?gn j) (threads ?s ! a)" using j by simp_all
      then show ?thesis by (meson nth_mem)
    qed (use j val in simp)
  qed
  have below: "n + 1 < ?gn ((n + 1) mod C) \<longleftrightarrow> n + 1 < gn ((n + 1) mod C) \<or> n = r" for n
    using below_advance [of gn ?T C "n + 1", OF eq(1) C(2)] by simp
  have "\<not> r + 1 < gn ?l" using eq(1) by simp
  then have "r \<notin> fst ` set (delivered s)" using sysInvD(9) [OF inv, of r] by simp
  then show "distinct (map fst (delivered ?s))" using sysInvD(8) [OF inv] by simp
  show "n \<in> fst ` set (delivered ?s) \<longleftrightarrow> n + 1 < ?gn ((n + 1) mod C)" for n
    unfolding below using sysInvD(9) [OF inv, of n] by auto
  show "w = Some (accepted ?s ! n)" if "(n, w) \<in> set (delivered ?s)" for n w
    using that sysInvD(10) [OF inv, of n w] eq(3) by auto
qed (use sysInvD(1-3) [OF inv] in simp_all)

text \<open>The two compare-and-swaps.\<close>

lemma accept_others:
  assumes "threadOk C M pn gn cs acc th" "\<And>T. 1 \<le> T \<Longrightarrow> pn (T mod C) = T + C \<Longrightarrow> T \<le> length acc"
  shows "threadOk C M pn gn cs (acc @ vs) th"
proof -
  obtain pc r where th: "th = (pc, r)" by (cases th)
  show ?thesis
  proof (cases pc)
    case (Filling ph pos ws ret)
    then show ?thesis using assms(1) unfolding th Filling by simp
  next
    case (Draining ph pos k ret)
    have "(acc @ vs) ! r = acc ! r" if "pn ((r + 1) mod C) = r + 1 + C" using assms(2) [OF _ that] by (simp add: nth_append)
    then show ?thesis using assms(1) unfolding th Draining by (cases ph) simp_all
  qed (use assms(1) th in auto)
qed

lemma inv_accept:
  fixes s :: "'v sys"
  assumes inv: "sysInv C M pn gn s" and i: "i < length (threads s)"
    and none: "putRange (threads s ! i) = {}" "getRange (threads s ! i) = {}" "\<And>T. \<not> releasing T (threads s ! i)"
    and size: "length vs \<le> M" and q': "q' = (queue s)\<lparr>putPos := putPos (queue s) + of_nat (length vs)\<rparr>"
  shows "sysInv C M pn gn (s\<lparr>accepted := accepted s @ vs, queue := q',
    threads := (threads s)[i := (fillFrom (putPos (queue s) + 1) vs ret, length (accepted s))]\<rparr>)"
proof (rule sysInvI)
  let ?n = "length (accepted s)" let ?th = "(fillFrom (putPos (queue s) + 1) vs ret, ?n)"
  let ?s = "s\<lparr>accepted := accepted s @ vs, queue := q', threads := (threads s)[i := ?th]\<rparr>"
  note q = sysInvD(1) [OF inv]
  note C = slotIndex_of_nat [OF q]
  have pos: "putPos (queue s) = of_nat ?n" using q by (simp add: queueOk_def)
  show "queueOk C pn gn (queue ?s) (length (accepted ?s)) (claimed ?s)" using q by (simp add: queueOk_def q')
  have range: "putRange ?th = {?n + 1..?n + length vs}" "getRange ?th = {}" by (auto simp: fillFrom_def)
  show "tickets C (length (accepted ?s)) pn (map putRange (threads ?s))"
    using tickets_claim [where i = i and k = "length vs", OF sysInvD(4) [OF inv]] i none(1) range(1) by (simp add: map_update)
  have "map getRange (threads ?s) = map getRange (threads s)" using i range(2) none(2) by (simp add: map_update list_update_same_conv)
  then show "tickets C (claimed ?s) gn (map getRange (threads ?s))" using sysInvD(5) [OF inv] by simp
  have full: "T \<le> ?n" if "1 \<le> T" "pn (T mod C) = T + C" for T
    using tickets_done [OF sysInvD(4) [OF inv] that(1)] that(2) C(2) by simp
  show "threadOk C M pn gn (cache (queue ?s)) (accepted ?s) (threads ?s ! j)" if "j < length (threads ?s)" for j
  proof (cases "j = i")
    case True
    have "threadOk C M pn gn (cache q') (accepted s @ vs) ?th" using size pos by (simp add: fillFrom_def)
    with True i show ?thesis by simp
  next
    case False
    have "threadOk C M pn gn (cache q') (accepted s @ vs) (threads s ! j)"
      using accept_others [OF sysInvD(6) [OF inv, of j] full] that by (simp add: q')
    with False show ?thesis by simp
  qed
  show "slotValue (cache (queue ?s) ! j) = Some (accepted ?s ! (gn j - 1)) \<or> (\<exists>th \<in> set (threads ?s). releasing (gn j) th)"
    if "j < C" "pn j = gn j + C" for j
  proof -
    have "gn j \<le> ?n" using full [of "gn j"] queueOk_slot(3,4) [OF q that(1)] that(2) by simp
    then have "gn j - 1 < ?n" using queueOk_slot(3) [OF q that(1)] by linarith
    then have nth: "(accepted s @ vs) ! (gn j - 1) = accepted s ! (gn j - 1)" by (simp add: nth_append)
    from sysInvD(7) [OF inv that] show ?thesis
    proof
      assume "\<exists>th \<in> set (threads s). releasing (gn j) th"
      then have "\<exists>th \<in> set ((threads s)[i := ?th]). releasing (gn j) th" by (intro releasing_update [OF i]) (simp_all add: none(3))
      then show ?thesis by simp
    qed (use nth q' in simp)
  qed
  show "w = Some (accepted ?s ! n)" if "(n, w) \<in> set (delivered ?s)" for n w
  proof -
    have "n \<in> fst ` set (delivered s)" using that by force
    then have "n + 1 < gn ((n + 1) mod C)" using sysInvD(9) [OF inv] by blast
    then have "n + 1 < pn ((n + 1) mod C)" using queueOk_slot(6) [OF q C(3) [of "n + 1"]] by linarith
    then have "n < ?n" using tickets_done [OF sysInvD(4) [OF inv], of "n + 1"] by simp
    then show ?thesis using that sysInvD(10) [OF inv, of n w] by (simp add: nth_append)
  qed
qed (use sysInvD(2,3,8,9) [OF inv] in simp_all)

lemma inv_claim:
  fixes s :: "'v sys"
  assumes inv: "sysInv C M pn gn s" and i: "i < length (threads s)"
    and none: "putRange (threads s ! i) = {}" "getRange (threads s ! i) = {}" "\<And>T. \<not> releasing T (threads s ! i)"
    and size: "k \<le> M" and q': "q' = (queue s)\<lparr>getPos := getPos (queue s) + of_nat k\<rparr>"
  shows "sysInv C M pn gn (s\<lparr>claimed := claimed s + k, queue := q',
    threads := (threads s)[i := (drainFrom (getPos (queue s) + 1) k ret, claimed s)]\<rparr>)"
proof (rule sysInvI)
  let ?th = "(drainFrom (getPos (queue s) + 1) k ret :: 'v pc, claimed s)"
  let ?s = "s\<lparr>claimed := claimed s + k, queue := q', threads := (threads s)[i := ?th]\<rparr>"
  note q = sysInvD(1) [OF inv]
  have pos: "getPos (queue s) = of_nat (claimed s)" using q by (simp add: queueOk_def)
  show "queueOk C pn gn (queue ?s) (length (accepted ?s)) (claimed ?s)" using q by (simp add: queueOk_def q')
  have range: "getRange ?th = {claimed s + 1..claimed s + k}" "putRange ?th = {}" by (auto simp: drainFrom_def)
  show "tickets C (claimed ?s) gn (map getRange (threads ?s))"
    using tickets_claim [where i = i and k = k, OF sysInvD(5) [OF inv]] i none(2) range(1) by (simp add: map_update)
  have "map putRange (threads ?s) = map putRange (threads s)" using i range(2) none(1) by (simp add: map_update list_update_same_conv)
  then show "tickets C (length (accepted ?s)) pn (map putRange (threads ?s))" using sysInvD(4) [OF inv] by simp
  show "threadOk C M pn gn (cache (queue ?s)) (accepted ?s) (threads ?s ! j)" if "j < length (threads ?s)" for j
  proof (cases "j = i")
    case True
    have "threadOk C M pn gn (cache q') (accepted s) ?th" using size pos by (simp add: drainFrom_def)
    with True i show ?thesis by simp
  qed (use that sysInvD(6) [OF inv, of j] q' in simp)
  show "slotValue (cache (queue ?s) ! j) = Some (accepted ?s ! (gn j - 1)) \<or> (\<exists>th \<in> set (threads ?s). releasing (gn j) th)"
    if "j < C" "pn j = gn j + C" for j
    using sysInvD(7) [OF inv that]
  proof
    assume "\<exists>th \<in> set (threads s). releasing (gn j) th"
    then have "\<exists>th \<in> set ((threads s)[i := ?th]). releasing (gn j) th" by (intro releasing_update [OF i]) (simp_all add: none(3))
    then show ?thesis by simp
  qed (use q' in simp)
qed (use sysInvD(2,3,8-10) [OF inv] in simp_all)

subsection \<open>Every step keeps the invariant\<close>

lemma putCount_size:
  assumes "putCount q req posCnt = (vs, n)" "isPut req" "reqSize req < 2 ^ 32"
  shows "n = of_nat (length vs) \<and> length vs \<le> reqSize req"
proof (cases req)
  case (Puts ws)
  let ?size = "of_nat (length ws) :: 32 word"
  have "unat ?size = length ws" using assms(3) Puts by (simp add: unsigned_of_nat take_bit_nat_eq_self)
  moreover have n: "n \<le> ?size" "vs = take (unat n) ws" using assms(1) Puts by (auto simp: Let_def split: if_splits)
  ultimately have "unat n \<le> length ws" by (simp add: word_le_nat_alt)
  then show ?thesis using Puts n(2) by simp
qed (use assms in auto)

lemma getCount_size: "\<not> isPut req \<Longrightarrow> unat (getCount req posCnt) \<le> reqSize req"
proof (cases req)
  case (Gets n)
  have "unat (of_nat n :: 32 word) \<le> n" by (simp add: unsigned_of_nat take_bit_nat_less_eq_self)
  then show ?thesis using Gets by (auto simp: Let_def word_le_nat_alt)
qed auto

lemma sysStep_move:
  assumes "i < length (threads s)" "threads s ! i = (pc, r)" "pc \<noteq> Idle" "threadStep (queue s) pc = (q, pc', e)" "record_event e r s = (s', r')"
  shows "sysStep s (i, req) = s'\<lparr>queue := q, threads := (threads s)[i := (pc', r')]\<rparr>"
proof -
  have "threads s' = threads s" using assms(5) by (cases e) auto
  then show ?thesis using assms by (simp add: sysStep_def)
qed

lemma inv_quiet:
  assumes "sysInv C M pn gn s" "i < length (threads s)" "threads s ! i = (pc, r)" "pc \<noteq> Idle"
    and "threadStep (queue s) pc = (queue s, pc', e)" "record_event e r s = (s, r)"
    and "putRange (pc', r) = putRange (pc, r)" "getRange (pc', r) = getRange (pc, r)" "\<And>T. \<not> releasing T (pc, r)"
    and "threadOk C M pn gn (cache (queue s)) (accepted s) (pc', r)"
  shows "sysInv C M pn gn (sysStep s (i, req))"
  unfolding sysStep_move [OF assms(2-6)] using inv_local [OF assms(1-3,7,8) _ assms(10)] assms(9) by simp

lemma inv_fill:
  assumes inv: "sysInv C M pn gn s" and i: "i < length (threads s)" "threads s ! i = (Filling ph pos vs ret, r)"
  shows "\<exists>pn' gn'. sysInv C M pn' gn' (sysStep s (i, req))"
proof -
  let ?T = "r + 1"
  note q = sysInvD(1) [OF inv]
  note C = slotIndex_of_nat [OF q] note slot = queueOk_slot [OF q C(3) [of ?T]]
  have th: "threadOk C M pn gn (cache (queue s)) (accepted s) (Filling ph pos vs ret, r)" using sysInvD(6) [OF inv i(1)] i(2) by simp
  then have pos: "pos = of_nat ?T" and ix: "slotIndex (queue s) pos = ?T mod C" using C(1) [of ?T] by simp_all
  have held: "?T \<in> putRange (threads s ! i)" using range_hd(1) [OF th] i(2) by simp
  have low: "pn (?T mod C) \<le> ?T" using ticketsD(3) [OF sysInvD(4) [OF inv], of i ?T] held i(1) by simp
  have near: "?T < gn (?T mod C) + 2 ^ 32" using inv_bound [OF inv i(1)] held by blast
  show ?thesis
  proof (cases ph)
    case FSpin
    have "seenOk gn C ?T (getNo (cache (queue s) ! (?T mod C)))" unfolding seenOk_def using slot(2) near by blast
    then have "threadOk C M pn gn (cache (queue s)) (accepted s) (Filling (FSeen (getNo (cache (queue s) ! (?T mod C)))) pos vs ret, r)"
      using th by simp
    note ok = this
    have move: "threadStep (queue s) (Filling ph pos vs ret) = (queue s, Filling (FSeen (getNo (cache (queue s) ! (?T mod C)))) pos vs ret, Tau)"
      by (simp add: FSpin ix)
    have "sysInv C M pn gn (sysStep s (i, req))" by (rule inv_quiet [OF inv i _ move _ _ _ _ ok]) simp_all
    then show ?thesis by blast
  next
    case (FSeen g)
    let ?ph = "if pos = putNo (cache (queue s) ! (?T mod C)) \<and> g = putNo (cache (queue s) ! (?T mod C)) then FWrite else FSpin"
    have "pn (?T mod C) = ?T \<and> gn (?T mod C) = ?T" if "pos = putNo (cache (queue s) ! (?T mod C))" "g = putNo (cache (queue s) ! (?T mod C))"
    proof -
      obtain g' where g': "g = of_nat g'" "g' \<le> gn (?T mod C)" "?T < g' + 2 ^ 32" using th FSeen by (auto simp: seenOk_def)
      have "of_nat (pn (?T mod C)) = (of_nat ?T :: 32 word)" using that(1) slot(1) pos by simp
      moreover have "?T < pn (?T mod C) + 2 ^ 32" using near slot(6) by linarith
      ultimately have "pn (?T mod C) = ?T" using low of_nat_inj_near by blast
      moreover have "of_nat g' = (of_nat ?T :: 32 word)" using that pos g'(1) by simp
      then have "g' = ?T" using of_nat_inj_near [of g' ?T] g'(2,3) low slot(6) by linarith
      ultimately show ?thesis using g'(2) slot(6) by linarith
    qed
    then have "fillOk C pn gn (cache (queue s)) ?ph vs ?T" by simp
    then have "threadOk C M pn gn (cache (queue s)) (accepted s) (Filling ?ph pos vs ret, r)" using th by simp
    note ok = this
    have move: "threadStep (queue s) (Filling ph pos vs ret) = (queue s, Filling ?ph pos vs ret, Tau)" by (simp add: FSeen ix Let_def)
    have "sysInv C M pn gn (sysStep s (i, req))" by (rule inv_quiet [OF inv i _ move _ _ _ _ ok]) simp_all
    then show ?thesis by blast
  next
    case FWrite
    have eq: "pn (?T mod C) = ?T" "gn (?T mod C) = ?T" using th FWrite by simp_all
    have step: "sysStep s (i, req) = s\<lparr>queue := setSlot (?T mod C) (slotValue_update (\<lambda>_. Some (hd vs))) (queue s),
        threads := (threads s)[i := (Filling FPublish pos vs ret, r)]\<rparr>"
      by (rule sysStep_move [where e = Tau, OF i]) (simp_all add: FWrite ix)
    have other: "T' mod C \<noteq> ?T mod C" if jl: "j < length (threads s)" "j \<noteq> i" and pub: "T' \<in> publishing (threads s ! j)" for j T'
    proof
      assume *: "T' mod C = ?T mod C"
      obtain pos' vs' ret' where j: "threads s ! j = (Filling FPublish pos' vs' ret', T' - 1)" "1 \<le> T'"
        using pub by (cases "threads s ! j" rule: publishing.cases) auto
      have "pn (T' mod C) = T'" "T' \<in> putRange (threads s ! j)"
        using sysInvD(6) [OF inv jl(1)] range_hd(1) [of C M pn gn "cache (queue s)" "accepted s" FPublish pos' vs' ret' "T' - 1"] j by simp_all
      then show False using * eq(1) same_ticket(1) [OF inv jl(1) i(1), of T'] held jl(2) by simp
    qed
    have len: "length (cache (queue s)) = C" using q by (simp add: queueOk_def)
    have "threadOk C M pn gn (cache (setSlot (?T mod C) (slotValue_update (\<lambda>_. Some (hd vs))) (queue s))) (accepted s) (Filling FPublish pos vs ret, r)"
      using th eq C(3) [of ?T] len by (simp add: FWrite setSlot_def)
    then have "sysInv C M pn gn (sysStep s (i, req))" unfolding step
      using eq C(2,3) by (intro inv_value [OF inv i _ _ _ _ other _ refl]) (simp_all add: FWrite)
    then show ?thesis by blast
  next
    case FPublish
    have "sysStep s (i, req) = s\<lparr>queue := setSlot (slotIndex (queue s) pos) (putNo_update (\<lambda>n. n + capaciity (queue s))) (queue s),
        threads := (threads s)[i := (fillFrom (pos + 1) (tl vs) ret, r + 1)]\<rparr>"
      by (rule sysStep_move [where e = Published, OF i]) (simp_all add: FPublish)
    then show ?thesis using inv_publish [OF inv i(1) i(2) [unfolded FPublish] refl] by metis
  qed
qed

lemma inv_drain:
  assumes inv: "sysInv C M pn gn s" and i: "i < length (threads s)" "threads s ! i = (Draining ph pos k ret, r)"
  shows "\<exists>pn' gn'. sysInv C M pn' gn' (sysStep s (i, req))"
proof -
  let ?T = "r + 1" let ?l = "?T mod C"
  note q = sysInvD(1) [OF inv]
  note C = slotIndex_of_nat [OF q] note slot = queueOk_slot [OF q C(3) [of ?T]]
  have th: "threadOk C M pn gn (cache (queue s)) (accepted s) (Draining ph pos k ret, r)" using sysInvD(6) [OF inv i(1)] i(2) by simp
  then have pos: "pos = of_nat ?T" and ix: "slotIndex (queue s) pos = ?l" using C(1) [of ?T] by simp_all
  have held: "?T \<in> getRange (threads s ! i)" using range_hd(2) [OF th] i(2) by simp
  have low: "gn ?l \<le> ?T" using ticketsD(3) [OF sysInvD(5) [OF inv], of i ?T] held i(1) by simp
  have near: "?T < gn ?l + 2 ^ 32" using inv_bound [OF inv i(1)] held by blast
  have quiet: "\<exists>pn' gn'. sysInv C M pn' gn' (sysStep s (i, req))"
    if "threadStep (queue s) (Draining ph pos k ret) = (queue s, Draining ph' pos k ret, Tau)" "drainOk C pn gn (accepted s) ph' ?T"
      "\<And>v. ph \<noteq> DRelease v" for ph'
  proof -
    have ok: "threadOk C M pn gn (cache (queue s)) (accepted s) (Draining ph' pos k ret, r)" using th that(2) by simp
    have "\<not> releasing T (Draining ph pos k ret, r)" for T using that(3) by (cases ph) auto
    then have "sysInv C M pn gn (sysStep s (i, req))" by (intro inv_quiet [OF inv i _ that(1) _ _ _ _ ok]) simp_all
    then show ?thesis by blast
  qed
  show ?thesis
  proof (cases ph)
    case DSpin
    have "seenOk gn C ?T (getNo (cache (queue s) ! ?l))" unfolding seenOk_def using slot(2) near by blast
    then show ?thesis by (intro quiet [of "DSeen (getNo (cache (queue s) ! ?l))"]) (simp_all add: DSpin ix)
  next
    case (DSeen g)
    let ?ph = "if pos = g \<and> g = putNo (cache (queue s) ! ?l) - capaciity (queue s) then DRead else DSpin :: 'a dPhase"
    have "gn ?l = ?T \<and> pn ?l = ?T + C" if "pos = g" "g = putNo (cache (queue s) ! ?l) - capaciity (queue s)"
    proof -
      obtain g' where g': "g = of_nat g'" "g' \<le> gn ?l" "?T < g' + 2 ^ 32" using th DSeen by (auto simp: seenOk_def)
      have "of_nat g' = (of_nat ?T :: 32 word)" using that(1) pos g'(1) by simp
      then have "g' = ?T" using of_nat_inj_near [of g' ?T] g'(2,3) low by linarith
      then have gn: "gn ?l = ?T" using g'(2) low by linarith
      have "capaciity (queue s) = of_nat C" using q by (simp add: queueOk_def)
      then have sum: "of_nat (?T + C) = (of_nat (pn ?l) :: 32 word)" using that slot(1) pos by (simp add: algebra_simps)
      have "pn ?l \<noteq> ?T"
      proof
        assume "pn ?l = ?T"
        then have "?T = ?T + C" using of_nat_inj_near [of ?T "?T + C"] sum C(4) by simp
        then show False using C(2) by simp
      qed
      with gn slot(6) show ?thesis by auto
    qed
    then have "drainOk C pn gn (accepted s) ?ph ?T" by simp
    then show ?thesis by (intro quiet [of ?ph]) (simp_all add: DSeen ix Let_def)
  next
    case DRead
    have eq: "gn ?l = ?T" "pn ?l = ?T + C" using th DRead by simp_all
    have "\<not> releasing ?T (threads s ! j)" if jl: "j < length (threads s)" for j
    proof
      assume rel: "releasing ?T (threads s ! j)"
      then obtain v pos' k' ret' where j: "threads s ! j = (Draining (DRelease v) pos' k' ret', r)"
        by (cases "(?T, threads s ! j)" rule: releasing.cases) auto
      have "?T \<in> getRange (threads s ! j)" using range_hd(2) sysInvD(6) [OF inv jl] j by metis
      then have "j = i" using same_ticket(2) [OF inv jl i(1)] held by blast
      then show False using j i(2) DRead by simp
    qed
    then have "\<not> (\<exists>th \<in> set (threads s). releasing (gn ?l) th)" unfolding eq(1) by (metis in_set_conv_nth)
    then have "slotValue (cache (queue s) ! ?l) = Some (accepted s ! r)" using sysInvD(7) [OF inv C(3) [of ?T]] eq by auto
    then show ?thesis using eq by (intro quiet [of "DClear (Some (accepted s ! r))"]) (simp_all add: DRead ix)
  next
    case (DClear v)
    have eq: "gn ?l = ?T" "pn ?l = ?T + C" using th DClear by simp_all
    have step: "sysStep s (i, req) = s\<lparr>queue := setSlot ?l (slotValue_update (\<lambda>_. None)) (queue s),
        threads := (threads s)[i := (Draining (DRelease v) pos k ret, r)]\<rparr>"
      by (rule sysStep_move [where e = Tau, OF i]) (simp_all add: DClear ix)
    have other: "T' mod C \<noteq> ?l" if jl: "j < length (threads s)" "j \<noteq> i" and pub: "T' \<in> publishing (threads s ! j)" for j T'
    proof
      assume *: "T' mod C = ?l"
      obtain pos' vs' ret' where j: "threads s ! j = (Filling FPublish pos' vs' ret', T' - 1)" "1 \<le> T'"
        using pub by (cases "threads s ! j" rule: publishing.cases) auto
      have "pn (T' mod C) = T'" "gn (T' mod C) = T'" using sysInvD(6) [OF inv jl(1)] j by simp_all
      then show False using * eq C(2) by simp
    qed
    have "threadOk C M pn gn (cache (setSlot ?l (slotValue_update (\<lambda>_. None)) (queue s))) (accepted s) (Draining (DRelease v) pos k ret, r)"
      using th by (simp add: DClear)
    then have "sysInv C M pn gn (sysStep s (i, req))" unfolding step
      using eq C(2,3) by (intro inv_value [OF inv i _ _ _ _ other _ refl]) (simp_all add: DClear)
    then show ?thesis by blast
  next
    case (DRelease v)
    have "sysStep s (i, req) = s\<lparr>delivered := delivered s @ [(r, v)],
        queue := setSlot (slotIndex (queue s) pos) (getNo_update (\<lambda>n. n + capaciity (queue s))) (queue s),
        threads := (threads s)[i := (drainFrom (pos + 1) (k - 1) ret, r + 1)]\<rparr>"
      by (rule sysStep_move [where e = "Delivered v", OF i]) (simp_all add: DRelease)
    then show ?thesis using inv_release [OF inv i(1) i(2) [unfolded DRelease] refl] by metis
  qed
qed

lemma inv_claimPut:
  assumes inv: "sysInv C M pn gn s" and i: "i < length (threads s)" "threads s ! i = (Claim req gp pp, r)" and put: "isPut req"
  shows "\<exists>pn' gn'. sysInv C M pn' gn' (sysStep s (i, req'))"
proof -
  let ?posCnt = "posCount (queue s) pp gp"
  obtain vs cnt where cnt: "putCount (queue s) req ?posCnt = (vs, cnt)" by (cases "putCount (queue s) req ?posCnt")
  have size: "reqSize req \<le> M" using sysInvD(6) [OF inv i(1)] i(2) by simp
  have "M * 1 \<le> M * (length (threads s) * C)" using i(1) slotIndex_of_nat(2) [OF sysInvD(1) [OF inv]] by (intro mult_le_mono) simp_all
  also have "M * (length (threads s) * C) = length (threads s) * M * C" by (simp only: ac_simps)
  finally have "M < 2 ^ 32" using sysInvD(3) [OF inv] by linarith
  then have vs: "cnt = of_nat (length vs)" "length vs \<le> M" using putCount_size [OF cnt put] size by auto
  show ?thesis
  proof (cases "?posCnt \<ge> capMod (queue s) - 1 \<or> putPos (queue s) \<noteq> pp")
    case True
    then have move: "threadStep (queue s) (Claim req gp pp) = (queue s, Returning (0, ?posCnt), Tau)"
      using put cnt by (auto simp: claimPut_def Let_def)
    have "sysInv C M pn gn (sysStep s (i, req'))" by (rule inv_quiet [OF inv i _ move]) simp_all
    then show ?thesis by blast
  next
    case False
    then have "sysStep s (i, req') = s\<lparr>accepted := accepted s @ vs, queue := (queue s)\<lparr>putPos := putPos (queue s) + of_nat (length vs)\<rparr>,
        threads := (threads s)[i := (fillFrom (putPos (queue s) + 1) vs (cnt, ?posCnt + cnt), length (accepted s))]\<rparr>"
      by (intro sysStep_move [where e = "Accepted vs", OF i]) (simp_all add: put cnt claimPut_def Let_def vs(1))
    then show ?thesis using inv_accept [OF inv i(1) _ _ _ vs(2) refl, of "(cnt, ?posCnt + cnt)"] i(2) by auto
  qed
qed

lemma inv_claimGet:
  fixes s :: "'v sys"
  assumes inv: "sysInv C M pn gn s" and i: "i < length (threads s)" "threads s ! i = (Claim req gp pp, r)" and get: "\<not> isPut req"
  shows "\<exists>pn' gn'. sysInv C M pn' gn' (sysStep s (i, req'))"
proof -
  let ?posCnt = "posCount (queue s) pp gp" let ?cnt = "getCount req ?posCnt"
  have size: "unat ?cnt \<le> M" using sysInvD(6) [OF inv i(1)] i(2) getCount_size [OF get, of ?posCnt] by simp
  show ?thesis
  proof (cases "?posCnt < 1 \<or> getPos (queue s) \<noteq> gp")
    case True
    then have move: "threadStep (queue s) (Claim req gp pp) = (queue s, Returning (0, ?posCnt), Tau)"
      using get by (auto simp: claimGet_def Let_def)
    have "sysInv C M pn gn (sysStep s (i, req'))" by (rule inv_quiet [OF inv i _ move]) simp_all
    then show ?thesis by blast
  next
    case False
    then have "sysStep s (i, req') = s\<lparr>claimed := claimed s + unat ?cnt, queue := (queue s)\<lparr>getPos := getPos (queue s) + of_nat (unat ?cnt)\<rparr>,
        threads := (threads s)[i := (drainFrom (getPos (queue s) + 1) (unat ?cnt) (?cnt, ?posCnt - ?cnt), claimed s)]\<rparr>"
      by (intro sysStep_move [where e = "Claimed (unat ?cnt)", OF i]) (simp_all add: get claimGet_def Let_def)
    then show ?thesis using inv_claim [OF inv i(1) _ _ _ size refl, of "(?cnt, ?posCnt - ?cnt)"] i(2) by auto
  qed
qed

lemma inv_step:
  assumes inv: "sysInv C M pn gn s" and size: "reqSize req \<le> M"
  shows "\<exists>pn' gn'. sysInv C M pn' gn' (sysStep s (i, req))"
proof (cases "i < length (threads s)")
  case False
  then have "sysStep s (i, req) = s" by (simp add: sysStep_def)
  then show ?thesis using inv by auto
next
  case i: True
  obtain pc r where th: "threads s ! i = (pc, r)" by (cases "threads s ! i")
  have ok: "threadOk C M pn gn (cache (queue s)) (accepted s) (pc, r)" using sysInvD(6) [OF inv i] th by simp
  show ?thesis
  proof (cases pc)
    case Idle
    have "sysInv C M pn gn (s\<lparr>threads := (threads s)[i := (Start req, r)]\<rparr>)"
      by (rule inv_local [OF inv i th]) (simp_all add: Idle size)
    moreover have "sysStep s (i, req) = s\<lparr>threads := (threads s)[i := (Start req, r)]\<rparr>" using i th Idle by (simp add: sysStep_def)
    ultimately show ?thesis by auto
  next
    case (Start req')
    then have "sysInv C M pn gn (sysStep s (i, req))"
      using ok by (intro inv_quiet [where e = Tau, OF inv i th]) auto
    then show ?thesis by blast
  next
    case (Loaded req' w)
    have move: "threadStep (queue s) pc = (queue s, if isPut req' then Claim req' w (putPos (queue s)) else Claim req' (getPos (queue s)) w, Tau)"
      by (simp add: Loaded)
    have "sysInv C M pn gn (sysStep s (i, req))"
      using ok by (intro inv_quiet [OF inv i th _ move]) (simp_all add: Loaded)
    then show ?thesis by blast
  next
    case (Claim req' gp pp)
    then show ?thesis using inv_claimPut [OF inv i] inv_claimGet [OF inv i] th by (cases "isPut req'") auto
  next
    case (Filling ph pos vs ret)
    then show ?thesis using inv_fill [OF inv i] th by simp
  next
    case (Draining ph pos k ret)
    then show ?thesis using inv_drain [OF inv i] th by simp
  next
    case (Returning ret)
    have move: "threadStep (queue s) pc = (queue s, Idle, Returned ret)" by (simp add: Returning)
    have "sysInv C M pn gn (sysStep s (i, req))" by (rule inv_quiet [OF inv i th _ move]) (simp_all add: Returning)
    then show ?thesis by blast
  qed
qed

lemma NewQueue_ok:
  assumes "NewQueue c = Ret q"
  shows "queueOk (unat (capaciity q)) (\<lambda>i. if i = 0 then unat (capaciity q) else i) (\<lambda>i. if i = 0 then unat (capaciity q) else i) q 0 0"
    "i < unat (capaciity q) \<Longrightarrow> slotValue (cache q ! i) = None"
proof -
  let ?n = "minQuantity c"
  have pos: "unat ?n \<noteq> 0" and q: "q = \<lparr>capaciity = ?n, capMod = ?n - 1, putPos = 0, getPos = 0,
      cache = (map (\<lambda>i. \<lparr>putNo = of_nat i, getNo = of_nat i, slotValue = None\<rparr>) [0..<unat ?n])[0 := \<lparr>putNo = ?n, getNo = ?n, slotValue = None\<rparr>]\<rparr>"
    using assms by (auto simp: NewQueue_def Let_def split: if_splits)
  have "c \<noteq> 0" using pos by (auto simp: minQuantity_def)
  then obtain m where m: "?n = 2 ^ m" "m \<le> 32" using minQuantity_power by blast
  have "m < 32"
  proof (rule ccontr)
    assume "\<not> m < 32"
    then have "?n = 0" using m by simp
    then show False using pos by simp
  qed
  then have "(2 :: nat) ^ m < 2 ^ 32" by (intro power_strict_increasing) simp_all
  moreover have "?n = of_nat (2 ^ m)" using m by simp
  ultimately have "unat ?n = 2 ^ m" using \<open>m < 32\<close> by (simp add: unsigned_of_nat take_bit_nat_eq_self del: of_nat_power)
  with pos \<open>m < 32\<close> m(1) show "queueOk (unat (capaciity q)) (\<lambda>i. if i = 0 then unat (capaciity q) else i) (\<lambda>i. if i = 0 then unat (capaciity q) else i) q 0 0"
    by (auto simp: queueOk_def q nth_list_update)
  show "slotValue (cache q ! i) = None" if "i < unat (capaciity q)" using that by (auto simp: q nth_list_update)
qed

lemma inv_initially:
  assumes "NewQueue c = Ret q" "1 \<le> M" "n * M * unat (capaciity q) < 2 ^ 32"
  shows "\<exists>pn gn. sysInv (unat (capaciity q)) M pn gn (initially q n)"
proof -
  let ?C = "unat (capaciity q)" let ?p = "\<lambda>i. if i = 0 then ?C else i"
  note q = NewQueue_ok [OF assms(1)]
  have "0 < ?C" using slotIndex_of_nat(2) [OF q(1)] .
  then have none: "\<not> T < ?p (T mod ?C)" if "1 \<le> T" for T
    using that by (auto simp: not_less dest!: dvd_imp_le simp flip: dvd_eq_mod_eq_0)
  have tickets: "tickets ?C 0 ?p (replicate n {})" using none by (auto simp: tickets_def)
  have "sysInv ?C M ?p ?p (initially q n)"
  proof (rule sysInvI)
    show "k \<in> fst ` set (delivered (initially q n)) \<longleftrightarrow> k + 1 < ?p ((k + 1) mod ?C)" for k
      using none [of "k + 1"] by (simp add: initially_def)
  qed (use q assms tickets \<open>0 < ?C\<close> in \<open>auto simp: initially_def map_replicate_const\<close>)
  then show ?thesis by blast
qed

lemma sysRun_inv:
  assumes "NewQueue c = Ret q" "1 \<le> M" "n * M * unat (capaciity q) < 2 ^ 32" "\<forall>(i, req) \<in> set sched. reqSize req \<le> M"
  shows "\<exists>pn gn. sysInv (unat (capaciity q)) M pn gn (sysRun q n sched)"
  using assms(4)
proof (induction sched rule: rev_induct)
  case Nil
  show ?case using inv_initially [OF assms(1-3)] by (simp add: sysRun_def)
next
  case (snoc e sched)
  obtain i req where e: "e = (i, req)" by (cases e)
  from snoc obtain pn gn where "sysInv (unat (capaciity q)) M pn gn (sysRun q n sched)" by auto
  from inv_step [OF this, of req i] snoc.prems e show ?case by (simp add: sysRun_def)
qed

text \<open>C39: Tickets are honoured. In every interleaving of \<open>n\<close> goroutines the value that is handed out for the \<open>k\<close>-th claimed
  read position is the one that was accepted for the \<open>k\<close>-th write position, and no position is served twice. When
  all goroutines are idle, every claimed position has been served, so the values handed out are the
  accepted ones up to the number of claims: none is lost, none is duplicated. The 32-bit counters may wrap any
  number of times; needed is only that the requests in progress are not so many that they exhaust the numbers of a slot.\<close>

theorem tickets_are_honoured:
  assumes "NewQueue c = Ret q" "1 \<le> M" "n * M * unat (capaciity q) < 2 ^ 32" "\<forall>(i, req) \<in> set sched. reqSize req \<le> M"
    and "sysRun q n sched = s"
  shows "distinct (map fst (delivered s)) \<and>
    (\<forall>(k, v) \<in> set (delivered s). k < length (accepted s) \<and> k < claimed s \<and> v = Some (accepted s ! k)) \<and>
    ((\<forall>(pc, r) \<in> set (threads s). pc = Idle) \<longrightarrow>
      claimed s \<le> length (accepted s) \<and> set (delivered s) = (\<lambda>k. (k, Some (accepted s ! k))) ` {..<claimed s})"
proof -
  let ?C = "unat (capaciity q)"
  obtain pn gn where inv: "sysInv ?C M pn gn s" using sysRun_inv [OF assms(1-4)] assms(5) by auto
  note q = sysInvD(1) [OF inv]
  have le: "gn (T mod ?C) \<le> pn (T mod ?C)" for T using queueOk_slot(6) [OF q slotIndex_of_nat(3) [OF q, of T]] by auto
  have served: "k < length (accepted s) \<and> k < claimed s \<and> v = Some (accepted s ! k)" if "(k, v) \<in> set (delivered s)" for k v
  proof -
    have "k + 1 < gn ((k + 1) mod ?C)" using sysInvD(9) [OF inv, of k] that by force
    then show ?thesis
      using tickets_done [OF sysInvD(4) [OF inv], of "k + 1"] tickets_done [OF sysInvD(5) [OF inv], of "k + 1"] le [of "k + 1"]
        sysInvD(10) [OF inv that] by simp
  qed
  have "claimed s \<le> length (accepted s) \<and> set (delivered s) = (\<lambda>k. (k, Some (accepted s ! k))) ` {..<claimed s}"
    if idle: "\<forall>(pc, r) \<in> set (threads s). pc = Idle"
  proof -
    have "\<Union> (set (map getRange (threads s))) = {}" using idle by fastforce
    then have fin: "T < gn (T mod ?C)" if "1 \<le> T" "T \<le> claimed s" for T
      using sysInvD(5) [OF inv] that unfolding tickets_def by blast
    then have all: "k \<in> fst ` set (delivered s)" if "k < claimed s" for k using sysInvD(9) [OF inv, of k] that by simp
    have "claimed s \<le> length (accepted s)"
    proof (cases "claimed s")
      case (Suc k)
      then have "k \<in> fst ` set (delivered s)" using all by simp
      then show ?thesis using served Suc by force
    qed simp
    moreover have "set (delivered s) = (\<lambda>k. (k, Some (accepted s ! k))) ` {..<claimed s}" using served all by fastforce
    ultimately show ?thesis by blast
  qed
  then show ?thesis using sysInvD(8) [OF inv] served by blast
qed

theorem tickets_are_honoured_witness:
  "case NewQueue 4 of Panic _ \<Rightarrow> False
   | Ret q \<Rightarrow> set (delivered (sysRun q 2 (replicate 9 (0, Put (7 :: nat)) @ replicate 10 (1, Get)))) = {(0, Some 7)}"
proof -
  let ?sched = "replicate 9 (0, Put (7 :: nat)) @ replicate 10 (1, Get)"
  have run: "case NewQueue 4 of Panic _ \<Rightarrow> False | Ret q \<Rightarrow> capaciity q = 4 \<and>
      (let s = sysRun q 2 ?sched in map fst (threads s) = [Idle, Idle] \<and> accepted s = [7] \<and> claimed s = 1)" by code_simp
  then obtain q where q: "NewQueue 4 = Ret q" "capaciity q = 4" "map fst (threads (sysRun q 2 ?sched)) = [Idle, Idle]"
    "accepted (sysRun q 2 ?sched) = [7]" "claimed (sysRun q 2 ?sched) = 1" by (auto simp: Let_def split: go.splits)
  have "\<forall>(pc, r) \<in> set (threads (sysRun q 2 ?sched)). pc = Idle" using q(3) by (cases "threads (sysRun q 2 ?sched)") auto
  with tickets_are_honoured [OF q(1) _ _ _ refl, of 1 2 ?sched] q show ?thesis by (auto simp: lessThan_Suc)
qed

subsection \<open>A queue that refuses to be filled\<close>

text \<open>A goroutine that runs an operation without interruption.\<close>

lemma slotIndex_cong [simp]:
  "slotIndex (setSlot l f q) pos = slotIndex q pos" "slotIndex (q\<lparr>putPos := x\<rparr>) pos = slotIndex q pos"
  "slotIndex (q\<lparr>getPos := x\<rparr>) pos = slotIndex q pos" "slotIndex (q\<lparr>cache := cs\<rparr>) pos = slotIndex q pos"
  by (simp_all add: slotIndex_def setSlot_def)

lemma solo_put:
  assumes i: "i < length (threads s)" "threads s ! i = (Idle, r)"
    and room: "\<not> capMod (queue s) - 1 \<le> posCount (queue s) (putPos (queue s)) (getPos (queue s))"
    and l: "slotIndex (queue s) (putPos (queue s) + 1) = l" "l < length (cache (queue s))"
    and ready: "putNo (cache (queue s) ! l) = putPos (queue s) + 1" "getNo (cache (queue s) ! l) = putPos (queue s) + 1"
  shows "foldl sysStep s (replicate 9 (i, Put v)) = s\<lparr>accepted := accepted s @ [v],
    queue := (queue s)\<lparr>putPos := putPos (queue s) + 1,
      cache := (cache (queue s))[l := putNo_update (\<lambda>n. n + capaciity (queue s)) ((cache (queue s) ! l)\<lparr>slotValue := Some v\<rparr>)]\<rparr>,
    threads := (threads s)[i := (Idle, length (accepted s) + 1)]\<rparr>"
  using assms by (simp add: eval_nat_numeral sysStep_def claimPut_def fillFrom_def Let_def setSlot_def)

lemma solo_get:
  assumes i: "i < length (threads s)" "threads s ! i = (Idle, r)"
    and some: "\<not> posCount (queue s) (putPos (queue s)) (getPos (queue s)) < 1"
    and l: "slotIndex (queue s) (getPos (queue s) + 1) = l" "l < length (cache (queue s))"
    and ready: "getNo (cache (queue s) ! l) = getPos (queue s) + 1" "putNo (cache (queue s) ! l) - capaciity (queue s) = getPos (queue s) + 1"
  shows "foldl sysStep s (replicate 10 (i, Get)) = s\<lparr>claimed := claimed s + 1, delivered := delivered s @ [(claimed s, slotValue (cache (queue s) ! l))],
    queue := (queue s)\<lparr>getPos := getPos (queue s) + 1,
      cache := (cache (queue s))[l := getNo_update (\<lambda>n. n + capaciity (queue s)) ((cache (queue s) ! l)\<lparr>slotValue := None\<rparr>)]\<rparr>,
    threads := (threads s)[i := (Idle, claimed s + 1)]\<rparr>"
  using assms by (simp add: eval_nat_numeral sysStep_def claimGet_def drainFrom_def Let_def setSlot_def)

text \<open>
  A reader that loaded the write position early has claimed position 2 while only one value was ever written. All
  other goroutines only put.
\<close>

fun putting :: "'v pc \<Rightarrow> bool" where
  "putting Idle = True"
| "putting (Start req) = isPut req"
| "putting (Loaded req w) = (isPut req \<and> w = 2)"
| "putting (Claim req gp pp) = (isPut req \<and> gp = 2 \<and> pp = 1)"
| "putting (Returning ret) = True"
| "putting _ = False"

definition stalled :: "'v EsQueue \<Rightarrow> 'v list \<Rightarrow> (nat \<times> 'v option) list \<Rightarrow> 'v sys \<Rightarrow> bool" where
  "stalled q vs ds s \<longleftrightarrow> queue s = q \<and> accepted s = vs \<and> delivered s = ds \<and> 0 < length (threads s) \<and>
     (\<exists>ph ret r. threads s ! 0 = (Draining ph 2 1 ret, r) \<and> (ph = DSpin \<or> (\<exists>g. ph = DSeen g))) \<and>
     (\<forall>j. 0 < j \<longrightarrow> j < length (threads s) \<longrightarrow> putting (fst (threads s ! j)))"

definition overtaken :: "'v EsQueue \<Rightarrow> bool" where
  "overtaken q \<longleftrightarrow> putPos q = 1 \<and> getPos q = 2 \<and> putNo (cache q ! slotIndex q 2) = 2 \<and> capaciity q \<noteq> 0"

lemma stalled_putter:
  assumes "overtaken q" "putting pc" "pc \<noteq> Idle" "threadStep q pc = (q', pc', e)"
  shows "q' = q \<and> putting pc' \<and> record_event e r s = (s, r)"
proof (cases pc)
  case (Claim req gp pp)
  have "posCount q 1 2 = capMod q - 1" by (simp add: posCount_def word_le_nat_alt)
  then show ?thesis using assms Claim by (auto simp: claimPut_def Let_def)
qed (use assms in \<open>auto simp: overtaken_def\<close>)

lemma stalled_reader:
  assumes "overtaken q" "ph = DSpin \<or> (\<exists>g. ph = DSeen g)" "threadStep q (Draining ph 2 1 ret) = (q', pc', e)"
  shows "q' = q \<and> e = Tau \<and> (\<exists>ph'. pc' = Draining ph' 2 1 ret \<and> (ph' = DSpin \<or> (\<exists>g. ph' = DSeen g)))"
proof -
  have "(2 :: 32 word) \<noteq> 2 - capaciity q" using assms(1) by (simp add: overtaken_def)
  then show ?thesis using assms by (auto simp: overtaken_def Let_def)
qed

lemma stalled_step:
  assumes q: "overtaken q" and s: "stalled q vs ds s" and req: "isPut req"
  shows "stalled q vs ds (sysStep s (i, req))"
proof (cases "i < length (threads s)")
  case False
  then have "sysStep s (i, req) = s" by (simp add: sysStep_def)
  then show ?thesis using s by simp
next
  case i: True
  obtain pc r where th: "threads s ! i = (pc, r)" by (cases "threads s ! i")
  obtain q' pc' e where step: "threadStep (queue s) pc = (q', pc', e)" by (cases "threadStep (queue s) pc")
  show ?thesis
  proof (cases "i = 0")
    case True
    then obtain ph ret where pc: "pc = Draining ph 2 1 ret" "ph = DSpin \<or> (\<exists>g. ph = DSeen g)" using s th by (auto simp: stalled_def)
    note new = stalled_reader [OF q pc(2), of ret q' pc' e]
    have "queue s = q" using s by (simp add: stalled_def)
    then have new: "q' = q" "e = Tau" "\<exists>ph'. pc' = Draining ph' 2 1 ret \<and> (ph' = DSpin \<or> (\<exists>g. ph' = DSeen g))"
      using new step pc(1) by auto
    have "sysStep s (i, req) = s\<lparr>queue := q', threads := (threads s)[i := (pc', r)]\<rparr>"
      by (rule sysStep_move [OF i th _ step]) (simp_all add: pc(1) new(2))
    then show ?thesis using s new(1,3) True by (auto simp: stalled_def)
  next
    case False
    then have pc: "putting pc" using s th i unfolding stalled_def by (metis fst_conv neq0_conv)
    show ?thesis
    proof (cases "pc = Idle")
      case True
      then have "sysStep s (i, req) = s\<lparr>threads := (threads s)[i := (Start req, r)]\<rparr>" using i th by (simp add: sysStep_def)
      then show ?thesis using s False i req by (auto simp: stalled_def nth_list_update)
    next
      case busy: False
      have "queue s = q" using s by (simp add: stalled_def)
      then have new: "q' = q" "putting pc'" "record_event e r s = (s, r)" using stalled_putter [OF q pc busy, of q' pc' e r s] step by auto
      have "sysStep s (i, req) = s\<lparr>queue := q', threads := (threads s)[i := (pc', r)]\<rparr>"
        by (rule sysStep_move [OF i th busy step new(3)])
      then show ?thesis using s new(1,2) False i by (auto simp: stalled_def nth_list_update)
    qed
  qed
qed

lemma stalled_run:
  "overtaken q \<Longrightarrow> stalled q vs ds s \<Longrightarrow> \<forall>(i, req) \<in> set rest. isPut req \<Longrightarrow> stalled q vs ds (foldl sysStep s rest)"
  by (induction rest arbitrary: s) (auto intro: stalled_step)

definition overtake :: "'v \<Rightarrow> (nat \<times> 'v request) list" where
  "overtake v = replicate 2 (0, Get) @ replicate 9 (1, Put v) @ replicate 10 (1, Get) @ replicate 2 (0, Get)"

lemma overtake_stalls:
  assumes "NewQueue c = Ret q" "4 \<le> unat (capaciity q)" "2 \<le> n"
  shows "\<exists>q'. overtaken q' \<and> stalled q' [v] [(0, Some v)] (sysRun q n (overtake v))"
proof -
  note qok = NewQueue_ok(1) [OF assms(1)]
  let ?C = "unat (capaciity q)" let ?c = "capaciity q"
  have q: "capMod q = ?c - 1" "putPos q = 0" "getPos q = 0" "length (cache q) = ?C" using qok by (simp_all add: queueOk_def)
  have ix: "slotIndex q 1 = 1" "slotIndex q 2 = 2" using slotIndex_of_nat(1) [OF qok, of 1] slotIndex_of_nat(1) [OF qok, of 2] assms(2) by simp_all
  have slots: "putNo (cache q ! 1) = 1" "getNo (cache q ! 1) = 1" "putNo (cache q ! 2) = 2"
    using queueOk_slot(1,2) [OF qok, of 1] queueOk_slot(1) [OF qok, of 2] assms(2) by simp_all
  have neq: "?c \<noteq> 0" "?c - 2 \<noteq> 0" using assms(2) by auto
  let ?s1 = "(initially q n)\<lparr>threads := (replicate n (Idle, 0))[0 := (Loaded Get 0, 0)]\<rparr>"
  let ?q2 = "q\<lparr>putPos := 1, cache := (cache q)[1 := putNo_update (\<lambda>n. n + ?c) ((cache q ! 1)\<lparr>slotValue := Some v\<rparr>)]\<rparr>"
  let ?s2 = "?s1\<lparr>accepted := [v], queue := ?q2, threads := (replicate n (Idle, 0))[0 := (Loaded Get 0, 0), 1 := (Idle, 1)]\<rparr>"
  let ?q3 = "?q2\<lparr>getPos := 1, cache := (cache ?q2)[1 := getNo_update (\<lambda>n. n + ?c) ((cache ?q2 ! 1)\<lparr>slotValue := None\<rparr>)]\<rparr>"
  let ?s3 = "?s2\<lparr>claimed := 1, delivered := [(0, Some v)], queue := ?q3, threads := (replicate n (Idle, 0))[0 := (Loaded Get 0, 0), 1 := (Idle, 1)]\<rparr>"
  have s1: "foldl sysStep (initially q n) (replicate 2 (0, Get)) = ?s1"
    using assms(3) q by (simp add: eval_nat_numeral sysStep_def initially_def)
  have s2: "foldl sysStep ?s1 (replicate 9 (1, Put v)) = ?s2"
    using solo_put [where s = ?s1 and i = 1 and r = 0 and l = 1 and v = v] assms(2,3) q ix slots neq
    by (simp add: initially_def posCount_def)
  have s3: "foldl sysStep ?s2 (replicate 10 (1, Get)) = ?s3"
    using solo_get [where s = ?s2 and i = 1 and r = 1 and l = 1] assms(2,3) q ix slots
    by (simp add: initially_def posCount_def)
  have "\<exists>q' ret. overtaken q' \<and> foldl sysStep ?s3 (replicate 2 (0, Get)) =
      ?s3\<lparr>claimed := 2, queue := q', threads := (replicate n (Idle, 0))[0 := (Loaded Get 0, 0), 1 := (Idle, 1), 0 := (Draining DSpin 2 1 ret, 1)]\<rparr>"
    using assms(2,3) q ix slots neq
    by (intro exI [of _ "?q3\<lparr>getPos := 2\<rparr>"] exI [of _ "(1, ?c - 3)"])
      (simp add: eval_nat_numeral sysStep_def initially_def claimGet_def posCount_def drainFrom_def overtaken_def)
  then obtain q' ret where q': "overtaken q'" "foldl sysStep ?s3 (replicate 2 (0, Get)) =
      ?s3\<lparr>claimed := 2, queue := q', threads := (replicate n (Idle, 0))[0 := (Loaded Get 0, 0), 1 := (Idle, 1), 0 := (Draining DSpin 2 1 ret, 1)]\<rparr>" by blast
  have "sysRun q n (overtake v) = foldl sysStep ?s3 (replicate 2 (0, Get))"
    by (simp only: sysRun_def overtake_def foldl_append s1 s2 s3)
  moreover have "stalled q' [v] [(0, Some v)] (foldl sysStep ?s3 (replicate 2 (0, Get)))"
    unfolding q'(2) using assms(3) by (auto simp: stalled_def nth_list_update)
  ultimately show ?thesis using q'(1) by metis
qed

text \<open>C40: An empty queue can refuse every value. A reader loads the write position, another goroutine puts a value
  and gets it, and the reader then finds itself behind and claims a position that was never written. From then
  on the queue has handed out all it accepted, but as long as goroutines only put, no \<open>Put\<close> and no \<open>Puts\<close> is ever
  accepted again, and the reader never returns.\<close>

theorem empty_queue_refuses:
  assumes "NewQueue c = Ret q" "4 \<le> unat (capaciity q)" "2 \<le> n"
  shows "\<exists>sched. \<forall>rest. (\<forall>(i, req) \<in> set rest. isPut req) \<longrightarrow>
    accepted (sysRun q n (sched @ rest)) = [v] \<and> delivered (sysRun q n (sched @ rest)) = [(0, Some v)] \<and>
    fst (threads (sysRun q n (sched @ rest)) ! 0) \<noteq> Idle"
proof -
  obtain q' where q': "overtaken q'" "stalled q' [v] [(0, Some v)] (sysRun q n (overtake v))" using overtake_stalls [OF assms] by blast
  have "stalled q' [v] [(0, Some v)] (sysRun q n (overtake v @ rest))" if "\<forall>(i, req) \<in> set rest. isPut req" for rest
    using stalled_run [OF q' that] by (simp add: sysRun_def)
  then have "accepted (sysRun q n (overtake v @ rest)) = [v] \<and> delivered (sysRun q n (overtake v @ rest)) = [(0, Some v)] \<and>
      fst (threads (sysRun q n (overtake v @ rest)) ! 0) \<noteq> Idle" if "\<forall>(i, req) \<in> set rest. isPut req" for rest
    using that by (fastforce simp: stalled_def)
  then show ?thesis by blast
qed

theorem empty_queue_refuses_witness:
  "case NewQueue 10000 of Panic _ \<Rightarrow> False
   | Ret q \<Rightarrow> \<exists>sched. accepted (sysRun q 2 (sched @ [(1, Put (8 :: nat))])) = [7] \<and> delivered (sysRun q 2 (sched @ [(1, Put 8)])) = [(0, Some 7)]"
proof -
  have "minQuantity 10000 = 16384" by (simp add: minQuantity_def)
  then obtain q :: "nat EsQueue" where q: "NewQueue 10000 = Ret q" "capaciity q = 16384" by (simp add: NewQueue_def)
  obtain sched where "\<forall>rest. (\<forall>(i, req) \<in> set rest. isPut req) \<longrightarrow>
      accepted (sysRun q 2 (sched @ rest)) = [7] \<and> delivered (sysRun q 2 (sched @ rest)) = [(0, Some 7)] \<and>
      fst (threads (sysRun q 2 (sched @ rest)) ! 0) \<noteq> Idle"
    using empty_queue_refuses [OF q(1), of 2 "7 :: nat"] q(2) by auto
  from this [rule_format, of "[(1, Put 8)]"] q(1) show ?thesis by auto
qed

end
