(* ===== verification/Spec2Isabelle.thy ===== *)
theory Spec2Isabelle
  imports KvWal DiskQueueChannels DiskSessions Retention HttpUri HttpBody Tries LruCache Radix LockFreeTickets
begin

text \<open>
  A verification of the storage, queue and HTTP message parts of the INFINI framework (\<open>src/\<close>), and of the locks,
  tries and caches they share.

  \<^bold>\<open>The program.\<close> The framework is a Go library for services that move data between search engines. At
  its centre is a disk-based queue: producers push messages through \<open>core/queue\<close>, the module
  \<open>modules/queue/disk_queue\<close> appends them to numbered segment files, consumers read them from a committed offset
  on, and background handlers compress, upload and delete old segments. Configurations, consumers and committed
  offsets are kept in a key-value store (\<open>core/kv\<close>), for which \<open>plugins/simple_kv\<close> is a file-backed
  implementation. Processors of \<open>plugins/queue/consumer\<close> drain the queues. \<open>lib/fasthttp\<close> is a copy
  of an HTTP library through which requests enter and leave. \<open>core/locker\<close> keeps leases in the key-value store, by
  which one node at a time handles a queue; \<open>core/trie\<close>, \<open>core/radix\<close>, \<open>lib/cache\<close> and
  \<open>lib/lock_free\<close> are containers.

  \<^bold>\<open>Conventions\<close> (\<open>Prelude\<close>, \<open>Codec\<close>, \<open>FileIO\<close>). A Go struct is a record, an interface a record
  of functions, a call that can panic returns \<open>'a go\<close> (\<open>Ret\<close> or \<open>Panic\<close>), an error is an optional
  string. What the outside decides (failures of the operating system, the pieces a connection delivers, what another
  goroutine does between two steps, the time) is an argument of the operation that meets it. Functions of
  packages outside the sources (zstd, MD5, JSON, object storage) are parameters; a theorem that needs something of
  them says so in its hypotheses. Integers are \<open>int\<close> with the range a hypothesis where Go's
  64 bits matter, and words or written-out wrap-around where the code narrows a value (\<open>to_int32\<close>,
  \<open>round2\<close>, the decimal parser).

  \<^bold>\<open>The theories.\<close>

  \<^item> \<open>Offset\<close> (\<open>core/queue/message.go\<close>): \<open>Offset\<close>, \<open>Message\<close>, the comparisons and the text form. The
    comparison that guards commits is a linear order (an interpretation of \<open>linorder\<close>); the text form is decoded
    to the same offset.
  \<^item> \<open>KvStore\<close> (\<open>core/kv/kv.go\<close>): the handler interface and its contract, the locale
    \<open>kv_store\<close> (reads after writes, independence of keys, existence), and \<open>kv_reliable\<close>, in which
    writes also succeed. All clients are proved inside these locales.
  \<^item> \<open>SimpleKv\<close>, \<open>KvWal\<close> (\<open>plugins/simple_kv\<close>): the map, the log and the snapshot; the two locales are
    interpreted with this store (\<open>skv\<close>, \<open>rel\<close>). Recovery restores the map for keys and values that
    the line format can hold; the cases in which it does not are theorems as well.
  \<^item> \<open>QueueTypes\<close>, \<open>OffsetStore\<close> (\<open>module.go\<close> of the disk queue: \<open>loadOffset\<close>, \<open>saveOffset\<close>,
    \<open>deleteOffset\<close>): over any sequence of commits and resets the committed offset is monotone within a
    version, and a reset fences commits of the version before it.
  \<^item> \<open>DiskQueue\<close> (\<open>diskqueue.go\<close>): files, metadata, \<open>writeOne\<close>, \<open>readOne\<close>, \<open>ioLoop\<close>.
    \<open>DiskQueueFifo\<close> has the simulation by a list of messages; \<open>DiskQueueRestart\<close> the properties of whole
    runs, with and without failures, over restarts and crashes; \<open>DiskQueueChannels\<close> two step relations for the
    locks and channels around the loop.
  \<^item> \<open>DiskConsumer\<close> (\<open>consumer.go\<close>, \<open>util.go\<close>, \<open>zstd.go\<close>): \<open>AcquireConsumer\<close>,
    \<open>ResetOffset\<close>, \<open>FetchMessages\<close>. \<open>DiskConsumerLog\<close> reads the segments as a log (\<open>log_ok\<close>,
    \<open>denotes\<close>), \<open>DiskDelivery\<close> proves what a fetch hands out and where messages are lost,
    \<open>DiskFetchBounds\<close> the limits in every environment.
  \<^item> \<open>ConsumerRegistry\<close>, \<open>QueueRegistry\<close> (\<open>consumer_config.go\<close>, \<open>queue_config.go\<close>): registration,
    caches with their pointers into an explicit store, persistence.
  \<^item> \<open>QueueOffsets\<close> (\<open>api.go\<close>, \<open>cleanup.go\<close>), \<open>Retention\<close> (\<open>compress.go\<close>,
    \<open>upload.go\<close>, \<open>cleanup.go\<close>): the slowest and fastest consumer, lag, and that retention leaves what is
    unread.
  \<^item> \<open>QueueApi\<close> (\<open>core/queue/api.go\<close>, \<open>simple_queue.go\<close>), \<open>QueueWorker\<close>
    (\<open>plugins/queue/consumer/consumer.go\<close>): dispatch to handlers, ownership of topics, workers.
  \<^item> \<open>Locker\<close> (\<open>core/locker/locker.go\<close>): leases, proved inside \<open>kv_store\<close>. Within its lease a holder is
    the only one, through any calls of other clients; a silent holder is replaced; the race between
    reading and writing is a lemma. \<open>QueueWorker\<close> uses it for singletons.
  \<^item> \<open>DiskSessions\<close> composes the key-value store, the offsets, the consumers and the workers; the property of
    the composition is below.
  \<^item> \<open>HttpBytes\<close>, \<open>HttpArgs\<close>, \<open>HttpUri\<close>, \<open>HttpBody\<close> (\<open>bytesconv.go\<close>, \<open>args.go\<close>,
    \<open>uri.go\<close>, \<open>http.go\<close>, \<open>streaming.go\<close>): numbers, escapes, query arguments, URIs, bodies, with
    round trips between printing and parsing, the safety of normalised paths, and limits.
  \<^item> \<open>Tries\<close> (\<open>core/trie\<close>): the path trie and the rune trie. The locale \<open>trier\<close> is the interface
    of the package with the laws of a map; it is interpreted with both tries (\<open>path\<close>, and \<open>rune\<close> for
    ASCII keys, since deleting others panics).
  \<^item> \<open>LruCache\<close> (\<open>lib/cache\<close>): buckets, items in an explicit store, the channels as lists from which the
    worker takes in any order. No interleaving returns a stale value; the size is not kept right, and
    a deletion by predicate can deadlock with the worker.
  \<^item> \<open>Radix\<close> (\<open>core/radix\<close>): the radix tree as a map, and the trie of wildcard patterns, whose paths
    are the patterns (\<open>lang\<close>), with its matching and its flaws.
  \<^item> \<open>LockFree\<close>, \<open>LockFreeTickets\<close> (\<open>lib/lock_free/queue/esQueue.go\<close>): a ring buffer on 32-bit counters whose
    goroutines are interleaved access by access. Every claimed position is served with the value written to it,
    over wrap-arounds; but the queue can get into a state in which it is empty and refuses every value.

  \<^bold>\<open>Bounds and fuel.\<close> The fetch loop runs over a list of environments, one per pass, and is \<open>None\<close> when
  they run out: \<open>FetchMaxMessages + 2\<close> passes are enough, since every pass but the last two adds a message. The
  loops over a reader recurse on what is left to read and are total. \<open>maxAlloc\<close> bounds a
  Go allocation. The spinning of the lock-free queue is steps of a schedule; its ticket theorem bounds the requests in
  progress, since a number of a slot must not come round while one waits for it. All other loops are
  recursions on data.

  \<^bold>\<open>Not modelled.\<close> Statistics, logging, sleeping and the counters of pools, which no decision of the modelled
  parts depends on. The server and client of the HTTP library, multipart forms and compression, which are connection
  handling around the modelled parts. The search engine clients, the object mapping, the security and
  web modules, whose behaviour is that of remote services or of reflection. The configuration and YAML libraries, whose
  values have no static type. The memory queue, which is registered nowhere. The detector loop that starts workers and the start-up of modules.
\<close>

section \<open>Properties that span components\<close>

text \<open>C2: A queue at rest is drained. Let the committed offset of a consumer have the messages \<open>xs\<close> behind it in the
  segment files. Then at most as many sessions as there are messages, each of which loads the committed offset
  from the key-value store, acquires a consumer there, fetches a batch, processes it and commits, hand \<open>xs\<close> to
  the processors: every message once, in the order in which they were written, over all segments. After them the
  committed offset is at the end of the queue, and the files are as they were.\<close>

theorem queue_is_drained:
  assumes "sound cfg zc zd" "log_ok cfg zc lo q log" "nonvoid q" "denotes cfg zc lo q log off xs"
    and "\<forall>e \<in> set es. at_rest e" "length es \<ge> nat (FetchMaxMessages c) + 2"
    and "fits_int64 (writeSegmentNum q)" "\<forall>i. fits_int64 (int (length (segBytes (files q) i)))" "fits_offset off"
    and "\<not> closed s" "loadOffset simple_kv s k c = Ret off" "hExistsKey simple_kv s ConsumerBucket (str_bytes (qID k))"
    and "qID k \<noteq> []" "wAutoCommitOffset wcfg" "NumOfSlices wcfg \<le> 1"
  shows "\<exists>j s' q' log' off'. j \<le> length xs \<and>
    sessions simple_kv cfg rm zd wcfg k c ident n es j \<lparr>store = s, queue = q\<rparr> = Some (\<lparr>store = s', queue = q'\<rparr>, xs) \<and>
    loadOffset simple_kv s' k c = Ret off' \<and> log_ok cfg zc lo q' log' \<and> denotes cfg zc lo q' log' off' [] \<and> files q' = files q"
  by (rule skv.sessions_drain [OF assms(1-13) bucket_names(2,1) assms(14,15)])

theorem queue_is_drained_witness:
  "\<exists>j s' q'. j \<le> 1 \<and>
    sessions simple_kv sample_cfg nowhere Inr workerDefaults sample_queue (sample_consumer\<lparr>FetchMaxMessages := 1\<rparr>) ''w'' 0
      (replicate 3 env_ok) j \<lparr>store = sample_store, queue = oneMessageQueue\<rparr> = Some (\<lparr>store = s', queue = q'\<rparr>, [[1]])"
proof -
  let ?z = "\<lambda>_ m. m :: bytes" let ?c = "sample_consumer\<lparr>FetchMaxMessages := 1\<rparr>"
  from one_message_queue(1) obtain log where log: "log_ok sample_cfg ?z 0 oneMessageQueue log"
    and den: "denotes sample_cfg ?z 0 oneMessageQueue log (NewOffset 0 0) [[1]]" by blast
  have es: "\<forall>e \<in> set (replicate 3 env_ok). at_rest e" by (simp add: at_rest_def env_ok_def failing_def)
  have len: "nat (FetchMaxMessages ?c) + 2 \<le> length (replicate 3 env_ok)" by simp
  have fits: "fits_int64 (writeSegmentNum oneMessageQueue)" "\<forall>i. fits_int64 (int (length (segBytes (files oneMessageQueue) i)))"
    "fits_offset (NewOffset 0 0)"
    using one_message_size(1) le_less_trans [OF one_message_size(2), of "2 ^ 63"]
    by (auto simp: fits_offset_def fits_int64_def NewOffset_def)
  have load: "loadOffset simple_kv sample_store sample_queue ?c = Ret (NewOffset 0 0)"
    by (simp add: loadOffset_def simple_kv_def GetValue_def kvGet_def sample_store_def joinKey_inj)
  show ?thesis
    using queue_is_drained [OF one_message_queue(3) log one_message_queue(2) den es len fits sample_open load sample_exists,
        of workerDefaults nowhere "''w''" 0]
    by (auto simp: sample_queue_def workerDefaults_def)
qed

end
